(* ===== verification/Prelude.thy ===== *)
theory Prelude
  imports Main "HOL-Library.Word" "HOL-Library.Sublist"
begin

text \<open>
  Shared vocabulary of the development: the machine integers of the C code
  (\<open>kernel/types.h\<close>, \<open>kernel/stdint.h\<close>), the outcome of kernel code
  that may stop the machine, byte-addressed physical memory, and a generic
  invariant rule for step relations.  Lemmas of general use are collected in
  \<open>word_facts\<close> and \<open>mem_simps\<close>.
\<close>

unbundle bit_operations_syntax

named_theorems word_facts
named_theorems mem_simps
named_theorems frame_simps

section \<open>Machine integers\<close>

type_synonym u8 = "8 word"
type_synonym u16 = "16 word"
type_synonym u32 = "32 word"
type_synonym u64 = "64 word"

lemma unat_of_nat_u32: "n < 2 ^ 32 \<Longrightarrow> unat (of_nat n :: u32) = n"
  by (simp add: unat_of_nat take_bit_nat_eq_self)

lemma unat_of_nat_u64: "n < 2 ^ 64 \<Longrightarrow> unat (of_nat n :: u64) = n"
  by (simp add: unat_of_nat take_bit_nat_eq_self)

lemma unat_of_nat_u8: "n < 2 ^ 8 \<Longrightarrow> unat (of_nat n :: u8) = n"
  by (simp add: unat_of_nat take_bit_nat_eq_self)

lemmas unat_of_nat_small [word_facts] = unat_of_nat_u32 unat_of_nat_u64 unat_of_nat_u8

section \<open>Outcomes of kernel code\<close>

text \<open>
  Kernel code either returns a value in a new state, or stops the machine for
  good: \<open>panic()\<close>, \<open>bridge_halt()\<close> and the idle loops end in an endless
  \<open>hlt\<close>.  The state in which the machine stopped is kept.
\<close>

datatype ('a, 's) outcome = Ret 'a 's | Halt string 's

fun obind :: "('a, 's) outcome \<Rightarrow> ('a \<Rightarrow> 's \<Rightarrow> ('b, 's) outcome) \<Rightarrow> ('b, 's) outcome" where
  "obind (Ret x s) f = f x s"
| "obind (Halt msg s) f = Halt msg s"

fun state_of :: "('a, 's) outcome \<Rightarrow> 's" where
  "state_of (Ret x s) = s"
| "state_of (Halt msg s) = s"

fun returns :: "('a, 's) outcome \<Rightarrow> bool" where
  "returns (Ret x s) = True"
| "returns (Halt msg s) = False"

lemma obind_cong [fundef_cong]:
  "m = m' \<Longrightarrow> (\<And>x s. m' = Ret x s \<Longrightarrow> f x s = g x s) \<Longrightarrow> obind m f = obind m' g"
  by (cases m') auto

lemma obind_assoc: "obind (obind m f) g = obind m (\<lambda>x s. obind (f x s) g)"
  by (cases m) simp_all

lemma obind_Ret_iff:
  "obind m f = Ret y t \<longleftrightarrow> (\<exists>x s. m = Ret x s \<and> f x s = Ret y t)"
  by (cases m) auto

lemma obind_RetE:
  assumes "obind m f = Ret y t"
  obtains x s where "m = Ret x s" and "f x s = Ret y t"
  using assms by (cases m) auto

text \<open>A predicate on states that holds at the end whether or not the machine stopped.\<close>

lemma state_of_obind:
  "P (state_of m) \<Longrightarrow> (\<And>x s. m = Ret x s \<Longrightarrow> P s \<Longrightarrow> P (state_of (f x s))) \<Longrightarrow>
    P (state_of (obind m f))"
  by (cases m) auto

section \<open>Reachable states\<close>

inductive reach :: "('s \<Rightarrow> bool) \<Rightarrow> ('s \<Rightarrow> 's \<Rightarrow> bool) \<Rightarrow> 's \<Rightarrow> bool"
  for start step where
  reach_start: "start s \<Longrightarrow> reach start step s"
| reach_step: "reach start step s \<Longrightarrow> step s t \<Longrightarrow> reach start step t"

text \<open>The contract of a component whose invariant every operation keeps.\<close>

locale invariant_system =
  fixes start :: "'s \<Rightarrow> bool"
    and step :: "'s \<Rightarrow> 's \<Rightarrow> bool"
    and inv :: "'s \<Rightarrow> bool"
  assumes start_inv: "start s \<Longrightarrow> inv s"
    and step_inv: "inv s \<Longrightarrow> step s t \<Longrightarrow> inv t"
begin

lemma reach_inv: "reach start step s \<Longrightarrow> inv s"
  by (induction rule: reach.induct) (auto intro: start_inv step_inv)

lemma steps_inv: "inv s \<Longrightarrow> step\<^sup>*\<^sup>* s t \<Longrightarrow> inv t"
  by (rotate_tac, induction rule: rtranclp_induct) (auto intro: step_inv)

end

end
