(* ===== verification/PhysMem.thy ===== *)
theory PhysMem
  imports Prelude
begin

text \<open>
  Byte-addressed physical memory.  The kernel runs with the first 4 GiB mapped
  one to one (\<open>kernel/paging.c\<close>), so a C pointer to a page table, a stack or a
  loaded file is a physical address here.  A C access of eight bytes is
  \<open>rd64\<close> or \<open>wr64\<close>, little endian as on x86-64; \<open>zero_table\<close> and the
  copies of tables are loops of such accesses.
\<close>

type_synonym mem = "u64 \<Rightarrow> u8"

section \<open>Little-endian values\<close>

definition le_bytes :: "nat \<Rightarrow> u64 \<Rightarrow> u8 list" where
  "le_bytes n v = map (\<lambda>i. ucast (drop_bit (8 * i) v)) [0..<n]"

fun le_val :: "u8 list \<Rightarrow> u64" where
  "le_val [] = 0"
| "le_val (b # bs) = ucast b OR push_bit 8 (le_val bs)"

lemma length_le_bytes [simp]: "length (le_bytes n v) = n"
  by (simp add: le_bytes_def)

lemma bit_le_val: "bit (le_val bs) k \<longleftrightarrow> k < 64 \<and> k div 8 < length bs \<and> bit (bs ! (k div 8)) (k mod 8)"
proof (induction bs arbitrary: k)
  case (Cons b bs)
  show ?case
  proof (cases "k < 8")
    case True
    then show ?thesis by (auto simp: bit_or_iff bit_push_bit_iff bit_ucast_iff)
  next
    case False
    then obtain j where k: "k = j + 8" by (metis add.commute le_Suc_ex not_less)
    have "(j + 8) div 8 = Suc (j div 8)" by presburger
    with k show ?thesis using Cons.IH [of j]
      by (auto simp: bit_or_iff bit_push_bit_iff bit_ucast_iff dest: bit_imp_le_length)
  qed
qed simp

lemma le_val_le_bytes: "n \<le> 8 \<Longrightarrow> le_val (le_bytes n v) = take_bit (8 * n) v"
  by (rule bit_word_eqI)
    (auto simp: bit_le_val le_bytes_def bit_take_bit_iff bit_ucast_iff bit_drop_bit_eq)

lemma le_val_le_bytes_8 [simp]: "le_val (le_bytes 8 v) = v"
  by (simp add: le_val_le_bytes take_bit_word_eq_self)

lemma le_bytes_le_val:
  assumes "length bs \<le> 8" shows "le_bytes (length bs) (le_val bs) = bs"
proof (rule nth_equalityI)
  fix i assume "i < length (le_bytes (length bs) (le_val bs))"
  then have i: "i < length bs" by simp
  have "bit (le_bytes (length bs) (le_val bs) ! i) j = bit (bs ! i) j" if "j < 8" for j
    using i that assms by (simp add: le_bytes_def bit_ucast_iff bit_drop_bit_eq bit_le_val)
  then show "le_bytes (length bs) (le_val bs) ! i = bs ! i"
    by (intro bit_word_eqI) simp
qed simp

section \<open>Reads and writes\<close>

fun wr_bytes :: "mem \<Rightarrow> u64 \<Rightarrow> u8 list \<Rightarrow> mem" where
  "wr_bytes m a [] = m"
| "wr_bytes m a (b # bs) = wr_bytes (m(a := b)) (a + 1) bs"

definition rd_bytes :: "mem \<Rightarrow> u64 \<Rightarrow> nat \<Rightarrow> u8 list" where
  "rd_bytes m a n = map (\<lambda>i. m (a + of_nat i)) [0..<n]"

definition rd64 :: "mem \<Rightarrow> u64 \<Rightarrow> u64" where
  "rd64 m a = le_val (rd_bytes m a 8)"

definition wr64 :: "mem \<Rightarrow> u64 \<Rightarrow> u64 \<Rightarrow> mem" where
  "wr64 m a v = wr_bytes m a (le_bytes 8 v)"

lemma unat_minus_1: "(x :: u64) \<noteq> 0 \<Longrightarrow> unat (x - 1) = unat x - 1"
  by (metis unat_minus_one)

text \<open>A run of bytes read back at any address: one equation for all frame facts.\<close>

lemma wr_bytes_apply:
  "length bs < 2 ^ 64 \<Longrightarrow>
    wr_bytes m a bs x = (if unat (x - a) < length bs then bs ! unat (x - a) else m x)"
proof (induction bs arbitrary: m a)
  case (Cons b bs)
  show ?case
  proof (cases "x = a")
    case True
    have "unat (x - (a + 1)) = 2 ^ 64 - 1"
      using True by (simp add: unsigned_minus_1_eq_mask mask_eq_exp_minus_1)
    with Cons True show ?thesis by simp
  next
    case False
    then have "unat (x - a) \<noteq> 0" by (simp add: unat_eq_0)
    moreover have "unat (x - (a + 1)) = unat (x - a) - 1"
      using False unat_minus_1 [of "x - a"] by (simp add: algebra_simps)
    ultimately show ?thesis using Cons False by (auto simp: nth_Cons')
  qed
qed simp

lemma rd_wr_bytes_same:
  assumes "length bs < 2 ^ 64" shows "rd_bytes (wr_bytes m a bs) a (length bs) = bs"
  by (rule nth_equalityI) (use assms in \<open>auto simp: rd_bytes_def wr_bytes_apply unat_of_nat_u64\<close>)

lemma rd64_wr64_same [mem_simps]: "rd64 (wr64 m a v) a = v"
  using rd_wr_bytes_same [of "le_bytes 8 v" m a] by (simp add: rd64_def wr64_def)

lemma wr64_apply:
  "wr64 m a v x = (if unat (x - a) < 8 then le_bytes 8 v ! unat (x - a) else m x)"
  by (simp add: wr64_def wr_bytes_apply)

definition aligned8 :: "u64 \<Rightarrow> bool" where
  "aligned8 a \<longleftrightarrow> unat a mod 8 = 0"

lemma unat_diff_u64: "unat ((x :: u64) - y) = (unat x + (2 ^ 64 - unat y)) mod 2 ^ 64"
proof -
  have "unat x < 2 ^ 64" "unat y < 2 ^ 64"
    using unsigned_less [of x] unsigned_less [of y] by simp_all
  moreover have "unat x - unat y = (unat x + 2 ^ 64 - unat y) mod 2 ^ 64" if "unat y \<le> unat x"
  proof -
    have "unat x + 2 ^ 64 - unat y = (unat x - unat y) + 2 ^ 64" using that by simp
    then show ?thesis using \<open>unat x < 2 ^ 64\<close> by (simp del: add_diff_assoc2)
  qed
  ultimately show ?thesis
    by (cases "y \<le> x") (auto simp: unat_sub_if_size word_le_nat_alt word_size)
qed

lemma rd64_cong: "(\<And>x. unat (x - a) < 8 \<Longrightarrow> m x = m' x) \<Longrightarrow> rd64 m a = rd64 m' a"
  by (auto simp: rd64_def rd_bytes_def unat_of_nat_u64 intro!: arg_cong [where f = le_val])

lemma mod_diff_arith:
  fixes x a b :: nat
  assumes "x < M" "a < M" "b < M" "a \<noteq> b" "a mod 8 = 0" "b mod 8 = 0" "M mod 8 = 0"
    and "(x + (M - b)) mod M < 8"
  shows "\<not> (x + (M - a)) mod M < 8"
proof -
  have red: "(x + (M - c)) mod M = (if c \<le> x then x - c else x + M - c)" if "c < M" for c
  proof (cases "c \<le> x")
    case True
    then have "x + (M - c) = (x - c) + M" using that by simp
    then show ?thesis using True assms(1) by (simp del: add_diff_assoc2)
  next
    case False
    with that assms(1) show ?thesis by simp
  qed
  obtain k l n where "a = 8 * k" "b = 8 * l" "M = 8 * n"
    using assms(5-7) by (metis mod_0_imp_dvd dvdE)
  with assms show ?thesis unfolding red [OF assms(2)] red [OF assms(3)]
    by (auto split: if_splits)
qed

lemma aligned8_disjoint:
  assumes "aligned8 a" and "aligned8 b" and "a \<noteq> b" and "unat (x - b) < 8"
  shows "\<not> unat (x - a) < 8"
proof -
  have "unat x < 2 ^ 64" "unat a < 2 ^ 64" "unat b < 2 ^ 64"
    using unsigned_less [of x] unsigned_less [of a] unsigned_less [of b] by simp_all
  moreover have "unat a \<noteq> unat b" using assms(3) by (metis unsigned_word_eqI)
  ultimately show ?thesis
    using mod_diff_arith [of "unat x" "2 ^ 64" "unat a" "unat b"] assms
    by (simp add: aligned8_def unat_diff_u64)
qed

lemma rd64_wr64_other [mem_simps]:
  "aligned8 a \<Longrightarrow> aligned8 b \<Longrightarrow> a \<noteq> b \<Longrightarrow> rd64 (wr64 m a v) b = rd64 m b"
  by (rule rd64_cong) (auto simp: wr64_apply dest: aligned8_disjoint)

end
