(* ===== verification/Pmm.thy ===== *)
theory Pmm
  imports Prelude
begin

text \<open>
  The physical page allocator, \<open>kernel/pmm.c\<close>: a bitmap of one bit per 4 KiB
  frame of the first 128 MiB.  The whole state of the component is the static
  array \<open>bitmap\<close>, here a list of bytes.  Each C function is one definition on
  that list; \<open>page_used\<close> and \<open>free_pages\<close> give the abstract view the
  lemmas are stated in.
\<close>

type_synonym bitmap = "u8 list"

definition PAGE_SIZE :: u64 where
  "PAGE_SIZE = 4096"

definition MAX_PAGES :: nat where
  "MAX_PAGES = 128 * 1024 * 1024 div 4096"

lemma MAX_PAGES_eq: "MAX_PAGES = 32768"
  by (simp add: MAX_PAGES_def)

section \<open>The operations\<close>

definition bitmap_set :: "bitmap \<Rightarrow> u32 \<Rightarrow> bitmap" where
  "bitmap_set bitmap page_index =
    (if of_nat MAX_PAGES \<le> page_index then bitmap
     else let k = unat (page_index div 8) in
       bitmap[k := bitmap ! k OR ucast (push_bit (unat (page_index mod 8)) (1 :: u32))])"

definition bitmap_clear :: "bitmap \<Rightarrow> u32 \<Rightarrow> bitmap" where
  "bitmap_clear bitmap page_index =
    (if of_nat MAX_PAGES \<le> page_index then bitmap
     else let k = unat (page_index div 8) in
       bitmap[k := bitmap ! k AND ucast (NOT (push_bit (unat (page_index mod 8)) (1 :: u32)))])"

definition bitmap_test :: "bitmap \<Rightarrow> u32 \<Rightarrow> int" where
  "bitmap_test bitmap page_index =
    (if of_nat MAX_PAGES \<le> page_index then 1
     else uint (bitmap ! unat (page_index div 8)
       AND ucast (push_bit (unat (page_index mod 8)) (1 :: u32))))"

definition pmm_init :: "bitmap \<Rightarrow> u32 \<Rightarrow> bitmap" where
  "pmm_init bitmap reserved_pages =
    (let cleared = fold (\<lambda>i bm. bm[i := 0]) [0..<length bitmap] bitmap;
         reserved = (if of_nat MAX_PAGES < reserved_pages then of_nat MAX_PAGES else reserved_pages)
     in fold (\<lambda>i bm. bitmap_set bm (of_nat i)) [0..<unat reserved] cleared)"

definition pmm_reserve_region :: "bitmap \<Rightarrow> u64 \<Rightarrow> u64 \<Rightarrow> bitmap" where
  "pmm_reserve_region bitmap phys_start phys_end =
    (if phys_end \<le> phys_start then bitmap
     else let start_page = phys_start div PAGE_SIZE;
              end_page = (phys_end + PAGE_SIZE - 1) div PAGE_SIZE
       in if of_nat MAX_PAGES \<le> start_page then bitmap
          else let end_page = (if of_nat MAX_PAGES < end_page then of_nat MAX_PAGES else end_page)
            in fold (\<lambda>i bm. bitmap_set bm (ucast (of_nat i :: u64)))
                 [unat start_page..<unat end_page] bitmap)"

definition pmm_alloc_page :: "bitmap \<Rightarrow> u64 \<times> bitmap" where
  "pmm_alloc_page bitmap =
    (case find (\<lambda>i. bitmap_test bitmap (of_nat i) = 0) [0..<MAX_PAGES] of
       None \<Rightarrow> (0, bitmap)
     | Some i \<Rightarrow> (of_nat i * PAGE_SIZE, bitmap_set bitmap (of_nat i)))"

definition pmm_free_page :: "bitmap \<Rightarrow> u64 \<Rightarrow> bitmap" where
  "pmm_free_page bitmap ptr =
    (if ptr = 0 then bitmap
     else if ptr AND (PAGE_SIZE - 1) \<noteq> 0 then bitmap
     else let page_index = ptr div PAGE_SIZE in
       if of_nat MAX_PAGES \<le> page_index then bitmap
       else bitmap_clear bitmap (ucast page_index))"

section \<open>The abstract view of the bitmap\<close>

definition page_used :: "bitmap \<Rightarrow> nat \<Rightarrow> bool" where
  "page_used bm n \<longleftrightarrow> bit (bm ! (n div 8)) (n mod 8)"

definition bitmap_ok :: "bitmap \<Rightarrow> bool" where
  "bitmap_ok bm \<longleftrightarrow> length bm = MAX_PAGES div 8"

lemma bit_single_u8: "k < 8 \<Longrightarrow> bit (ucast (2 ^ k :: u32) :: u8) j \<longleftrightarrow> j = k"
  by (auto simp: bit_simps)

lemma bit_not_single_u8:
  "k < 8 \<Longrightarrow> j < 8 \<Longrightarrow> bit (ucast (NOT (2 ^ k :: u32)) :: u8) j \<longleftrightarrow> j \<noteq> k"
  by (auto simp: bit_simps)

lemma index_lt: "of_nat MAX_PAGES \<le> (i :: u32) \<longleftrightarrow> MAX_PAGES \<le> unat i"
  "32768 \<le> (i :: u32) \<longleftrightarrow> 32768 \<le> unat i"
  by (simp_all add: word_le_nat_alt MAX_PAGES_eq)

lemma index_lt64: "of_nat MAX_PAGES \<le> (i :: u64) \<longleftrightarrow> MAX_PAGES \<le> unat i"
  by (simp add: word_le_nat_alt MAX_PAGES_eq)

lemma unat_div8 [simp]: "unat ((i :: u32) div 8) = unat i div 8"
  by (simp add: unat_div)
lemma unat_mod8 [simp]: "unat ((i :: u32) mod 8) = unat i mod 8"
  by (simp add: unat_mod)

lemma bitmap_set_ok [simp]: "bitmap_ok (bitmap_set bm i) = bitmap_ok bm"
  by (simp add: bitmap_set_def bitmap_ok_def Let_def)

lemma bitmap_clear_ok [simp]: "bitmap_ok (bitmap_clear bm i) = bitmap_ok bm"
  by (simp add: bitmap_clear_def bitmap_ok_def Let_def)

lemma div8_mod8_eq: "n div 8 = m div 8 \<Longrightarrow> n mod 8 = m mod 8 \<longleftrightarrow> n = (m::nat)"
  by (metis div_mod_decomp)

lemma page_used_set:
  assumes "bitmap_ok bm" and "unat i < MAX_PAGES" and "n < MAX_PAGES"
  shows "page_used (bitmap_set bm i) n \<longleftrightarrow> n = unat i \<or> page_used bm n"
proof (cases "n div 8 = unat i div 8")
  case True
  with assms show ?thesis
    by (auto simp: page_used_def bitmap_set_def Let_def index_lt bitmap_ok_def bit_or_iff
        bit_single_u8 MAX_PAGES_eq div8_mod8_eq)
next
  case False
  with assms show ?thesis
    by (auto simp: page_used_def bitmap_set_def Let_def)
qed

lemma page_used_clear:
  assumes "bitmap_ok bm" and "unat i < MAX_PAGES" and "n < MAX_PAGES"
  shows "page_used (bitmap_clear bm i) n \<longleftrightarrow> n \<noteq> unat i \<and> page_used bm n"
proof (cases "n div 8 = unat i div 8")
  case True
  with assms show ?thesis
    by (auto simp: page_used_def bitmap_clear_def Let_def index_lt bitmap_ok_def bit_and_iff
        bit_not_single_u8 MAX_PAGES_eq div8_mod8_eq)
next
  case False
  with assms show ?thesis
    by (auto simp: page_used_def bitmap_clear_def Let_def)
qed

lemma and_single_eq_0: "k < 8 \<Longrightarrow> (x :: u8) AND ucast (2 ^ k :: u32) = 0 \<longleftrightarrow> \<not> bit x k"
  by (auto simp: bit_eq_iff [where 'a = u8] bit_and_iff bit_single_u8)

lemma bitmap_test_used:
  "unat i < MAX_PAGES \<Longrightarrow> bitmap_test bm i = 0 \<longleftrightarrow> \<not> page_used bm (unat i)"
  by (simp add: bitmap_test_def index_lt page_used_def and_single_eq_0 uint_0_iff)

lemma bitmap_test_out: "MAX_PAGES \<le> unat i \<Longrightarrow> bitmap_test bm i = 1"
  by (simp add: bitmap_test_def index_lt)

definition free_pages :: "bitmap \<Rightarrow> nat set" where
  "free_pages bm = {n. n < MAX_PAGES \<and> \<not> page_used bm n}"

lemma set_range_ok [simp]: "bitmap_ok (fold (\<lambda>i. f i) xs bm) = bitmap_ok bm" if "\<And>i b. bitmap_ok (f i b) = bitmap_ok b"
  using that by (induction xs arbitrary: bm) auto

lemma page_used_set_range:
  assumes "bitmap_ok bm" and "n < MAX_PAGES" and "\<forall>i \<in> set xs. i < MAX_PAGES"
    and "\<And>i. i < MAX_PAGES \<Longrightarrow> unat (g i) = i"
  shows "page_used (fold (\<lambda>i b. bitmap_set b (g i)) xs bm) n \<longleftrightarrow> n \<in> set xs \<or> page_used bm n"
  using assms
proof (induction xs arbitrary: bm)
  case (Cons x xs)
  then show ?case by (auto simp: page_used_set)
qed simp

lemma free_pages_set_range:
  assumes "bitmap_ok bm" and "\<forall>i \<in> set xs. i < MAX_PAGES"
    and "\<And>i. i < MAX_PAGES \<Longrightarrow> unat (g i) = i"
  shows "free_pages (fold (\<lambda>i b. bitmap_set b (g i)) xs bm) = free_pages bm - set xs"
  using assms by (auto simp: free_pages_def page_used_set_range)

lemma unat_index32: "i < MAX_PAGES \<Longrightarrow> unat (of_nat i :: u32) = i"
  by (simp add: MAX_PAGES_eq unat_of_nat_u32)
lemma unat_index64: "i < MAX_PAGES \<Longrightarrow> unat (ucast (of_nat i :: u64) :: u32) = i"
  by (simp add: MAX_PAGES_eq unsigned_ucast_eq unat_of_nat_u64 take_bit_nat_eq_self)

lemma clear_all:
  "fold (\<lambda>i bm. bm[i := 0]) [0..<length bm] (bm :: u8 list) = replicate (length bm) 0"
proof -
  have step: "length (fold (\<lambda>i bm. bm[i := 0]) [0..<n] bm) = length bm \<and>
      (\<forall>j < n. j < length bm \<longrightarrow> fold (\<lambda>i bm. bm[i := 0]) [0..<n] bm ! j = 0)" for n
    by (induction n) (auto simp: nth_list_update less_Suc_eq)
  show ?thesis
    by (rule nth_equalityI) (use step [of "length bm"] in auto)
qed

lemma free_pages_pmm_init:
  assumes "bitmap_ok bm"
  shows "free_pages (pmm_init bm r) = {n. unat r \<le> n \<and> n < MAX_PAGES} \<and> bitmap_ok (pmm_init bm r)"
proof -
  have ok: "bitmap_ok (replicate (length bm) 0)"
    using assms by (simp add: bitmap_ok_def)
  have all: "free_pages (replicate (length bm) 0) = {n. n < MAX_PAGES}"
    using assms by (auto simp: free_pages_def page_used_def bitmap_ok_def MAX_PAGES_eq)
  have r: "unat (if of_nat MAX_PAGES < r then of_nat MAX_PAGES else r) = min (unat r) MAX_PAGES"
    by (simp add: MAX_PAGES_eq word_less_nat_alt)
  show ?thesis
    by (auto simp: pmm_init_def Let_def clear_all r free_pages_set_range ok all unat_index32)
qed

lemma bitmap_ok_pmm_reserve_region [simp]:
  "bitmap_ok (pmm_reserve_region bm a b) = bitmap_ok bm"
  by (simp add: pmm_reserve_region_def Let_def)

lemma bitmap_ok_pmm_free_page [simp]: "bitmap_ok (pmm_free_page bm p) = bitmap_ok bm"
  by (simp add: pmm_free_page_def Let_def)

lemma unat_div_PAGE_SIZE: "unat (p div PAGE_SIZE) = unat p div 4096"
  by (simp add: PAGE_SIZE_def unat_div)

lemma aligned_PAGE_SIZE: "p AND (PAGE_SIZE - 1) = 0 \<longleftrightarrow> unat p mod 4096 = 0"
proof -
  have "p AND (PAGE_SIZE - 1) = take_bit 12 p"
    by (simp add: PAGE_SIZE_def take_bit_eq_mask mask_eq_exp_minus_1)
  moreover have "take_bit 12 p = 0 \<longleftrightarrow> unat (take_bit 12 p) = 0"
    by (metis unsigned_0 unsigned_word_eqI)
  ultimately show ?thesis
    by (simp add: take_bit_eq_mod unat_mod)
qed

lemma free_pages_bound: "n \<in> free_pages bm \<Longrightarrow> n < MAX_PAGES"
  by (simp add: free_pages_def)

lemma finite_free_pages [simp]: "finite (free_pages bm)"
  by (simp add: free_pages_def)

lemma free_pages_set:
  "bitmap_ok bm \<Longrightarrow> unat i < MAX_PAGES \<Longrightarrow> free_pages (bitmap_set bm i) = free_pages bm - {unat i}"
  by (auto simp: free_pages_def page_used_set)

lemma free_pages_clear:
  "bitmap_ok bm \<Longrightarrow> unat i < MAX_PAGES \<Longrightarrow> free_pages (bitmap_clear bm i) = insert (unat i) (free_pages bm)"
  by (auto simp: free_pages_def page_used_clear)

lemma find_free:
  "find (\<lambda>i. bitmap_test bm (of_nat i) = 0) [0..<MAX_PAGES] =
    (if free_pages bm = {} then None else Some (Min (free_pages bm)))"
proof (cases "find (\<lambda>i. bitmap_test bm (of_nat i) = 0) [0..<MAX_PAGES]")
  case None
  then have "\<forall>i < MAX_PAGES. bitmap_test bm (of_nat i) \<noteq> 0"
    by (auto simp: find_None_iff)
  then have "free_pages bm = {}"
    by (auto simp: free_pages_def bitmap_test_used unat_index32)
  with None show ?thesis by simp
next
  case (Some k)
  then obtain i where i: "i < MAX_PAGES" "k = i" "bitmap_test bm (of_nat i) = 0"
    "\<forall>j < i. bitmap_test bm (of_nat j) \<noteq> 0"
    by (auto simp: find_Some_iff)
  then have mem: "k \<in> free_pages bm" and least: "\<forall>j \<in> free_pages bm. k \<le> j"
    by (auto simp: free_pages_def bitmap_test_used unat_index32 not_le [symmetric])
  from mem least have "Min (free_pages bm) = k"
    by (intro Min_eqI) auto
  with Some mem show ?thesis by auto
qed

lemma pmm_alloc_page_eq:
  "pmm_alloc_page bm =
    (if free_pages bm = {} then (0, bm)
     else (of_nat (Min (free_pages bm)) * PAGE_SIZE, bitmap_set bm (of_nat (Min (free_pages bm)))))"
  by (simp add: pmm_alloc_page_def find_free)

lemma Min_free_pages: "free_pages bm \<noteq> {} \<Longrightarrow> Min (free_pages bm) \<in> free_pages bm"
  by simp

lemma page_addr_unat:
  assumes "n < MAX_PAGES" shows "unat (of_nat n * PAGE_SIZE) = n * 4096"
proof -
  have "n * 4096 < 2 ^ 64" and "unat (of_nat n :: u64) = n"
    using assms by (simp_all add: MAX_PAGES_eq unat_of_nat_u64)
  then show ?thesis by (simp add: PAGE_SIZE_def unat_word_ariths)
qed

lemma page_addr_eq_0: "n < MAX_PAGES \<Longrightarrow> of_nat n * PAGE_SIZE = 0 \<longleftrightarrow> n = 0"
  by (metis page_addr_unat mult_eq_0_iff unsigned_0 unsigned_word_eqI zero_neq_numeral)

section \<open>The interface of a frame allocator\<close>

text \<open>
  What the page-table code, the process code and the ELF loader rely on when
  they call \<open>pmm_alloc_page\<close> and \<open>pmm_free_page\<close>.
\<close>

fun allocs :: "('b \<Rightarrow> u64 \<times> 'b) \<Rightarrow> nat \<Rightarrow> 'b \<Rightarrow> u64 list \<times> 'b" where
  "allocs alloc 0 b = ([], b)"
| "allocs alloc (Suc n) b =
    (let (p, b1) = alloc b; (ps, b2) = allocs alloc n b1 in (p # ps, b2))"

locale frame_allocator =
  fixes alloc :: "'b \<Rightarrow> u64 \<times> 'b"
    and free :: "'b \<Rightarrow> u64 \<Rightarrow> 'b"
    and avail :: "'b \<Rightarrow> nat set"
    and ok :: "'b \<Rightarrow> bool"
    and limit :: nat
  assumes alloc_some: "ok b \<Longrightarrow> avail b \<noteq> {} \<Longrightarrow> alloc b = (p, b') \<Longrightarrow>
      ok b' \<and> (\<exists>n \<in> avail b. unat p = n * 4096 \<and> avail b' = avail b - {n})"
    and alloc_none: "ok b \<Longrightarrow> avail b = {} \<Longrightarrow> alloc b = (0, b)"
    and avail_range: "ok b \<Longrightarrow> avail b \<subseteq> {n. 0 < n \<and> n < limit}"
    and free_avail: "ok b \<Longrightarrow> n < limit \<Longrightarrow> 0 < n \<Longrightarrow> unat p = n * 4096 \<Longrightarrow>
      ok (free b p) \<and> avail (free b p) = insert n (avail b)"
begin

lemma finite_avail: "ok b \<Longrightarrow> finite (avail b)"
  by (rule finite_subset [OF avail_range]) auto

lemma alloc_fresh:
  assumes "ok b" and "alloc b = (p, b')" and "p \<noteq> 0"
  shows "ok b'" and "unat p mod 4096 = 0" and "unat p div 4096 \<in> avail b"
    and "avail b' = avail b - {unat p div 4096}"
proof -
  have "avail b \<noteq> {}"
    using assms alloc_none by fastforce
  with alloc_some [OF assms(1) _ assms(2)] obtain n where
    "ok b'" "n \<in> avail b" "unat p = n * 4096" "avail b' = avail b - {n}" by blast
  then show "ok b'" and "unat p mod 4096 = 0" and "unat p div 4096 \<in> avail b"
    and "avail b' = avail b - {unat p div 4096}" by simp_all
qed

lemma alloc_nonzero:
  assumes "ok b" and "alloc b = (p, b')"
  shows "p \<noteq> 0 \<longleftrightarrow> avail b \<noteq> {}"
proof
  assume "avail b \<noteq> {}"
  with alloc_some [OF assms(1) _ assms(2)] obtain n where n: "n \<in> avail b" "unat p = n * 4096"
    by blast
  with avail_range [OF assms(1)] show "p \<noteq> 0" by auto
next
  assume "p \<noteq> 0"
  with alloc_none assms show "avail b \<noteq> {}" by fastforce
qed

lemma alloc_free_avail:
  assumes "ok b" and "alloc b = (p, b')" and "p \<noteq> 0"
  shows "avail (free b' p) = avail b"
proof -
  note f = alloc_fresh [OF assms]
  have "unat p div 4096 \<in> {n. 0 < n \<and> n < limit}"
    by (rule subsetD [OF avail_range [OF assms(1)] f(3)])
  then have pos: "0 < unat p div 4096" and lim: "unat p div 4096 < limit"
    by (simp_all only: mem_Collect_eq)
  have eq: "unat p = unat p div 4096 * 4096"
    using f(2) by (metis add.right_neutral div_mult_mod_eq)
  from free_avail [OF f(1) lim pos eq]
  have "avail (free b' p) = insert (unat p div 4096) (avail b')" by (rule conjunct2)
  then show ?thesis by (simp only: f(4) insert_Diff [OF f(3)])
qed

lemma allocs_distinct:
  assumes "ok b" and "n \<le> card (avail b)" and "allocs alloc n b = (ps, b')"
  shows "ok b' \<and> length ps = n \<and> distinct ps \<and>
    (\<forall>p \<in> set ps. unat p mod 4096 = 0 \<and> unat p div 4096 \<in> avail b) \<and>
    avail b' = avail b - (\<lambda>p. unat p div 4096) ` set ps"
  using assms
proof (induction n arbitrary: b ps)
  case (Suc n)
  from Suc.prems(3) obtain p b1 qs where p: "alloc b = (p, b1)" and qs: "allocs alloc n b1 = (qs, b')"
    and ps: "ps = p # qs" by (auto split: prod.splits)
  have "p \<noteq> 0" using alloc_nonzero [OF Suc.prems(1) p] Suc.prems(2) by auto
  note f = alloc_fresh [OF Suc.prems(1) p this]
  have "n \<le> card (avail b1)"
    using Suc.prems(2) f(3,4) finite_avail [OF Suc.prems(1)] by simp
  from Suc.IH [OF f(1) this qs] f ps show ?case by auto
qed simp

end

definition pmm_ok :: "bitmap \<Rightarrow> bool" where
  "pmm_ok bm \<longleftrightarrow> bitmap_ok bm \<and> page_used bm 0"

text \<open>
  The laws hold for the code's allocator once frame 0 is reserved, which
  \<open>pmm_init\<close> does for every positive \<open>reserved_pages\<close>.
\<close>

lemma pmm_free_page_avail:
  assumes "pmm_ok bm" and "n < MAX_PAGES" and "0 < n" and "unat p = n * 4096"
  shows "pmm_ok (pmm_free_page bm p) \<and> free_pages (pmm_free_page bm p) = insert n (free_pages bm)"
proof -
  have p: "p \<noteq> 0" "p AND (PAGE_SIZE - 1) = 0" "unat (p div PAGE_SIZE) = n"
    using assms(3,4) by (auto simp: aligned_PAGE_SIZE unat_div_PAGE_SIZE)
  then have "unat (ucast (p div PAGE_SIZE) :: u32) = n"
    using assms(2) by (simp add: unsigned_ucast_eq MAX_PAGES_eq take_bit_nat_eq_self)
  with p assms show ?thesis
    by (simp add: pmm_free_page_def Let_def index_lt64 free_pages_clear pmm_ok_def page_used_clear)
qed

lemma pmm_alloc_page_avail:
  assumes "pmm_ok bm" and "free_pages bm \<noteq> {}" and "pmm_alloc_page bm = (p, bm')"
  shows "pmm_ok bm' \<and> (\<exists>n \<in> free_pages bm. unat p = n * 4096 \<and> free_pages bm' = free_pages bm - {n})"
proof -
  let ?n = "Min (free_pages bm)"
  have n: "?n \<in> free_pages bm" using assms(2) by (rule Min_free_pages)
  then have n': "?n < MAX_PAGES" by (rule free_pages_bound)
  have "p = of_nat ?n * PAGE_SIZE" "bm' = bitmap_set bm (of_nat ?n)"
    using assms by (auto simp: pmm_alloc_page_eq)
  with n n' assms(1) show ?thesis
    by (auto simp: pmm_ok_def page_addr_unat free_pages_set unat_index32 page_used_set MAX_PAGES_eq
        intro!: bexI [of _ ?n])
qed

interpretation pmm: frame_allocator pmm_alloc_page pmm_free_page free_pages pmm_ok MAX_PAGES
proof unfold_locales
  show "free_pages b \<subseteq> {n. 0 < n \<and> n < MAX_PAGES}" if "pmm_ok b" for b
    using that by (auto simp: free_pages_def pmm_ok_def intro!: gr0I)
qed (rule pmm_alloc_page_avail pmm_free_page_avail, assumption+ | simp add: pmm_alloc_page_eq)+

section \<open>Properties\<close>

lemma bitmap_eqI:
  assumes "bitmap_ok a" and "bitmap_ok b" and "\<And>n. n < MAX_PAGES \<Longrightarrow> page_used a n = page_used b n"
  shows "a = b"
proof (rule nth_equalityI)
  show "length a = length b" using assms by (simp add: bitmap_ok_def)
  fix i assume "i < length a"
  then have "bit (a ! i) j = bit (b ! i) j" if "j < 8" for j
    using assms(1) assms(3) [of "8 * i + j"] that
    by (simp add: page_used_def bitmap_ok_def MAX_PAGES_eq)
  then show "a ! i = b ! i" by (intro bit_word_eqI) simp
qed

lemma pmm_ok_pmm_init:
  assumes "bitmap_ok bm" and "0 < r"
  shows "pmm_ok (pmm_init bm r)"
proof -
  have "0 < unat r" using assms(2) by (simp add: word_less_nat_alt)
  then have "0 \<notin> free_pages (pmm_init bm r)"
    using free_pages_pmm_init [OF assms(1), of r] by simp
  then have "page_used (pmm_init bm r) 0" by (simp add: free_pages_def MAX_PAGES_eq)
  then show ?thesis using free_pages_pmm_init [OF assms(1), of r] by (simp add: pmm_ok_def)
qed

lemma free_pages_pmm_free_page:
  assumes "bitmap_ok bm"
  shows "free_pages (pmm_free_page bm p) =
    (if p \<noteq> 0 \<and> unat p mod 4096 = 0 \<and> unat p div 4096 < MAX_PAGES
     then insert (unat p div 4096) (free_pages bm) else free_pages bm)"
proof -
  have "unat (ucast (p div PAGE_SIZE) :: u32) = unat p div 4096" if "unat p div 4096 < MAX_PAGES"
    using that by (simp add: unsigned_ucast_eq unat_div_PAGE_SIZE MAX_PAGES_eq take_bit_nat_eq_self)
  with assms show ?thesis
    by (auto simp: pmm_free_page_def Let_def index_lt64 unat_div_PAGE_SIZE aligned_PAGE_SIZE
        free_pages_clear)
qed

lemma free_pages_reserve:
  assumes "bitmap_ok bm" and "unat e \<le> 2 ^ 64 - 4096"
  shows "free_pages (pmm_reserve_region bm s e) =
    {n \<in> free_pages bm. \<not> (unat s < (n + 1) * 4096 \<and> n * 4096 < unat e \<and> s < e)}"
proof (cases "s < e \<and> unat s div 4096 < MAX_PAGES")
  case True
  let ?e = "(e + PAGE_SIZE - 1) div PAGE_SIZE"
  have up: "unat ?e = (unat e + 4095) div 4096"
  proof -
    have "e + PAGE_SIZE - 1 = e + 4095" by (simp add: PAGE_SIZE_def)
    moreover have "unat (e + 4095) = unat e + 4095"
      using assms(2) by (simp add: unat_word_ariths)
    ultimately have "unat (e + PAGE_SIZE - 1) = unat e + 4095" by (simp only:)
    then show ?thesis by (simp only: unat_div_PAGE_SIZE)
  qed
  have m: "unat (if of_nat MAX_PAGES < ?e then of_nat MAX_PAGES else ?e) = min (unat ?e) MAX_PAGES"
    by (simp add: MAX_PAGES_eq word_less_nat_alt)
  have "unat s < unat e" using True by (simp add: word_less_nat_alt)
  let ?I = "[unat s div 4096..<min ((unat e + 4095) div 4096) MAX_PAGES]"
  have "pmm_reserve_region bm s e =
      fold (\<lambda>i b. bitmap_set b (ucast (of_nat i :: u64))) ?I bm"
    unfolding pmm_reserve_region_def Let_def index_lt64 unat_div_PAGE_SIZE m [unfolded up]
    using True by (auto simp: not_le)
  then have eq: "free_pages (pmm_reserve_region bm s e) = free_pages bm - set ?I"
    by (simp only:) (rule free_pages_set_range, use assms unat_index64 in auto)
  have "n \<in> set ?I \<longleftrightarrow> unat s < (n + 1) * 4096 \<and> n * 4096 < unat e" if "n \<in> free_pages bm" for n
    using free_pages_bound [OF that] by auto
  with eq True show ?thesis by blast
next
  case False
  then have "pmm_reserve_region bm s e = bm"
    by (auto simp: pmm_reserve_region_def Let_def index_lt64 unat_div_PAGE_SIZE)
  moreover have "\<not> (unat s < (n + 1) * 4096 \<and> s < e)" if "n \<in> free_pages bm" for n
    using False free_pages_bound [OF that] by auto
  ultimately show ?thesis by auto
qed

lemma pmm_ok_witness_bitmap:
  "pmm_ok (pmm_init (replicate 4096 0) 1)"
  "free_pages (pmm_init (replicate 4096 0) 1) = {n. 1 \<le> n \<and> n < MAX_PAGES}"
  using pmm_ok_pmm_init [of "replicate 4096 0" 1] free_pages_pmm_init [of "replicate 4096 0" 1]
  by (simp_all add: bitmap_ok_def MAX_PAGES_eq)

lemma Min_from_one: "Min {n. 1 \<le> n \<and> n < MAX_PAGES} = 1"
  by (rule Min_eqI) (auto simp: MAX_PAGES_eq)

text \<open>\<open>pmm_alloc_page\<close> returns 0 and changes nothing exactly when no frame is
  free; otherwise it returns the address of the lowest free frame, which is never 0,
  and takes exactly that frame out of the free set.\<close>

theorem pmm_alloc_page_lowest:
  assumes "pmm_ok bm" and "pmm_alloc_page bm = (p, bm')"
  shows "if free_pages bm = {} then p = 0 \<and> bm' = bm
    else p \<noteq> 0 \<and> unat p = Min (free_pages bm) * 4096 \<and>
      free_pages bm' = free_pages bm - {Min (free_pages bm)} \<and> pmm_ok bm'"
proof (cases "free_pages bm = {}")
  case True
  with assms show ?thesis by (simp add: pmm_alloc_page_eq)
next
  case False
  then have "Min (free_pages bm) < MAX_PAGES"
    by (rule free_pages_bound [OF Min_free_pages])
  with False assms(2) have p: "unat p = Min (free_pages bm) * 4096"
    by (auto simp: pmm_alloc_page_eq page_addr_unat)
  note nz = pmm.alloc_nonzero [OF assms] and f = pmm.alloc_fresh [OF assms]
  from False nz have "p \<noteq> 0" by simp
  with False p f show ?thesis by simp
qed

theorem pmm_alloc_page_lowest_witness:
  "\<exists>p bm'. pmm_alloc_page (pmm_init (replicate 4096 0) 1) = (p, bm') \<and> unat p = 4096 \<and> 1 \<notin> free_pages bm'"
proof -
  obtain p bm' where a: "pmm_alloc_page (pmm_init (replicate 4096 0) 1) = (p, bm')" by fastforce
  have "free_pages (pmm_init (replicate 4096 0) 1) \<noteq> {}"
    by (auto simp: pmm_ok_witness_bitmap MAX_PAGES_eq)
  with pmm_alloc_page_lowest [OF pmm_ok_witness_bitmap(1) a] a show ?thesis
    by (auto simp: pmm_ok_witness_bitmap(2) Min_from_one [unfolded One_nat_def])
qed

text \<open>freeing the frame just allocated restores the bitmap bit for bit.\<close>

theorem pmm_free_alloc_roundtrip:
  assumes "pmm_ok bm" and "pmm_alloc_page bm = (p, bm')" and "p \<noteq> 0"
  shows "pmm_free_page bm' p = bm"
proof (rule bitmap_eqI)
  note f = pmm.alloc_fresh [OF assms]
  show "bitmap_ok (pmm_free_page bm' p)" "bitmap_ok bm"
    using f(1) assms(1) by (simp_all add: pmm_ok_def)
  fix n assume "n < MAX_PAGES"
  then show "page_used (pmm_free_page bm' p) n = page_used bm n"
    using pmm.alloc_free_avail [OF assms] unfolding free_pages_def set_eq_iff by blast
qed

theorem pmm_free_alloc_roundtrip_witness:
  "\<exists>p bm'. pmm_alloc_page (pmm_init (replicate 4096 0) 1) = (p, bm') \<and> p \<noteq> 0 \<and>
    pmm_free_page bm' p = pmm_init (replicate 4096 0) 1"
proof -
  obtain p bm' where a: "pmm_alloc_page (pmm_init (replicate 4096 0) 1) = (p, bm')" by fastforce
  have "free_pages (pmm_init (replicate 4096 0) 1) \<noteq> {}"
    by (auto simp: pmm_ok_witness_bitmap MAX_PAGES_eq)
  then have "p \<noteq> 0" using pmm.alloc_nonzero [OF pmm_ok_witness_bitmap(1) a] by simp
  with pmm_free_alloc_roundtrip [OF pmm_ok_witness_bitmap(1) a] a show ?thesis by blast
qed



end
