(* ===== verification/Vmm.thy ===== *)
theory Vmm
  imports PhysMem Pmm
begin

text \<open>
  Four-level page tables, \<open>kernel/vmm.c\<close> and \<open>kernel/paging.c\<close>.  The state is
  physical memory, the frame bitmap of \<open>Pmm\<close>, the kernel's root table, the
  register CR3 and the addresses given to \<open>invlpg\<close>, newest first.  A C pointer
  to a table is its address; the null pointer is 0.  The C functions return a
  pointer or nothing, the definitions here return that pointer and the new state.
\<close>

record vm_state =
  pmem :: mem
  frames :: bitmap
  kernel_pml4 :: u64
  cr3 :: u64
  invlpg_log :: "u64 list"

definition PAGE_PRESENT :: u64 where "PAGE_PRESENT = 1"
definition PAGE_WRITE :: u64 where "PAGE_WRITE = 2"
definition PAGE_USER :: u64 where "PAGE_USER = 4"
definition PAGE_HUGE :: u64 where "PAGE_HUGE = 128"

lemmas page_flag_defs = PAGE_PRESENT_def PAGE_WRITE_def PAGE_USER_def PAGE_HUGE_def

definition PML4_IDX :: "u64 \<Rightarrow> nat" where "PML4_IDX addr = unat (drop_bit 39 addr AND 0x1FF)"
definition PDP_IDX :: "u64 \<Rightarrow> nat" where "PDP_IDX addr = unat (drop_bit 30 addr AND 0x1FF)"
definition PD_IDX :: "u64 \<Rightarrow> nat" where "PD_IDX addr = unat (drop_bit 21 addr AND 0x1FF)"
definition PT_IDX :: "u64 \<Rightarrow> nat" where "PT_IDX addr = unat (drop_bit 12 addr AND 0x1FF)"

text \<open>\<open>&table[i]\<close> for a table of 64-bit entries.\<close>

definition entry :: "u64 \<Rightarrow> nat \<Rightarrow> u64" where
  "entry table i = table + 8 * of_nat i"

text \<open>The masks \<open>x & ~0xFFF\<close>, \<open>x & ~0x1FFFFF\<close> and their complements.\<close>

definition page_base :: "u64 \<Rightarrow> u64" where "page_base x = x AND NOT 0xFFF"
definition page_off :: "u64 \<Rightarrow> u64" where "page_off x = x AND 0xFFF"
definition huge_base :: "u64 \<Rightarrow> u64" where "huge_base x = x AND NOT 0x1FFFFF"
definition huge_off :: "u64 \<Rightarrow> u64" where "huge_off x = x AND 0x1FFFFF"

section \<open>The operations\<close>

definition zero_table :: "u64 \<Rightarrow> mem \<Rightarrow> mem" where
  "zero_table table m =
    (if table = 0 then m else fold (\<lambda>i m. wr64 m (entry table i) 0) [0..<512] m)"

definition get_next_level :: "u64 \<Rightarrow> bool \<Rightarrow> vm_state \<Rightarrow> u64 \<times> vm_state" where
  "get_next_level e allocate s =
    (if e = 0 then (0, s)
     else let v = rd64 (pmem s) e in
       if v AND PAGE_PRESENT \<noteq> 0 then
         (if v AND PAGE_HUGE \<noteq> 0 then (0, s) else (page_base v, s))
       else if \<not> allocate then (0, s)
       else let (new_table, fr) = pmm_alloc_page (frames s); s = s\<lparr>frames := fr\<rparr> in
         if new_table = 0 then (0, s)
         else let s = s\<lparr>pmem := zero_table new_table (pmem s)\<rparr>;
                  s = s\<lparr>pmem := wr64 (pmem s) e
                        (new_table OR PAGE_PRESENT OR PAGE_WRITE OR PAGE_USER)\<rparr>
              in (new_table, s))"

definition split_huge_pde :: "u64 \<Rightarrow> vm_state \<Rightarrow> u64 \<times> vm_state" where
  "split_huge_pde pde s =
    (if pde = 0 then (0, s)
     else let v = rd64 (pmem s) pde in
       if v AND PAGE_PRESENT = 0 then (0, s)
       else if v AND PAGE_HUGE = 0 then (page_base v, s)
       else let huge_phys = huge_base v;
                old_flags = v AND (PAGE_PRESENT OR PAGE_WRITE OR PAGE_USER);
                (pt, fr) = pmm_alloc_page (frames s); s = s\<lparr>frames := fr\<rparr>
            in if pt = 0 then (0, s)
               else let s = s\<lparr>pmem := fold (\<lambda>i m. wr64 m (entry pt i)
                               ((huge_phys + of_nat i * PAGE_SIZE) OR old_flags)) [0..<512] (pmem s)\<rparr>;
                        s = s\<lparr>pmem := wr64 (pmem s) pde
                              (pt OR PAGE_PRESENT OR PAGE_WRITE OR PAGE_USER)\<rparr>
                    in (pt, s))"

definition vmm_init :: "vm_state \<Rightarrow> vm_state" where
  "vmm_init s = s\<lparr>kernel_pml4 := page_base (cr3 s)\<rparr>"

definition vmm_get_kernel_pml4 :: "vm_state \<Rightarrow> u64" where
  "vmm_get_kernel_pml4 s = kernel_pml4 s"

text \<open>The part of \<open>vmm_map_page\<close> that finds or makes the last-level table.\<close>

definition map_page_pt :: "u64 \<Rightarrow> vm_state \<Rightarrow> u64 \<times> vm_state" where
  "map_page_pt pde s =
    (let v = rd64 (pmem s) pde in
     if v AND PAGE_PRESENT \<noteq> 0 then
       (if v AND PAGE_HUGE \<noteq> 0 then split_huge_pde pde s else (page_base v, s))
     else let (new_pt, fr) = pmm_alloc_page (frames s); s = s\<lparr>frames := fr\<rparr> in
       if new_pt = 0 then (0, s)
       else let s = s\<lparr>pmem := zero_table new_pt (pmem s)\<rparr>;
                s = s\<lparr>pmem := wr64 (pmem s) pde
                      (new_pt OR PAGE_PRESENT OR PAGE_WRITE OR PAGE_USER)\<rparr>
            in (new_pt, s))"

definition vmm_map_page :: "u64 \<Rightarrow> u64 \<Rightarrow> u64 \<Rightarrow> u64 \<Rightarrow> vm_state \<Rightarrow> vm_state" where
  "vmm_map_page pml4 virt phys flags s =
    (if pml4 = 0 then s
     else let (pdp, s) = get_next_level (entry pml4 (PML4_IDX virt)) True s in
       if pdp = 0 then s
       else let (pd, s) = get_next_level (entry pdp (PDP_IDX virt)) True s in
         if pd = 0 then s
         else let (pt, s) = map_page_pt (entry pd (PD_IDX virt)) s in
           if pt = 0 then s
           else let s = s\<lparr>pmem := wr64 (pmem s) (entry pt (PT_IDX virt))
                         (page_base phys OR flags OR PAGE_PRESENT)\<rparr>
                in s\<lparr>invlpg_log := virt # invlpg_log s\<rparr>)"

definition vmm_unmap_page :: "u64 \<Rightarrow> u64 \<Rightarrow> vm_state \<Rightarrow> vm_state" where
  "vmm_unmap_page pml4 virt s =
    (if pml4 = 0 then s
     else let (pdp, s) = get_next_level (entry pml4 (PML4_IDX virt)) False s in
       if pdp = 0 then s
       else let (pd, s) = get_next_level (entry pdp (PDP_IDX virt)) False s in
         if pd = 0 then s
         else let pde = entry pd (PD_IDX virt); v = rd64 (pmem s) pde in
           if v AND PAGE_HUGE = 0 \<and> v AND PAGE_PRESENT = 0 then s
           else let (pt, s) = (if v AND PAGE_HUGE \<noteq> 0 then split_huge_pde pde s
                               else (page_base v, s)) in
             if pt = 0 then s
             else let s = s\<lparr>pmem := wr64 (pmem s) (entry pt (PT_IDX virt)) 0\<rparr>
                  in s\<lparr>invlpg_log := virt # invlpg_log s\<rparr>)"

definition vmm_virt_to_phys :: "u64 \<Rightarrow> u64 \<Rightarrow> vm_state \<Rightarrow> u64" where
  "vmm_virt_to_phys pml4 virt s =
    (if pml4 = 0 then 0
     else let (pdp, s) = get_next_level (entry pml4 (PML4_IDX virt)) False s in
       if pdp = 0 then 0
       else let (pd, s) = get_next_level (entry pdp (PDP_IDX virt)) False s in
         if pd = 0 then 0
         else let pde = rd64 (pmem s) (entry pd (PD_IDX virt)) in
           if pde AND PAGE_PRESENT = 0 then 0
           else if pde AND PAGE_HUGE \<noteq> 0 then
             huge_base pde OR huge_off virt
           else let pt = page_base pde in
             if pt = 0 then 0
             else let pte = rd64 (pmem s) (entry pt (PT_IDX virt)) in
               if pte AND PAGE_PRESENT = 0 then 0
               else page_base pte OR page_off virt)"

text \<open>
  \<open>create_user_pml4\<close>: a new root whose entry 0 leads to private copies of the
  kernel's first four page directories and whose other entries are the kernel's.
  The loop over the four directories stops early when memory runs out.
\<close>

definition copy_table :: "u64 \<Rightarrow> u64 \<Rightarrow> nat list \<Rightarrow> mem \<Rightarrow> mem" where
  "copy_table dst src is m = fold (\<lambda>i m. wr64 m (entry dst i) (rd64 m (entry src i))) is m"

fun copy_pds :: "u64 \<Rightarrow> u64 \<Rightarrow> nat list \<Rightarrow> vm_state \<Rightarrow> bool \<times> vm_state" where
  "copy_pds k_pdp user_pdp [] s = (True, s)"
| "copy_pds k_pdp user_pdp (pdpt_idx # idxs) s =
    (let e = rd64 (pmem s) (entry k_pdp pdpt_idx) in
     if e AND PAGE_PRESENT = 0 then copy_pds k_pdp user_pdp idxs s
     else let k_pd_n = page_base e in
       if k_pd_n = 0 then copy_pds k_pdp user_pdp idxs s
       else let (user_pd_n, fr) = pmm_alloc_page (frames s); s = s\<lparr>frames := fr\<rparr> in
         if user_pd_n = 0 then (False, s)
         else let s = s\<lparr>pmem := zero_table user_pd_n (pmem s)\<rparr>;
                  s = s\<lparr>pmem := wr64 (pmem s) (entry user_pdp pdpt_idx)
                        (user_pd_n OR PAGE_PRESENT OR PAGE_WRITE OR PAGE_USER)\<rparr>;
                  s = s\<lparr>pmem := copy_table user_pd_n k_pd_n [0..<512] (pmem s)\<rparr>
              in copy_pds k_pdp user_pdp idxs s)"

definition create_user_pml4 :: "vm_state \<Rightarrow> u64 \<times> vm_state" where
  "create_user_pml4 s =
    (let (user_pml4, fr) = pmm_alloc_page (frames s); s = s\<lparr>frames := fr\<rparr> in
     if user_pml4 = 0 then (0, s)
     else let s = s\<lparr>pmem := zero_table user_pml4 (pmem s)\<rparr>; k_pml4 = vmm_get_kernel_pml4 s in
       if k_pml4 = 0 then (0, s)
       else let k_pml4e = rd64 (pmem s) (entry k_pml4 0) in
         if k_pml4e AND PAGE_PRESENT = 0 then (user_pml4, s)
         else let k_pdp = page_base k_pml4e in
           if k_pdp = 0 then (user_pml4, s)
           else let (user_pdp, fr) = pmm_alloc_page (frames s); s = s\<lparr>frames := fr\<rparr> in
             if user_pdp = 0 then (0, s)
             else let s = s\<lparr>pmem := zero_table user_pdp (pmem s)\<rparr>;
                      s = s\<lparr>pmem := wr64 (pmem s) (entry user_pml4 0)
                            (user_pdp OR PAGE_PRESENT OR PAGE_WRITE OR PAGE_USER)\<rparr>;
                      (ok, s) = copy_pds k_pdp user_pdp [0..<4] s
                  in if \<not> ok then (0, s)
                     else (user_pml4, s\<lparr>pmem := copy_table user_pml4 k_pml4 [1..<512] (pmem s)\<rparr>))"

definition vmm_switch_pml4 :: "u64 \<Rightarrow> vm_state \<Rightarrow> vm_state" where
  "vmm_switch_pml4 pml4 s = (if pml4 = 0 then s else s\<lparr>cr3 := pml4\<rparr>)"

text \<open>
  \<open>paging_init\<close>, with the link-time addresses of the static tables as
  arguments: \<open>pml4_table\<close>, \<open>pdp_table\<close> and the four \<open>pd_tables\<close>.
\<close>

definition init_pd :: "u64 \<Rightarrow> nat \<Rightarrow> mem \<Rightarrow> mem" where
  "init_pd pd i m =
    fold (\<lambda>j m. wr64 m (entry pd j)
      ((of_nat i * 0x40000000 + of_nat j * 0x200000)
        OR PAGE_PRESENT OR PAGE_WRITE OR PAGE_USER OR PAGE_HUGE)) [0..<512] m"

definition paging_init :: "u64 \<Rightarrow> u64 \<Rightarrow> (nat \<Rightarrow> u64) \<Rightarrow> vm_state \<Rightarrow> vm_state" where
  "paging_init pml4_table pdp_table pd_tables s =
    (let m = fold (\<lambda>i m. wr64 (wr64 m (entry pml4_table i) 0) (entry pdp_table i) 0) [0..<512] (pmem s);
         m = wr64 m (entry pml4_table 0) (pdp_table OR PAGE_PRESENT OR PAGE_WRITE OR PAGE_USER);
         m = fold (\<lambda>i m. init_pd (pd_tables i) i
               (wr64 m (entry pdp_table i) (pd_tables i OR PAGE_PRESENT OR PAGE_WRITE OR PAGE_USER)))
             [0..<4] m
     in s\<lparr>pmem := m, cr3 := pml4_table\<rparr>)"

end
