(* ===== verification/VmmTables.thy ===== *)
theory VmmTables
  imports Vmm
begin

text \<open>
  The page tables as a tree.  \<open>table_at\<close> follows a path of indices from a root
  table, \<open>entry_at\<close> reads an entry, \<open>xlate\<close> is the translation the tree stands
  for, and \<open>wf_tables\<close> says that the tables reached are distinct allocated
  frames.  The lemmas say how one write to one entry changes the tree.
\<close>

section \<open>Masks and entry addresses\<close>

lemma mask_consts: "(0xFFF :: u64) = mask 12" "(0x1FFFFF :: u64) = mask 21" "(0x1FF :: u64) = mask 9"
  by (simp_all add: mask_eq_exp_minus_1)

lemma bit_page_base: "bit (page_base x) n \<longleftrightarrow> 12 \<le> n \<and> bit x n"
  by (auto simp: page_base_def mask_consts bit_simps not_less dest: bit_imp_le_length)

lemma bit_huge_base: "bit (huge_base x) n \<longleftrightarrow> 21 \<le> n \<and> bit x n"
  by (auto simp: huge_base_def mask_consts bit_simps not_less dest: bit_imp_le_length)

lemma bit_page_off: "bit (page_off x) n \<longleftrightarrow> n < 12 \<and> bit x n"
  by (auto simp: page_off_def mask_consts bit_simps)

lemma bit_huge_off: "bit (huge_off x) n \<longleftrightarrow> n < 21 \<and> bit x n"
  by (auto simp: huge_off_def mask_consts bit_simps)

definition page_aligned :: "u64 \<Rightarrow> bool" where
  "page_aligned t \<longleftrightarrow> unat t mod 4096 = 0"

lemma page_aligned_take_bit: "page_aligned t \<longleftrightarrow> take_bit 12 t = 0"
proof -
  have "take_bit 12 t = 0 \<longleftrightarrow> unat (take_bit 12 t) = 0"
    by (metis unsigned_0 unsigned_word_eqI)
  then show ?thesis by (simp add: page_aligned_def take_bit_eq_mod unat_mod)
qed

lemma page_aligned_bit: "page_aligned t \<longleftrightarrow> (\<forall>n < 12. \<not> bit t n)"
  by (auto simp: page_aligned_take_bit bit_eq_iff [of "take_bit 12 t"] bit_take_bit_iff)

lemma page_aligned_page_base [simp, intro]: "page_aligned (page_base x)"
  by (simp add: page_aligned_bit bit_page_base)

lemma page_base_aligned: "page_aligned t \<Longrightarrow> page_base t = t"
  by (rule bit_word_eqI) (auto simp: page_aligned_bit bit_page_base not_less [symmetric])

lemma aligned_room: "x mod 4096 = 0 \<Longrightarrow> x < 2 ^ 64 \<Longrightarrow> x + 4096 \<le> (2 ^ 64 :: nat)"
proof -
  assume "x mod 4096 = 0" and "x < 2 ^ 64"
  then obtain k where "x = 4096 * k" by (metis mod_0_imp_dvd dvdE)
  with \<open>x < 2 ^ 64\<close> show ?thesis by simp
qed

lemma aligned_decomp:
  fixes a b i j :: nat
  assumes "a mod 4096 = 0" "b mod 4096 = 0" "i < 512" "j < 512" "a + 8 * i = b + 8 * j"
  shows "a = b \<and> i = j"
proof -
  obtain k l where "a = 4096 * k" "b = 4096 * l"
    using assms(1,2) by (metis mod_0_imp_dvd dvdE)
  with assms(5) have "512 * k + i = 512 * l + j" by simp
  then have "(512 * k + i) mod 512 = (512 * l + j) mod 512" by simp
  with assms(3,4) have "i = j" by simp
  with assms(5) show ?thesis by simp
qed

lemma unat_entry:
  assumes "page_aligned t" and "i < 512" shows "unat (entry t i) = unat t + 8 * i"
proof -
  have "unat t < 2 ^ 64" using unsigned_less [of t] by simp
  from aligned_room [OF assms(1) [unfolded page_aligned_def] this]
  have "unat t + 8 * i < 2 ^ 64" using assms(2) by linarith
  moreover have "unat (8 * of_nat i :: u64) = 8 * i"
    using assms(2) by (simp add: unat_word_ariths unat_of_nat_u64)
  ultimately show ?thesis by (simp add: entry_def unat_word_ariths)
qed

lemma entry_eq_iff:
  assumes "page_aligned t" "page_aligned u" "i < 512" "j < 512"
  shows "entry t i = entry u j \<longleftrightarrow> t = u \<and> i = j"
proof
  assume "entry t i = entry u j"
  then have eq: "unat t + 8 * i = unat u + 8 * j"
    using assms by (metis unat_entry)
  have "unat t = unat u \<and> i = j"
    by (rule aligned_decomp [OF _ _ assms(3,4) eq]) (use assms in \<open>simp_all add: page_aligned_def\<close>)
  then show "t = u \<and> i = j" by (metis unsigned_word_eqI)
qed simp

lemma aligned8_entry: "page_aligned t \<Longrightarrow> i < 512 \<Longrightarrow> aligned8 (entry t i)"
proof -
  assume t: "page_aligned t" and i: "i < 512"
  then obtain k where "unat t = 4096 * k"
    unfolding page_aligned_def by (metis mod_0_imp_dvd dvdE)
  then show ?thesis by (simp add: aligned8_def unat_entry [OF t i])
qed

lemma entry_nonzero: "page_aligned t \<Longrightarrow> i < 512 \<Longrightarrow> t \<noteq> 0 \<Longrightarrow> entry t i \<noteq> 0"
  by (metis add_eq_0_iff_both_eq_0 unat_entry unsigned_0 unsigned_word_eqI)

lemma rd64_wr64_entry:
  "page_aligned t \<Longrightarrow> page_aligned u \<Longrightarrow> i < 512 \<Longrightarrow> j < 512 \<Longrightarrow>
    rd64 (wr64 m (entry t i) v) (entry u j) = (if t = u \<and> i = j then v else rd64 m (entry u j))"
  by (auto simp: rd64_wr64_same rd64_wr64_other aligned8_entry entry_eq_iff)

lemma rd64_fold_entries:
  "page_aligned t \<Longrightarrow> page_aligned u \<Longrightarrow> \<forall>i \<in> set is. i < 512 \<Longrightarrow> j < 512 \<Longrightarrow>
    rd64 (fold (\<lambda>i m. wr64 m (entry t i) (f i)) is m) (entry u j) =
      (if t = u \<and> j \<in> set is then f j else rd64 m (entry u j))"
  by (induction "is" arbitrary: m) (auto simp: rd64_wr64_entry)

lemma rd64_zero_table:
  "page_aligned t \<Longrightarrow> page_aligned u \<Longrightarrow> j < 512 \<Longrightarrow> t \<noteq> 0 \<Longrightarrow>
    rd64 (zero_table t m) (entry u j) = (if t = u then 0 else rd64 m (entry u j))"
  by (simp add: zero_table_def rd64_fold_entries [where f = "\<lambda>_. 0"])

lemma rd64_copy_table:
  assumes "page_aligned d" "page_aligned c" "page_aligned u" "d \<noteq> c" "\<forall>i \<in> set is. i < 512" "j < 512"
  shows "rd64 (copy_table d c is m) (entry u j) =
    (if d = u \<and> j \<in> set is then rd64 m (entry c j) else rd64 m (entry u j))"
  using assms
proof (induction "is" arbitrary: m)
  case (Cons i "is")
  then show ?case by (auto simp: copy_table_def rd64_wr64_entry)
qed (simp add: copy_table_def)

section \<open>The tree\<close>

definition present :: "u64 \<Rightarrow> bool" where "present v \<longleftrightarrow> v AND PAGE_PRESENT \<noteq> 0"
definition huge :: "u64 \<Rightarrow> bool" where "huge v \<longleftrightarrow> v AND PAGE_HUGE \<noteq> 0"

lemma present_bit: "present v \<longleftrightarrow> bit v 0"
  by (simp add: present_def PAGE_PRESENT_def and_one_eq even_iff_mod_2_eq_zero [symmetric] bit_0 mod_2_eq_odd)

lemma and_single_bit: "(v :: u64) AND 2 ^ k \<noteq> 0 \<longleftrightarrow> bit v k"
  by (simp add: and_exp_eq_0_iff_not_bit)

lemma huge_bit: "huge v \<longleftrightarrow> bit v 7"
  using and_single_bit [of v 7] by (simp add: huge_def PAGE_HUGE_def)

definition next_table :: "u64 \<Rightarrow> u64 option" where
  "next_table v = (if present v \<and> \<not> huge v then Some (page_base v) else None)"

fun table_at :: "mem \<Rightarrow> u64 \<Rightarrow> nat list \<Rightarrow> u64 option" where
  "table_at m t [] = Some t"
| "table_at m t (i # p) = Option.bind (next_table (rd64 m (entry t i))) (\<lambda>u. table_at m u p)"

definition entry_at :: "mem \<Rightarrow> u64 \<Rightarrow> nat list \<Rightarrow> nat \<Rightarrow> u64 option" where
  "entry_at m root p i = map_option (\<lambda>t. rd64 m (entry t i)) (table_at m root p)"

definition valid_path :: "nat list \<Rightarrow> bool" where
  "valid_path p \<longleftrightarrow> length p \<le> 3 \<and> (\<forall>i \<in> set p. i < 512)"

definition wf_tables :: "mem \<Rightarrow> bitmap \<Rightarrow> u64 \<Rightarrow> bool" where
  "wf_tables m fr root \<longleftrightarrow> page_aligned root \<and>
    (\<forall>p t. valid_path p \<longrightarrow> table_at m root p = Some t \<longrightarrow>
       t \<noteq> 0 \<and> unat t div 4096 \<notin> free_pages fr) \<and>
    (\<forall>p q t. valid_path p \<longrightarrow> valid_path q \<longrightarrow>
       table_at m root p = Some t \<longrightarrow> table_at m root q = Some t \<longrightarrow> p = q)"

text \<open>The translation of an address that a tree stands for; 0 is "not mapped".\<close>

definition xlate :: "mem \<Rightarrow> u64 \<Rightarrow> u64 \<Rightarrow> u64" where
  "xlate m root v =
    (case entry_at m root [PML4_IDX v, PDP_IDX v] (PD_IDX v) of
       None \<Rightarrow> 0
     | Some pde \<Rightarrow>
         if \<not> present pde then 0
         else if huge pde then huge_base pde OR huge_off v
         else (case entry_at m root [PML4_IDX v, PDP_IDX v, PD_IDX v] (PT_IDX v) of
             None \<Rightarrow> 0
           | Some pte \<Rightarrow> if \<not> present pte then 0 else page_base pte OR page_off v))"

lemma idx_bound [simp]:
  "PML4_IDX v < 512" "PDP_IDX v < 512" "PD_IDX v < 512" "PT_IDX v < 512"
proof -
  have "unat (x AND 0x1FF) < 512" for x :: u64
  proof -
    have "x AND 0x1FF = take_bit 9 x" by (simp only: mask_consts take_bit_eq_mask)
    then show ?thesis by (simp add: take_bit_eq_mod unat_mod)
  qed
  then show "PML4_IDX v < 512" "PDP_IDX v < 512" "PD_IDX v < 512" "PT_IDX v < 512"
    by (simp_all add: PML4_IDX_def PDP_IDX_def PD_IDX_def PT_IDX_def)
qed

lemma table_at_append:
  "table_at m t (p @ q) = Option.bind (table_at m t p) (\<lambda>u. table_at m u q)"
  by (induction p arbitrary: t) (auto split: bind_splits)

lemma table_at_snoc:
  "table_at m t (p @ [i]) = Option.bind (entry_at m t p i) next_table"
  by (cases "table_at m t p") (auto simp: table_at_append entry_at_def split: bind_splits)

lemma wf_tablesD:
  assumes "wf_tables m fr root"
  shows "page_aligned root"
    and "valid_path p \<Longrightarrow> table_at m root p = Some t \<Longrightarrow> t \<noteq> 0"
    and "valid_path p \<Longrightarrow> table_at m root p = Some t \<Longrightarrow> unat t div 4096 \<notin> free_pages fr"
    and "valid_path p \<Longrightarrow> valid_path q \<Longrightarrow> table_at m root p = Some t \<Longrightarrow>
      table_at m root q = Some t \<Longrightarrow> p = q"
  using assms unfolding wf_tables_def by blast+

lemma table_at_aligned: "page_aligned root \<Longrightarrow> table_at m root p = Some t \<Longrightarrow> page_aligned t"
  by (induction p arbitrary: root) (auto simp: next_table_def split: bind_splits if_splits)

section \<open>One entry changes\<close>

definition path4 :: "u64 \<Rightarrow> nat list" where
  "path4 v = [PML4_IDX v, PDP_IDX v, PD_IDX v, PT_IDX v]"

definition only_entry_changes :: "mem \<Rightarrow> mem \<Rightarrow> u64 \<Rightarrow> nat list \<Rightarrow> nat \<Rightarrow> bool" where
  "only_entry_changes m m' root p i \<longleftrightarrow>
    (\<forall>q t j. valid_path q \<longrightarrow> j < 512 \<longrightarrow> table_at m root q = Some t \<longrightarrow> q @ [j] \<noteq> p @ [i] \<longrightarrow>
       rd64 m' (entry t j) = rd64 m (entry t j))"

lemma valid_path_snoc: "valid_path (q @ [j]) \<Longrightarrow> valid_path q \<and> j < 512"
  by (auto simp: valid_path_def)

lemma table_at_unchanged:
  assumes "only_entry_changes m m' root p i" and "valid_path q" and "\<not> prefix (p @ [i]) q"
  shows "table_at m' root q = table_at m root q"
  using assms(2,3)
proof (induction q rule: rev_induct)
  case (snoc j q)
  from snoc.prems have q: "valid_path q" "j < 512" "\<not> prefix (p @ [i]) q" "q @ [j] \<noteq> p @ [i]"
    by (auto dest: valid_path_snoc simp: prefix_snoc)
  then have "table_at m' root q = table_at m root q" by (intro snoc.IH)
  moreover have "entry_at m' root q j = entry_at m root q j"
    using assms(1) q calculation unfolding only_entry_changes_def entry_at_def
    by (cases "table_at m root q") auto
  ultimately show ?case by (simp add: table_at_snoc)
qed simp

lemma entry_at_unchanged:
  assumes "only_entry_changes m m' root p i" and "valid_path q" and "\<not> prefix (p @ [i]) q"
    and "j < 512" and "q @ [j] \<noteq> p @ [i]"
  shows "entry_at m' root q j = entry_at m root q j"
  using assms table_at_unchanged [OF assms(1-3)] unfolding only_entry_changes_def entry_at_def
  by (cases "table_at m root q") auto

lemma valid_path_path4 [simp]:
  "valid_path [PML4_IDX v]" "valid_path [PML4_IDX v, PDP_IDX v]"
  "valid_path [PML4_IDX v, PDP_IDX v, PD_IDX v]"
  by (simp_all add: valid_path_def)

lemma xlate_unchanged:
  assumes "only_entry_changes m m' root p i" and "\<not> prefix (p @ [i]) (path4 v)"
  shows "xlate m' root v = xlate m root v"
proof -
  have np: "\<not> prefix (p @ [i]) q" if "prefix q (path4 v)" for q
    using that assms(2) prefix_order.trans by blast
  have "entry_at m' root [PML4_IDX v, PDP_IDX v] (PD_IDX v) =
      entry_at m root [PML4_IDX v, PDP_IDX v] (PD_IDX v)"
    using np [of "[PML4_IDX v, PDP_IDX v]"] np [of "[PML4_IDX v, PDP_IDX v, PD_IDX v]"]
    by (intro entry_at_unchanged [OF assms(1)]) (auto simp: path4_def)
  moreover have "entry_at m' root [PML4_IDX v, PDP_IDX v, PD_IDX v] (PT_IDX v) =
      entry_at m root [PML4_IDX v, PDP_IDX v, PD_IDX v] (PT_IDX v)"
    using np [of "[PML4_IDX v, PDP_IDX v, PD_IDX v]"] np [of "path4 v"]
    by (intro entry_at_unchanged [OF assms(1)]) (auto simp: path4_def)
  ultimately show ?thesis by (simp add: xlate_def cong: option.case_cong if_cong)
qed

lemma not_present_next [simp]: "\<not> present e \<Longrightarrow> next_table e = None"
  by (simp add: next_table_def)

lemma prefix_path4_cases:
  assumes "prefix (q @ [j]) (path4 v)"
  shows "q = [] \<and> j = PML4_IDX v \<or> q = [PML4_IDX v] \<and> j = PDP_IDX v \<or>
    q = [PML4_IDX v, PDP_IDX v] \<and> j = PD_IDX v \<or>
    q = [PML4_IDX v, PDP_IDX v, PD_IDX v] \<and> j = PT_IDX v"
  using assms by (auto simp: path4_def prefix_Cons)

lemma table_at_two: "table_at m t [i, j] = Option.bind (table_at m t [i]) (\<lambda>u. table_at m u [j])"
  by (cases "next_table (rd64 m (entry t i))") auto

lemma xlate_not_present:
  assumes "prefix (q @ [j]) (path4 v)" and "entry_at m root q j = Some e" and "\<not> present e"
  shows "xlate m root v = 0"
proof -
  have none: "table_at m root (q @ [j] @ r) = None" for r
    using assms(2,3) by (simp add: table_at_append [of m root "q @ [j]" r, simplified] table_at_snoc)
  consider "q = []" "j = PML4_IDX v" | "q = [PML4_IDX v]" "j = PDP_IDX v"
    | "q = [PML4_IDX v, PDP_IDX v]" "j = PD_IDX v"
    | "q = [PML4_IDX v, PDP_IDX v, PD_IDX v]" "j = PT_IDX v"
    using prefix_path4_cases [OF assms(1)] by blast
  then show ?thesis
  proof cases
    case 1
    with none [of "[PDP_IDX v]"] show ?thesis by (simp add: xlate_def entry_at_def del: table_at.simps)
  next
    case 2
    with none [of "[]"] show ?thesis by (simp add: xlate_def entry_at_def del: table_at.simps)
  next
    case 3
    with assms show ?thesis by (simp add: xlate_def del: table_at.simps)
  next
    case 4
    from assms(2) obtain t where "table_at m root ([PML4_IDX v, PDP_IDX v] @ [PD_IDX v]) = Some t"
      by (auto simp: 4 entry_at_def simp del: table_at.simps)
    then have "next_table (the (entry_at m root [PML4_IDX v, PDP_IDX v] (PD_IDX v))) = Some t"
      unfolding table_at_snoc by (auto split: bind_splits)
    with assms 4 show ?thesis
      by (auto simp: xlate_def next_table_def split: option.splits if_splits)
  qed
qed

text \<open>The frames of the tables of a tree.\<close>

definition frame_of :: "u64 \<Rightarrow> nat" where
  "frame_of a = unat a div 4096"

definition table_frames :: "mem \<Rightarrow> u64 \<Rightarrow> nat set" where
  "table_frames m root = {frame_of t | p t. valid_path p \<and> table_at m root p = Some t}"

lemma table_framesI: "valid_path p \<Longrightarrow> table_at m root p = Some t \<Longrightarrow> frame_of t \<in> table_frames m root"
  by (auto simp: table_frames_def)

lemma frame_of_entry:
  assumes "page_aligned t" "i < 512" "unat (x - entry t i) < 8"
  shows "frame_of x = frame_of t"
proof -
  have t: "unat t < 2 ^ 64" "unat t mod 4096 = 0" using unsigned_less [of t] assms(1) by (simp_all add: page_aligned_def)
  have "unat x = unat (entry t i + (x - entry t i))" by simp
  also have "\<dots> = (unat t + 8 * i + unat (x - entry t i)) mod 2 ^ 64"
    by (subst unat_word_ariths(1)) (simp add: unat_entry [OF assms(1,2)])
  also have "\<dots> = unat t + (8 * i + unat (x - entry t i))"
    using aligned_room [OF t(2,1)] assms(2,3) by simp
  finally have "unat x = unat t + (8 * i + unat (x - entry t i))" .
  moreover have "8 * i + unat (x - entry t i) < 4096" using assms(2,3) by linarith
  moreover have "(a + d) div 4096 = a div 4096" if "a mod 4096 = 0" "d < 4096" for a d :: nat
    using that div_add1_eq [of a d 4096] by simp
  ultimately show ?thesis using t(2) by (simp add: frame_of_def)
qed

lemma wr64_frame: "page_aligned t \<Longrightarrow> i < 512 \<Longrightarrow> frame_of x \<noteq> frame_of t \<Longrightarrow> wr64 m (entry t i) v x = m x"
  using frame_of_entry [of t i x] by (auto simp: wr64_apply)

lemma wr64s_frame:
  "page_aligned t \<Longrightarrow> \<forall>i \<in> set is. i < 512 \<Longrightarrow> frame_of x \<noteq> frame_of t \<Longrightarrow>
    fold (\<lambda>i m. wr64 m (entry t i) (f i)) is m x = m x"
  by (induction "is" arbitrary: m) (simp_all add: wr64_frame)

lemma rd64_frame:
  "page_aligned t \<Longrightarrow> i < 512 \<Longrightarrow> (\<And>x. frame_of x = frame_of t \<Longrightarrow> m' x = m x) \<Longrightarrow> rd64 m' (entry t i) = rd64 m (entry t i)"
  by (rule rd64_cong) (simp add: frame_of_entry)

text \<open>A tree depends on the frames of its tables only.\<close>

lemma table_at_agree:
  assumes "page_aligned root" "\<And>x. frame_of x \<in> table_frames m root \<Longrightarrow> m' x = m x" "valid_path p"
  shows "table_at m' root p = table_at m root p" and "i < 512 \<Longrightarrow> entry_at m' root p i = entry_at m root p i"
proof -
  have e: "entry_at m' root q i = entry_at m root q i"
    if "valid_path q" "table_at m' root q = table_at m root q" "i < 512" for q i
  proof (cases "table_at m root q")
    case (Some t)
    have "rd64 m' (entry t i) = rd64 m (entry t i)"
      using table_at_aligned [OF assms(1) Some] that(3) table_framesI [OF that(1) Some] assms(2)
      by (intro rd64_frame) auto
    then show ?thesis using that(2) Some by (simp add: entry_at_def)
  qed (use that in \<open>simp add: entry_at_def\<close>)
  show t: "table_at m' root p = table_at m root p" using assms(3)
  proof (induction p rule: rev_induct)
    case (snoc i q)
    then have "valid_path q" "i < 512" by (auto dest: valid_path_snoc)
    with snoc.IH e show ?case by (simp add: table_at_snoc)
  qed simp
  show "i < 512 \<Longrightarrow> entry_at m' root p i = entry_at m root p i" by (rule e [OF assms(3) t])
qed

lemma tree_agree:
  assumes "page_aligned root" "\<And>x. frame_of x \<in> table_frames m root \<Longrightarrow> m' x = m x"
  shows "table_frames m' root = table_frames m root" and "xlate m' root v = xlate m root v"
    and "wf_tables m fr root \<Longrightarrow> free_pages fr' \<subseteq> free_pages fr \<Longrightarrow> wf_tables m' fr' root"
proof -
  have T: "valid_path p \<Longrightarrow> table_at m' root p = table_at m root p" for p
    by (rule table_at_agree(1) [OF assms])
  show "table_frames m' root = table_frames m root" by (simp add: table_frames_def T cong: conj_cong)
  have "entry_at m' root [PML4_IDX v, PDP_IDX v] (PD_IDX v) = entry_at m root [PML4_IDX v, PDP_IDX v] (PD_IDX v)"
    "entry_at m' root [PML4_IDX v, PDP_IDX v, PD_IDX v] (PT_IDX v) = entry_at m root [PML4_IDX v, PDP_IDX v, PD_IDX v] (PT_IDX v)"
    by (rule table_at_agree(2) [OF assms], assumption, simp, simp)+
  then show "xlate m' root v = xlate m root v" by (simp add: xlate_def cong: option.case_cong if_cong)
  show "wf_tables m fr root \<Longrightarrow> free_pages fr' \<subseteq> free_pages fr \<Longrightarrow> wf_tables m' fr' root"
    unfolding wf_tables_def by (simp add: T) blast
qed

lemma extend_tables:
  assumes ch: "only_entry_changes m m' root p i" and new: "table_at m' root (p @ [i]) = Some n"
    and below: "\<And>j q. valid_path (p @ i # j # q) \<Longrightarrow> table_at m' root (p @ i # j # q) = None"
    and q: "valid_path q" "table_at m' root q = Some t"
  shows "(q = p @ [i] \<and> t = n) \<or> table_at m root q = Some t \<and> \<not> prefix (p @ [i]) q"
proof (cases "prefix (p @ [i]) q")
  case True
  then obtain r where r: "q = p @ i # r" by (auto simp: prefix_def)
  with q new below show ?thesis by (cases r) auto
next
  case False
  with q table_at_unchanged [OF ch] show ?thesis by auto
qed

lemma wf_extend:
  assumes wf: "wf_tables m fr root" and ch: "only_entry_changes m m' root p i"
    and pi: "valid_path (p @ [i])"
    and new: "table_at m' root (p @ [i]) = Some n" "n \<noteq> 0" "unat n div 4096 \<in> free_pages fr"
    and fr: "free_pages fr' = free_pages fr - {unat n div 4096}"
    and below: "\<And>j q. valid_path (p @ i # j # q) \<Longrightarrow> table_at m' root (p @ i # j # q) = None"
  shows "wf_tables m' fr' root"
proof -
  have cases: "(q = p @ [i] \<and> t = n) \<or> table_at m root q = Some t \<and> \<not> prefix (p @ [i]) q"
    if "valid_path q" "table_at m' root q = Some t" for q t
    by (rule extend_tables [OF ch new(1) _ that]) (rule below)
  note D = wf_tablesD [OF wf]
  have fresh: "t \<noteq> n" if "valid_path q" "table_at m root q = Some t" for q t
    using D(3) [OF that] new(3) by auto
  show ?thesis unfolding wf_tables_def
  proof (intro conjI allI impI)
    show "page_aligned root" by (rule D(1))
    fix q t assume q: "valid_path q" "table_at m' root q = Some t"
    show "t \<noteq> 0" using cases [OF q] D(2) q(1) new(2) by blast
    show "unat t div 4096 \<notin> free_pages fr'" using cases [OF q] D(3) q(1) fr by blast
    fix r assume r: "valid_path r" "table_at m' root r = Some t"
    show "q = r" using cases [OF q] cases [OF r] D(4) q(1) r(1) fresh by metis
  qed
qed

end
