(* ===== verification/VmmMap.thy ===== *)
theory VmmMap
  imports VmmTables
begin

text \<open>
  What the operations of \<open>kernel/vmm.c\<close> do to the translation of addresses:
  finding or making a table and splitting a 2 MiB page change no translation,
  \<open>vmm_map_page\<close> and \<open>vmm_unmap_page\<close> change that of one page, and
  \<open>vmm_virt_to_phys\<close> computes it.
\<close>

definition vm_ok :: "u64 \<Rightarrow> vm_state \<Rightarrow> bool" where
  "vm_ok root s \<longleftrightarrow> wf_tables (pmem s) (frames s) root \<and> pmm_ok (frames s)"

text \<open>
  From \<open>s\<close> to \<open>s'\<close> only the tables of \<open>root\<close> and frames that were free are written, and the
  tables grow by frames that were free.
\<close>

definition writes_in :: "u64 \<Rightarrow> vm_state \<Rightarrow> vm_state \<Rightarrow> bool" where
  "writes_in root s s' \<longleftrightarrow> free_pages (frames s') \<subseteq> free_pages (frames s) \<and>
    table_frames (pmem s') root \<subseteq> table_frames (pmem s) root \<union> free_pages (frames s) \<and>
    (\<forall>x. frame_of x \<notin> table_frames (pmem s) root \<union> free_pages (frames s) \<longrightarrow> pmem s' x = pmem s x)"

lemma writes_in_refl [intro]: "writes_in root s s"
  by (simp add: writes_in_def)

lemma writes_in_trans: "writes_in root s t \<Longrightarrow> writes_in root t u \<Longrightarrow> writes_in root s u"
  unfolding writes_in_def by (intro conjI allI impI) (blast, blast, metis UnCI UnE subsetD)

text \<open>No page of 1 GiB, and no huge bit in the root.\<close>

definition plain_top :: "mem \<Rightarrow> u64 \<Rightarrow> bool" where
  "plain_top m root \<longleftrightarrow> (\<forall>p i e. length p \<le> 1 \<longrightarrow> valid_path (p @ [i]) \<longrightarrow> entry_at m root p i = Some e \<longrightarrow>
    present e \<longrightarrow> \<not> huge e)"

lemma plain_topD: "plain_top m root \<Longrightarrow> length p \<le> 1 \<Longrightarrow> valid_path (p @ [i]) \<Longrightarrow> entry_at m root p i = Some e \<Longrightarrow>
    present e \<Longrightarrow> \<not> huge e"
  unfolding plain_top_def by blast

lemma plain_top_step:
  assumes "only_entry_changes m m' root p i" "\<exists>n. table_at m' root (p @ [i]) = Some n"
    and "length p = 0 \<Longrightarrow> \<forall>j < 512. \<forall>e. entry_at m' root (p @ [i]) j = Some e \<longrightarrow> \<not> present e" "plain_top m root"
  shows "plain_top m' root"
  unfolding plain_top_def
proof (intro allI impI)
  fix q j e assume q: "length q \<le> 1" "valid_path (q @ [j])" "entry_at m' root q j = Some e" "present e"
  show "\<not> huge e"
  proof (cases "q @ [j] = p @ [i]")
    case True
    then have "entry_at m' root p i = Some e" using q(3) by simp
    then show ?thesis using assms(2) by (auto simp: table_at_snoc next_table_def split: if_splits)
  next
    case False
    show ?thesis
    proof (cases "prefix (p @ [i]) q")
      case True
      then have "p = []" "q = [i]" using q(1) by (auto simp: prefix_def)
      then show ?thesis using assms(3) q valid_path_snoc [OF q(2)] by auto
    next
      case np: False
      have "entry_at m root q j = Some e"
        using entry_at_unchanged [OF assms(1) _ np _ False] valid_path_snoc [OF q(2)] q(3) by simp
      then show ?thesis using assms(4) q by (auto dest: plain_topD)
    qed
  qed
qed

definition same_map :: "u64 \<Rightarrow> vm_state \<Rightarrow> vm_state \<Rightarrow> bool" where
  "same_map root s s' \<longleftrightarrow> vm_ok root s' \<and> writes_in root s s' \<and> (plain_top (pmem s) root \<longrightarrow> plain_top (pmem s') root) \<and> (\<forall>v. xlate (pmem s') root v = xlate (pmem s) root v) \<and>
    kernel_pml4 s' = kernel_pml4 s \<and> cr3 s' = cr3 s \<and> invlpg_log s' = invlpg_log s"

lemma same_map_refl [intro]: "vm_ok root s \<Longrightarrow> same_map root s s"
  by (simp add: same_map_def writes_in_refl)

lemma same_map_trans: "same_map root s t \<Longrightarrow> same_map root t u \<Longrightarrow> same_map root s u"
  unfolding same_map_def using writes_in_trans [of root s t u] by simp

lemma flags_mask: "PAGE_PRESENT OR PAGE_WRITE OR PAGE_USER = mask 3"
  by (simp add: page_flag_defs mask_eq_exp_minus_1)

lemma table_entry_next:
  assumes "page_aligned n"
  shows "next_table (n OR PAGE_PRESENT OR PAGE_WRITE OR PAGE_USER) = Some n"
proof -
  have bits: "bit (n OR mask 3) k \<longleftrightarrow> bit n k \<or> k < 3" for k
    by (auto simp: bit_or_iff bit_mask_iff)
  have "page_base (n OR mask 3) = n"
    by (rule bit_word_eqI) (use assms in \<open>auto simp: bit_page_base bits page_aligned_bit not_less [symmetric]\<close>)
  then show ?thesis
    using assms by (auto simp: flags_mask next_table_def present_bit huge_bit bits page_aligned_bit)
qed

definition agrees_off :: "u64 \<Rightarrow> mem \<Rightarrow> mem \<Rightarrow> bool" where
  "agrees_off n mm m \<longleftrightarrow>
    (\<forall>u j. page_aligned u \<longrightarrow> u \<noteq> n \<longrightarrow> j < 512 \<longrightarrow> rd64 mm (entry u j) = rd64 m (entry u j))"

section \<open>Installing a table\<close>

lemma alloc_facts:
  assumes "pmm_ok fr" "pmm_alloc_page fr = (n, fr')" "n \<noteq> 0"
  shows "pmm_ok fr'" "page_aligned n" "unat n div 4096 \<in> free_pages fr"
    "free_pages fr' = free_pages fr - {unat n div 4096}"
  using pmm.alloc_fresh [OF assms] by (simp_all add: page_aligned_def)

lemma install_table:
  assumes wf: "wf_tables m fr root" and T: "table_at m root p = Some t" and pi: "valid_path (p @ [i])"
    and n: "page_aligned n" "unat n div 4096 \<in> free_pages fr"
    and fill: "agrees_off n mm m"
    and m': "m' = wr64 mm (entry t i) (n OR PAGE_PRESENT OR PAGE_WRITE OR PAGE_USER)"
  shows "only_entry_changes m m' root p i" and "table_at m' root (p @ [i]) = Some n"
    and "\<And>j. j < 512 \<Longrightarrow> rd64 m' (entry n j) = rd64 mm (entry n j)"
proof -
  note D = wf_tablesD [OF wf]
  have p: "valid_path p" "i < 512" using pi by (auto dest: valid_path_snoc)
  have al: "page_aligned u" if "table_at m root q = Some u" for q u
    using table_at_aligned [OF D(1) that] .
  have fresh: "u \<noteq> n" if "valid_path q" "table_at m root q = Some u" for q u
    using D(3) [OF that] n(2) by auto
  show ch: "only_entry_changes m m' root p i" unfolding only_entry_changes_def
  proof (intro allI impI)
    fix q u j assume q: "valid_path q" "j < 512" "table_at m root q = Some u" "q @ [j] \<noteq> p @ [i]"
    have "\<not> (t = u \<and> i = j)" using D(4) [OF q(1) p(1) q(3)] T q(4) by auto
    then show "rd64 m' (entry u j) = rd64 m (entry u j)"
      using al [OF q(3)] al [OF T] p(2) q(2) fresh [OF q(1,3)]
      fill
      by (auto simp: m' rd64_wr64_entry agrees_off_def)
  qed
  have "table_at m' root p = Some t"
    using table_at_unchanged [OF ch p(1)] T by (simp add: prefix_def)
  then show "table_at m' root (p @ [i]) = Some n"
    using al [OF T] p(2) n(1) by (simp add: table_at_snoc entry_at_def m' rd64_wr64_entry table_entry_next)
  fix j :: nat assume "j < 512"
  then show "rd64 m' (entry n j) = rd64 mm (entry n j)"
    using al [OF T] p(2) n(1) fresh [OF p(1) T] by (auto simp: m' rd64_wr64_entry)
qed

lemma path4_next:
  assumes "prefix q (path4 v)" "length q < 4" obtains j where "prefix (q @ [j]) (path4 v)" "j < 512"
proof
  let ?j = "path4 v ! length q"
  have "length q < length (path4 v)" using assms(2) by (simp add: path4_def)
  with assms(1) show "prefix (q @ [?j]) (path4 v)"
    by (metis append_one_prefix)
  have "\<forall>x \<in> set (path4 v). x < 512" by (simp add: path4_def)
  then show "?j < 512" using \<open>length q < length (path4 v)\<close> by (metis nth_mem)
qed

lemma new_table_step:
  assumes ok: "wf_tables m fr root" "pmm_ok fr" and T: "table_at m root p = Some t"
    and pi: "valid_path (p @ [i])" and np: "\<not> present (rd64 m (entry t i))"
    and n: "pmm_alloc_page fr = (n, fr')" "n \<noteq> 0"
    and m': "m' = wr64 (zero_table n m) (entry t i) (n OR PAGE_PRESENT OR PAGE_WRITE OR PAGE_USER)"
  shows "wf_tables m' fr' root \<and> pmm_ok fr' \<and> table_at m' root (p @ [i]) = Some n \<and>
    (\<forall>v. xlate m' root v = xlate m root v) \<and> table_frames m' root \<subseteq> insert (frame_of n) (table_frames m root) \<and>
    (\<forall>x. frame_of x \<noteq> frame_of n \<longrightarrow> frame_of x \<noteq> frame_of t \<longrightarrow> m' x = m x) \<and> (plain_top m root \<longrightarrow> plain_top m' root)"
proof -
  note a = alloc_facts [OF ok(2) n]
  have z: "agrees_off n (zero_table n m) m"
    using a(2) n(2) by (simp add: agrees_off_def rd64_zero_table)
  note I = install_table [OF ok(1) T pi a(2,3) z m']
  have zero: "entry_at m' root (p @ [i]) j = Some 0" if "j < 512" for j
    using I(2) I(3) [OF that] that a(2) n(2) by (simp add: entry_at_def rd64_zero_table)
  have below: "table_at m' root (p @ i # j # q) = None" if "valid_path (p @ i # j # q)" for j q
  proof -
    have "j < 512" using that by (auto simp: valid_path_def)
    from zero [OF this] have "table_at m' root ((p @ [i]) @ [j]) = None"
      by (simp only: table_at_snoc) (simp add: next_table_def present_def)
    then show ?thesis
      using table_at_append [of m' root "(p @ [i]) @ [j]" q] by simp
  qed
  have "wf_tables m' fr' root"
    by (rule wf_extend [OF ok(1) I(1) pi I(2) n(2) a(3,4)]) (rule below)
  moreover have "plain_top m root \<longrightarrow> plain_top m' root"
  proof
    assume pt: "plain_top m root"
    show "plain_top m' root"
    proof (rule plain_top_step [OF I(1) _ _ pt])
      show "\<exists>n. table_at m' root (p @ [i]) = Some n" using I(2) by blast
      show "\<forall>j < 512. \<forall>e. entry_at m' root (p @ [i]) j = Some e \<longrightarrow> \<not> present e"
        using zero by (simp add: present_def)
    qed
  qed
  moreover have "table_frames m' root \<subseteq> insert (frame_of n) (table_frames m root)"
    using extend_tables [OF I(1,2) below] by (auto simp: table_frames_def)
  moreover have "m' x = m x" if "frame_of x \<noteq> frame_of n" "frame_of x \<noteq> frame_of t" for x
    using that table_at_aligned [OF wf_tablesD(1) [OF ok(1)] T] valid_path_snoc [OF pi] a(2) n(2)
    by (simp add: m' zero_table_def wr64_frame wr64s_frame)
  moreover have "xlate m' root v = xlate m root v" for v
  proof (cases "prefix (p @ [i]) (path4 v)")
    case True
    have "xlate m root v = 0"
      by (rule xlate_not_present [OF True _ np]) (simp add: entry_at_def T)
    moreover have "length (p @ [i]) < 4" using pi by (simp add: valid_path_def)
    then obtain j where j: "prefix ((p @ [i]) @ [j]) (path4 v)" "j < 512"
      by (rule path4_next [OF True])
    have "xlate m' root v = 0"
      by (rule xlate_not_present [OF j(1) zero [OF j(2)]]) (simp add: present_def)
    ultimately show ?thesis by simp
  next
    case False
    then show ?thesis by (rule xlate_unchanged [OF I(1)])
  qed
  ultimately show ?thesis using a(1) I(2) by simp
qed

section \<open>Splitting a 2 MiB page\<close>

lemma split_pte:
  assumes "i < 512" and "present v"
  defines "e \<equiv> (huge_base v + of_nat i * PAGE_SIZE) OR (v AND (PAGE_PRESENT OR PAGE_WRITE OR PAGE_USER))"
  shows "present e" and "page_base e = huge_base v OR push_bit 12 (of_nat i)"
proof -
  have iw: "of_nat i * PAGE_SIZE = push_bit 12 (of_nat i :: u64)"
    by (simp add: PAGE_SIZE_def push_bit_eq_mult)
  have "take_bit 9 (of_nat i :: u64) = of_nat i"
  proof -
    have "take_bit 9 i = i" using assms(1) by (simp add: take_bit_nat_eq_self)
    then show ?thesis using of_nat_take_bit [of 9 i, where 'a = u64] by simp
  qed
  then have small: "bit (of_nat i :: u64) k \<Longrightarrow> k < 9" for k
    by (metis bit_take_bit_iff)
  have "huge_base v + push_bit 12 (of_nat i) = huge_base v OR push_bit 12 (of_nat i)"
    by (rule disjunctive_add_eq_or, rule bit_word_eqI)
      (auto simp: bit_and_iff bit_huge_base bit_push_bit_iff dest: small)
  moreover have fl: "bit (v AND (PAGE_PRESENT OR PAGE_WRITE OR PAGE_USER)) k \<longleftrightarrow> bit v k \<and> k < 3" for k
    by (auto simp: flags_mask bit_and_iff bit_mask_iff)
  ultimately have e: "bit e k \<longleftrightarrow> 21 \<le> k \<and> bit v k \<or> bit (push_bit 12 (of_nat i) :: u64) k \<or> bit v k \<and> k < 3" for k
    unfolding e_def iw by (simp add: bit_or_iff bit_huge_base)
  show "present e" using assms(2) by (simp add: present_bit e)
  show "page_base e = huge_base v OR push_bit 12 (of_nat i)"
    by (rule bit_word_eqI) (auto simp: bit_page_base e bit_or_iff bit_huge_base bit_push_bit_iff)
qed

lemma split_offset:
  "huge_base e OR push_bit 12 (of_nat (PT_IDX v)) OR page_off v = huge_base e OR huge_off v"
proof -
  have "of_nat (PT_IDX v) = (drop_bit 12 v AND 0x1FF)" by (simp add: PT_IDX_def)
  then show ?thesis
    by (intro bit_word_eqI)
      (auto simp: bit_or_iff bit_huge_base bit_huge_off bit_page_off bit_push_bit_iff mask_consts
        bit_and_iff bit_mask_iff bit_drop_bit_eq)
qed

lemma split_step:
  assumes ok: "wf_tables m fr root" "pmm_ok fr" and T: "table_at m root [i4, i3] = Some t"
    and pi: "valid_path [i4, i3, i2]" and v: "rd64 m (entry t i2) = e" "present e" "huge e"
    and n: "pmm_alloc_page fr = (n, fr')" "n \<noteq> 0"
    and m': "m' = wr64 (fold (\<lambda>i m. wr64 m (entry n i) ((huge_base e + of_nat i * PAGE_SIZE) OR
        (e AND (PAGE_PRESENT OR PAGE_WRITE OR PAGE_USER)))) [0..<512] m)
      (entry t i2) (n OR PAGE_PRESENT OR PAGE_WRITE OR PAGE_USER)"
  shows "wf_tables m' fr' root \<and> pmm_ok fr' \<and> table_at m' root [i4, i3, i2] = Some n \<and>
    (\<forall>w. xlate m' root w = xlate m root w) \<and> table_frames m' root \<subseteq> insert (frame_of n) (table_frames m root) \<and>
    (\<forall>x. frame_of x \<noteq> frame_of n \<longrightarrow> frame_of x \<noteq> frame_of t \<longrightarrow> m' x = m x) \<and> (plain_top m root \<longrightarrow> plain_top m' root)"
proof -
  let ?pte = "\<lambda>i. (huge_base e + of_nat i * PAGE_SIZE) OR (e AND (PAGE_PRESENT OR PAGE_WRITE OR PAGE_USER))"
  let ?mm = "fold (\<lambda>i m. wr64 m (entry n i) (?pte i)) [0..<512] m"
  note a = alloc_facts [OF ok(2) n]
  have z: "agrees_off n ?mm m"
    using a(2) by (simp add: agrees_off_def rd64_fold_entries)
  have T': "table_at m root [i4, i3] = Some t" "valid_path ([i4, i3] @ [i2])" using T pi by simp_all
  note I = install_table [OF ok(1) T' a(2,3) z m']
  have pt: "table_at m' root [i4, i3, i2] = Some n" using I(2) by simp
  have pte: "entry_at m' root [i4, i3, i2] j = Some (?pte j)" if "j < 512" for j
    using pt I(3) [OF that] that a(2) by (simp add: entry_at_def rd64_fold_entries del: table_at.simps)
  have "wf_tables m' fr' root"
    by (rule wf_extend [OF ok(1) I(1) T'(2) I(2) n(2) a(3,4)]) (simp add: valid_path_def)
  moreover have "plain_top m root \<longrightarrow> plain_top m' root"
    using plain_top_step [OF I(1)] I(2) by simp
  moreover have "table_frames m' root \<subseteq> insert (frame_of n) (table_frames m root)"
  proof -
    have "table_at m' root ([i4, i3] @ i2 # j # q) = None" if "valid_path ([i4, i3] @ i2 # j # q)" for j q
      using that by (simp add: valid_path_def)
    from extend_tables [OF I(1,2) this] show ?thesis by (auto simp: table_frames_def)
  qed
  moreover have "m' x = m x" if "frame_of x \<noteq> frame_of n" "frame_of x \<noteq> frame_of t" for x
    using that table_at_aligned [OF wf_tablesD(1) [OF ok(1)] T] pi a(2)
    by (simp add: m' valid_path_def wr64_frame wr64s_frame)
  moreover have "xlate m' root w = xlate m root w" for w
  proof (cases "prefix ([i4, i3] @ [i2]) (path4 w)")
    case True
    then have w: "i4 = PML4_IDX w" "i3 = PDP_IDX w" "i2 = PD_IDX w" by (auto simp: path4_def)
    have new: "\<exists>pde. entry_at m' root [i4, i3] i2 = Some pde \<and> present pde \<and> \<not> huge pde"
    proof -
      have "table_at m' root ([i4, i3] @ [i2]) = Some n" using pt by simp
      then show ?thesis unfolding table_at_snoc
        by (auto simp: next_table_def split: bind_splits if_splits)
    qed
    have old: "xlate m root w = huge_base e OR huge_off w"
      using T v by (simp add: xlate_def entry_at_def flip: w del: table_at.simps)
    from split_pte [OF idx_bound(4) v(2), of w] pte [OF idx_bound(4), of w] new
    have "xlate m' root w = (huge_base e OR push_bit 12 (of_nat (PT_IDX w))) OR page_off w"
      by (auto simp: xlate_def simp flip: w)
    with old show ?thesis by (simp add: or.assoc split_offset)
  next
    case False
    then show ?thesis by (rule xlate_unchanged [OF I(1)])
  qed
  ultimately show ?thesis using a(1) pt by blast
qed

section \<open>The operations keep the map\<close>

lemma vm_okD: "vm_ok root s \<Longrightarrow> wf_tables (pmem s) (frames s) root" "vm_ok root s \<Longrightarrow> pmm_ok (frames s)"
  by (simp_all add: vm_ok_def)

lemma entry_of_table_nonzero:
  assumes "vm_ok root s" "table_at (pmem s) root p = Some t" "valid_path (p @ [i])"
  shows "entry t i \<noteq> 0"
proof -
  have "valid_path p" "i < 512" using valid_path_snoc [OF assms(3)] by auto
  with assms show ?thesis
    using wf_tablesD(1,2) [OF vm_okD(1)] table_at_aligned entry_nonzero by metis
qed

lemma alloc_zero_same: "pmm_ok fr \<Longrightarrow> pmm_alloc_page fr = (0, fr') \<Longrightarrow> fr' = fr \<and> free_pages fr = {}"
  using pmm.alloc_nonzero [of fr 0 fr'] pmm.alloc_none [of fr] by auto

lemma writes_in_grow:
  assumes "vm_ok root s" "pmm_alloc_page (frames s) = (n, fr)" "n \<noteq> 0" "valid_path p" "table_at (pmem s) root p = Some t"
    and "table_frames m root \<subseteq> insert (frame_of n) (table_frames (pmem s) root) \<and>
      (\<forall>x. frame_of x \<noteq> frame_of n \<longrightarrow> frame_of x \<noteq> frame_of t \<longrightarrow> m x = pmem s x)"
  shows "writes_in root s (s\<lparr>frames := fr, pmem := m\<rparr>)"
proof -
  note a = alloc_facts [OF vm_okD(2) [OF assms(1)] assms(2,3), folded frame_of_def]
  show ?thesis using assms(6) table_framesI [OF assms(4,5)] a(3,4) by (auto simp: writes_in_def) metis
qed

lemma get_next_level_same:
  assumes ok: "vm_ok root s" and T: "table_at (pmem s) root p = Some t" and pi: "valid_path (p @ [i])"
    and r: "get_next_level (entry t i) a s = (n, s')"
  shows "same_map root s s'" and "n \<noteq> 0 \<Longrightarrow> table_at (pmem s') root (p @ [i]) = Some n"
proof -
  let ?v = "rd64 (pmem s) (entry t i)"
  have nz: "entry t i \<noteq> 0" by (rule entry_of_table_nonzero [OF ok T pi])
  have snoc: "table_at (pmem s) root (p @ [i]) = next_table ?v"
    by (simp add: table_at_snoc entry_at_def T)
  have "same_map root s s' \<and> (n \<noteq> 0 \<longrightarrow> table_at (pmem s') root (p @ [i]) = Some n)"
  proof (cases "present ?v \<or> \<not> a")
    case True
    with r nz ok snoc show ?thesis
      by (auto simp: get_next_level_def Let_def present_def huge_def next_table_def split: if_splits)
  next
    case False
    obtain k fr where al: "pmm_alloc_page (frames s) = (k, fr)" by fastforce
    show ?thesis
    proof (cases "k = 0")
      case True
      with alloc_zero_same [OF vm_okD(2) [OF ok]] al have "fr = frames s" by blast
      with True al False r nz ok show ?thesis
        by (auto simp: get_next_level_def Let_def present_def)
    next
      case k: False
      with False al r nz have "n = k" and s': "s' = s\<lparr>frames := fr, pmem := wr64 (zero_table k (pmem s))
          (entry t i) (k OR PAGE_PRESENT OR PAGE_WRITE OR PAGE_USER)\<rparr>"
        by (auto simp: get_next_level_def Let_def present_def)
      have "\<not> present ?v" using False by simp
      note N = new_table_step [OF vm_okD [OF ok] T pi this al k refl]
      have "writes_in root s s'" unfolding s'
        by (rule writes_in_grow [OF ok al k conjunct1 [OF valid_path_snoc [OF pi]] T]) (use N in blast)
      then show ?thesis using N \<open>n = k\<close>
        by (simp add: s' same_map_def vm_ok_def)
    qed
  qed
  then show "same_map root s s'" and "n \<noteq> 0 \<Longrightarrow> table_at (pmem s') root (p @ [i]) = Some n" by auto
qed

lemma get_next_level_success:
  assumes ok: "vm_ok root s" and T: "table_at (pmem s) root p = Some t" and pi: "valid_path (p @ [i])"
    and r: "get_next_level (entry t i) True s = (n, s')"
    and nh: "\<not> (present (rd64 (pmem s) (entry t i)) \<and> huge (rd64 (pmem s) (entry t i)))"
    and mem: "free_pages (frames s) \<noteq> {}"
  shows "n \<noteq> 0" and "card (free_pages (frames s)) \<le> Suc (card (free_pages (frames s')))"
proof -
  let ?v = "rd64 (pmem s) (entry t i)"
  have nz: "entry t i \<noteq> 0" by (rule entry_of_table_nonzero [OF ok T pi])
  have "n \<noteq> 0 \<and> card (free_pages (frames s)) \<le> Suc (card (free_pages (frames s')))"
  proof (cases "present ?v")
    case True
    then have "table_at (pmem s) root (p @ [i]) = Some (page_base ?v)"
      using nh by (simp add: table_at_snoc entry_at_def T next_table_def)
    then have "page_base ?v \<noteq> 0" by (rule wf_tablesD(2) [OF vm_okD(1) [OF ok] pi])
    with True r nz nh show ?thesis
      by (auto simp: get_next_level_def Let_def present_def huge_def split: if_splits)
  next
    case False
    obtain k fr where al: "pmm_alloc_page (frames s) = (k, fr)" by fastforce
    then have k: "k \<noteq> 0" using pmm.alloc_nonzero [OF vm_okD(2) [OF ok]] mem by blast
    note f = alloc_facts [OF vm_okD(2) [OF ok] al k]
    from False al r nz k have "n = k" "frames s' = fr"
      by (auto simp: get_next_level_def Let_def present_def)
    with k f show ?thesis by (simp add: card_Diff_singleton)
  qed
  then show "n \<noteq> 0" and "card (free_pages (frames s)) \<le> Suc (card (free_pages (frames s')))" by auto
qed

lemma split_huge_pde_same:
  assumes ok: "vm_ok root s" and T: "table_at (pmem s) root [i4, i3] = Some t"
    and pi: "valid_path [i4, i3, i2]" and v: "present e" "huge e" "rd64 (pmem s) (entry t i2) = e"
    and r: "split_huge_pde (entry t i2) s = (n, s')"
  shows "same_map root s s'" and "n \<noteq> 0 \<Longrightarrow> table_at (pmem s') root [i4, i3, i2] = Some n"
    and "n \<noteq> 0 \<longleftrightarrow> free_pages (frames s) \<noteq> {}"
proof -
  have nz: "entry t i2 \<noteq> 0" using entry_of_table_nonzero [OF ok T] pi by simp
  obtain k fr where al: "pmm_alloc_page (frames s) = (k, fr)" by fastforce
  have "same_map root s s' \<and> (n \<noteq> 0 \<longrightarrow> table_at (pmem s') root [i4, i3, i2] = Some n) \<and> n = k"
  proof (cases "k = 0")
    case True
    with alloc_zero_same [OF vm_okD(2) [OF ok]] al have "fr = frames s" by blast
    with True al r nz v ok show ?thesis
      by (auto simp: split_huge_pde_def Let_def present_def huge_def)
  next
    case k: False
    with al r nz v have "n = k" and s': "s' = s\<lparr>frames := fr, pmem :=
        wr64 (fold (\<lambda>i m. wr64 m (entry k i) ((huge_base e + of_nat i * PAGE_SIZE) OR
          (e AND (PAGE_PRESENT OR PAGE_WRITE OR PAGE_USER)))) [0..<512] (pmem s))
        (entry t i2) (k OR PAGE_PRESENT OR PAGE_WRITE OR PAGE_USER)\<rparr>"
      by (auto simp: split_huge_pde_def Let_def present_def huge_def)
    note N = split_step [OF vm_okD [OF ok] T pi v(3,1,2) al k refl]
    have p: "valid_path [i4, i3]" using pi by (simp add: valid_path_def)
    have "writes_in root s s'" unfolding s'
      by (rule writes_in_grow [OF ok al k p T]) (use N in blast)
    then show ?thesis using N \<open>n = k\<close>
      by (simp add: s' same_map_def vm_ok_def)
  qed
  then show "same_map root s s'" and "n \<noteq> 0 \<Longrightarrow> table_at (pmem s') root [i4, i3, i2] = Some n"
    and "n \<noteq> 0 \<longleftrightarrow> free_pages (frames s) \<noteq> {}"
    using pmm.alloc_nonzero [OF vm_okD(2) [OF ok] al] by auto
qed

text \<open>For an entry that is not a 2 MiB page, the code of \<open>vmm_map_page\<close> repeats \<open>get_next_level\<close>.\<close>

lemma map_page_pt_eq:
  assumes "pde \<noteq> 0" and "\<not> (present (rd64 (pmem s) pde) \<and> huge (rd64 (pmem s) pde))"
  shows "map_page_pt pde s = get_next_level pde True s"
  using assms by (auto simp: map_page_pt_def get_next_level_def Let_def present_def huge_def)

lemma map_page_pt_same:
  assumes ok: "vm_ok root s" and T: "table_at (pmem s) root [i4, i3] = Some t"
    and pi: "valid_path [i4, i3, i2]" and r: "map_page_pt (entry t i2) s = (n, s')"
  shows "same_map root s s'" and "n \<noteq> 0 \<Longrightarrow> table_at (pmem s') root [i4, i3, i2] = Some n"
    and "free_pages (frames s) \<noteq> {} \<Longrightarrow> n \<noteq> 0"
proof -
  let ?v = "rd64 (pmem s) (entry t i2)"
  have pi': "valid_path ([i4, i3] @ [i2])" using pi by simp
  have nz: "entry t i2 \<noteq> 0" by (rule entry_of_table_nonzero [OF ok T pi'])
  have "same_map root s s' \<and> (n \<noteq> 0 \<longrightarrow> table_at (pmem s') root [i4, i3, i2] = Some n) \<and>
      (free_pages (frames s) \<noteq> {} \<longrightarrow> n \<noteq> 0)"
  proof (cases "present ?v \<and> huge ?v")
    case True
    then have "split_huge_pde (entry t i2) s = (n, s')"
      using r by (simp add: map_page_pt_def Let_def present_def huge_def)
    from split_huge_pde_same [OF ok T pi _ _ refl this] True show ?thesis by blast
  next
    case False
    then have "get_next_level (entry t i2) True s = (n, s')"
      using r by (simp add: map_page_pt_eq [OF nz])
    from get_next_level_same [OF ok T pi' this] get_next_level_success(1) [OF ok T pi' this False]
    show ?thesis by simp
  qed
  then show "same_map root s s'" and "n \<noteq> 0 \<Longrightarrow> table_at (pmem s') root [i4, i3, i2] = Some n"
    and "free_pages (frames s) \<noteq> {} \<Longrightarrow> n \<noteq> 0" by auto
qed

section \<open>Writing a leaf\<close>

definition same_page :: "u64 \<Rightarrow> u64 \<Rightarrow> bool" where
  "same_page v w \<longleftrightarrow> drop_bit 12 (take_bit 48 v) = drop_bit 12 (take_bit 48 w)"

lemma idx_eq_iff:
  "unat (drop_bit k v AND 0x1FF) = unat (drop_bit k w AND 0x1FF) \<longleftrightarrow>
    (\<forall>n. n < 9 \<longrightarrow> bit v (k + n) = bit w (k + n))"
  for v w :: u64
proof -
  have "unat (drop_bit k v AND 0x1FF) = unat (drop_bit k w AND 0x1FF) \<longleftrightarrow>
      drop_bit k v AND 0x1FF = drop_bit k w AND 0x1FF" by (metis unsigned_word_eqI)
  also have "\<dots> \<longleftrightarrow> (\<forall>n. n < 9 \<longrightarrow> bit v (k + n) = bit w (k + n))"
    by (auto simp: bit_eq_iff mask_consts bit_and_iff bit_mask_iff bit_drop_bit_eq)
      (metis order.strict_trans numeral_less_iff semiring_norm(76,78,81))+
  finally show ?thesis .
qed

lemma bits_split:
  "(\<forall>n. 12 \<le> n \<and> n < 48 \<longrightarrow> P n) \<longleftrightarrow> (\<forall>n < 9. P (39 + n)) \<and> (\<forall>n < 9. P (30 + n)) \<and>
    (\<forall>n < 9. P (21 + n)) \<and> (\<forall>n < (9 :: nat). P (12 + n))"
proof -
  have "P n" if h: "\<forall>n < 9. P (39 + n)" "\<forall>n < 9. P (30 + n)" "\<forall>n < 9. P (21 + n)" "\<forall>n < 9. P (12 + n)"
    and n: "12 \<le> n" "n < 48" for n
  proof -
    consider "n < 21" | "21 \<le> n" "n < 30" | "30 \<le> n" "n < 39" | "39 \<le> n" by linarith
    then show ?thesis
    proof cases
      case 1 then show ?thesis using h(4) [rule_format, of "n - 12"] n by simp
    next
      case 2 then show ?thesis using h(3) [rule_format, of "n - 21"] by simp
    next
      case 3 then show ?thesis using h(2) [rule_format, of "n - 30"] by simp
    next
      case 4 then show ?thesis using h(1) [rule_format, of "n - 39"] n by simp
    qed
  qed
  then show ?thesis by auto
qed

lemma path4_eq_iff: "path4 v = path4 w \<longleftrightarrow> same_page v w"
proof -
  have b: "bit (drop_bit 12 (take_bit 48 x)) n \<longleftrightarrow> n + 12 < 48 \<and> bit x (n + 12)" for x :: u64 and n
    by (auto simp: bit_drop_bit_eq bit_take_bit_iff add.commute)
  have "same_page v w \<longleftrightarrow> (\<forall>n. 12 \<le> n \<and> n < 48 \<longrightarrow> bit v n = bit w n)"
  proof
    assume "same_page v w"
    then have eq: "bit (drop_bit 12 (take_bit 48 v)) n = bit (drop_bit 12 (take_bit 48 w)) n" for n
      by (simp only: same_page_def)
    show "\<forall>n. 12 \<le> n \<and> n < 48 \<longrightarrow> bit v n = bit w n"
    proof (intro allI impI)
      fix n :: nat assume "12 \<le> n \<and> n < 48"
      then show "bit v n = bit w n" using eq [of "n - 12", unfolded b] by simp
    qed
  next
    assume "\<forall>n. 12 \<le> n \<and> n < 48 \<longrightarrow> bit v n = bit w n"
    then have "n + 12 < 48 \<Longrightarrow> bit v (n + 12) = bit w (n + 12)" for n by simp
    then show "same_page v w" unfolding same_page_def
      by (intro bit_word_eqI) (metis b)
  qed
  then show ?thesis
    by (simp add: bits_split path4_def PML4_IDX_def PDP_IDX_def PD_IDX_def PT_IDX_def idx_eq_iff)
qed

lemma writes_in_invlpg [simp]: "writes_in root s (t\<lparr>invlpg_log := l\<rparr>) = writes_in root s t"
  by (simp add: writes_in_def)

lemma leaf_write:
  assumes ok: "vm_ok root s" and T: "table_at (pmem s) root [PML4_IDX v, PDP_IDX v, PD_IDX v] = Some t"
    and s': "s' = s\<lparr>pmem := wr64 (pmem s) (entry t (PT_IDX v)) e\<rparr>"
  shows "vm_ok root s'"
    and "same_page w v \<Longrightarrow> xlate (pmem s') root w = (if present e then page_base e OR page_off w else 0)"
    and "\<not> same_page w v \<Longrightarrow> xlate (pmem s') root w = xlate (pmem s) root w"
    and "writes_in root s s'" and "plain_top (pmem s) root \<Longrightarrow> plain_top (pmem s') root"
proof -
  let ?p = "[PML4_IDX v, PDP_IDX v, PD_IDX v]" and ?i = "PT_IDX v"
  note D = wf_tablesD [OF vm_okD(1) [OF ok]]
  note al = table_at_aligned [OF D(1)]
  have ch: "only_entry_changes (pmem s) (pmem s') root ?p ?i"
    unfolding only_entry_changes_def
  proof (intro allI impI)
    fix q u j assume q: "valid_path q" "j < 512" "table_at (pmem s) root q = Some u" "q @ [j] \<noteq> ?p @ [?i]"
    have "\<not> (t = u \<and> ?i = j)" using D(4) [OF q(1) valid_path_path4(3) q(3)] T q(4) by auto
    then show "rd64 (pmem s') (entry u j) = rd64 (pmem s) (entry u j)"
      using al [OF q(3)] al [OF T] q(2) by (auto simp: s' rd64_wr64_entry)
  qed
  have same: "table_at (pmem s') root q = table_at (pmem s) root q" if "valid_path q" for q
  proof -
    have "length q \<le> 3" using that by (simp add: valid_path_def)
    then have "\<not> prefix (?p @ [?i]) q" by (auto dest!: prefix_length_le)
    then show ?thesis by (rule table_at_unchanged [OF ch that])
  qed
  then show "vm_ok root s'" using ok by (simp add: vm_ok_def wf_tables_def s')
  have "entry_at (pmem s') root q j = entry_at (pmem s) root q j" if "length q \<le> 1" "valid_path (q @ [j])" for q j
    using that valid_path_snoc [OF that(2)] by (intro entry_at_unchanged [OF ch]) (auto dest!: prefix_length_le)
  then show "plain_top (pmem s) root \<Longrightarrow> plain_top (pmem s') root" unfolding plain_top_def by metis
  have "table_frames (pmem s') root = table_frames (pmem s) root" by (simp add: table_frames_def same cong: conj_cong)
  moreover have "pmem s' x = pmem s x" if "frame_of x \<noteq> frame_of t" for x
    using wr64_frame [OF al [OF T] idx_bound(4) that] by (simp add: s')
  ultimately show "writes_in root s s'"
    using table_framesI [OF valid_path_path4(3) T] by (auto simp: writes_in_def s') metis
  show "xlate (pmem s') root w = xlate (pmem s) root w" if "\<not> same_page w v"
  proof (rule xlate_unchanged [OF ch])
    have "?p @ [?i] = path4 v" by (simp add: path4_def)
    moreover have "prefix (path4 v) (path4 w) \<longleftrightarrow> path4 v = path4 w"
      by (auto simp: path4_def)
    ultimately show "\<not> prefix (?p @ [?i]) (path4 w)" using that path4_eq_iff by metis
  qed
  show "xlate (pmem s') root w = (if present e then page_base e OR page_off w else 0)"
    if w: "same_page w v"
  proof -
    have idx: "PML4_IDX w = PML4_IDX v" "PDP_IDX w = PDP_IDX v" "PD_IDX w = PD_IDX v" "PT_IDX w = PT_IDX v"
      using w unfolding path4_eq_iff [symmetric] path4_def by simp_all
    have pt: "table_at (pmem s') root ?p = Some t" using same [OF valid_path_path4(3)] T by simp
    then have "table_at (pmem s') root ([PML4_IDX v, PDP_IDX v] @ [PD_IDX v]) = Some t" by simp
    then obtain pde where "entry_at (pmem s') root [PML4_IDX v, PDP_IDX v] (PD_IDX v) = Some pde"
      "present pde" "\<not> huge pde"
      unfolding table_at_snoc by (auto simp: next_table_def split: bind_splits if_splits)
    moreover have "entry_at (pmem s') root ?p (PT_IDX v) = Some e"
      using pt al [OF T] by (simp add: entry_at_def s' rd64_wr64_same del: table_at.simps)
    ultimately show ?thesis by (simp add: xlate_def idx)
  qed
qed

section \<open>\<open>vmm_virt_to_phys\<close> computes the translation\<close>

lemma get_next_level_walk:
  assumes ok: "vm_ok root s" and T: "table_at (pmem s) root p = Some t" and pi: "valid_path (p @ [i])"
  shows "get_next_level (entry t i) False s =
    ((case table_at (pmem s) root (p @ [i]) of None \<Rightarrow> 0 | Some u \<Rightarrow> u), s)"
proof -
  have "entry t i \<noteq> 0" by (rule entry_of_table_nonzero [OF ok T pi])
  moreover have "table_at (pmem s) root (p @ [i]) = next_table (rd64 (pmem s) (entry t i))"
    by (simp add: table_at_snoc entry_at_def T)
  ultimately show ?thesis
    by (simp add: get_next_level_def Let_def next_table_def present_def huge_def)
qed

lemma root_nonzero: "vm_ok root s \<Longrightarrow> root \<noteq> 0"
  using wf_tablesD(2) [of _ _ root "[]" root] by (auto simp: vm_ok_def valid_path_def)

lemma vmm_virt_to_phys_xlate:
  assumes ok: "vm_ok root s" shows "vmm_virt_to_phys root v s = xlate (pmem s) root v"
proof -
  let ?t1 = "table_at (pmem s) root ([] @ [PML4_IDX v])"
  let ?t2 = "table_at (pmem s) root ([PML4_IDX v] @ [PDP_IDX v])"
  note nz = wf_tablesD(2) [OF vm_okD(1) [OF ok]]
  have w1: "get_next_level (entry root (PML4_IDX v)) False s =
      ((case table_at (pmem s) root [PML4_IDX v] of None \<Rightarrow> 0 | Some u \<Rightarrow> u), s)"
    using get_next_level_walk [OF ok table_at.simps(1), of "PML4_IDX v"] by (simp del: table_at.simps)
  show ?thesis
  proof (cases ?t1)
    case None
    then show ?thesis using root_nonzero [OF ok] w1
      by (simp add: vmm_virt_to_phys_def xlate_def entry_at_def split: bind_splits)
  next
    case (Some pdp)
    then have pdp: "table_at (pmem s) root [PML4_IDX v] = Some pdp" by simp
    note w2 = get_next_level_walk [OF ok pdp, of "PDP_IDX v"]
    show ?thesis
    proof (cases ?t2)
      case None
      then show ?thesis using root_nonzero [OF ok] w1 w2 pdp nz [OF valid_path_path4(1) pdp]
        by (simp add: vmm_virt_to_phys_def xlate_def entry_at_def del: table_at.simps)
    next
      case (Some pd)
      then have pd: "table_at (pmem s) root [PML4_IDX v, PDP_IDX v] = Some pd" by simp
      let ?pde = "rd64 (pmem s) (entry pd (PD_IDX v))"
      have pt: "table_at (pmem s) root [PML4_IDX v, PDP_IDX v, PD_IDX v] = next_table ?pde"
        using table_at_snoc [of "pmem s" root "[PML4_IDX v, PDP_IDX v]" "PD_IDX v"] pd
        by (simp add: entry_at_def del: table_at.simps)
      have lhs: "vmm_virt_to_phys root v s =
          (if \<not> present ?pde then 0 else if huge ?pde then huge_base ?pde OR huge_off v
           else if page_base ?pde = 0 then 0
           else let pte = rd64 (pmem s) (entry (page_base ?pde) (PT_IDX v)) in
             if \<not> present pte then 0 else page_base pte OR page_off v)"
        using w1 w2 pdp pd nz [OF valid_path_path4(1) pdp] nz [OF valid_path_path4(2) pd] root_nonzero [OF ok]
        by (simp add: vmm_virt_to_phys_def Let_def present_def huge_def del: table_at.simps)
      have pde: "entry_at (pmem s) root [PML4_IDX v, PDP_IDX v] (PD_IDX v) = Some ?pde"
        using pd by (simp add: entry_at_def del: table_at.simps)
      show ?thesis
      proof (cases "present ?pde \<and> \<not> huge ?pde")
        case True
        then have "table_at (pmem s) root [PML4_IDX v, PDP_IDX v, PD_IDX v] = Some (page_base ?pde)"
          using pt by (simp add: next_table_def)
        then have "entry_at (pmem s) root [PML4_IDX v, PDP_IDX v, PD_IDX v] (PT_IDX v) =
            Some (rd64 (pmem s) (entry (page_base ?pde) (PT_IDX v)))"
          and "page_base ?pde \<noteq> 0"
          using nz [OF valid_path_path4(3)] by (simp_all add: entry_at_def del: table_at.simps)
        with True show ?thesis by (simp add: lhs xlate_def pde Let_def)
      next
        case False
        then show ?thesis by (auto simp: lhs xlate_def pde)
      qed
    qed
  qed
qed

section \<open>\<open>vmm_map_page\<close> and \<open>vmm_unmap_page\<close>\<close>

text \<open>The three steps down to the last-level table, as one lemma.\<close>

lemma vmm_map_page_cases:
  assumes ok: "vm_ok root s" and s': "s' = vmm_map_page root virt phys flags s"
  obtains "same_map root s s'" |
    s3 pt where "same_map root s s3"
      "table_at (pmem s3) root [PML4_IDX virt, PDP_IDX virt, PD_IDX virt] = Some pt"
      "s' = s3\<lparr>pmem := wr64 (pmem s3) (entry pt (PT_IDX virt)) (page_base phys OR flags OR PAGE_PRESENT),
        invlpg_log := virt # invlpg_log s3\<rparr>"
proof -
  obtain pdp s1 where g1: "get_next_level (entry root (PML4_IDX virt)) True s = (pdp, s1)" by fastforce
  note L1 = get_next_level_same [OF ok, of "[]" root "PML4_IDX virt", simplified, OF g1]
  show thesis
  proof (cases "pdp = 0")
    case True
    then have "same_map root s s'" using L1 g1 root_nonzero [OF ok] by (simp add: s' vmm_map_page_def)
    then show thesis by (rule that)
  next
    case pdp: False
    have ok1: "vm_ok root s1" using L1 by (simp add: same_map_def)
    have T1: "table_at (pmem s1) root [PML4_IDX virt] = Some pdp" using L1(2) pdp by simp
    obtain pd s2 where g2: "get_next_level (entry pdp (PDP_IDX virt)) True s1 = (pd, s2)" by fastforce
    note L2 = get_next_level_same [OF ok1 T1 _ g2]
    have s2: "same_map root s s2" using same_map_trans L1(1) L2(1) by simp
    show thesis
    proof (cases "pd = 0")
      case True
      then have "same_map root s s'" using s2 g1 g2 pdp root_nonzero [OF ok] by (simp add: s' vmm_map_page_def)
      then show thesis by (rule that)
    next
      case pd: False
      have ok2: "vm_ok root s2" using s2 by (simp add: same_map_def)
      have T2: "table_at (pmem s2) root [PML4_IDX virt, PDP_IDX virt] = Some pd" using L2(2) pd by simp
      obtain pt s3 where g3: "map_page_pt (entry pd (PD_IDX virt)) s2 = (pt, s3)" by fastforce
      note L3 = map_page_pt_same [OF ok2 T2 valid_path_path4(3) g3]
      have s3: "same_map root s s3" using same_map_trans s2 L3(1) by blast
      show thesis
      proof (cases "pt = 0")
        case True
        then have "same_map root s s'" using s3 g1 g2 g3 pdp pd root_nonzero [OF ok]
          by (simp add: s' vmm_map_page_def)
        then show thesis by (rule that)
      next
        case pt: False
        show thesis
          by (rule that(2) [OF s3 L3(2) [OF pt]])
            (use g1 g2 g3 pdp pd pt root_nonzero [OF ok] in \<open>simp add: s' vmm_map_page_def\<close>)
      qed
    qed
  qed
qed

lemma vmm_map_page_effect:
  assumes ok: "vm_ok root s" and fl: "page_base flags = 0" and s': "s' = vmm_map_page root virt phys flags s"
  shows "vm_ok root s' \<and> writes_in root s s' \<and> kernel_pml4 s' = kernel_pml4 s \<and>
    (plain_top (pmem s) root \<longrightarrow> plain_top (pmem s') root) \<and>
    ((invlpg_log s' = invlpg_log s \<and> (\<forall>v. vmm_virt_to_phys root v s' = vmm_virt_to_phys root v s)) \<or>
     (invlpg_log s' = virt # invlpg_log s \<and>
      (\<forall>v. vmm_virt_to_phys root v s' =
        (if same_page v virt then page_base phys OR page_off v else vmm_virt_to_phys root v s))))"
proof (rule vmm_map_page_cases [OF ok s'])
  assume "same_map root s s'"
  then show ?thesis using ok by (auto simp: same_map_def vmm_virt_to_phys_xlate)
next
  fix s3 pt
  assume s3: "same_map root s s3"
    and T: "table_at (pmem s3) root [PML4_IDX virt, PDP_IDX virt, PD_IDX virt] = Some pt"
    and e: "s' = s3\<lparr>pmem := wr64 (pmem s3) (entry pt (PT_IDX virt)) (page_base phys OR flags OR PAGE_PRESENT),
      invlpg_log := virt # invlpg_log s3\<rparr>"
  let ?e = "page_base phys OR flags OR PAGE_PRESENT"
  have ok3: "vm_ok root s3" using s3 by (simp add: same_map_def)
  note W = leaf_write [OF ok3 T refl, where e = ?e]
  have one: "bit PAGE_PRESENT n \<longleftrightarrow> n = 0" for n
    by (simp add: PAGE_PRESENT_def bit_1_iff)
  have "bit flags n \<Longrightarrow> n < 12" for n
    using fl bit_page_base [of flags n] by (auto simp: not_less)
  then have pb: "page_base ?e = page_base phys"
    by (intro bit_word_eqI) (auto simp: bit_page_base bit_or_iff one not_less [symmetric])
  have pr: "present ?e" by (simp add: present_bit bit_or_iff one)
  have ok': "vm_ok root s'" using W(1) by (simp add: vm_ok_def e)
  moreover have "vmm_virt_to_phys root v s' =
      (if same_page v virt then page_base phys OR page_off v else vmm_virt_to_phys root v s)" for v
    using W(2,3) [of v] s3 pb pr unfolding vmm_virt_to_phys_xlate [OF ok'] vmm_virt_to_phys_xlate [OF ok]
    by (simp add: e same_map_def)
  moreover have "writes_in root s s'"
    unfolding e using writes_in_trans [OF _ W(4)] s3 by (simp add: same_map_def)
  moreover have "plain_top (pmem s) root \<longrightarrow> plain_top (pmem s') root"
    unfolding e using W(5) s3 by (simp add: same_map_def)
  ultimately show ?thesis using s3 by (simp add: same_map_def e)
qed

lemma get_next_level_entries:
  assumes ok: "vm_ok root s" and T: "table_at (pmem s) root p = Some t" and pi: "valid_path (p @ [i])"
    and r: "get_next_level (entry t i) a s = (n, s')" and n: "n \<noteq> 0"
  shows "s' = s \<or> (\<forall>j < 512. rd64 (pmem s') (entry n j) = 0)"
proof (cases "present (rd64 (pmem s) (entry t i)) \<or> \<not> a")
  case True
  then show ?thesis using r entry_of_table_nonzero [OF ok T pi] n
    by (auto simp: get_next_level_def Let_def present_def split: if_splits)
next
  case False
  obtain k fr where al: "pmm_alloc_page (frames s) = (k, fr)" by fastforce
  with False r n entry_of_table_nonzero [OF ok T pi] have k: "n = k" "k \<noteq> 0"
    and m: "pmem s' = wr64 (zero_table k (pmem s)) (entry t i) (k OR PAGE_PRESENT OR PAGE_WRITE OR PAGE_USER)"
    by (auto simp: get_next_level_def Let_def present_def split: if_splits)
  note a = alloc_facts [OF vm_okD(2) [OF ok] al k(2)]
  have "agrees_off k (zero_table k (pmem s)) (pmem s)"
    using a(2) k(2) by (simp add: agrees_off_def rd64_zero_table)
  from install_table(3) [OF vm_okD(1) [OF ok] T pi a(2,3) this m] a(2) k show ?thesis
    by (simp add: rd64_zero_table)
qed

text \<open>No 1 GiB page, and no huge bit in the root, on the way to an address.\<close>

definition no_big_page :: "u64 \<Rightarrow> u64 \<Rightarrow> vm_state \<Rightarrow> bool" where
  "no_big_page root v s \<longleftrightarrow>
    (\<forall>e. entry_at (pmem s) root [] (PML4_IDX v) = Some e \<longrightarrow> \<not> (present e \<and> huge e)) \<and>
    (\<forall>e. entry_at (pmem s) root [PML4_IDX v] (PDP_IDX v) = Some e \<longrightarrow> \<not> (present e \<and> huge e))"

lemma plain_top_no_big_page: "plain_top (pmem s) root \<Longrightarrow> no_big_page root v s"
  using plain_topD [of "pmem s" root "[]" "PML4_IDX v"] plain_topD [of "pmem s" root "[PML4_IDX v]" "PDP_IDX v"]
  by (auto simp: no_big_page_def)

lemma vmm_map_page_logs:
  assumes ok: "vm_ok root s" and nb: "no_big_page root virt s" and mem: "3 \<le> card (free_pages (frames s))"
  shows "invlpg_log (vmm_map_page root virt phys flags s) = virt # invlpg_log s"
proof -
  note rz = root_nonzero [OF ok]
  have avail: "1 \<le> card (free_pages f) \<Longrightarrow> free_pages f \<noteq> {}" for f by auto
  have T0: "table_at (pmem s) root [] = Some root" by simp
  obtain pdp s1 where g1: "get_next_level (entry root (PML4_IDX virt)) True s = (pdp, s1)" by fastforce
  have v1: "valid_path ([] @ [PML4_IDX virt])" by simp
  note L1 = get_next_level_same [OF ok T0 v1 g1]
  have nh: "\<not> (present (rd64 (pmem s) (entry root (PML4_IDX virt))) \<and> huge (rd64 (pmem s) (entry root (PML4_IDX virt))))"
    using nb by (simp add: no_big_page_def entry_at_def)
  note S1 = get_next_level_success [OF ok T0 v1 g1 nh]
  have pdp: "pdp \<noteq> 0" and c1: "2 \<le> card (free_pages (frames s1))"
    using S1 mem avail by fastforce+
  have ok1: "vm_ok root s1" using L1 by (simp add: same_map_def)
  have T1: "table_at (pmem s1) root [PML4_IDX virt] = Some pdp" using L1(2) pdp by simp
  have v2: "valid_path ([PML4_IDX virt] @ [PDP_IDX virt])" by simp
  obtain pd s2 where g2: "get_next_level (entry pdp (PDP_IDX virt)) True s1 = (pd, s2)" by fastforce
  have nh2: "\<not> (present (rd64 (pmem s1) (entry pdp (PDP_IDX virt))) \<and> huge (rd64 (pmem s1) (entry pdp (PDP_IDX virt))))"
    using get_next_level_entries [OF ok T0 v1 g1 pdp]
  proof
    assume "s1 = s"
    with T1 nb show ?thesis by (simp add: no_big_page_def entry_at_def del: table_at.simps)
  qed (simp add: present_def)
  note L2 = get_next_level_same [OF ok1 T1 v2 g2] and S2 = get_next_level_success [OF ok1 T1 v2 g2 nh2]
  have pd: "pd \<noteq> 0" and c2: "1 \<le> card (free_pages (frames s2))"
    using S2 c1 avail by fastforce+
  have ok2: "vm_ok root s2" using L2 by (simp add: same_map_def)
  have T2: "table_at (pmem s2) root [PML4_IDX virt, PDP_IDX virt] = Some pd" using L2(2) pd by simp
  obtain pt s3 where g3: "map_page_pt (entry pd (PD_IDX virt)) s2 = (pt, s3)" by fastforce
  note L3 = map_page_pt_same [OF ok2 T2 valid_path_path4(3) g3]
  have "pt \<noteq> 0" using L3(3) avail [OF c2] by blast
  then show ?thesis using rz pdp pd g1 g2 g3 L1(1) L2(1) L3(1)
    by (simp add: vmm_map_page_def same_map_def)
qed

lemma vmm_unmap_page_effect:
  assumes ok: "vm_ok root s" and mem: "free_pages (frames s) \<noteq> {}" and s': "s' = vmm_unmap_page root virt s"
  shows "vm_ok root s' \<and> (\<forall>v. vmm_virt_to_phys root v s' =
    (if same_page v virt then 0 else vmm_virt_to_phys root v s)) \<and> writes_in root s s' \<and> kernel_pml4 s' = kernel_pml4 s"
proof -
  let ?p1 = "[PML4_IDX virt]" and ?p2 = "[PML4_IDX virt, PDP_IDX virt]"
    and ?p3 = "[PML4_IDX virt, PDP_IDX virt, PD_IDX virt]"
  note rz = root_nonzero [OF ok] and nz = wf_tablesD(2) [OF vm_okD(1) [OF ok]]
  have same_idx: "PML4_IDX v = PML4_IDX virt \<and> PDP_IDX v = PDP_IDX virt \<and> PD_IDX v = PD_IDX virt \<and>
      PT_IDX v = PT_IDX virt" if "same_page v virt" for v
    using that unfolding path4_eq_iff [symmetric] path4_def by simp
  have unmapped: ?thesis if "s' = s" and "xlate (pmem s) root virt = 0"
    "\<And>v. same_page v virt \<Longrightarrow> xlate (pmem s) root v = 0"
    using that ok by (simp add: vmm_virt_to_phys_xlate writes_in_refl)
  have w1: "get_next_level (entry root (PML4_IDX virt)) False s =
      ((case table_at (pmem s) root ?p1 of None \<Rightarrow> 0 | Some u \<Rightarrow> u), s)"
    using get_next_level_walk [OF ok table_at.simps(1), of "PML4_IDX virt"] by (simp del: table_at.simps)
  show ?thesis
  proof (cases "table_at (pmem s) root ?p2")
    case None
    have x0: "xlate (pmem s) root v = 0" if "same_page v virt" for v
      using same_idx [OF that] None by (simp add: xlate_def entry_at_def del: table_at.simps)
    moreover have "s' = s"
    proof (cases "table_at (pmem s) root ?p1")
      case None
      with w1 rz show ?thesis by (simp add: s' vmm_unmap_page_def del: table_at.simps)
    next
      case (Some pdp)
      with w1 rz nz [OF valid_path_path4(1) Some] None get_next_level_walk [OF ok Some, of "PDP_IDX virt"]
      show ?thesis by (simp add: s' vmm_unmap_page_def del: table_at.simps)
    qed
    ultimately show ?thesis using ok by (simp add: vmm_virt_to_phys_xlate writes_in_refl)
  next
    case (Some pd)
    then obtain pdp where pdp: "table_at (pmem s) root ?p1 = Some pdp"
      by (auto split: bind_splits)
    note w2 = get_next_level_walk [OF ok pdp, of "PDP_IDX virt"]
    let ?e = "entry pd (PD_IDX virt)" let ?v = "rd64 (pmem s) ?e"
    have code: "s' = (if \<not> huge ?v \<and> \<not> present ?v then s
        else let (pt, s) = (if huge ?v then split_huge_pde ?e s else (page_base ?v, s)) in
          if pt = 0 then s
          else s\<lparr>pmem := wr64 (pmem s) (entry pt (PT_IDX virt)) 0, invlpg_log := virt # invlpg_log s\<rparr>)"
      using w1 w2 rz pdp Some nz [OF valid_path_path4(1) pdp] nz [OF valid_path_path4(2) Some]
      by (simp add: s' vmm_unmap_page_def Let_def present_def huge_def del: table_at.simps split: prod.splits)
    have pde: "entry_at (pmem s) root ?p2 (PD_IDX virt) = Some ?v"
      using Some by (simp add: entry_at_def del: table_at.simps)
    have pt: "table_at (pmem s) root ?p3 = next_table ?v"
      using table_at_snoc [of "pmem s" root ?p2 "PD_IDX virt"] pde by simp
    show ?thesis
    proof (cases "present ?v")
      case False
      have "entry pd (PD_IDX virt) \<noteq> 0" by (rule entry_of_table_nonzero [OF ok Some]) simp
      then have "s' = s" using False code by (auto simp: split_huge_pde_def Let_def present_def)
      moreover have "xlate (pmem s) root v = 0" if "same_page v virt" for v
        using same_idx [OF that] pde False by (simp add: xlate_def)
      ultimately show ?thesis using ok by (simp add: vmm_virt_to_phys_xlate writes_in_refl)
    next
      case True
      obtain n s3 where n: "(if huge ?v then split_huge_pde ?e s else (page_base ?v, s)) = (n, s3)" by fastforce
      have s3: "same_map root s s3 \<and> n \<noteq> 0 \<and> table_at (pmem s3) root ?p3 = Some n"
      proof (cases "huge ?v")
        case h: True
        then have "split_huge_pde ?e s = (n, s3)" using n by simp
        from split_huge_pde_same [OF ok Some valid_path_path4(3) True h refl this] mem show ?thesis by blast
      next
        case False
        then have "table_at (pmem s) root ?p3 = Some (page_base ?v)" using True pt by (simp add: next_table_def)
        with nz [OF valid_path_path4(3) this] n False ok show ?thesis by (auto simp: next_table_def)
      qed
      have ok3: "vm_ok root s3" using s3 by (simp add: same_map_def)
      have e: "s' = s3\<lparr>pmem := wr64 (pmem s3) (entry n (PT_IDX virt)) 0, invlpg_log := virt # invlpg_log s3\<rparr>"
        using code True n s3 by simp
      note W = leaf_write [OF ok3 conjunct2 [OF conjunct2 [OF s3]] refl, where e = 0]
      have ok': "vm_ok root s'" using W(1) by (simp add: vm_ok_def e)
      have "xlate (pmem s') root v = (if same_page v virt then 0 else xlate (pmem s) root v)" for v
        using W(2,3) [of v] s3 by (simp add: e same_map_def present_def)
      moreover have "writes_in root s s'" "kernel_pml4 s' = kernel_pml4 s"
        unfolding e using writes_in_trans [OF _ W(4)] s3 by (simp_all add: same_map_def)
      ultimately show ?thesis using ok' by (simp add: vmm_virt_to_phys_xlate ok)
    qed
  qed
qed

end
