(* ===== verification/VmmBoot.thy ===== *)
theory VmmBoot
  imports VmmMap
begin

text \<open>
  The address space the kernel boots with, \<open>kernel/paging.c\<close>: four page
  directories of 2 MiB pages that map the first 4 GiB onto themselves.
\<close>

section \<open>The boot map\<close>

lemma rd64_fold_two:
  assumes "page_aligned a" "page_aligned b" "a \<noteq> b" "\<forall>i \<in> set is. i < 512" "page_aligned u" "j < 512"
  shows "rd64 (fold (\<lambda>i m. wr64 (wr64 m (entry a i) 0) (entry b i) 0) is m) (entry u j) =
    (if (u = a \<or> u = b) \<and> j \<in> set is then 0 else rd64 m (entry u j))"
  using assms by (induction "is" arbitrary: m) (auto simp: rd64_wr64_entry)

definition boot_tables :: "bitmap \<Rightarrow> u64 \<Rightarrow> u64 \<Rightarrow> (nat \<Rightarrow> u64) \<Rightarrow> bool" where
  "boot_tables fr pml4_table pdp_table pd_tables \<longleftrightarrow>
    (let ts = pml4_table # pdp_table # map pd_tables [0..<4] in
     distinct ts \<and> (\<forall>t \<in> set ts. page_aligned t \<and> t \<noteq> 0 \<and> unat t div 4096 \<notin> free_pages fr))"

definition boot_pde :: "nat \<Rightarrow> nat \<Rightarrow> u64" where
  "boot_pde i j = (of_nat i * 0x40000000 + of_nat j * 0x200000)
    OR PAGE_PRESENT OR PAGE_WRITE OR PAGE_USER OR PAGE_HUGE"

lemma paging_init_entries:
  assumes bt: "boot_tables fr pml4 pdp pd" and m: "m = pmem (paging_init pml4 pdp pd s)"
  shows "j < 512 \<Longrightarrow> rd64 m (entry pml4 j) = (if j = 0 then pdp OR PAGE_PRESENT OR PAGE_WRITE OR PAGE_USER else 0)"
    and "j < 512 \<Longrightarrow> rd64 m (entry pdp j) = (if j < 4 then pd j OR PAGE_PRESENT OR PAGE_WRITE OR PAGE_USER else 0)"
    and "i < 4 \<Longrightarrow> j < 512 \<Longrightarrow> rd64 m (entry (pd i) j) = boot_pde i j"
proof -
  have up: "[0..<4] = [0, 1, 2, 3 :: nat]" by (simp add: upt_rec)
  have al: "page_aligned pml4" "page_aligned pdp" "page_aligned (pd 0)" "page_aligned (pd 1)"
      "page_aligned (pd 2)" "page_aligned (pd 3)"
    and d: "distinct [pml4, pdp, pd 0, pd 1, pd 2, pd 3]"
    using bt by (simp_all add: boot_tables_def up)
  have ne: "distinct [pd 3, pd 2, pd 1, pd 0, pdp, pml4]" using d by auto
  note calc = m paging_init_def Let_def up init_pd_def rd64_fold_entries rd64_wr64_entry rd64_fold_two al
    boot_pde_def
  show "j < 512 \<Longrightarrow> rd64 m (entry pml4 j) = (if j = 0 then pdp OR PAGE_PRESENT OR PAGE_WRITE OR PAGE_USER else 0)"
    using d ne by (simp add: calc del: One_nat_def)
  show "j < 512 \<Longrightarrow> rd64 m (entry pdp j) = (if j < 4 then pd j OR PAGE_PRESENT OR PAGE_WRITE OR PAGE_USER else 0)"
  proof -
    assume j: "j < 512"
    consider "j = 0" | "j = 1" | "j = 2" | "j = 3" | "4 \<le> j" by linarith
    then show ?thesis by cases (use d ne j in \<open>simp_all add: calc del: One_nat_def\<close>)
  qed
  show "i < 4 \<Longrightarrow> j < 512 \<Longrightarrow> rd64 m (entry (pd i) j) = boot_pde i j"
  proof -
    assume "i < 4" and j: "j < 512"
    then consider "i = 0" | "i = 1" | "i = 2" | "i = 3" by linarith
    then show ?thesis by cases (use d ne j in \<open>simp_all add: calc del: One_nat_def\<close>)
  qed
qed

lemma boot_pde_facts:
  assumes "i < 4" "j < 512"
  shows "present (boot_pde i j)" "huge (boot_pde i j)"
    and "huge_base (boot_pde i j) = push_bit 30 (of_nat i) OR push_bit 21 (of_nat j)"
proof -
  have tb: "bit (of_nat n :: u64) k \<Longrightarrow> k < b" if "n < 2 ^ b" for n k b
  proof -
    have "take_bit b n = n" using that by (simp add: take_bit_nat_eq_self)
    then have "take_bit b (of_nat n :: u64) = of_nat n" using of_nat_take_bit [of b n, where 'a = u64] by simp
    then show "bit (of_nat n :: u64) k \<Longrightarrow> k < b" by (metis bit_take_bit_iff)
  qed
  have bi: "bit (of_nat i :: u64) k \<Longrightarrow> k < 2" for k using tb [of i 2] assms(1) by simp
  have bj: "bit (of_nat j :: u64) k \<Longrightarrow> k < 9" for k using tb [of j 9] assms(2) by simp
  have "of_nat i * 0x40000000 + of_nat j * 0x200000 = push_bit 30 (of_nat i) + push_bit 21 (of_nat j :: u64)"
    by (simp add: push_bit_eq_mult)
  also have "\<dots> = push_bit 30 (of_nat i) OR push_bit 21 (of_nat j)"
    by (rule disjunctive_add_eq_or, rule bit_word_eqI) (auto simp: bit_and_iff bit_push_bit_iff dest!: bj)
  finally have e: "boot_pde i j = (push_bit 30 (of_nat i) OR push_bit 21 (of_nat j)) OR mask 3 OR push_bit 7 1"
    by (simp add: boot_pde_def flags_mask [symmetric] PAGE_HUGE_def or.assoc)
  have b7: "bit (push_bit 7 1 :: u64) k \<longleftrightarrow> k = 7" for k
    by (auto simp: bit_push_bit_iff bit_1_iff simp del: push_bit_of_1)
  have b: "bit (boot_pde i j) k \<longleftrightarrow> bit (push_bit 30 (of_nat i) OR push_bit 21 (of_nat j) :: u64) k \<or> k < 3 \<or> k = 7" for k
    unfolding e by (auto simp: bit_or_iff bit_mask_iff b7 simp del: push_bit_of_1)
  then show "present (boot_pde i j)" "huge (boot_pde i j)" by (simp_all add: present_bit huge_bit)
  show "huge_base (boot_pde i j) = push_bit 30 (of_nat i) OR push_bit 21 (of_nat j)"
    by (rule bit_word_eqI) (auto simp: bit_huge_base b bit_or_iff bit_push_bit_iff)
qed

lemma next_table_0: "next_table 0 = None"
  by (simp add: next_table_def present_def)

lemma list_le3: "length p \<le> 3 \<Longrightarrow>
    p = [] \<or> (\<exists>i. p = [i]) \<or> (\<exists>i j. p = [i, j]) \<or> (\<exists>i j k. p = [i, j, k])"
  by (auto simp: le_Suc_eq length_Suc_conv numeral_3_eq_3)

lemma paging_init_tree:
  assumes bt: "boot_tables fr pml4 pdp pd" and m: "m = pmem (paging_init pml4 pdp pd s)"
    and vp: "valid_path p"
  shows "table_at m pml4 p = (case p of [] \<Rightarrow> Some pml4 | [i] \<Rightarrow> if i = 0 then Some pdp else None
    | [i, j] \<Rightarrow> if i = 0 \<and> j < 4 then Some (pd j) else None | _ \<Rightarrow> None)"
proof -
  note E = paging_init_entries [OF bt m]
  have al: "page_aligned pdp" "j < 4 \<Longrightarrow> page_aligned (pd j)" for j
    using bt by (auto simp: boot_tables_def)
  have n1: "next_table (rd64 m (entry pml4 i)) = (if i = 0 then Some pdp else None)" if "i < 512" for i
    using that E(1) al by (simp add: table_entry_next next_table_0)
  have n2: "next_table (rd64 m (entry pdp j)) = (if j < 4 then Some (pd j) else None)" if "j < 512" for j
    using that E(2) al by (simp add: table_entry_next next_table_0)
  have n3: "next_table (rd64 m (entry (pd j) k)) = None" if "j < 4" "k < 512" for j k
    using E(3) [OF that] boot_pde_facts(2) [OF that] by (simp add: next_table_def)
  have len: "length p \<le> 3" and lt: "\<forall>i \<in> set p. i < 512" using vp by (simp_all add: valid_path_def)
  consider "p = []" | i where "p = [i]" | i j where "p = [i, j]" | i j k where "p = [i, j, k]"
    using list_le3 [OF len] by blast
  then show ?thesis
    by cases (use lt n1 n2 n3 in auto)
qed

lemma paging_init_ok:
  assumes bt: "boot_tables (frames s) pml4 pdp pd" and fr: "pmm_ok (frames s)"
  shows "vm_ok pml4 (paging_init pml4 pdp pd s)"
proof -
  let ?m = "pmem (paging_init pml4 pdp pd s)"
  note tree = paging_init_tree [OF bt refl]
  have up: "[0..<4] = [0, 1, 2, 3 :: nat]" by (simp add: upt_rec)
  have d: "distinct (pml4 # pdp # map pd [0..<4])"
    and g: "\<forall>t \<in> set (pml4 # pdp # map pd [0..<4]). page_aligned t \<and> t \<noteq> 0 \<and> unat t div 4096 \<notin> free_pages (frames s)"
    using bt unfolding boot_tables_def Let_def by blast+
  have inj: "i < 4 \<Longrightarrow> j < 4 \<Longrightarrow> pd i = pd j \<Longrightarrow> i = j" for i j
    using d by (auto simp: distinct_map inj_on_def)
  have mem: "(p = [] \<and> t = pml4) \<or> (p = [0] \<and> t = pdp) \<or> (\<exists>j < 4. p = [0, j] \<and> t = pd j)"
    if "valid_path p" "table_at ?m pml4 p = Some t" for p t
    using that tree [OF that(1)] by (auto split: list.splits if_splits)
  have ts: "t \<in> set (pml4 # pdp # map pd [0..<4])" if "valid_path p" "table_at ?m pml4 p = Some t" for p t
    using mem [OF that] by auto
  have frs: "frames (paging_init pml4 pdp pd s) = frames s" by (simp add: paging_init_def Let_def)
  have "wf_tables ?m (frames s) pml4" unfolding wf_tables_def
  proof (intro conjI allI impI)
    show "page_aligned pml4" using g by simp
    fix p t assume p: "valid_path p" "table_at ?m pml4 p = Some t"
    then show "t \<noteq> 0" "unat t div 4096 \<notin> free_pages (frames s)" using g ts [OF p] by blast+
    fix q assume q: "valid_path q" "table_at ?m pml4 q = Some t"
    have "pml4 \<noteq> pdp" "pml4 \<notin> pd ` {..<4}" "pdp \<notin> pd ` {..<4}" using d by auto
    then show "p = q" using mem [OF p] mem [OF q] inj by (auto; metis imageI lessThan_iff)
  qed
  then show ?thesis using fr by (simp add: vm_ok_def frs)
qed

lemma of_nat_idx:
  "of_nat (PML4_IDX v) = drop_bit 39 v AND 0x1FF" "of_nat (PDP_IDX v) = drop_bit 30 v AND 0x1FF"
  "of_nat (PD_IDX v) = drop_bit 21 v AND 0x1FF" "of_nat (PT_IDX v) = drop_bit 12 v AND 0x1FF"
  by (simp_all add: PML4_IDX_def PDP_IDX_def PD_IDX_def PT_IDX_def)

lemma bit_idx:
  "bit (of_nat (PML4_IDX v) :: u64) n \<longleftrightarrow> n < 9 \<and> bit v (39 + n)"
  "bit (of_nat (PDP_IDX v) :: u64) n \<longleftrightarrow> n < 9 \<and> bit v (30 + n)"
  by (auto simp: of_nat_idx mask_consts bit_and_iff bit_mask_iff bit_drop_bit_eq)

lemma small_idx: "i < 2 ^ k \<longleftrightarrow> (\<forall>n. bit (of_nat i :: u64) n \<longrightarrow> n < k)" if "i < 512" "k < 64" for i k :: nat
proof -
  have i: "unat (of_nat i :: u64) = i" using that(1) by (simp add: unat_of_nat_u64)
  have "i < 2 ^ k \<longleftrightarrow> take_bit k i = i"
    by (simp add: take_bit_nat_eq_self_iff)
  also have "\<dots> \<longleftrightarrow> take_bit k (of_nat i :: u64) = of_nat i"
    by (metis i of_nat_take_bit unsigned_take_bit_eq)
  also have "\<dots> \<longleftrightarrow> (\<forall>n. bit (of_nat i :: u64) n \<longrightarrow> n < k)"
  proof
    assume "take_bit k (of_nat i :: u64) = of_nat i"
    then show "\<forall>n. bit (of_nat i :: u64) n \<longrightarrow> n < k" by (metis bit_take_bit_iff)
  next
    assume a: "\<forall>n. bit (of_nat i :: u64) n \<longrightarrow> n < k"
    show "take_bit k (of_nat i :: u64) = of_nat i"
      by (rule bit_word_eqI) (use a in \<open>simp only: bit_take_bit_iff, blast\<close>)
  qed
  finally show ?thesis .
qed

lemma low_4GiB: "PML4_IDX v = 0 \<and> PDP_IDX v < 4 \<longleftrightarrow> drop_bit 32 (take_bit 48 v) = 0"
proof -
  have "PML4_IDX v = 0 \<longleftrightarrow> PML4_IDX v < 2 ^ 0" by simp
  also have "\<dots> \<longleftrightarrow> (\<forall>n < 9. \<not> bit v (39 + n))"
    by (subst small_idx) (auto simp: bit_idx)
  finally have 1: "PML4_IDX v = 0 \<longleftrightarrow> (\<forall>n < 9. \<not> bit v (39 + n))" .
  have "PDP_IDX v < 4 \<longleftrightarrow> PDP_IDX v < 2 ^ 2" by simp
  also have "\<dots> \<longleftrightarrow> (\<forall>n < 9. bit v (30 + n) \<longrightarrow> n < 2)"
  proof -
    have "PDP_IDX v < 2 ^ 2 \<longleftrightarrow> (\<forall>n. bit (of_nat (PDP_IDX v) :: u64) n \<longrightarrow> n < 2)"
      by (rule small_idx [OF idx_bound(2)]) simp
    then show ?thesis unfolding bit_idx by blast
  qed
  finally have 2: "PDP_IDX v < 4 \<longleftrightarrow> (\<forall>n < 9. bit v (30 + n) \<longrightarrow> n < 2)" .
  have "drop_bit 32 (take_bit 48 v) = 0 \<longleftrightarrow> (\<forall>n. 32 \<le> n \<and> n < 48 \<longrightarrow> \<not> bit v n)"
  proof
    assume z: "drop_bit 32 (take_bit 48 v) = 0"
    show "\<forall>n. 32 \<le> n \<and> n < 48 \<longrightarrow> \<not> bit v n"
    proof (intro allI impI)
      fix n :: nat assume n: "32 \<le> n \<and> n < 48"
      have "\<not> bit (drop_bit 32 (take_bit 48 v)) (n - 32)" by (simp only: z) simp
      then show "\<not> bit v n" using n by (simp add: bit_drop_bit_eq bit_take_bit_iff)
    qed
  next
    assume a: "\<forall>n. 32 \<le> n \<and> n < 48 \<longrightarrow> \<not> bit v n"
    show "drop_bit 32 (take_bit 48 v) = 0"
      by (rule bit_word_eqI) (use a in \<open>simp add: bit_drop_bit_eq bit_take_bit_iff\<close>)
  qed
  also have "\<dots> \<longleftrightarrow> (\<forall>n < 9. \<not> bit v (39 + n)) \<and> (\<forall>n < 9. bit v (30 + n) \<longrightarrow> n < 2)" (is "?l \<longleftrightarrow> ?r")
  proof
    assume ?r
    show ?l
    proof (intro allI impI)
      fix n :: nat assume n: "32 \<le> n \<and> n < 48"
      show "\<not> bit v n"
        using \<open>?r\<close>[THEN conjunct1, rule_format, of "n - 39"] \<open>?r\<close>[THEN conjunct2, rule_format, of "n - 30"] n
        by (cases "39 \<le> n"; cases "n - 30 < 9") auto
    qed
  next
    assume l: ?l
    have "n < 2" if "n < 9" "bit v (30 + n)" for n
      by (rule ccontr) (use l [rule_format, of "30 + n"] that in simp)
    then show ?r using l by auto
  qed
  finally show ?thesis using 1 2 by blast
qed

lemma paging_init_xlate:
  assumes bt: "boot_tables fr pml4 pdp pd"
  shows "xlate (pmem (paging_init pml4 pdp pd s)) pml4 v =
    (if drop_bit 32 (take_bit 48 v) = 0 then take_bit 32 v else 0)"
proof -
  let ?m = "pmem (paging_init pml4 pdp pd s)"
  have T: "table_at ?m pml4 [PML4_IDX v, PDP_IDX v] =
      (if PML4_IDX v = 0 \<and> PDP_IDX v < 4 then Some (pd (PDP_IDX v)) else None)"
    using paging_init_tree [OF bt refl valid_path_path4(2)] by simp
  show ?thesis
  proof (cases "PML4_IDX v = 0 \<and> PDP_IDX v < 4")
    case True
    note f = boot_pde_facts [OF conjunct2 [OF True] idx_bound(3)]
    have "xlate ?m pml4 v = huge_base (boot_pde (PDP_IDX v) (PD_IDX v)) OR huge_off v"
      using True T paging_init_entries(3) [OF bt refl conjunct2 [OF True] idx_bound(3)] f
      by (simp add: xlate_def entry_at_def del: table_at.simps)
    also have "\<dots> = take_bit 32 v"
    proof (rule bit_word_eqI)
      fix n :: nat assume "n < LENGTH(64)"
      have "PDP_IDX v < 2 ^ 2" using True by simp
      then have "\<forall>k. bit (of_nat (PDP_IDX v) :: u64) k \<longrightarrow> k < 2"
        using small_idx [OF idx_bound(2), of 2] by simp
      then have "bit v (30 + k) \<Longrightarrow> k < 9 \<Longrightarrow> k < 2" for k
        by (simp only: bit_idx)
      from this [of "n - 30"] have hi: "30 \<le> n \<Longrightarrow> n < 39 \<Longrightarrow> bit v n \<Longrightarrow> n < 32"
        by (cases "n - 30 < 9") auto
      show "bit (huge_base (boot_pde (PDP_IDX v) (PD_IDX v)) OR huge_off v) n = bit (take_bit 32 v) n"
        unfolding f(3) of_nat_idx
        using hi by (cases "30 \<le> n"; auto simp: bit_or_iff bit_push_bit_iff bit_huge_off mask_consts bit_and_iff bit_mask_iff
            bit_drop_bit_eq bit_take_bit_iff)
    qed
    finally show ?thesis using True low_4GiB by simp
  next
    case False
    then show ?thesis using T low_4GiB by (auto simp: xlate_def entry_at_def simp del: table_at.simps)
  qed
qed

section \<open>Properties\<close>

text \<open>A concrete boot state: the tables in frames 1 to 6, frames 0 to 7 reserved.\<close>

definition boot_vm :: vm_state where
  "boot_vm = paging_init 0x1000 0x2000 (\<lambda>i. 0x3000 + of_nat i * 0x1000)
    \<lparr>pmem = (\<lambda>_. 0), frames = pmm_init (replicate 4096 0) 8, kernel_pml4 = 0, cr3 = 0, invlpg_log = []\<rparr>"

lemma boot_frames:
  "frames boot_vm = pmm_init (replicate 4096 0) 8" "pmm_ok (pmm_init (replicate 4096 0) 8)"
  "free_pages (pmm_init (replicate 4096 0) 8) = {n. 8 \<le> n \<and> n < MAX_PAGES}"
  using pmm_ok_pmm_init [of "replicate 4096 0" 8] free_pages_pmm_init [of "replicate 4096 0" 8]
  by (simp_all add: bitmap_ok_def MAX_PAGES_eq boot_vm_def paging_init_def Let_def)

lemma boot_vm_tables: "boot_tables (pmm_init (replicate 4096 0) 8) 0x1000 0x2000 (\<lambda>i. 0x3000 + of_nat i * 0x1000)"
proof -
  have up: "[0..<4] = [0, 1, 2, 3 :: nat]" by (simp add: upt_rec)
  show ?thesis by (simp add: boot_tables_def up boot_frames page_aligned_def)
qed

lemma boot_vm_ok: "vm_ok 0x1000 boot_vm"
  unfolding boot_vm_def by (rule paging_init_ok) (simp_all add: boot_frames boot_vm_tables)

lemma boot_vm_no_big_page: "no_big_page 0x1000 v boot_vm"
proof -
  have nb: "\<not> (present (t OR PAGE_PRESENT OR PAGE_WRITE OR PAGE_USER) \<and>
      huge (t OR PAGE_PRESENT OR PAGE_WRITE OR PAGE_USER))" if "page_aligned t" for t
    using table_entry_next [OF that] by (auto simp: next_table_def split: if_splits)
  have z: "\<not> present 0" by (simp add: present_def)
  have al: "page_aligned 0x2000" "i < 4 \<Longrightarrow> page_aligned (0x3000 + of_nat i * 0x1000)" for i
    using boot_vm_tables by (auto simp: boot_tables_def Let_def)
  note e = paging_init_entries [OF boot_vm_tables refl] and t = paging_init_tree [OF boot_vm_tables refl]
  show ?thesis
    unfolding no_big_page_def boot_vm_def entry_at_def
    using nb [OF al(1)] nb [OF al(2)] z
    by (auto simp: e t table_at.simps(1) simp del: table_at.simps(2) split: if_splits)
qed

lemma boot_vm_free: "3 \<le> card (free_pages (frames boot_vm))"
proof -
  have "{8, 9, 10} \<subseteq> free_pages (frames boot_vm)" by (auto simp: boot_frames MAX_PAGES_eq)
  from card_mono [OF _ this] show ?thesis by simp
qed

text \<open>C5: in a well-formed address space without a 1 GiB page on the way and with three
  free frames, \<open>vmm_map_page\<close> makes exactly the page of \<open>virt\<close> translate to the frame of
  \<open>phys\<close>, leaves the translation of every other address as it was (2 MiB pages it splits
  included), invalidates the page and keeps the tables well formed.\<close>

theorem vmm_map_page_maps:
  assumes "vm_ok root s" and "no_big_page root virt s" and "3 \<le> card (free_pages (frames s))"
    and "page_base flags = 0" and "s' = vmm_map_page root virt phys flags s"
  shows "vm_ok root s' \<and> invlpg_log s' = virt # invlpg_log s \<and>
    (\<forall>v. vmm_virt_to_phys root v s' =
      (if same_page v virt then page_base phys OR page_off v else vmm_virt_to_phys root v s))"
  using vmm_map_page_effect [OF assms(1,4,5)] vmm_map_page_logs [OF assms(1-3), of phys flags] assms(5)
  by auto

theorem vmm_map_page_maps_witness:
  "vmm_virt_to_phys 0x1000 0x400123 (vmm_map_page 0x1000 0x400000 0x9000 7 boot_vm) = 0x9123"
proof -
  have "same_page 0x400123 0x400000" by (simp add: same_page_def)
  moreover have "page_base 7 = 0" "page_base 0x9000 OR page_off 0x400123 = 0x9123"
    by (simp_all add: page_base_def page_off_def)
  ultimately show ?thesis
    using vmm_map_page_maps [OF boot_vm_ok boot_vm_no_big_page boot_vm_free _ refl, of 7 "0x400000" "0x9000"] by simp
qed



text \<open>C16: with a frame left for splitting a 2 MiB page, \<open>vmm_unmap_page\<close> makes exactly the
  page of \<open>virt\<close> untranslated and keeps every other translation and the tables well formed.\<close>

theorem vmm_unmap_page_unmaps:
  assumes "vm_ok root s" and "free_pages (frames s) \<noteq> {}" and "s' = vmm_unmap_page root virt s"
  shows "vm_ok root s' \<and> (\<forall>v. vmm_virt_to_phys root v s' =
    (if same_page v virt then 0 else vmm_virt_to_phys root v s))"
  using vmm_unmap_page_effect [OF assms] by blast

theorem vmm_unmap_page_unmaps_witness:
  "vmm_virt_to_phys 0x1000 0x400123 (vmm_unmap_page 0x1000 0x400000 boot_vm) = 0"
proof -
  have "free_pages (frames boot_vm) \<noteq> {}" using boot_vm_free by auto
  with vmm_unmap_page_unmaps [OF boot_vm_ok this refl, of "0x400000"] show ?thesis
    by (simp add: same_page_def)
qed

text \<open>C23: after \<open>paging_init\<close> the tables are well formed and \<open>vmm_virt_to_phys\<close> maps each
  address of the first 4 GiB (of each 48-bit alias) to itself and every other address to 0.\<close>

theorem paging_init_identity:
  assumes "boot_tables (frames s) pml4 pdp pd" and "pmm_ok (frames s)"
  shows "vm_ok pml4 (paging_init pml4 pdp pd s) \<and> cr3 (paging_init pml4 pdp pd s) = pml4 \<and>
    vmm_virt_to_phys pml4 v (paging_init pml4 pdp pd s) =
      (if drop_bit 32 (take_bit 48 v) = 0 then take_bit 32 v else 0)"
  using paging_init_ok [OF assms] paging_init_xlate [OF assms(1)]
  by (simp add: vmm_virt_to_phys_xlate paging_init_def Let_def)

theorem paging_init_identity_witness:
  "vmm_virt_to_phys 0x1000 0xFEE00020 boot_vm = 0xFEE00020 \<and> vmm_virt_to_phys 0x1000 0x100000000 boot_vm = 0"
  using paging_init_identity [of "\<lparr>pmem = (\<lambda>_. 0), frames = pmm_init (replicate 4096 0) 8,
      kernel_pml4 = 0, cr3 = 0, invlpg_log = []\<rparr>" "0x1000" "0x2000"
      "\<lambda>i. 0x3000 + of_nat i * 0x1000"]
    boot_vm_tables boot_frames(2)
  by (simp add: boot_vm_def)

section \<open>Turning paging on\<close>

text \<open>
  \<open>paging_enable\<close> as a function of CR0: the constant \<open>1 << 31\<close> is a negative
  \<open>int\<close>, so \<open>cr0 |= (1 << 31)\<close> extends its sign to 64 bits.
\<close>

definition paging_enable :: "u64 \<Rightarrow> u64" where
  "paging_enable cr0 = cr0 OR scast (push_bit 31 (1 :: 32 word))"

text \<open>\<open>paging_enable\<close> keeps bits 0 to 30 of CR0 and sets bit 31, the paging bit, but also
  every bit from 32 to 63, which are reserved.\<close>

theorem paging_enable_bits:
  "take_bit 31 (paging_enable cr0) = take_bit 31 cr0 \<and> drop_bit 31 (paging_enable cr0) = mask 33"
proof -
  have c: "scast (push_bit 31 (1 :: 32 word)) = push_bit 31 (mask 33 :: u64)"
    by (simp add: mask_eq_exp_minus_1)
  have "bit (take_bit 31 (paging_enable cr0)) n = bit (take_bit 31 cr0) n" for n
    unfolding paging_enable_def c by (auto simp: bit_take_bit_iff bit_or_iff bit_push_bit_iff)
  moreover have "bit (drop_bit 31 (paging_enable cr0)) n = bit (mask 33 :: u64) n" for n
    unfolding paging_enable_def c
    by (auto simp: bit_drop_bit_eq bit_or_iff bit_push_bit_iff bit_mask_iff dest: bit_imp_le_length)
  ultimately show ?thesis by (simp add: bit_eq_iff)
qed

end
