(* ===== verification/VmmSpaces.thy ===== *)
theory VmmSpaces
  imports VmmBoot
begin

text \<open>
  Address spaces side by side, \<open>create_user_pml4\<close> of \<open>kernel/vmm.c\<close>: the tables it makes are
  private frames that translate as the kernel's tables do, and mapping or unmapping in one
  address space leaves the others as they are.
\<close>

section \<open>Two address spaces\<close>

definition apart :: "u64 \<Rightarrow> u64 \<Rightarrow> vm_state \<Rightarrow> bool" where
  "apart a b s \<longleftrightarrow> table_frames (pmem s) a \<inter> table_frames (pmem s) b = {}"

lemma table_frames_used:
  assumes "vm_ok root s" "n \<in> table_frames (pmem s) root" shows "n \<notin> free_pages (frames s)"
  using assms(2) wf_tablesD(3) [OF vm_okD(1) [OF assms(1)]] by (auto simp: table_frames_def frame_of_def)

lemma plain_top_agree:
  assumes "page_aligned root" "\<And>x. frame_of x \<in> table_frames m root \<Longrightarrow> m' x = m x" "plain_top m root"
  shows "plain_top m' root"
  unfolding plain_top_def
proof (intro allI impI)
  fix p i e assume p: "length p \<le> 1" "valid_path (p @ [i])" "entry_at m' root p i = Some e" "present e"
  have "entry_at m' root p i = entry_at m root p i"
    by (rule table_at_agree(2) [OF assms(1)], rule assms(2), assumption) (use valid_path_snoc [OF p(2)] in simp_all)
  then show "\<not> huge e" using plain_topD [OF assms(3) p(1,2) _ p(4)] p(3) by simp
qed

text \<open>What happens outside its tables and the free frames does not concern an address space.\<close>

lemma space_untouched:
  assumes "vm_ok b s" "pmm_ok (frames s')" "free_pages (frames s') \<subseteq> free_pages (frames s)"
    and "\<And>x. frame_of x \<in> table_frames (pmem s) b \<Longrightarrow> pmem s' x = pmem s x"
  shows "vm_ok b s'" and "xlate (pmem s') b v = xlate (pmem s) b v"
    and "table_frames (pmem s') b = table_frames (pmem s) b" and "plain_top (pmem s) b \<Longrightarrow> plain_top (pmem s') b"
  using plain_top_agree [OF wf_tablesD(1) [OF vm_okD(1) [OF assms(1)]] assms(4)]
    tree_agree [OF wf_tablesD(1) [OF vm_okD(1) [OF assms(1)]] assms(4)] vm_okD(1) [OF assms(1)] assms(2,3)
  by (auto simp: vm_ok_def)

lemma other_space:
  assumes "vm_ok a s'" "writes_in a s s'" "vm_ok b s" "apart a b s"
  shows "vm_ok b s' \<and> apart a b s' \<and> (\<forall>v. vmm_virt_to_phys b v s' = vmm_virt_to_phys b v s)"
proof -
  have w: "free_pages (frames s') \<subseteq> free_pages (frames s)"
      "table_frames (pmem s') a \<subseteq> table_frames (pmem s) a \<union> free_pages (frames s)"
    and x: "frame_of x \<notin> table_frames (pmem s) a \<union> free_pages (frames s) \<Longrightarrow> pmem s' x = pmem s x" for x
    using assms(2) by (auto simp: writes_in_def)
  note used = table_frames_used [OF assms(3)]
  have "pmem s' x = pmem s x" if "frame_of x \<in> table_frames (pmem s) b" for x
    by (rule x) (use that used assms(4) in \<open>auto simp: apart_def\<close>)
  note U = space_untouched [OF assms(3) vm_okD(2) [OF assms(1)] w(1) this]
  have "apart a b s'" using assms(4) w(2) used U(3) by (auto simp: apart_def)
  then show ?thesis using U(1,2) assms(3) by (simp add: vmm_virt_to_phys_xlate)
qed

section \<open>Copying the kernel's directories\<close>

abbreviation table_flags :: "u64 \<Rightarrow> u64" where
  "table_flags t \<equiv> t OR PAGE_PRESENT OR PAGE_WRITE OR PAGE_USER"

text \<open>The directories \<open>pd\<close> have been copied from the entries of \<open>kp\<close> to those of \<open>up\<close>.\<close>

definition pds_copied :: "u64 \<Rightarrow> u64 \<Rightarrow> nat list \<Rightarrow> (nat \<Rightarrow> u64) \<Rightarrow> vm_state \<Rightarrow> vm_state \<Rightarrow> bool" where
  "pds_copied kp up is pd s s' \<longleftrightarrow>
    (\<forall>i \<in> set is. let e = rd64 (pmem s) (entry kp i) in
       if present e then page_aligned (pd i) \<and> pd i \<noteq> 0 \<and> frame_of (pd i) \<in> free_pages (frames s) - free_pages (frames s') \<and>
         rd64 (pmem s') (entry up i) = table_flags (pd i) \<and>
         (\<forall>j < 512. rd64 (pmem s') (entry (pd i) j) = rd64 (pmem s) (entry (page_base e) j))
       else rd64 (pmem s') (entry up i) = rd64 (pmem s) (entry up i)) \<and>
    (\<forall>i \<in> set is. \<forall>j \<in> set is. present (rd64 (pmem s) (entry kp i)) \<longrightarrow> present (rd64 (pmem s) (entry kp j)) \<longrightarrow>
       pd i = pd j \<longrightarrow> i = j)"

definition frame_kept :: "u64 \<Rightarrow> vm_state \<Rightarrow> vm_state \<Rightarrow> bool" where
  "frame_kept up s s' \<longleftrightarrow> pmm_ok (frames s') \<and> free_pages (frames s') \<subseteq> free_pages (frames s) \<and>
    (\<forall>x. frame_of x \<notin> insert (frame_of up) (free_pages (frames s)) \<longrightarrow> pmem s' x = pmem s x)"

lemma frame_kept_trans: "frame_kept up s t \<Longrightarrow> frame_kept up t u \<Longrightarrow> frame_kept up s u"
  unfolding frame_kept_def by (intro conjI allI impI) (blast, blast, metis insert_iff subsetD)

text \<open>One round of the loop: a fresh directory is entered and filled.\<close>

lemma copy_pd:
  assumes ok: "pmm_ok (frames s)" and up: "page_aligned up" "frame_of up \<notin> free_pages (frames s)"
    and i: "i < 512" and src: "page_aligned src" "frame_of src \<notin> free_pages (frames s)" "frame_of src \<noteq> frame_of up"
    and al: "pmm_alloc_page (frames s) = (n, fr)" "n \<noteq> 0"
    and t: "t = s\<lparr>frames := fr, pmem := copy_table n src [0..<512]
      (wr64 (zero_table n (pmem s)) (entry up i) (table_flags n))\<rparr>"
  shows "frame_kept up s t" and "page_aligned n" and "frame_of n \<in> free_pages (frames s) - free_pages (frames t)"
    and "card (free_pages (frames s)) = Suc (card (free_pages (frames t)))"
    and "j < 512 \<Longrightarrow> rd64 (pmem t) (entry up j) = (if j = i then table_flags n else rd64 (pmem s) (entry up j))"
    and "j < 512 \<Longrightarrow> rd64 (pmem t) (entry n j) = rd64 (pmem s) (entry src j)"
proof -
  note a = alloc_facts [OF ok al, folded frame_of_def]
  have ne: "n \<noteq> up" "n \<noteq> src" "up \<noteq> src" using a(3) up(2) src(2,3) by auto
  show "page_aligned n" by (rule a(2))
  show f: "frame_of n \<in> free_pages (frames s) - free_pages (frames t)" using a(3,4) by (simp add: t)
  show "card (free_pages (frames s)) = Suc (card (free_pages (frames t)))"
    using a(3,4) card_Suc_Diff1 [OF finite_free_pages a(3)] by (simp add: t)
  have "copy_table n src is m x = m x" if "\<forall>i \<in> set is. i < 512" "frame_of x \<noteq> frame_of n" for "is" m x
    using that by (induction "is" arbitrary: m) (simp_all add: copy_table_def wr64_frame a(2))
  then have "pmem t x = pmem s x" if "frame_of x \<noteq> frame_of n" "frame_of x \<noteq> frame_of up" for x
    using that i al(2) by (simp add: t zero_table_def wr64_frame wr64s_frame a(2) up(1))
  then show "frame_kept up s t" using a(1,3,4) by (auto simp: frame_kept_def t) metis
  show "j < 512 \<Longrightarrow> rd64 (pmem t) (entry up j) = (if j = i then table_flags n else rd64 (pmem s) (entry up j))"
    using i ne al(2) a(2) up(1) src(1) by (auto simp: t rd64_copy_table rd64_wr64_entry rd64_zero_table)
  show "j < 512 \<Longrightarrow> rd64 (pmem t) (entry n j) = rd64 (pmem s) (entry src j)"
    using i ne al(2) a(2) up(1) src(1) by (auto simp: t rd64_copy_table rd64_wr64_entry rd64_zero_table)
qed

lemma frame_kept_rd64:
  assumes "frame_kept up s t" "page_aligned u" "frame_of u \<notin> free_pages (frames s)" "frame_of u \<noteq> frame_of up" "j < 512"
  shows "rd64 (pmem t) (entry u j) = rd64 (pmem s) (entry u j)"
  by (rule rd64_frame [OF assms(2,5)]) (use assms(1,3,4) in \<open>auto simp: frame_kept_def\<close>)

definition pds_source :: "u64 \<Rightarrow> u64 \<Rightarrow> nat list \<Rightarrow> vm_state \<Rightarrow> bool" where
  "pds_source kp up is s \<longleftrightarrow> page_aligned kp \<and> frame_of kp \<notin> insert (frame_of up) (free_pages (frames s)) \<and>
    (\<forall>i \<in> set is. i < 512 \<and> (present (rd64 (pmem s) (entry kp i)) \<longrightarrow> page_base (rd64 (pmem s) (entry kp i)) \<noteq> 0 \<and>
      frame_of (page_base (rd64 (pmem s) (entry kp i))) \<notin> insert (frame_of up) (free_pages (frames s))))"

lemma pds_source_kept:
  assumes "pds_source kp up is s" "frame_kept up s t"
  shows "pds_source kp up is t" and "i \<in> set is \<Longrightarrow> rd64 (pmem t) (entry kp i) = rd64 (pmem s) (entry kp i)"
    and "i \<in> set is \<Longrightarrow> present (rd64 (pmem s) (entry kp i)) \<Longrightarrow> j < 512 \<Longrightarrow>
      rd64 (pmem t) (entry (page_base (rd64 (pmem s) (entry kp i))) j) = rd64 (pmem s) (entry (page_base (rd64 (pmem s) (entry kp i))) j)"
proof -
  have kp: "rd64 (pmem t) (entry kp i) = rd64 (pmem s) (entry kp i)" if "i \<in> set is" for i
    by (rule frame_kept_rd64 [OF assms(2)]) (use assms(1) that in \<open>auto simp: pds_source_def\<close>)
  then show "i \<in> set is \<Longrightarrow> rd64 (pmem t) (entry kp i) = rd64 (pmem s) (entry kp i)" .
  show "pds_source kp up is t" using assms by (auto simp: pds_source_def frame_kept_def kp)
  show "i \<in> set is \<Longrightarrow> present (rd64 (pmem s) (entry kp i)) \<Longrightarrow> j < 512 \<Longrightarrow>
      rd64 (pmem t) (entry (page_base (rd64 (pmem s) (entry kp i))) j) = rd64 (pmem s) (entry (page_base (rd64 (pmem s) (entry kp i))) j)"
    by (rule frame_kept_rd64 [OF assms(2)]) (use assms(1) in \<open>auto simp: pds_source_def\<close>)
qed

lemma copy_pds_copies:
  assumes "pmm_ok (frames s)" "page_aligned up" "frame_of up \<notin> free_pages (frames s)"
    and "pds_source kp up is s" "distinct is" "copy_pds kp up is s = (ok, s')"
  shows "frame_kept up s s' \<and> (length is \<le> card (free_pages (frames s)) \<longrightarrow> ok) \<and>
    (\<forall>j < 512. j \<notin> set is \<longrightarrow> rd64 (pmem s') (entry up j) = rd64 (pmem s) (entry up j)) \<and>
    (ok \<longrightarrow> (\<exists>pd. pds_copied kp up is pd s s'))"
  using assms
proof (induction "is" arbitrary: s)
  case Nil
  then show ?case by (auto simp: frame_kept_def pds_copied_def)
next
  case (Cons i "is")
  let ?e = "rd64 (pmem s) (entry kp i)"
  have src: "pds_source kp up is s" "i < 512" "i \<notin> set is" "distinct is" "\<And>j. j \<in> set is \<Longrightarrow> j < 512"
    using Cons.prems(4,5) by (auto simp: pds_source_def)
  show ?case
  proof (cases "present ?e")
    case False
    then have c: "copy_pds kp up is s = (ok, s')" using Cons.prems(6) by (simp add: Let_def present_def)
    note I = Cons.IH [OF Cons.prems(1-3) src(1,4) c]
    have "pds_copied kp up (i # is) pd s s'" if "pds_copied kp up is pd s s'" for pd
      using that I src(2,3) False by (auto simp: pds_copied_def Let_def)
    then show ?thesis using I by auto
  next
    case True
    let ?src = "page_base ?e"
    obtain n fr where al: "pmm_alloc_page (frames s) = (n, fr)" by fastforce
    have s1: "?src \<noteq> 0" "frame_of ?src \<notin> free_pages (frames s)" "frame_of ?src \<noteq> frame_of up"
      using Cons.prems(4) True by (auto simp: pds_source_def)
    show ?thesis
    proof (cases "n = 0")
      case n: True
      with alloc_zero_same [OF Cons.prems(1)] al have "fr = frames s" "free_pages (frames s) = {}" by blast+
      then have "ok = False" "s' = s"
        using Cons.prems(6) True s1(1) al n by (auto simp: Let_def present_def)
      then show ?thesis using \<open>free_pages (frames s) = {}\<close> Cons.prems(1) by (auto simp: frame_kept_def)
    next
      case n: False
      define t where "t = s\<lparr>frames := fr, pmem := copy_table n ?src [0..<512]
        (wr64 (zero_table n (pmem s)) (entry up i) (table_flags n))\<rparr>"
      note C = copy_pd [OF Cons.prems(1-3) src(2) page_aligned_page_base s1(2,3) al n t_def]
      have c: "copy_pds kp up is t = (ok, s')" using Cons.prems(6) True s1(1) al n by (simp add: Let_def present_def t_def)
      note K = pds_source_kept [OF Cons.prems(4) C(1)]
      have K1: "pds_source kp up is t" using K(1) by (simp add: pds_source_def)
      have up: "frame_of up \<notin> free_pages (frames t)" using C(1) Cons.prems(3) by (auto simp: frame_kept_def)
      have "pmm_ok (frames t)" using C(1) by (simp add: frame_kept_def)
      note I = Cons.IH [OF this Cons.prems(2) up K1 src(4) c]
      have nk: "rd64 (pmem s') (entry n j) = rd64 (pmem t) (entry n j)" if "j < 512" for j
        by (rule frame_kept_rd64 [OF conjunct1 [OF I] C(2) _ _ that]) (use C(3) Cons.prems(3) in auto)
      have "pds_copied kp up (i # is) (pd(i := n)) s s'" if P: "pds_copied kp up is pd t s'" for pd
      proof -
        have frames: "free_pages (frames s') \<subseteq> free_pages (frames t)" "free_pages (frames t) \<subseteq> free_pages (frames s)"
          using I C(1) by (simp_all add: frame_kept_def)
        have at: "page_aligned (pd j) \<and> pd j \<noteq> 0 \<and> frame_of (pd j) \<in> free_pages (frames t) - free_pages (frames s') \<and>
            rd64 (pmem s') (entry up j) = table_flags (pd j) \<and>
            (\<forall>k < 512. rd64 (pmem s') (entry (pd j) k) = rd64 (pmem s) (entry (page_base (rd64 (pmem s) (entry kp j))) k))"
          if "j \<in> set is" "present (rd64 (pmem s) (entry kp j))" for j
          using P that K(2) [of j] K(3) [of j] by (auto simp: pds_copied_def Let_def)
        have off: "rd64 (pmem s') (entry up j) = rd64 (pmem s) (entry up j)"
          if "j \<in> set is" "\<not> present (rd64 (pmem s) (entry kp j))" for j
        proof -
          have "rd64 (pmem s') (entry up j) = rd64 (pmem t) (entry up j)"
            using P that K(2) [of j] by (simp add: pds_copied_def Let_def)
          then show ?thesis using C(5) [OF src(5) [OF that(1)]] src(3) that(1) by auto
        qed
        have i: "rd64 (pmem s') (entry up i) = table_flags n"
          using I src(2,3) C(5) [OF src(2)] by simp
        have inj: "j = k" if "j \<in> set is" "k \<in> set is" "present (rd64 (pmem s) (entry kp j))" "present (rd64 (pmem s) (entry kp k))" "pd j = pd k" for j k
          using P that K(2) [of j] K(2) [of k] by (auto simp: pds_copied_def)
        have "pd j \<noteq> n" if "j \<in> set is" "present (rd64 (pmem s) (entry kp j))" for j
          using at [OF that] C(3) by auto
        then show ?thesis
          unfolding pds_copied_def Let_def
          using at off i inj src(3) C(2,3) n nk C(6) frames True by auto
      qed
      moreover have "frame_kept up s s'" using frame_kept_trans [OF C(1)] I by blast
      moreover have "rd64 (pmem s') (entry up j) = rd64 (pmem s) (entry up j)" if "j < 512" "j \<notin> set (i # is)" for j
        using I that C(5) [OF that(1)] by auto
      ultimately show ?thesis using I C(4) by auto
    qed
  qed
qed

section \<open>The tree of a new address space\<close>

text \<open>
  The shape of the kernel's own tables: entry 0 of the root leads to directories for the first
  4 GiB, below which there are pages only.
\<close>

definition kernel_shape :: "mem \<Rightarrow> u64 \<Rightarrow> bool" where
  "kernel_shape m k \<longleftrightarrow> table_at m k [0] \<noteq> None \<and> plain_top m k \<and>
    (\<forall>p. valid_path p \<longrightarrow> table_at m k p \<noteq> None \<longrightarrow> p = [] \<or> p = [0] \<or> (\<exists>i < 4. p = [0, i]))"

definition kernel_tree :: "u64 \<Rightarrow> vm_state \<Rightarrow> bool" where
  "kernel_tree k s \<longleftrightarrow> vm_ok k s \<and> kernel_pml4 s = k \<and> kernel_shape (pmem s) k"

definition user_entries :: "mem \<Rightarrow> u64 \<Rightarrow> u64 \<Rightarrow> mem \<Rightarrow> u64 \<Rightarrow> u64 \<Rightarrow> (nat \<Rightarrow> u64) \<Rightarrow> bool" where
  "user_entries m k kp m' root up pd \<longleftrightarrow> page_aligned up \<and>
    rd64 m' (entry root 0) = table_flags up \<and> (\<forall>j. 0 < j \<and> j < 512 \<longrightarrow> rd64 m' (entry root j) = rd64 m (entry k j)) \<and>
    (\<forall>i < 512. rd64 m' (entry up i) = (if i < 4 \<and> present (rd64 m (entry kp i)) then table_flags (pd i) else 0)) \<and>
    (\<forall>i < 4. present (rd64 m (entry kp i)) \<longrightarrow> page_aligned (pd i) \<and>
      (\<forall>j < 512. rd64 m' (entry (pd i) j) = rd64 m (entry (page_base (rd64 m (entry kp i))) j)))"

lemma user_tree:
  assumes sh: "kernel_shape m k" and kp: "table_at m k [0] = Some kp" and u: "user_entries m k kp m' root up pd"
  shows "valid_path p \<Longrightarrow> table_at m' root p = (case p of [] \<Rightarrow> Some root | [i] \<Rightarrow> if i = 0 then Some up else None
      | [i, j] \<Rightarrow> if i = 0 \<and> j < 4 \<and> present (rd64 m (entry kp j)) then Some (pd j) else None | _ \<Rightarrow> None)"
    and "xlate m' root v = xlate m k v" and "plain_top m' root"
proof -
  have paths: "p = [] \<or> p = [0] \<or> (\<exists>i < 4. p = [0, i])" if "valid_path p" "table_at m k p \<noteq> None" for p
    using sh that by (auto simp: kernel_shape_def)
  have plain: "\<not> (present (rd64 m (entry kp i)) \<and> huge (rd64 m (entry kp i)))" if "i < 4" for i
    using sh kp that plain_topD [of m k "[0]" i] by (auto simp: kernel_shape_def valid_path_def entry_at_def simp del: table_at.simps)
  have k1: "next_table (rd64 m (entry k i)) = None" if "i < 512" "i \<noteq> 0" for i
    using paths [of "[i]"] that by (cases "next_table (rd64 m (entry k i))") (auto simp: valid_path_def)
  have k2: "table_at m k [0, i] = (if present (rd64 m (entry kp i)) then Some (page_base (rd64 m (entry kp i))) else None)" if "i < 4" for i
    using kp plain [OF that] by (auto simp: next_table_def split: bind_splits)
  have k2': "table_at m k [0, i] = None" if "4 \<le> i" "i < 512" for i
    using paths [of "[0, i]"] that by (fastforce simp: valid_path_def)
  have k3: "next_table (rd64 m (entry (page_base (rd64 m (entry kp i))) j)) = None"
    if "i < 4" "present (rd64 m (entry kp i))" "j < 512" for i j
  proof -
    have "valid_path [0, i, j]" using that by (simp add: valid_path_def)
    then have "table_at m k [0, i, j] = None" using paths [of "[0, i, j]"] by blast
    then show ?thesis using table_at_snoc [of m k "[0, i]" j] k2 [OF that(1)] that(2) by (simp add: entry_at_def)
  qed
  note U = u [unfolded user_entries_def]
  have n1: "next_table (rd64 m' (entry root i)) = (if i = 0 then Some up else None)" if "i < 512" for i
    using U that k1 by (simp add: table_entry_next)
  have n2: "next_table (rd64 m' (entry up i)) = (if i < 4 \<and> present (rd64 m (entry kp i)) then Some (pd i) else None)" if "i < 512" for i
    using U that by (simp add: table_entry_next next_table_0)
  have root_plain: "\<not> huge (rd64 m' (entry root i))" if "i < 512" "present (rd64 m' (entry root i))" for i
  proof (cases "i = 0")
    case True
    then show ?thesis using n1 [of 0] by (auto simp: next_table_def split: if_splits)
  next
    case False
    then show ?thesis using U that sh plain_topD [of m k "[]" i] by (simp add: kernel_shape_def valid_path_def entry_at_def)
  qed
  have up_plain: "\<not> huge (rd64 m' (entry up i))" if "i < 512" "present (rd64 m' (entry up i))" for i
    using n2 [OF that(1)] that U by (auto simp: next_table_def present_def split: if_splits)
  have n3: "next_table (rd64 m' (entry (pd i) j)) = None" if "i < 4" "present (rd64 m (entry kp i))" "j < 512" for i j
    using U that k3 by simp
  show T: "table_at m' root p = (case p of [] \<Rightarrow> Some root | [i] \<Rightarrow> if i = 0 then Some up else None
      | [i, j] \<Rightarrow> if i = 0 \<and> j < 4 \<and> present (rd64 m (entry kp j)) then Some (pd j) else None | _ \<Rightarrow> None)"
    if vp: "valid_path p" for p
  proof -
    have len: "length p \<le> 3" and lt: "\<forall>i \<in> set p. i < 512" using vp by (simp_all add: valid_path_def)
    consider "p = []" | i where "p = [i]" | i j where "p = [i, j]" | i j l where "p = [i, j, l]"
      using list_le3 [OF len] by blast
    then show ?thesis by cases (use lt n1 n2 n3 in auto)
  qed
  show "plain_top m' root" unfolding plain_top_def
  proof (intro allI impI)
    fix p i e assume p: "length p \<le> 1" "valid_path (p @ [i])" "entry_at m' root p i = Some e" "present e"
    have v: "valid_path p" "i < 512" using valid_path_snoc [OF p(2)] by simp_all
    have "p = [] \<or> (\<exists>j. p = [j])" using p(1) by (cases p) auto
    then show "\<not> huge e"
      using p(3,4) T [OF v(1)] root_plain [OF v(2)] up_plain [OF v(2)]
      by (auto simp: entry_at_def split: if_splits simp del: table_at.simps)
  qed
  let ?i = "PML4_IDX v" and ?j = "PDP_IDX v" and ?l = "PD_IDX v"
  have deep: "table_at m k [?i, ?j, ?l] = None" "table_at m' root [?i, ?j, ?l] = None"
    using T [OF valid_path_path4(3), of v] by (simp_all del: table_at.simps)
      (rule ccontr, drule paths [OF valid_path_path4(3)], simp)
  show "xlate m' root v = xlate m k v"
  proof (cases "?i = 0 \<and> ?j < 4 \<and> present (rd64 m (entry kp ?j))")
    case True
    then have "table_at m k [?i, ?j] = Some (page_base (rd64 m (entry kp ?j)))" "table_at m' root [?i, ?j] = Some (pd ?j)"
      using k2 T [OF valid_path_path4(2), of v] by simp_all
    moreover have "rd64 m' (entry (pd ?j) ?l) = rd64 m (entry (page_base (rd64 m (entry kp ?j))) ?l)"
      using U True by simp
    ultimately show ?thesis by (simp add: xlate_def entry_at_def deep del: table_at.simps)
  next
    case False
    have "table_at m k [?i, ?j] = None"
    proof (cases "?i = 0")
      case True
      then show ?thesis using False k2 [of ?j] k2' [of ?j] by (cases "?j < 4") simp_all
    next
      case False
      show ?thesis
      proof (rule ccontr)
        assume "table_at m k [?i, ?j] \<noteq> None"
        from paths [OF valid_path_path4(2) this] False show False by simp
      qed
    qed
    moreover have "table_at m' root [?i, ?j] = None" using False T [OF valid_path_path4(2), of v] by auto
    ultimately show ?thesis by (simp add: xlate_def entry_at_def del: table_at.simps)
  qed
qed


section \<open>\<open>create_user_pml4\<close>\<close>

lemma kernel_tree_tables:
  assumes "kernel_tree k s" "table_at (pmem s) k [0] = Some kp"
  shows "page_aligned k" "k \<noteq> 0" "frame_of k \<notin> free_pages (frames s)" "page_aligned kp" "kp \<noteq> 0"
    "frame_of kp \<notin> free_pages (frames s)" "pmm_ok (frames s)"
    and "i < 4 \<Longrightarrow> present (rd64 (pmem s) (entry kp i)) \<Longrightarrow> page_base (rd64 (pmem s) (entry kp i)) \<noteq> 0 \<and>
      frame_of (page_base (rd64 (pmem s) (entry kp i))) \<notin> free_pages (frames s)"
    and "present (rd64 (pmem s) (entry k 0))" "page_base (rd64 (pmem s) (entry k 0)) = kp"
proof -
  have ok: "vm_ok k s" using assms(1) by (simp add: kernel_tree_def)
  note D = wf_tablesD [OF vm_okD(1) [OF ok]]
  have v: "valid_path [0]" "i < 4 \<Longrightarrow> valid_path [0, i]" "valid_path []" by (simp_all add: valid_path_def)
  show "page_aligned k" "page_aligned kp" using D(1) table_at_aligned [OF D(1) assms(2)] .
  show "k \<noteq> 0" "frame_of k \<notin> free_pages (frames s)" "pmm_ok (frames s)"
    using D(2,3) [OF v(3), of k] vm_okD(2) [OF ok] by (simp_all add: frame_of_def)
  show "kp \<noteq> 0" "frame_of kp \<notin> free_pages (frames s)" using D(2,3) [OF v(1) assms(2)] by (simp_all add: frame_of_def)
  show "present (rd64 (pmem s) (entry k 0))" "page_base (rd64 (pmem s) (entry k 0)) = kp"
    using assms(2) by (auto simp: next_table_def split: bind_splits if_splits)
  assume i: "i < 4" and p: "present (rd64 (pmem s) (entry kp i))"
  have "table_at (pmem s) k [0, i] = Some (page_base (rd64 (pmem s) (entry kp i)))"
    using assms i p plain_topD [of "pmem s" k "[0]" i] table_at_snoc [of "pmem s" k "[0]" i]
    by (auto simp: kernel_tree_def kernel_shape_def next_table_def valid_path_def entry_at_def simp del: table_at.simps)
  from D(2,3) [OF v(2) [OF i] this] show "page_base (rd64 (pmem s) (entry kp i)) \<noteq> 0 \<and>
      frame_of (page_base (rd64 (pmem s) (entry kp i))) \<notin> free_pages (frames s)" by (simp add: frame_of_def)
qed

text \<open>The code in one piece, for a kernel whose tables have the shape.\<close>

lemma create_user_pml4_cases:
  assumes kt: "kernel_tree k s" and kp: "table_at (pmem s) k [0] = Some kp" and c: "create_user_pml4 s = (root, s')"
  obtains (none) "root = 0" "s' = s" "free_pages (frames s) = {}"
  | (one) n fr where "pmm_alloc_page (frames s) = (n, fr)" "n \<noteq> 0" "root = 0" "free_pages fr = {}"
      "s' = s\<lparr>frames := fr, pmem := zero_table n (pmem s)\<rparr>"
  | (two) n fr up fr2 ok s3 where "pmm_alloc_page (frames s) = (n, fr)" "n \<noteq> 0" "pmm_alloc_page fr = (up, fr2)" "up \<noteq> 0"
      "copy_pds kp up [0..<4] (s\<lparr>frames := fr2, pmem := wr64 (zero_table up (zero_table n (pmem s))) (entry n 0) (table_flags up)\<rparr>) = (ok, s3)"
      "root = (if ok then n else 0)" "s' = (if ok then s3\<lparr>pmem := copy_table n k [1..<512] (pmem s3)\<rparr> else s3)"
proof -
  note K = kernel_tree_tables [OF kt kp]
  have k: "kernel_pml4 s = k" using kt by (simp add: kernel_tree_def)
  obtain n fr where al: "pmm_alloc_page (frames s) = (n, fr)" by fastforce
  show thesis
  proof (cases "n = 0")
    case True
    with alloc_zero_same [OF K(7)] al have "fr = frames s" "free_pages (frames s) = {}" by blast+
    then show thesis using c al True by (intro none) (simp_all add: create_user_pml4_def)
  next
    case n: False
    note a = alloc_facts [OF K(7) al n, folded frame_of_def]
    have "rd64 (zero_table n (pmem s)) (entry k 0) = rd64 (pmem s) (entry k 0)"
      using a(2,3) n K(1,3) by (auto simp: rd64_zero_table)
    then have e: "rd64 (zero_table n (pmem s)) (entry k 0) AND PAGE_PRESENT \<noteq> 0"
      "page_base (rd64 (zero_table n (pmem s)) (entry k 0)) = kp" using K(9,10) by (simp_all add: present_def)
    obtain up fr2 where al2: "pmm_alloc_page fr = (up, fr2)" by fastforce
    show thesis
    proof (cases "up = 0")
      case True
      with alloc_zero_same [OF a(1)] al2 have "fr2 = fr" "free_pages fr = {}" by blast+
      then show thesis using c al al2 n True e K(2,5) k
        by (intro one [OF al n]) (auto simp: create_user_pml4_def vmm_get_kernel_pml4_def)
    next
      case up: False
      obtain ok s3 where p: "copy_pds kp up [0..<4]
          (s\<lparr>frames := fr2, pmem := wr64 (zero_table up (zero_table n (pmem s))) (entry n 0) (table_flags up)\<rparr>) = (ok, s3)" by fastforce
      have "kernel_pml4 s3 = k"
      proof -
        have "kernel_pml4 t = kernel_pml4 u" if "copy_pds kp up is u = (ok, t)" for ok t u "is"
          using that by (induction kp up "is" u arbitrary: ok t rule: copy_pds.induct) (auto simp: Let_def split: prod.splits if_splits)
        from this [OF p] show ?thesis using k by simp
      qed
      then show thesis using c al al2 n up e K(2,5) k p
        by (intro two [OF al n al2 up p]) (auto simp: create_user_pml4_def vmm_get_kernel_pml4_def)
    qed
  qed
qed


lemma zero_table_frame: "page_aligned t \<Longrightarrow> frame_of x \<noteq> frame_of t \<Longrightarrow> zero_table t m x = m x"
  by (simp add: zero_table_def wr64s_frame)

lemma copy_table_frame:
  "page_aligned t \<Longrightarrow> \<forall>i \<in> set is. i < 512 \<Longrightarrow> frame_of x \<noteq> frame_of t \<Longrightarrow> copy_table t k is m x = m x"
  by (induction "is" arbitrary: m) (simp_all add: copy_table_def wr64_frame)

text \<open>The memory with which the loop over the directories starts.\<close>

lemma user_root_setup:
  assumes kt: "kernel_tree k s" and kp: "table_at (pmem s) k [0] = Some kp"
    and n: "pmm_alloc_page (frames s) = (n, fr)" "n \<noteq> 0" and up: "pmm_alloc_page fr = (up, fr2)" "up \<noteq> 0"
    and t: "t = s\<lparr>frames := fr2, pmem := wr64 (zero_table up (zero_table n (pmem s))) (entry n 0) (table_flags up)\<rparr>"
  shows "page_aligned n" "page_aligned up" "frame_of n \<in> free_pages (frames s)" "frame_of up \<in> free_pages (frames s)"
    "frame_of up \<noteq> frame_of n" "free_pages fr2 = free_pages (frames s) - {frame_of n, frame_of up}" "pmm_ok fr2"
    "card (free_pages (frames s)) = card (free_pages fr2) + 2" "pds_source kp up [0..<4] t"
    and "frame_of x \<noteq> frame_of n \<Longrightarrow> frame_of x \<noteq> frame_of up \<Longrightarrow> pmem t x = pmem s x"
    and "page_aligned u \<Longrightarrow> frame_of u \<notin> free_pages (frames s) \<Longrightarrow> j < 512 \<Longrightarrow>
      rd64 (pmem t) (entry u j) = rd64 (pmem s) (entry u j)"
    and "j < 512 \<Longrightarrow> rd64 (pmem t) (entry up j) = 0" "rd64 (pmem t) (entry n 0) = table_flags up"
proof -
  note K = kernel_tree_tables [OF kt kp]
  note a = alloc_facts [OF K(7) n, folded frame_of_def]
  note b = alloc_facts [OF a(1) up, folded frame_of_def]
  show al: "page_aligned n" "page_aligned up" by (rule a(2), rule b(2))
  show "pmm_ok fr2" by (rule b(1))
  show f: "frame_of n \<in> free_pages (frames s)" "frame_of up \<in> free_pages (frames s)" "frame_of up \<noteq> frame_of n"
    "free_pages fr2 = free_pages (frames s) - {frame_of n, frame_of up}"
    using a(3) b(3) unfolding b(4) a(4) by blast+
  have "card (free_pages (frames s)) = Suc (card (free_pages fr))" "card (free_pages fr) = Suc (card (free_pages fr2))"
    using card_Suc_Diff1 [OF finite_free_pages a(3)] card_Suc_Diff1 [OF finite_free_pages b(3)] a(4) b(4) by simp_all
  then show "card (free_pages (frames s)) = card (free_pages fr2) + 2" by simp
  have kept: "pmem t x = pmem s x" if "frame_of x \<noteq> frame_of n" "frame_of x \<noteq> frame_of up" for x
    using that al by (simp add: t zero_table_frame wr64_frame)
  then show "frame_of x \<noteq> frame_of n \<Longrightarrow> frame_of x \<noteq> frame_of up \<Longrightarrow> pmem t x = pmem s x" .
  have rd: "rd64 (pmem t) (entry u j) = rd64 (pmem s) (entry u j)"
    if "page_aligned u" "frame_of u \<notin> free_pages (frames s)" "j < 512" for u j
  proof (rule rd64_frame [OF that(1,3)], rule kept)
    fix x assume "frame_of x = frame_of u"
    then show "frame_of x \<noteq> frame_of n" "frame_of x \<noteq> frame_of up" using that(2) f(1,2) by metis+
  qed
  then show "page_aligned u \<Longrightarrow> frame_of u \<notin> free_pages (frames s) \<Longrightarrow> j < 512 \<Longrightarrow>
      rd64 (pmem t) (entry u j) = rd64 (pmem s) (entry u j)" .
  have "frame_of (page_base (rd64 (pmem s) (entry kp i))) \<noteq> frame_of up" if "i < 4" "present (rd64 (pmem s) (entry kp i))" for i
    using K(8) [OF that] f(2) by metis
  moreover have "frame_of kp \<noteq> frame_of up" using K(6) f(2) by metis
  ultimately show "pds_source kp up [0..<4] t"
    using K(4,6,8) rd [OF K(4,6)] f(4) unfolding pds_source_def by (simp add: t)
  have "n \<noteq> up" using f(3) by auto
  then show "j < 512 \<Longrightarrow> rd64 (pmem t) (entry up j) = 0" "rd64 (pmem t) (entry n 0) = table_flags up"
    using al up(2) by (simp_all add: t rd64_wr64_entry rd64_zero_table)
qed

text \<open>The tables the loop has made, as the tree reads them.\<close>

lemma user_space_tree:
  assumes kt: "kernel_tree k s" and kp: "table_at (pmem s) k [0] = Some kp"
    and n: "pmm_alloc_page (frames s) = (n, fr)" "n \<noteq> 0" and up: "pmm_alloc_page fr = (up, fr2)" "up \<noteq> 0"
    and t: "t = s\<lparr>frames := fr2, pmem := wr64 (zero_table up (zero_table n (pmem s))) (entry n 0) (table_flags up)\<rparr>"
    and P: "frame_kept up t s3" "\<forall>j < 512. 4 \<le> j \<longrightarrow> rd64 (pmem s3) (entry up j) = rd64 (pmem t) (entry up j)"
      "pds_copied kp up [0..<4] pd t s3"
  defines "m' \<equiv> copy_table n k [1..<512] (pmem s3)"
  shows "user_entries (pmem s) k kp m' n up pd"
    and "i < 4 \<Longrightarrow> present (rd64 (pmem s) (entry kp i)) \<Longrightarrow> pd i \<noteq> 0 \<and> frame_of (pd i) \<in> free_pages fr2 - free_pages (frames s3)"
    and "i < 4 \<Longrightarrow> j < 4 \<Longrightarrow> present (rd64 (pmem s) (entry kp i)) \<Longrightarrow> present (rd64 (pmem s) (entry kp j)) \<Longrightarrow> pd i = pd j \<Longrightarrow> i = j"
proof -
  note K = kernel_tree_tables [OF kt kp] and S = user_root_setup [OF kt kp n up t]
  have ft: "frames t = fr2" by (simp add: t)
  have ne: "n \<noteq> up" "n \<noteq> k" using S(3,5) K(3) by auto
  have ct: "rd64 m' (entry u j) = (if u = n \<and> 0 < j then rd64 (pmem s3) (entry k j) else rd64 (pmem s3) (entry u j))"
    if "page_aligned u" "j < 512" for u j
    using that S(1) K(1) ne(2) by (auto simp: m'_def rd64_copy_table)
  have pdf: "page_aligned (pd i) \<and> pd i \<noteq> 0 \<and> frame_of (pd i) \<in> free_pages fr2 - free_pages (frames s3) \<and>
      rd64 (pmem s3) (entry up i) = table_flags (pd i) \<and>
      (\<forall>j < 512. rd64 (pmem s3) (entry (pd i) j) = rd64 (pmem s) (entry (page_base (rd64 (pmem s) (entry kp i))) j))"
    if "i < 4" "present (rd64 (pmem s) (entry kp i))" for i
  proof -
    have "rd64 (pmem t) (entry kp i) = rd64 (pmem s) (entry kp i)" by (rule S(11) [OF K(4,6)]) (use that in simp)
    moreover have "rd64 (pmem t) (entry (page_base (rd64 (pmem s) (entry kp i))) j) = rd64 (pmem s) (entry (page_base (rd64 (pmem s) (entry kp i))) j)"
      if "j < 512" for j
      using K(8) \<open>i < 4\<close> \<open>present (rd64 (pmem s) (entry kp i))\<close> that by (intro S(11)) simp_all
    moreover note ft
    moreover have "i \<in> set [0..<4]" using that by simp
    note bspec [OF conjunct1 [OF P(3) [unfolded pds_copied_def]] this, unfolded Let_def]
    ultimately show ?thesis using that(2) by simp
  qed
  then show "i < 4 \<Longrightarrow> present (rd64 (pmem s) (entry kp i)) \<Longrightarrow> pd i \<noteq> 0 \<and> frame_of (pd i) \<in> free_pages fr2 - free_pages (frames s3)"
    by simp
  have tk: "rd64 (pmem t) (entry kp i) = rd64 (pmem s) (entry kp i)" if "i < 4" for i by (rule S(11) [OF K(4,6)]) (use that in simp)
  show "i < 4 \<Longrightarrow> j < 4 \<Longrightarrow> present (rd64 (pmem s) (entry kp i)) \<Longrightarrow> present (rd64 (pmem s) (entry kp j)) \<Longrightarrow> pd i = pd j \<Longrightarrow> i = j"
    using P(3) tk by (auto simp: pds_copied_def)
  have upe: "rd64 (pmem s3) (entry up i) = (if i < 4 \<and> present (rd64 (pmem s) (entry kp i)) then table_flags (pd i) else 0)"
    if "i < 512" for i
    using that pdf tk [of i] P(2,3) S(12) [OF that] by (cases "i < 4") (auto simp: pds_copied_def Let_def)
  have "rd64 (pmem s3) (entry n 0) = rd64 (pmem t) (entry n 0)"
    by (rule frame_kept_rd64 [OF P(1) S(1)]) (use S(5,6) ft in auto)
  then have n0: "rd64 (pmem s3) (entry n 0) = table_flags up" by (simp add: S(13))
  have k3: "rd64 (pmem s3) (entry k j) = rd64 (pmem s) (entry k j)" if "j < 512" for j
  proof -
    have "rd64 (pmem s3) (entry k j) = rd64 (pmem t) (entry k j)"
    proof (rule frame_kept_rd64 [OF P(1) K(1) _ _ that])
      show "frame_of k \<notin> free_pages (frames t)" unfolding ft S(6) using K(3) by blast
      show "frame_of k \<noteq> frame_of up" using K(3) S(4) by metis
    qed
    then show ?thesis using S(11) [OF K(1,3) that] by simp
  qed
  have "pd i \<noteq> n" if "i < 4" "present (rd64 (pmem s) (entry kp i))" for i
    using pdf [OF that] S(6) by auto
  then show "user_entries (pmem s) k kp m' n up pd"
    unfolding user_entries_def
    using S(1,2) ct n0 k3 ne(1) upe pdf by auto
qed

lemma create_user_pml4_effect:
  assumes kt: "kernel_tree k s" and c: "create_user_pml4 s = (root, s')"
  shows "pmm_ok (frames s') \<and> free_pages (frames s') \<subseteq> free_pages (frames s) \<and>
    (\<forall>x. frame_of x \<notin> free_pages (frames s) \<longrightarrow> pmem s' x = pmem s x) \<and>
    (6 \<le> card (free_pages (frames s)) \<longrightarrow> root \<noteq> 0) \<and>
    (root \<noteq> 0 \<longrightarrow> vm_ok root s' \<and> table_frames (pmem s') root \<subseteq> free_pages (frames s) \<and>
      plain_top (pmem s') root \<and> (\<forall>v. xlate (pmem s') root v = xlate (pmem s) k v))"
proof -
  obtain kp where kp: "table_at (pmem s) k [0] = Some kp" using kt unfolding kernel_tree_def kernel_shape_def by blast
  note K = kernel_tree_tables [OF kt kp]
  show ?thesis using kt kp c
  proof (cases rule: create_user_pml4_cases)
    case none
    then show ?thesis using K(7) by simp
  next
    case (one n fr)
    note a = alloc_facts [OF K(7) one(1,2), folded frame_of_def]
    have "free_pages (frames s) = {frame_of n}" using a(3,4) one(4) by auto
    then show ?thesis using a one(3,5) by (auto simp: zero_table_frame)
  next
    case (two n fr up fr2 ok s3)
    define t where "t = s\<lparr>frames := fr2, pmem := wr64 (zero_table up (zero_table n (pmem s))) (entry n 0) (table_flags up)\<rparr>"
    note S = user_root_setup [OF kt kp two(1-4) t_def]
    have ft: "frames t = fr2" by (simp add: t_def)
    have P: "frame_kept up t s3 \<and> (length [0..<4] \<le> card (free_pages (frames t)) \<longrightarrow> ok) \<and>
        (\<forall>j < 512. j \<notin> set [0..<4] \<longrightarrow> rd64 (pmem s3) (entry up j) = rd64 (pmem t) (entry up j)) \<and>
        (ok \<longrightarrow> (\<exists>pd. pds_copied kp up [0..<4] pd t s3))"
      by (rule copy_pds_copies [OF _ S(2) _ S(9) _ two(5) [folded t_def]]) (use S in \<open>simp_all add: ft\<close>)
    have enough: "6 \<le> card (free_pages (frames s)) \<longrightarrow> root \<noteq> 0" using P S(8) two(2,6) by (simp add: ft)
    have F3: "pmm_ok (frames s3)" "free_pages (frames s3) \<subseteq> free_pages (frames s) - {frame_of n, frame_of up}"
      using P S(6) by (auto simp: frame_kept_def ft)
    have out3: "pmem s3 x = pmem s x" if "frame_of x \<notin> free_pages (frames s)" for x
    proof -
      have "frame_of x \<notin> insert (frame_of up) (free_pages (frames t))" unfolding ft S(6) using that S(4) by (metis Diff_iff insert_iff)
      then have "pmem s3 x = pmem t x" using P unfolding frame_kept_def by blast
      moreover have "frame_of x \<noteq> frame_of n" "frame_of x \<noteq> frame_of up" using that S(3,4) by metis+
      ultimately show ?thesis using S(10) [of x] by simp
    qed
    show ?thesis
    proof (cases ok)
      case False
      then show ?thesis using F3 out3 enough two(6,7) by auto
    next
      case True
      then obtain pd where pd: "pds_copied kp up [0..<4] pd t s3" using P by blast
      have root: "root = n" and s': "s' = s3\<lparr>pmem := copy_table n k [1..<512] (pmem s3)\<rparr>" using two(6,7) True by simp_all
      have fk: "frame_kept up t s3" "\<forall>j < 512. 4 \<le> j \<longrightarrow> rd64 (pmem s3) (entry up j) = rd64 (pmem t) (entry up j)" using P by auto
      note U = user_space_tree [OF kt kp two(1-4) t_def fk pd]
      have shape: "kernel_shape (pmem s) k" using kt by (simp add: kernel_tree_def)
      note T = user_tree [OF shape kp U(1)]
      have mem: "(p = [] \<and> u = n) \<or> (p = [0] \<and> u = up) \<or> (\<exists>j < 4. present (rd64 (pmem s) (entry kp j)) \<and> p = [0, j] \<and> u = pd j)"
        if "valid_path p" "table_at (pmem s') root p = Some u" for p u
        using that T(1) [OF that(1)] by (auto simp: s' root split: list.splits if_splits)
      have good: "u \<noteq> 0 \<and> frame_of u \<in> free_pages (frames s) \<and> frame_of u \<notin> free_pages (frames s3)"
        if "valid_path p" "table_at (pmem s') root p = Some u" for p u
        using mem [OF that] S(3,4,6) F3(2) U(2) two(2,4) by auto
      have ne: "n \<noteq> up" "pd i \<noteq> n \<and> pd i \<noteq> up" if "i < 4" "present (rd64 (pmem s) (entry kp i))" for i
        using S(5,6) U(2) [OF that] by auto
      have "n \<noteq> up" using S(5) by auto
      then have "p = q" if "valid_path p" "table_at (pmem s') root p = Some u" "valid_path q" "table_at (pmem s') root q = Some u" for p q u
        using mem [OF that(1,2)] mem [OF that(3,4)] ne(2) U(3) by auto
      then have "wf_tables (pmem s') (frames s') root"
        using good S(1) by (auto simp: wf_tables_def s' root frame_of_def)
      moreover have "table_frames (pmem s') root \<subseteq> free_pages (frames s)" using good by (auto simp: table_frames_def)
      moreover have "pmem s' x = pmem s x" if "frame_of x \<notin> free_pages (frames s)" for x
      proof -
        have "frame_of x \<noteq> frame_of n" using that S(3) by metis
        then show ?thesis using out3 [OF that] S(1) by (simp add: s' copy_table_frame)
      qed
      ultimately show ?thesis using F3 T(2,3) enough by (auto simp: vm_ok_def s' root)
    qed
  qed
qed


lemma copy_pds_regs: "copy_pds kp up is s = (ok, s') \<Longrightarrow> kernel_pml4 s' = kernel_pml4 s \<and> cr3 s' = cr3 s"
  by (induction kp up "is" s arbitrary: ok s' rule: copy_pds.induct) (auto simp: Let_def split: prod.splits if_splits)

lemma create_user_pml4_regs:
  assumes "create_user_pml4 s = (root, s')" shows "kernel_pml4 s' = kernel_pml4 s \<and> cr3 s' = cr3 s"
  using assms by (auto simp: create_user_pml4_def Let_def split: prod.splits if_splits dest!: copy_pds_regs)

lemma kernel_tree_kept:
  assumes kt: "kernel_tree k s" and fr: "pmm_ok (frames s')" "free_pages (frames s') \<subseteq> free_pages (frames s)"
    and same: "\<And>x. frame_of x \<in> table_frames (pmem s) k \<Longrightarrow> pmem s' x = pmem s x" and "kernel_pml4 s' = kernel_pml4 s"
  shows "kernel_tree k s'"
proof -
  have ok: "vm_ok k s" using kt by (simp add: kernel_tree_def)
  have T: "valid_path p \<Longrightarrow> table_at (pmem s') k p = table_at (pmem s) k p" for p
    by (rule table_at_agree(1) [OF wf_tablesD(1) [OF vm_okD(1) [OF ok]]], rule same)
  have v: "valid_path [0]" by (simp add: valid_path_def)
  have "\<forall>p. valid_path p \<longrightarrow> table_at (pmem s') k p \<noteq> None \<longrightarrow> p = [] \<or> p = [0] \<or> (\<exists>i < 4. p = [0, i])"
    using kt T by (simp add: kernel_tree_def kernel_shape_def)
  moreover have "plain_top (pmem s') k"
    using kt space_untouched(4) [OF ok fr same] by (simp add: kernel_tree_def kernel_shape_def)
  ultimately show ?thesis
    using space_untouched(1) [OF ok fr same] kt assms(5) T [OF v] by (simp add: kernel_tree_def kernel_shape_def del: table_at.simps)
qed

section \<open>All the address spaces of a machine\<close>

text \<open>The kernel's tables and those of every process have no frame in common.\<close>

definition spaces_ok :: "u64 \<Rightarrow> u64 set \<Rightarrow> vm_state \<Rightarrow> bool" where
  "spaces_ok k A s \<longleftrightarrow> kernel_tree k s \<and> k \<notin> A \<and> (\<forall>a \<in> A. vm_ok a s) \<and>
    (\<forall>a \<in> insert k A. \<forall>b \<in> insert k A. a \<noteq> b \<longrightarrow> apart a b s)"

lemma spaces_okD:
  assumes "spaces_ok k A s"
  shows "kernel_tree k s" "k \<notin> A" "b \<in> insert k A \<Longrightarrow> vm_ok b s"
    "a \<in> insert k A \<Longrightarrow> b \<in> insert k A \<Longrightarrow> a \<noteq> b \<Longrightarrow> apart a b s"
  using assms unfolding spaces_ok_def kernel_tree_def by blast+

text \<open>
  A change that stays in the tables of one process and in free frames, as \<open>vmm_map_page\<close>,
  \<open>vmm_unmap_page\<close> and the program loader make it, keeps all the others.
\<close>

lemma apart_sym: "apart a b s = apart b a s"
  by (auto simp: apart_def)

lemma spaces_local:
  assumes ok: "spaces_ok k A s" and a: "a \<in> A" "vm_ok a s'" "writes_in a s s'" "kernel_pml4 s' = kernel_pml4 s"
  shows "spaces_ok k A s'" and "b \<in> insert k A - {a} \<Longrightarrow> vmm_virt_to_phys b v s' = vmm_virt_to_phys b v s"
proof -
  note D = spaces_okD [OF ok]
  have ap: "apart a b s" if "b \<in> insert k A - {a}" for b using D(4) [of a b] a(1) that by auto
  have same: "pmem s' x = pmem s x" if "b \<in> insert k A - {a}" "frame_of x \<in> table_frames (pmem s) b" for b x
    using that(2) a(3) ap [OF that(1)] table_frames_used [OF D(3) that(2)] that(1) by (auto simp: writes_in_def apart_def)
  have O: "vm_ok b s' \<and> apart a b s' \<and> (\<forall>v. vmm_virt_to_phys b v s' = vmm_virt_to_phys b v s)" if "b \<in> insert k A - {a}" for b
    using other_space [OF a(2,3) D(3) ap] that by blast
  then show "b \<in> insert k A - {a} \<Longrightarrow> vmm_virt_to_phys b v s' = vmm_virt_to_phys b v s" by blast
  have tf: "table_frames (pmem s') b = table_frames (pmem s) b" if "b \<in> insert k A - {a}" for b
    using wf_tablesD(1) [OF vm_okD(1) [OF D(3)]] that by (intro tree_agree(1) same [OF that]) auto
  have fr: "pmm_ok (frames s')" "free_pages (frames s') \<subseteq> free_pages (frames s)"
    using a(2,3) vm_okD(2) by (auto simp: writes_in_def)
  have "k \<in> insert k A - {a}" using a(1) D(2) by auto
  then have "kernel_tree k s'" by (intro kernel_tree_kept [OF D(1) fr same a(4)])
  moreover have "apart b c s'" if "b \<in> insert k A" "c \<in> insert k A" "b \<noteq> c" for b c
  proof (cases "b = a \<or> c = a")
    case True
    then show ?thesis using O that apart_sym by blast
  next
    case False
    then have "apart b c s' = apart b c s" using tf that unfolding apart_def by simp
    then show ?thesis using D(4) that by simp
  qed
  ultimately show "spaces_ok k A s'" using D(2) O a(2) unfolding spaces_ok_def by blast
qed

lemma spaces_create:
  assumes ok: "spaces_ok k A s" and c: "create_user_pml4 s = (root, s')"
  shows "spaces_ok k (if root = 0 then A else insert root A) s'" and "root \<notin> insert k A"
    and "b \<in> insert k A \<Longrightarrow> vmm_virt_to_phys b v s' = vmm_virt_to_phys b v s"
proof -
  note D = spaces_okD [OF ok] and E = create_user_pml4_effect [OF spaces_okD(1) [OF ok] c]
  have same: "pmem s' x = pmem s x" if "b \<in> insert k A" "frame_of x \<in> table_frames (pmem s) b" for b x
    using E table_frames_used [OF D(3) [OF that(1)] that(2)] by blast
  have fr: "pmm_ok (frames s')" "free_pages (frames s') \<subseteq> free_pages (frames s)" using E by blast+
  have U: "vm_ok b s'" "xlate (pmem s') b v = xlate (pmem s) b v" "table_frames (pmem s') b = table_frames (pmem s) b"
    if "b \<in> insert k A" for b v
    using space_untouched [OF D(3) [OF that] fr same [OF that]] by blast+
  show "b \<in> insert k A \<Longrightarrow> vmm_virt_to_phys b v s' = vmm_virt_to_phys b v s"
    using U(1,2) D(3) by (simp add: vmm_virt_to_phys_xlate)
  have kt: "kernel_tree k s'"
    by (rule kernel_tree_kept [OF D(1) fr same]) (use create_user_pml4_regs [OF c] in auto)
  have apt: "apart a b s'" if "a \<in> insert k A" "b \<in> insert k A" "a \<noteq> b" for a b
  proof -
    have "apart a b s' = apart a b s" using U(3) that unfolding apart_def by simp
    then show ?thesis using D(4) that by simp
  qed
  have new: "apart root b s' \<and> root \<noteq> b" if "root \<noteq> 0" "b \<in> insert k A" for b
  proof -
    have r: "table_frames (pmem s') root \<subseteq> free_pages (frames s)" using E that(1) by blast
    have "frame_of root \<in> table_frames (pmem s') root"
      using table_framesI [of "[]" "pmem s'" root] by (simp add: valid_path_def)
    then show ?thesis using r U(3) [OF that(2)] table_frames_used [OF D(3) [OF that(2)]] unfolding apart_def by blast
  qed
  show fresh: "root \<notin> insert k A" using new root_nonzero D(3) by blast
  show "spaces_ok k (if root = 0 then A else insert root A) s'"
  proof (cases "root = 0")
    case True
    then show ?thesis using kt D(2) U(1) apt unfolding spaces_ok_def by simp
  next
    case False
    have "apart a b s'" if "a \<in> insert k (insert root A)" "b \<in> insert k (insert root A)" "a \<noteq> b" for a b
      using that apt new [OF False] apart_sym by blast
    moreover have "vm_ok root s'" using E False by blast
    ultimately show ?thesis using kt D(2) U(1) fresh False unfolding spaces_ok_def by auto
  qed
qed


section \<open>Steps\<close>

lemma kernel_tree_boot:
  assumes bt: "boot_tables (frames s) pml4 pdp pd" and fr: "pmm_ok (frames s)"
  shows "kernel_tree pml4 (vmm_init (paging_init pml4 pdp pd s))"
proof -
  let ?s = "paging_init pml4 pdp pd s"
  note tree = paging_init_tree [OF bt refl] and ok = paging_init_ok [OF bt fr]
  note E = paging_init_entries [OF bt refl]
  have al: "page_aligned pml4" "page_aligned pdp" "j < 4 \<Longrightarrow> page_aligned (pd j)" for j
    using bt by (auto simp: boot_tables_def)
  have nb: "\<not> huge (table_flags t)" if "page_aligned t" for t
    using table_entry_next [OF that] by (auto simp: next_table_def split: if_splits)
  have v0: "valid_path [0]" by (simp add: valid_path_def)
  have "plain_top (pmem ?s) pml4" unfolding plain_top_def
  proof (intro allI impI)
    fix p i e assume p: "length p \<le> 1" "valid_path (p @ [i])" "entry_at (pmem ?s) pml4 p i = Some e" "present e"
    have v: "valid_path p" "i < 512" using valid_path_snoc [OF p(2)] by simp_all
    have "p = [] \<or> (\<exists>j. p = [j])" using p(1) by (cases p) auto
    then show "\<not> huge e"
      using p(3,4) tree [OF v(1)] E(1,2) [OF v(2)] nb [OF al(2)] nb [OF al(3)]
      by (auto simp: entry_at_def present_def split: if_splits simp del: table_at.simps)
  qed
  moreover have "p = [] \<or> p = [0] \<or> (\<exists>i < 4. p = [0, i])" if "valid_path p" "table_at (pmem ?s) pml4 p \<noteq> None" for p
    using that tree [OF that(1)] by (auto split: list.splits if_splits)
  moreover have "cr3 ?s = pml4" by (simp add: paging_init_def Let_def)
  ultimately show ?thesis
    using ok tree [OF v0] al(1) by (simp add: kernel_tree_def kernel_shape_def vmm_init_def vm_ok_def page_base_aligned)
qed

text \<open>
  The operations on address spaces after boot: the set is that of the processes' tables.
  Nothing maps into the kernel's own.
\<close>

inductive space_step :: "u64 set \<times> vm_state \<Rightarrow> u64 set \<times> vm_state \<Rightarrow> bool" where
  space_new: "create_user_pml4 s = (root, s') \<Longrightarrow> space_step (A, s) (if root = 0 then A else insert root A, s')"
| space_map: "a \<in> A \<Longrightarrow> page_base flags = 0 \<Longrightarrow> space_step (A, s) (A, vmm_map_page a virt phys flags s)"
| space_unmap: "a \<in> A \<Longrightarrow> free_pages (frames s) \<noteq> {} \<Longrightarrow> space_step (A, s) (A, vmm_unmap_page a virt s)"
| space_switch: "space_step (A, s) (A, vmm_switch_pml4 a s)"

lemma spaces_map:
  assumes "spaces_ok k A s" "a \<in> A" "page_base flags = 0" "s' = vmm_map_page a virt phys flags s"
  shows "spaces_ok k A s'" and "b \<in> insert k A - {a} \<Longrightarrow> vmm_virt_to_phys b v s' = vmm_virt_to_phys b v s"
  using vmm_map_page_effect [OF spaces_okD(3) [OF assms(1)] assms(3,4)] spaces_local [OF assms(1,2)] assms(2) by blast+

lemma spaces_unmap:
  assumes "spaces_ok k A s" "a \<in> A" "free_pages (frames s) \<noteq> {}" "s' = vmm_unmap_page a virt s"
  shows "spaces_ok k A s'" and "b \<in> insert k A - {a} \<Longrightarrow> vmm_virt_to_phys b v s' = vmm_virt_to_phys b v s"
  using vmm_unmap_page_effect [OF spaces_okD(3) [OF assms(1)] assms(3,4)] spaces_local [OF assms(1,2)] assms(2) by blast+

definition spaces_inv :: "u64 \<Rightarrow> u64 set \<times> vm_state \<Rightarrow> bool" where
  "spaces_inv k x \<longleftrightarrow> spaces_ok k (fst x) (snd x)"

lemma spaces_step:
  assumes "spaces_inv k x" "space_step x y" shows "spaces_inv k y"
  using assms(2,1)
proof (cases rule: space_step.cases)
  case (space_switch A s a)
  then show ?thesis using assms(1)
    by (simp add: spaces_inv_def spaces_ok_def vmm_switch_pml4_def kernel_tree_def vm_ok_def apart_def)
qed (auto simp: spaces_inv_def dest: spaces_create(1) spaces_map(1) spaces_unmap(1))

definition spaces_boot :: "u64 \<Rightarrow> u64 set \<times> vm_state \<Rightarrow> bool" where
  "spaces_boot k x \<longleftrightarrow> (\<exists>s pdp pd. boot_tables (frames s) k pdp pd \<and> pmm_ok (frames s) \<and>
    x = ({}, vmm_init (paging_init k pdp pd s)))"

interpretation spaces: invariant_system "spaces_boot k" space_step "spaces_inv k" for k
proof unfold_locales
  show "spaces_boot k x \<Longrightarrow> spaces_inv k x" for x
    using kernel_tree_boot by (auto simp: spaces_boot_def spaces_inv_def spaces_ok_def)
qed (rule spaces_step)

section \<open>Properties\<close>


lemma boot_spaces: "spaces_boot 0x1000 ({}, vmm_init boot_vm)" "spaces_ok 0x1000 {} (vmm_init boot_vm)"
  "6 \<le> card (free_pages (frames (vmm_init boot_vm)))"
proof -
  show "spaces_boot 0x1000 ({}, vmm_init boot_vm)"
    unfolding spaces_boot_def boot_vm_def using boot_vm_tables boot_frames(2)
    by (intro exI conjI refl) simp_all
  from spaces.start_inv [OF this] show "spaces_ok 0x1000 {} (vmm_init boot_vm)" by (simp add: spaces_inv_def)
  have "{8, 9, 10, 11, 12, 13} \<subseteq> free_pages (frames (vmm_init boot_vm))" by (auto simp: boot_frames MAX_PAGES_eq vmm_init_def)
  from card_mono [OF _ this] show "6 \<le> card (free_pages (frames (vmm_init boot_vm)))" by simp
qed




end
