(* ===== verification/Process.thy ===== *)
theory Process
  imports VmmMap
begin

text \<open>
  Processes and the scheduler, \<open>kernel/process.c\<close>, with the reaping half of
  \<open>wait4\<close> from \<open>kernel/syscall.c\<close>.  The state is the process table, the index
  of the current process, the pid counter, the RSP0 field of the task state
  segment and the memory of \<open>Vmm\<close>.  A \<open>process_t *\<close> is an index of the table.
  The static stacks have link-time addresses: \<open>kernel_stacks\<close> and
  \<open>user_stacks\<close> are arguments.  The kernel reaches its own data through the
  identity map, so a kernel address is the physical address.
\<close>

definition MAX_PROCESSES :: nat where "MAX_PROCESSES = 8"
definition KERNEL_STACK_SIZE :: u64 where "KERNEL_STACK_SIZE = 8192"
definition USER_STACK_SIZE :: u64 where "USER_STACK_SIZE = 16384"

datatype process_state = READY | RUNNING | ZOMBIE | TERMINATED

text \<open>An open file holds an inode (an index of the inode cache, or none).\<close>

record ofile =
  of_ip :: "nat option"
  of_offset :: u32
  of_flags :: u32

record process =
  p_pid :: u32
  p_ppid :: u32
  p_exit_code :: u32
  p_esp :: u64
  p_kernel_stack :: u64
  p_state :: process_state
  p_pml4 :: u64
  p_heap_start :: u64
  p_heap_end :: u64
  p_ofiles :: "ofile list"

record sched =
  vm :: vm_state
  processes :: "process list"
  current_process_idx :: nat
  next_pid :: u64
  tss_rsp0 :: u64

section \<open>The operations\<close>

definition upd_proc :: "nat \<Rightarrow> (process \<Rightarrow> process) \<Rightarrow> sched \<Rightarrow> sched" where
  "upd_proc i f s = s\<lparr>processes := (processes s)[i := f (processes s ! i)]\<rparr>"

definition no_file :: "ofile \<Rightarrow> ofile" where
  "no_file f = f\<lparr>of_ip := None, of_offset := 0, of_flags := 0\<rparr>"

definition clear_ofiles :: "ofile list \<Rightarrow> ofile list" where
  "clear_ofiles fs = fold (\<lambda>j fs. fs[j := no_file (fs ! j)]) [0..<16] fs"

definition scheduler_init :: "sched \<Rightarrow> sched" where
  "scheduler_init s =
    (fold (\<lambda>i. upd_proc i (\<lambda>p. p\<lparr>p_pid := 0, p_ppid := 0, p_exit_code := 0, p_esp := 0,
       p_kernel_stack := 0, p_state := TERMINATED, p_pml4 := 0, p_heap_start := 0, p_heap_end := 0,
       p_ofiles := clear_ofiles (p_ofiles p)\<rparr>)) [0..<MAX_PROCESSES] s)
     \<lparr>current_process_idx := 0, next_pid := 1\<rparr>"

definition get_current_process :: "sched \<Rightarrow> nat" where
  "get_current_process s = current_process_idx s"

definition get_process_by_pid :: "u32 \<Rightarrow> sched \<Rightarrow> nat option" where
  "get_process_by_pid pid s =
    find (\<lambda>i. p_pid (processes s ! i) = pid \<and> p_state (processes s ! i) \<noteq> TERMINATED)
      [0..<MAX_PROCESSES]"

text \<open>\<open>*(--stack) = v\<close>.\<close>

fun push_word :: "u64 \<Rightarrow> u64 \<times> mem \<Rightarrow> u64 \<times> mem" where
  "push_word v (stack, m) = (stack - 8, wr64 m (stack - 8) v)"

definition init_frame :: "u64 \<Rightarrow> u64 \<Rightarrow> u64 list" where
  "init_frame user_stack_top entry_point =
    [0x1B, user_stack_top, 0x202, 0x23, entry_point] @ replicate 15 0"

definition create_process :: "u64 \<Rightarrow> u64 \<Rightarrow> u64 \<Rightarrow> sched \<Rightarrow> int \<times> sched" where
  "create_process kernel_stacks user_stacks entry_point s =
    (case find (\<lambda>i. p_state (processes s ! i) = TERMINATED) [0..<MAX_PROCESSES] of
       None \<Rightarrow> (-1, s)
     | Some idx \<Rightarrow>
       let (root, v) = create_user_pml4 (vm s); s = s\<lparr>vm := v\<rparr> in
       if root = 0 then (-1, s)
       else let s = upd_proc idx (\<lambda>p. p\<lparr>p_pml4 := root\<rparr>) s;
                kernel_stack_top = kernel_stacks + of_nat (idx + 1) * KERNEL_STACK_SIZE;
                user_stack_top = user_stacks + of_nat (idx + 1) * USER_STACK_SIZE;
                s = upd_proc idx (\<lambda>p. p\<lparr>p_kernel_stack := kernel_stack_top\<rparr>) s;
                (stack, m) = fold push_word (init_frame user_stack_top entry_point)
                  (kernel_stack_top, pmem (vm s));
                s = s\<lparr>vm := (vm s)\<lparr>pmem := m\<rparr>\<rparr>;
                s = upd_proc idx (\<lambda>p. p\<lparr>p_esp := stack, p_pid := ucast (next_pid s)\<rparr>) s;
                s = s\<lparr>next_pid := next_pid s + 1\<rparr>;
                caller = processes s ! get_current_process s;
                s = upd_proc idx (\<lambda>p. p\<lparr>p_ppid := (if p_state caller = RUNNING then p_pid caller else 0),
                      p_exit_code := 0, p_heap_start := 0, p_heap_end := 0,
                      p_ofiles := clear_ofiles (p_ofiles p), p_state := READY\<rparr>) s
            in (sint (p_pid (processes s ! idx)), s))"

definition set_process_entry :: "nat \<Rightarrow> u64 \<Rightarrow> sched \<Rightarrow> sched" where
  "set_process_entry proc entry_point s =
    (let stack = p_esp (processes s ! proc) in
     if stack = 0 then s
     else s\<lparr>vm := (vm s)\<lparr>pmem := wr64 (pmem (vm s)) (stack + 8 * 15) entry_point\<rparr>\<rparr>)"

definition set_process_argv :: "nat \<Rightarrow> u64 \<Rightarrow> u64 \<Rightarrow> sched \<Rightarrow> sched" where
  "set_process_argv proc argc argv_ptr s =
    (let stack = p_esp (processes s ! proc) in
     if stack = 0 then s
     else let m = wr64 (pmem (vm s)) (stack + 8 * 9) argc; m = wr64 m (stack + 8 * 10) argv_ptr
       in s\<lparr>vm := (vm s)\<lparr>pmem := m\<rparr>\<rparr>)"

definition set_kernel_stack :: "u64 \<Rightarrow> sched \<Rightarrow> sched" where
  "set_kernel_stack stack s = s\<lparr>tss_rsp0 := stack\<rparr>"

definition activate_process :: "nat \<Rightarrow> sched \<Rightarrow> sched" where
  "activate_process idx s =
    (if MAX_PROCESSES \<le> idx then s
     else let s = s\<lparr>current_process_idx := idx\<rparr>;
              s = upd_proc idx (\<lambda>p. p\<lparr>p_state := RUNNING\<rparr>) s;
              s = set_kernel_stack (p_kernel_stack (processes s ! idx)) s
          in if p_pml4 (processes s ! idx) \<noteq> 0
             then s\<lparr>vm := vmm_switch_pml4 (p_pml4 (processes s ! idx)) (vm s)\<rparr> else s)"

definition next_ready :: "sched \<Rightarrow> nat option" where
  "next_ready s =
    map_option (\<lambda>i. (current_process_idx s + i) mod MAX_PROCESSES)
      (find (\<lambda>i. p_state (processes s ! ((current_process_idx s + i) mod MAX_PROCESSES)) = READY)
        [1..<MAX_PROCESSES])"

definition schedule :: "u64 \<Rightarrow> sched \<Rightarrow> (u64, sched) outcome" where
  "schedule current_esp s =
    (let cur = current_process_idx s;
         s = (if p_state (processes s ! cur) = RUNNING
              then upd_proc cur (\<lambda>p. p\<lparr>p_esp := current_esp\<rparr>) s else s)
     in case next_ready s of
          Some next_idx \<Rightarrow>
            let s = (if p_state (processes s ! cur) = RUNNING
                     then upd_proc cur (\<lambda>p. p\<lparr>p_state := READY\<rparr>) s else s);
                s = activate_process next_idx s
            in Ret (p_esp (processes s ! current_process_idx s)) s
        | None \<Rightarrow>
            if p_state (processes s ! cur) \<noteq> TERMINATED \<and> p_state (processes s ! cur) \<noteq> ZOMBIE
            then let s = upd_proc cur (\<lambda>p. p\<lparr>p_state := RUNNING\<rparr>) s
                 in Ret (p_esp (processes s ! cur)) s
            else Halt ''SCHEDULE: no runnable process'' s)"

text \<open>The process waits in a \<open>hlt\<close> loop with interrupts on until a timer tick schedules another.\<close>

definition exit_current_process :: "u32 \<Rightarrow> sched \<Rightarrow> (unit, sched) outcome" where
  "exit_current_process code s =
    Halt ''PROCESS: zombie''
      (upd_proc (current_process_idx s) (\<lambda>p. p\<lparr>p_exit_code := code, p_state := ZOMBIE\<rparr>) s)"

text \<open>
  The search and the reaping of \<open>wait4\<close>: the pid and the exit code of the
  child, whose slot becomes free, or nothing.
\<close>

definition wait_reap :: "sched \<Rightarrow> (u32 \<times> u32) option \<times> sched" where
  "wait_reap s =
    (let proc = get_current_process s in
     case find (\<lambda>i. p_ppid (processes s ! i) = p_pid (processes s ! proc) \<and>
                    p_state (processes s ! i) = ZOMBIE) [0..<MAX_PROCESSES] of
       None \<Rightarrow> (None, s)
     | Some found \<Rightarrow>
         let code = p_exit_code (processes s ! found);
             child_pid = p_pid (processes s ! found);
             s = upd_proc found (\<lambda>p. p\<lparr>p_state := TERMINATED, p_pid := 0, p_ppid := 0, p_exit_code := 0\<rparr>) s
         in (Some (child_pid, code), s))"

section \<open>Frames and the well-formedness of the table\<close>

definition proc :: "sched \<Rightarrow> nat \<Rightarrow> process" where
  "proc s i = processes s ! i"

definition table_ok :: "sched \<Rightarrow> bool" where
  "table_ok s \<longleftrightarrow> length (processes s) = MAX_PROCESSES \<and> current_process_idx s < MAX_PROCESSES"

lemma upd_proc_sel [simp]:
  "length (processes (upd_proc i f s)) = length (processes s)"
  "current_process_idx (upd_proc i f s) = current_process_idx s"
  "next_pid (upd_proc i f s) = next_pid s"
  "vm (upd_proc i f s) = vm s"
  "tss_rsp0 (upd_proc i f s) = tss_rsp0 s"
  by (simp_all add: upd_proc_def)

lemma proc_upd_proc:
  "i < length (processes s) \<Longrightarrow> proc (upd_proc i f s) j = (if j = i then f (proc s i) else proc s j)"
  by (simp add: proc_def upd_proc_def nth_list_update)

lemma nth_upd_proc:
  "i < length (processes s) \<Longrightarrow>
    processes (upd_proc i f s) ! j = (if j = i then f (processes s ! i) else processes s ! j)"
  by (simp add: upd_proc_def nth_list_update)

lemma table_ok_upd_proc [simp]: "table_ok (upd_proc i f s) = table_ok s"
  by (simp add: table_ok_def)

lemma table_ok_len: "table_ok s \<Longrightarrow> i < MAX_PROCESSES \<Longrightarrow> i < length (processes s)"
  by (simp add: table_ok_def)

lemma find_first:
  "find P [a..<b] = Some i \<longleftrightarrow> a \<le> i \<and> i < b \<and> P i \<and> (\<forall>j. a \<le> j \<longrightarrow> j < i \<longrightarrow> \<not> P j)" for a b i :: nat
proof
  assume "find P [a..<b] = Some i"
  then obtain k where k: "k < b - a" "P (a + k)" "i = a + k" "\<forall>j < k. \<not> P (a + j)"
    by (auto simp: find_Some_iff)
  show "a \<le> i \<and> i < b \<and> P i \<and> (\<forall>j. a \<le> j \<longrightarrow> j < i \<longrightarrow> \<not> P j)"
  proof (intro conjI allI impI)
    fix j assume "a \<le> j" "j < i"
    then have "j - a < k" and "a + (j - a) = j" using k(3) by auto
    then show "\<not> P j" using k(4) by metis
  qed (use k in auto)
next
  assume a: "a \<le> i \<and> i < b \<and> P i \<and> (\<forall>j. a \<le> j \<longrightarrow> j < i \<longrightarrow> \<not> P j)"
  then show "find P [a..<b] = Some i"
    by (auto simp: find_Some_iff intro!: exI [of _ "i - a"])
qed

lemma find_none: "find P [a..<b] = None \<longleftrightarrow> (\<forall>i. a \<le> i \<longrightarrow> i < b \<longrightarrow> \<not> P i)" for a b :: nat
  by (auto simp: find_None_iff)

section \<open>The scheduler\<close>

text \<open>What one call of \<open>schedule\<close> does, by the process it finds.\<close>

definition save_current :: "u64 \<Rightarrow> sched \<Rightarrow> sched" where
  "save_current e s =
    (if p_state (proc s (current_process_idx s)) = RUNNING
     then upd_proc (current_process_idx s) (\<lambda>p. p\<lparr>p_esp := e, p_state := READY\<rparr>) s else s)"

lemma cyclic_other:
  assumes "c < MAX_PROCESSES" and "1 \<le> d" and "d < MAX_PROCESSES"
  shows "(c + d) mod MAX_PROCESSES \<noteq> c"
  using assms by (cases "c + d < MAX_PROCESSES") (simp_all add: le_mod_geq)

lemma next_ready_SomeD:
  assumes "next_ready s = Some j" and "table_ok s"
  obtains d where "1 \<le> d" and "d < MAX_PROCESSES" and "j = (current_process_idx s + d) mod MAX_PROCESSES"
    and "p_state (proc s j) = READY" and "j < MAX_PROCESSES" and "j \<noteq> current_process_idx s"
    and "\<And>e. 1 \<le> e \<Longrightarrow> e < d \<Longrightarrow> p_state (proc s ((current_process_idx s + e) mod MAX_PROCESSES)) \<noteq> READY"
proof -
  from assms(1) obtain d where d: "j = (current_process_idx s + d) mod MAX_PROCESSES"
    "1 \<le> d" "d < MAX_PROCESSES" "p_state (proc s j) = READY"
    "\<And>e. 1 \<le> e \<Longrightarrow> e < d \<Longrightarrow> p_state (proc s ((current_process_idx s + e) mod MAX_PROCESSES)) \<noteq> READY"
    by (auto simp: next_ready_def find_first proc_def)
  moreover have "j < MAX_PROCESSES" using d(1) by (simp add: MAX_PROCESSES_def)
  moreover have "j \<noteq> current_process_idx s"
    using cyclic_other [of "current_process_idx s" d] d(1-3) assms(2) by (simp add: table_ok_def)
  ultimately show thesis using that by blast
qed

lemma cyclic_cover:
  assumes "c < MAX_PROCESSES" and "i < MAX_PROCESSES" and "i \<noteq> c"
  obtains d where "1 \<le> d" and "d < MAX_PROCESSES" and "i = (c + d) mod MAX_PROCESSES"
proof (cases "c < i")
  case True
  with assms show thesis by (intro that [of "i - c"]) auto
next
  case False
  with assms show thesis by (intro that [of "i + MAX_PROCESSES - c"]) auto
qed

lemma next_ready_None:
  assumes "table_ok s"
  shows "next_ready s = None \<longleftrightarrow>
    (\<forall>i < MAX_PROCESSES. i \<noteq> current_process_idx s \<longrightarrow> p_state (proc s i) \<noteq> READY)"
proof -
  have c: "current_process_idx s < MAX_PROCESSES" using assms by (simp add: table_ok_def)
  show ?thesis
  proof
    assume n: "next_ready s = None"
    show "\<forall>i < MAX_PROCESSES. i \<noteq> current_process_idx s \<longrightarrow> p_state (proc s i) \<noteq> READY"
    proof (intro allI impI)
      fix i assume i: "i < MAX_PROCESSES" "i \<noteq> current_process_idx s"
      obtain d where "1 \<le> d" "d < MAX_PROCESSES" "i = (current_process_idx s + d) mod MAX_PROCESSES"
        using cyclic_cover [OF c i] by blast
      with n show "p_state (proc s i) \<noteq> READY" by (auto simp: next_ready_def find_none proc_def)
    qed
  next
    assume a: "\<forall>i < MAX_PROCESSES. i \<noteq> current_process_idx s \<longrightarrow> p_state (proc s i) \<noteq> READY"
    show "next_ready s = None"
    proof (cases "next_ready s")
      case (Some j)
      from next_ready_SomeD [OF this assms] a show ?thesis by metis
    qed simp
  qed
qed

lemma next_ready_cong:
  "current_process_idx s' = current_process_idx s \<Longrightarrow>
    (\<And>i. p_state (proc s' i) = READY \<longleftrightarrow> p_state (proc s i) = READY) \<Longrightarrow> next_ready s' = next_ready s"
  by (simp add: next_ready_def proc_def)

lemma next_ready_esp:
  "table_ok s \<Longrightarrow> next_ready (upd_proc (current_process_idx s) (\<lambda>p. p\<lparr>p_esp := e\<rparr>) s) = next_ready s"
  by (rule next_ready_cong) (simp_all add: proc_upd_proc table_ok_def)

lemma upd_proc_twice [simp]:
  "i < length (processes s) \<Longrightarrow> upd_proc i f (upd_proc i g s) = upd_proc i (\<lambda>p. f (g p)) s"
  by (simp add: upd_proc_def)

lemma schedule_switch:
  assumes t: "table_ok s" and n: "next_ready s = Some j"
  shows "schedule e s = Ret (p_esp (proc s j)) (activate_process j (save_current e s))"
proof -
  let ?c = "current_process_idx s"
  have c: "?c < length (processes s)" using t by (simp add: table_ok_def)
  from next_ready_SomeD [OF n t] have j: "j < MAX_PROCESSES" "j \<noteq> ?c" by metis+
  then have jl: "j < length (processes s)" using t by (simp add: table_ok_def)
  have sc: "(if p_state (processes s ! ?c) = RUNNING
      then upd_proc ?c (\<lambda>p. p\<lparr>p_state := READY\<rparr>) (upd_proc ?c (\<lambda>p. p\<lparr>p_esp := e\<rparr>) s) else s) = save_current e s"
    using c by (simp add: save_current_def proc_def)
  have esp: "p_esp (processes (activate_process j (save_current e s)) !
      current_process_idx (activate_process j (save_current e s))) = p_esp (proc s j)"
    using j jl c by (simp add: activate_process_def Let_def save_current_def set_kernel_stack_def
        nth_upd_proc proc_def)
  show ?thesis
    using c sc esp n next_ready_esp [OF t, of e]
    by (cases "p_state (processes s ! ?c) = RUNNING") (simp_all add: schedule_def Let_def nth_upd_proc)
qed

lemma schedule_stay:
  assumes t: "table_ok s" and n: "next_ready s = None"
  shows "schedule e s = (case p_state (proc s (current_process_idx s)) of
      RUNNING \<Rightarrow> Ret e (upd_proc (current_process_idx s) (\<lambda>p. p\<lparr>p_esp := e, p_state := RUNNING\<rparr>) s)
    | READY \<Rightarrow> Ret (p_esp (proc s (current_process_idx s)))
        (upd_proc (current_process_idx s) (\<lambda>p. p\<lparr>p_state := RUNNING\<rparr>) s)
    | _ \<Rightarrow> Halt ''SCHEDULE: no runnable process'' s)"
proof -
  have c: "current_process_idx s < length (processes s)" using t by (simp add: table_ok_def)
  then show ?thesis
    using n next_ready_esp [OF t, of e]
    by (cases "p_state (processes s ! current_process_idx s)")
      (simp_all add: schedule_def Let_def nth_upd_proc proc_def)
qed

lemma activate_process_facts:
  assumes "table_ok s" and "j < MAX_PROCESSES" and s': "s' = activate_process j s"
  shows "table_ok s'" and "current_process_idx s' = j"
    and "proc s' i = (if i = j then (proc s j)\<lparr>p_state := RUNNING\<rparr> else proc s i)"
    and "tss_rsp0 s' = p_kernel_stack (proc s j)" and "next_pid s' = next_pid s"
    and "vm s' = (vm s)\<lparr>cr3 := if p_pml4 (proc s j) \<noteq> 0 then p_pml4 (proc s j) else cr3 (vm s)\<rparr>"
proof -
  have jl: "j < length (processes s)" using assms by (simp add: table_ok_def)
  show "table_ok s'" "current_process_idx s' = j" "tss_rsp0 s' = p_kernel_stack (proc s j)"
    "next_pid s' = next_pid s"
    "proc s' i = (if i = j then (proc s j)\<lparr>p_state := RUNNING\<rparr> else proc s i)"
    "vm s' = (vm s)\<lparr>cr3 := if p_pml4 (proc s j) \<noteq> 0 then p_pml4 (proc s j) else cr3 (vm s)\<rparr>"
    unfolding s' activate_process_def Let_def using assms(1,2) jl
    by (simp_all add: set_kernel_stack_def nth_upd_proc table_ok_def proc_def vmm_switch_pml4_def)
qed

lemma save_current_facts:
  assumes "table_ok s"
  shows "table_ok (save_current e s)" and "current_process_idx (save_current e s) = current_process_idx s"
    and "vm (save_current e s) = vm s" and "next_pid (save_current e s) = next_pid s"
    and "proc (save_current e s) i =
      (if i = current_process_idx s \<and> p_state (proc s i) = RUNNING
       then (proc s i)\<lparr>p_esp := e, p_state := READY\<rparr> else proc s i)"
proof -
  have "current_process_idx s < length (processes s)" using assms by (simp add: table_ok_def)
  then show "table_ok (save_current e s)" "current_process_idx (save_current e s) = current_process_idx s"
    "vm (save_current e s) = vm s" "next_pid (save_current e s) = next_pid s"
    "proc (save_current e s) i =
      (if i = current_process_idx s \<and> p_state (proc s i) = RUNNING
       then (proc s i)\<lparr>p_esp := e, p_state := READY\<rparr> else proc s i)"
    using assms by (auto simp: save_current_def proc_upd_proc)
qed

section \<open>At most one process runs\<close>

definition one_running :: "sched \<Rightarrow> bool" where
  "one_running s \<longleftrightarrow> table_ok s \<and>
    (\<forall>i < MAX_PROCESSES. p_state (proc s i) = RUNNING \<longrightarrow> i = current_process_idx s)"

text \<open>The live processes have distinct, positive pids below the counter.\<close>

definition live :: "sched \<Rightarrow> nat \<Rightarrow> bool" where
  "live s i \<longleftrightarrow> i < MAX_PROCESSES \<and> p_state (proc s i) \<noteq> TERMINATED"

definition pids_ok :: "sched \<Rightarrow> bool" where
  "pids_ok s \<longleftrightarrow> 0 < next_pid s \<and>
    (\<forall>i. live s i \<longrightarrow> 0 < unat (p_pid (proc s i)) \<and> unat (p_pid (proc s i)) < unat (next_pid s)) \<and>
    (\<forall>i j. live s i \<longrightarrow> live s j \<longrightarrow> p_pid (proc s i) = p_pid (proc s j) \<longrightarrow> i = j)"

definition sched_inv :: "sched \<Rightarrow> bool" where
  "sched_inv s \<longleftrightarrow> one_running s \<and> pids_ok s"

lemma sched_inv_keep:
  assumes "sched_inv s" and "table_ok s'" and "next_pid s' = next_pid s"
    and "\<And>i. i < MAX_PROCESSES \<Longrightarrow> p_state (proc s' i) = RUNNING \<Longrightarrow>
      i = current_process_idx s'"
    and "\<And>i. live s' i \<Longrightarrow> live s i \<and> p_pid (proc s' i) = p_pid (proc s i)"
  shows "sched_inv s'"
  using assms unfolding sched_inv_def one_running_def pids_ok_def by metis

lemma schedule_inv:
  assumes inv: "sched_inv s"
  shows "sched_inv (state_of (schedule e s))"
proof -
  have t: "table_ok s" and r: "\<And>i. i < MAX_PROCESSES \<Longrightarrow> p_state (proc s i) = RUNNING \<Longrightarrow> i = current_process_idx s"
    using inv by (auto simp: sched_inv_def one_running_def)
  show ?thesis
  proof (cases "next_ready s")
    case (Some j)
    from next_ready_SomeD [OF Some t] have j: "j < MAX_PROCESSES" "p_state (proc s j) = READY" by metis+
    note A = activate_process_facts [OF save_current_facts(1) [OF t, of e] j(1) refl]
      and S = save_current_facts [OF t, of e]
    let ?s' = "activate_process j (save_current e s)"
    show ?thesis unfolding schedule_switch [OF t Some] state_of.simps
    proof (rule sched_inv_keep [OF inv A(1)])
      show "p_state (proc ?s' i) = RUNNING \<Longrightarrow> i < MAX_PROCESSES \<Longrightarrow> i = current_process_idx ?s'" for i
        using r [of i] by (simp add: A(2,3) S(5) split: if_splits)
      show "live ?s' i \<Longrightarrow> live s i \<and> p_pid (proc ?s' i) = p_pid (proc s i)" for i
        using j by (auto simp: A(3) S(5) live_def split: if_splits)
    qed (simp add: A(5) S(4))
  next
    case None
    have c: "current_process_idx s < length (processes s)" using t by (simp add: table_ok_def)
    have keep: "sched_inv (upd_proc (current_process_idx s) f s)"
      if "p_state (proc s (current_process_idx s)) \<noteq> TERMINATED" "\<And>p. p_pid (f p) = p_pid p" for f
    proof (rule sched_inv_keep [OF inv])
      show "p_state (proc (upd_proc (current_process_idx s) f s) i) = RUNNING \<Longrightarrow> i < MAX_PROCESSES \<Longrightarrow>
          i = current_process_idx (upd_proc (current_process_idx s) f s)" for i
        using r [of i] c by (simp add: proc_upd_proc split: if_splits)
      show "live (upd_proc (current_process_idx s) f s) i \<Longrightarrow>
          live s i \<and> p_pid (proc (upd_proc (current_process_idx s) f s) i) = p_pid (proc s i)" for i
        using that c by (simp add: proc_upd_proc live_def split: if_splits)
    qed (use t in simp_all)
    show ?thesis unfolding schedule_stay [OF t None]
      by (cases "p_state (proc s (current_process_idx s))") (simp_all add: inv keep)
  qed
qed

section \<open>Making a process\<close>

definition new_process :: "u64 \<Rightarrow> u64 \<Rightarrow> u64 \<Rightarrow> nat \<Rightarrow> sched \<Rightarrow> process" where
  "new_process root kst esp idx s =
    (proc s idx)\<lparr>p_pml4 := root, p_kernel_stack := kst, p_esp := esp, p_pid := ucast (next_pid s),
      p_ppid := (if p_state (proc s (current_process_idx s)) = RUNNING
                 then p_pid (proc s (current_process_idx s)) else 0),
      p_exit_code := 0, p_heap_start := 0, p_heap_end := 0,
      p_ofiles := clear_ofiles (p_ofiles (proc s idx)), p_state := READY\<rparr>"

definition free_slot :: "sched \<Rightarrow> nat option" where
  "free_slot s = find (\<lambda>i. p_state (proc s i) = TERMINATED) [0..<MAX_PROCESSES]"

lemma create_process_cases:
  assumes t: "table_ok s" and c: "create_process ks us entry_point s = (r, s')"
  obtains (fail) v where "r = -1" and "s' = s\<lparr>vm := v\<rparr>"
      and "free_slot s = None \<or> fst (create_user_pml4 (vm s)) = 0"
  | (ok) idx root v kst where "free_slot s = Some idx" and "create_user_pml4 (vm s) = (root, v)" and "root \<noteq> 0"
      and "kst = ks + of_nat (idx + 1) * KERNEL_STACK_SIZE"
      and "s' = (upd_proc idx (\<lambda>_. new_process root kst
              (fst (fold push_word (init_frame (us + of_nat (idx + 1) * USER_STACK_SIZE) entry_point) (kst, pmem v))) idx s) s)
            \<lparr>vm := v\<lparr>pmem := snd (fold push_word (init_frame (us + of_nat (idx + 1) * USER_STACK_SIZE) entry_point) (kst, pmem v))\<rparr>,
             next_pid := next_pid s + 1\<rparr>"
      and "r = sint (ucast (next_pid s) :: u32)"
proof (cases "free_slot s")
  case None
  then have "r = -1" "s' = s\<lparr>vm := vm s\<rparr>"
    using c by (auto simp: create_process_def free_slot_def proc_def)
  then show thesis by (rule fail) (simp add: None)
next
  case (Some idx)
  obtain root v where cu: "create_user_pml4 (vm s) = (root, v)" by fastforce
  show thesis
  proof (cases "root = 0")
    case True
    then have "r = -1" "s' = s\<lparr>vm := v\<rparr>"
      using c Some cu by (auto simp: create_process_def free_slot_def proc_def)
    then show thesis by (rule fail) (simp add: cu True)
  next
    case False
    have i: "idx < length (processes s)" and st: "p_state (processes s ! idx) = TERMINATED"
      using Some t by (auto simp: free_slot_def find_first table_ok_def proc_def)
    obtain stk m where f: "fold push_word (init_frame (us + of_nat (Suc idx) * USER_STACK_SIZE) entry_point)
        (ks + of_nat (Suc idx) * KERNEL_STACK_SIZE, pmem v) = (stk, m)" by fastforce
    have find: "find (\<lambda>i. p_state (processes s ! i) = TERMINATED) [0..<MAX_PROCESSES] = Some idx"
      using Some by (simp add: free_slot_def proc_def)
    have "r = sint (ucast (next_pid s) :: u32) \<and> s' = (upd_proc idx (\<lambda>_. new_process root
        (ks + of_nat (Suc idx) * KERNEL_STACK_SIZE) stk idx s) s)\<lparr>vm := v\<lparr>pmem := m\<rparr>, next_pid := next_pid s + 1\<rparr>"
      using c False i st
      by (simp add: create_process_def find cu f Let_def get_current_process_def upd_proc_def
          new_process_def proc_def nth_list_update del: of_nat_Suc split: if_splits)
        (cases s; auto simp del: of_nat_Suc)+
    then show thesis using ok [OF Some cu False refl] by (simp add: f del: of_nat_Suc)
  qed
qed

lemma free_slotD:
  "free_slot s = Some idx \<Longrightarrow> idx < MAX_PROCESSES \<and> p_state (proc s idx) = TERMINATED \<and>
    (\<forall>j < idx. p_state (proc s j) \<noteq> TERMINATED)"
  by (auto simp: free_slot_def find_first)

lemma new_process_sel [simp]:
  "p_pid (new_process root kst esp idx s) = ucast (next_pid s)"
  "p_state (new_process root kst esp idx s) = READY"
  "p_esp (new_process root kst esp idx s) = esp"
  "p_pml4 (new_process root kst esp idx s) = root"
  "p_kernel_stack (new_process root kst esp idx s) = kst"
  by (simp_all add: new_process_def)

lemma unat_pid: "unat (next_pid s) < 2 ^ 32 \<Longrightarrow> unat (ucast (next_pid s) :: u32) = unat (next_pid s)"
  by (simp add: unsigned_ucast_eq take_bit_nat_eq_self)

lemma unat_next_pid: "unat (next_pid s) < 2 ^ 32 \<Longrightarrow> unat (next_pid s + 1) = unat (next_pid s) + 1"
  by (simp add: unat_word_ariths)

lemma proc_new:
  "idx < length (processes s) \<Longrightarrow>
    proc ((upd_proc idx (\<lambda>_. p) s)\<lparr>vm := v, next_pid := n\<rparr>) i = (if i = idx then p else proc s i)"
  by (simp add: proc_def upd_proc_def nth_list_update)

lemma create_process_inv:
  assumes inv: "sched_inv s" and b: "unat (next_pid s) < 2 ^ 32" and c: "create_process ks us e s = (r, s')"
  shows "sched_inv s'"
proof -
  have t: "table_ok s" using inv by (simp add: sched_inv_def one_running_def)
  from t c show ?thesis
  proof (cases rule: create_process_cases)
    case (fail v)
    then show ?thesis using inv by (simp add: sched_inv_def one_running_def pids_ok_def live_def proc_def table_ok_def)
  next
    case (ok idx root v kst)
    note f = free_slotD [OF ok(1)]
    have i: "idx < length (processes s)" using f t by (simp add: table_ok_def)
    have P: "proc s' j = (if j = idx then new_process root kst
              (fst (fold push_word (init_frame (us + of_nat (idx + 1) * USER_STACK_SIZE) e) (kst, pmem v))) idx s
            else proc s j)" for j
      unfolding ok(5) by (rule proc_new [OF i])
    have n: "next_pid s' = next_pid s + 1" "current_process_idx s' = current_process_idx s"
      by (simp_all add: ok(5))
    have live: "live s' j \<longleftrightarrow> j = idx \<or> live s j" for j
      using f by (auto simp: live_def P)
    have pid: "p_pid (proc s' j) = (if j = idx then ucast (next_pid s) else p_pid (proc s j))" for j
      by (simp add: P)
    have "one_running s'" unfolding one_running_def
    proof (intro conjI allI impI)
      show "table_ok s'" using t by (simp add: ok(5) table_ok_def)
      fix j assume "j < MAX_PROCESSES" "p_state (proc s' j) = RUNNING"
      then show "j = current_process_idx s'" using inv
        by (auto simp: P n sched_inv_def one_running_def split: if_splits)
    qed
    moreover have "pids_ok s'" unfolding pids_ok_def
    proof (intro conjI allI impI)
      have po: "pids_ok s" using inv by (simp add: sched_inv_def)
      then have pos: "0 < unat (next_pid s)" by (simp add: pids_ok_def word_less_nat_alt)
      then show "0 < next_pid s'" using b by (simp add: n word_less_nat_alt unat_next_pid)
      fix j assume j: "live s' j"
      show "0 < unat (p_pid (proc s' j))" "unat (p_pid (proc s' j)) < unat (next_pid s')"
        using j po pos b by (auto simp: live pid n unat_pid unat_next_pid pids_ok_def)
      fix k assume k: "live s' k" "p_pid (proc s' j) = p_pid (proc s' k)"
      have old: "unat (p_pid (proc s i)) \<noteq> unat (next_pid s)" if "live s i" for i
        using po that unfolding pids_ok_def by (metis less_irrefl)
      have ucast: "p_pid (proc s i) \<noteq> ucast (next_pid s)" if "live s i" for i
        using old [OF that] unat_pid [OF b] by metis
      show "j = k"
        using j k po ucast unfolding live pid pids_ok_def by (metis (no_types))
    qed
    ultimately show ?thesis by (simp add: sched_inv_def)
  qed
qed

lemma wait_reap_cases:
  assumes "wait_reap s = (r, s')"
  obtains (none) "r = None" and "s' = s"
      and "\<forall>i < MAX_PROCESSES. \<not> (p_ppid (proc s i) = p_pid (proc s (current_process_idx s)) \<and> p_state (proc s i) = ZOMBIE)"
  | (found) i where "i < MAX_PROCESSES" and "p_state (proc s i) = ZOMBIE"
      and "p_ppid (proc s i) = p_pid (proc s (current_process_idx s))"
      and "\<forall>j < i. \<not> (p_ppid (proc s j) = p_pid (proc s (current_process_idx s)) \<and> p_state (proc s j) = ZOMBIE)"
      and "r = Some (p_pid (proc s i), p_exit_code (proc s i))"
      and "s' = upd_proc i (\<lambda>p. p\<lparr>p_state := TERMINATED, p_pid := 0, p_ppid := 0, p_exit_code := 0\<rparr>) s"
proof (cases "find (\<lambda>i. p_ppid (proc s i) = p_pid (proc s (current_process_idx s)) \<and>
    p_state (proc s i) = ZOMBIE) [0..<MAX_PROCESSES]")
  case None
  then have "r = None \<and> s' = s"
    using assms by (simp add: wait_reap_def get_current_process_def proc_def)
  with None show thesis using none by (simp add: find_none)
next
  case (Some i)
  from Some have "i < MAX_PROCESSES \<and> p_state (proc s i) = ZOMBIE \<and>
      p_ppid (proc s i) = p_pid (proc s (current_process_idx s)) \<and>
      (\<forall>j < i. \<not> (p_ppid (proc s j) = p_pid (proc s (current_process_idx s)) \<and> p_state (proc s j) = ZOMBIE))"
    by (simp add: find_first)
  moreover have "r = Some (p_pid (proc s i), p_exit_code (proc s i)) \<and>
      s' = upd_proc i (\<lambda>p. p\<lparr>p_state := TERMINATED, p_pid := 0, p_ppid := 0, p_exit_code := 0\<rparr>) s"
    using assms Some by (simp add: wait_reap_def get_current_process_def proc_def Let_def)
  ultimately show thesis using found [of i] by blast
qed

lemma sched_inv_upd:
  assumes inv: "sched_inv s" and "i < MAX_PROCESSES" and "p_state (f (proc s i)) \<noteq> RUNNING"
    and "p_state (f (proc s i)) \<noteq> TERMINATED \<Longrightarrow> p_state (proc s i) \<noteq> TERMINATED \<and> p_pid (f (proc s i)) = p_pid (proc s i)"
  shows "sched_inv (upd_proc i f s)"
proof (rule sched_inv_keep [OF inv])
  have t: "table_ok s" using inv by (simp add: sched_inv_def one_running_def)
  then have i: "i < length (processes s)" using assms(2) by (rule table_ok_len)
  show "table_ok (upd_proc i f s)" using t by simp
  show "j = current_process_idx (upd_proc i f s)"
    if "j < MAX_PROCESSES" "p_state (proc (upd_proc i f s) j) = RUNNING" for j
    using that inv assms(3) i by (auto simp: proc_upd_proc sched_inv_def one_running_def split: if_splits)
  show "live s j \<and> p_pid (proc (upd_proc i f s) j) = p_pid (proc s j)" if "live (upd_proc i f s) j" for j
    using that i assms(2,4) by (auto simp: proc_upd_proc live_def split: if_splits)
qed simp

lemma wait_reap_inv:
  assumes "sched_inv s"
  shows "sched_inv (snd (wait_reap s))"
proof -
  obtain r s' where w: "wait_reap s = (r, s')" by fastforce
  then have "sched_inv s'"
  proof (cases rule: wait_reap_cases)
    case (found i)
    show ?thesis unfolding found(6) by (rule sched_inv_upd) (use assms found in simp_all)
  qed (use assms in simp)
  with w show ?thesis by simp
qed

lemma vm_only_inv: "sched_inv (s\<lparr>vm := v\<rparr>) = sched_inv s"
  by (simp add: sched_inv_def one_running_def pids_ok_def live_def proc_def table_ok_def)

end
