(* ===== verification/Scheduler.thy ===== *)
theory Scheduler
  imports Process
begin

text \<open>
  What the process component guarantees: the stack frame a new process starts
  from, the round-robin order, the invariant of the process table, and the life
  of a slot through exit and \<open>wait4\<close>.
\<close>

section \<open>The initial stack frame\<close>

lemma len64: "LENGTH(64) = 64" by simp

lemma aligned8_plus: "aligned8 a \<Longrightarrow> aligned8 (a + 8 * w)"
proof -
  assume a: "aligned8 a"
  have d: "(8 :: nat) dvd 2 ^ 64" by simp
  have "unat (a + 8 * w) mod 8 = (unat a + unat (8 * w)) mod 2 ^ 64 mod 8"
    by (simp only: unat_word_ariths(1) len64)
  also have "\<dots> = (unat a mod 8 + unat (8 * w) mod 8) mod 8"
    by (simp only: mod_mod_cancel [OF d] mod_add_eq)
  also have "unat (8 * w) mod 8 = (8 * unat w) mod 8"
    using mod_mod_cancel [OF d, of "8 * unat w"] by (simp add: unat_word_ariths)
  finally show ?thesis using a by (simp add: aligned8_def)
qed

lemma aligned8_minus: "aligned8 a \<Longrightarrow> aligned8 (a - 8 * w)"
  using aligned8_plus [of a "- w"] by simp

lemma eight_times_small: "0 < i \<Longrightarrow> i < 2 ^ 60 \<Longrightarrow> (8 * of_nat i :: u64) \<noteq> 0"
proof
  assume i: "0 < i" "i < 2 ^ 60" and "(8 * of_nat i :: u64) = 0"
  then have "unat (8 * of_nat i :: u64) = 0" by simp
  moreover have "unat (8 * of_nat i :: u64) = 8 * i"
    using i by (simp add: unat_word_ariths unat_of_nat_u64 mod_mult_right_eq)
  ultimately show False using i by simp
qed

lemma push_words:
  assumes "aligned8 kst" and "length vs < 2 ^ 59" and "fold push_word vs (kst, m) = (stk, m')"
  shows "stk = kst - 8 * of_nat (length vs) \<and> (\<forall>i < length vs. rd64 m' (stk + 8 * of_nat i) = rev vs ! i) \<and>
    (\<forall>a. aligned8 a \<longrightarrow> (\<forall>i < length vs. a \<noteq> stk + 8 * of_nat i) \<longrightarrow> rd64 m' a = rd64 m a)"
  using assms(2,3)
proof (induction vs arbitrary: stk m' rule: rev_induct)
  case (snoc v vs)
  obtain stk1 m1 where f: "fold push_word vs (kst, m) = (stk1, m1)" by fastforce
  from snoc.prems(1) have l: "length vs < 2 ^ 59" by simp
  note IH = snoc.IH [OF l f]
  have e: "stk = stk1 - 8" "m' = wr64 m1 stk v" using snoc.prems(2) f by auto
  have s1: "stk1 = kst - 8 * of_nat (length vs)" using IH by blast
  then have stk: "stk = kst - 8 * of_nat (length (vs @ [v]))" by (simp add: e algebra_simps)
  have al: "aligned8 stk" unfolding stk by (rule aligned8_minus [OF assms(1)])
  have sh: "stk + 8 * of_nat (Suc i) = stk1 + 8 * of_nat i" for i by (simp add: e algebra_simps)
  have ne: "stk + 8 * of_nat i \<noteq> stk" if "0 < i" "i < length (vs @ [v])" for i
    using eight_times_small [of i] that snoc.prems(1) by simp
  show ?case
  proof (intro conjI allI impI)
    show "stk = kst - 8 * of_nat (length (vs @ [v]))" by (rule stk)
    fix i assume i: "i < length (vs @ [v])"
    show "rd64 m' (stk + 8 * of_nat i) = rev (vs @ [v]) ! i"
    proof (cases i)
      case 0
      then show ?thesis by (simp add: e(2) rd64_wr64_same)
    next
      case (Suc k)
      have "rd64 m' (stk + 8 * of_nat i) = rd64 m1 (stk + 8 * of_nat i)"
        unfolding e(2) using ne [of i] Suc i by (intro rd64_wr64_other al aligned8_plus) auto
      moreover have "rd64 m1 (stk1 + 8 * of_nat k) = rev vs ! k" using IH i Suc by auto
      ultimately show ?thesis unfolding Suc sh by simp
    qed
  next
    fix a assume a: "aligned8 a" "\<forall>i < length (vs @ [v]). a \<noteq> stk + 8 * of_nat i"
    have n0: "a \<noteq> stk" using a(2) [rule_format, of 0] by simp
    have "\<forall>i < length vs. a \<noteq> stk1 + 8 * of_nat i"
      using a(2) [rule_format, of "Suc _"] unfolding sh by simp
    then have "rd64 m1 a = rd64 m a" using IH a(1) by blast
    then show "rd64 m' a = rd64 m a" unfolding e(2) using rd64_wr64_other [OF al a(1)] n0 by metis
  qed
qed simp

text \<open>The 20 words a context switch pops: 15 registers, then RIP, CS, RFLAGS, RSP, SS.\<close>

definition frame_words :: "sched \<Rightarrow> nat \<Rightarrow> u64 list" where
  "frame_words s i = map (\<lambda>k. rd64 (pmem (vm s)) (p_esp (proc s i) + 8 * of_nat k)) [0..<20]"

lemma length_frame_words [simp]: "length (frame_words s i) = 20"
  by (simp add: frame_words_def)

lemma frame_words_nth [simp]:
  "k < 20 \<Longrightarrow> frame_words s i ! k = rd64 (pmem (vm s)) (p_esp (proc s i) + 8 * of_nat k)"
  by (simp add: frame_words_def)

lemma eight_inj:
  assumes "j < 20" and "k < 20" and "(a :: u64) + 8 * of_nat j = a + 8 * of_nat k"
  shows "j = k"
proof -
  have "unat (8 * of_nat j :: u64) = 8 * j" if "j < 20" for j
    using that by (simp add: unat_word_ariths unat_of_nat_u64 mod_mult_right_eq)
  moreover have "(8 * of_nat j :: u64) = 8 * of_nat k" using assms(3) by simp
  ultimately show ?thesis using assms(1,2) by (metis nat_mult_eq_cancel1 zero_less_numeral)
qed

lemma frame_words_write:
  assumes "aligned8 (p_esp (proc s i))" and "j < 20"
  shows "frame_words (s\<lparr>vm := (vm s)\<lparr>pmem := wr64 (pmem (vm s)) (p_esp (proc s i) + 8 * of_nat j) v\<rparr>\<rparr>) i =
    (frame_words s i)[j := v]" (is "frame_words ?s i = _")
proof (rule nth_equalityI)
  have P: "proc ?s = proc s" by (rule ext) (simp add: proc_def)
  fix k assume "k < length (frame_words ?s i)"
  then have k: "k < 20" by simp
  show "frame_words ?s i ! k = (frame_words s i)[j := v] ! k"
  proof (cases "k = j")
    case True
    then show ?thesis using k by (simp add: P rd64_wr64_same)
  next
    case False
    then have "p_esp (proc s i) + 8 * of_nat j \<noteq> p_esp (proc s i) + 8 * of_nat k"
      using eight_inj [OF assms(2) k] by metis
    then show ?thesis using k False assms(2)
      by (simp add: P rd64_wr64_other aligned8_plus [OF assms(1)])
  qed
qed simp

lemma set_process_entry_frame:
  assumes "aligned8 (p_esp (proc s i))" and "p_esp (proc s i) \<noteq> 0"
  shows "frame_words (set_process_entry i e s) i = (frame_words s i)[15 := e]"
    and "proc (set_process_entry i e s) = proc s"
  using frame_words_write [OF assms(1), of 15 e] assms(2)
  by (auto simp: set_process_entry_def Let_def proc_def)

lemma set_process_argv_frame:
  assumes "aligned8 (p_esp (proc s i))" and "p_esp (proc s i) \<noteq> 0"
  shows "frame_words (set_process_argv i n v s) i = (frame_words s i)[9 := n, 10 := v]"
    and "proc (set_process_argv i n v s) = proc s"
proof -
  let ?s1 = "s\<lparr>vm := (vm s)\<lparr>pmem := wr64 (pmem (vm s)) (p_esp (proc s i) + 8 * of_nat 9) n\<rparr>\<rparr>"
  have P: "proc ?s1 = proc s" by (rule ext) (simp add: proc_def)
  have "set_process_argv i n v s =
      ?s1\<lparr>vm := (vm ?s1)\<lparr>pmem := wr64 (pmem (vm ?s1)) (p_esp (proc ?s1 i) + 8 * of_nat 10) v\<rparr>\<rparr>"
    using assms(2) by (simp add: set_process_argv_def Let_def proc_def)
  then show "frame_words (set_process_argv i n v s) i = (frame_words s i)[9 := n, 10 := v]"
    using frame_words_write [of ?s1 i 10 v] frame_words_write [OF assms(1), of 9 n] assms(1)
    by (simp only: P)
  show "proc (set_process_argv i n v s) = proc s"
    by (rule ext) (simp add: set_process_argv_def Let_def proc_def)
qed

lemma aligned8_stack: "aligned8 ks \<Longrightarrow> aligned8 (ks + n * KERNEL_STACK_SIZE)"
  using aligned8_plus [of ks "n * 1024"] by (simp add: KERNEL_STACK_SIZE_def mult.commute)

lemma sint_small_pid:
  assumes "unat (next_pid s) < 2 ^ 31" shows "sint (ucast (next_pid s) :: u32) = int (unat (next_pid s))"
proof -
  let ?w = "ucast (next_pid s) :: u32"
  have "unat ?w = unat (next_pid s)" using unat_pid [of s] assms by simp
  then have u: "uint ?w = int (unat (next_pid s))" by (metis uint_nat)
  have "sint ?w = signed_take_bit 31 (uint ?w)" by (simp add: sint_uint)
  also have "\<dots> = uint ?w"
  proof (rule signed_take_bit_int_eq_self)
    have "int (unat (next_pid s)) < int (2 ^ 31)" using assms by (simp only: of_nat_less_iff)
    then show "uint ?w < 2 ^ 31" unfolding u by (simp only: of_nat_power of_nat_numeral)
    have "- (2 ^ 31) \<le> (0 :: int)" by simp
    then show "- (2 ^ 31) \<le> uint ?w" using unsigned_greater_eq order_trans by blast
  qed
  finally show ?thesis by (simp only: u)
qed

lemma get_process_by_pid_live:
  assumes "pids_ok s" and "live s i"
  shows "get_process_by_pid (p_pid (proc s i)) s = Some i"
  using assms unfolding get_process_by_pid_def find_first pids_ok_def live_def proc_def
  by (metis (no_types, lifting) le0 order.strict_trans nat_neq_iff)

lemma create_process_result:
  assumes inv: "sched_inv s" and b: "unat (next_pid s) < 2 ^ 31" and al: "aligned8 ks"
    and c: "create_process ks us e s = (r, s')" and r: "0 \<le> r"
  obtains idx where "free_slot s = Some idx" and "get_process_by_pid (word_of_int r) s' = Some idx"
    and "sched_inv s'" and "r = int (unat (next_pid s))" and "p_state (proc s' idx) = READY"
    and "p_pml4 (proc s' idx) = fst (create_user_pml4 (vm s))"
    and "p_ppid (proc s' idx) = (if p_state (proc s (current_process_idx s)) = RUNNING
           then p_pid (proc s (current_process_idx s)) else 0)"
    and "p_kernel_stack (proc s' idx) = ks + of_nat (idx + 1) * KERNEL_STACK_SIZE"
    and "p_esp (proc s' idx) = p_kernel_stack (proc s' idx) - 160"
    and "frame_words s' idx = replicate 15 0 @ [e, 0x23, 0x202, us + of_nat (idx + 1) * USER_STACK_SIZE, 0x1B]"
    and "\<And>j. j \<noteq> idx \<Longrightarrow> proc s' j = proc s j"
proof -
  have t: "table_ok s" using inv by (simp add: sched_inv_def one_running_def)
  have b32: "unat (next_pid s) < 2 ^ 32" using b by simp
  note inv' = create_process_inv [OF inv b32 c]
  from t c show thesis
  proof (cases rule: create_process_cases)
    case (fail v)
    then show thesis using r by simp
  next
    case (ok idx root v kst)
    note f = free_slotD [OF ok(1)]
    have i: "idx < length (processes s)" using f t by (simp add: table_ok_def)
    let ?fr = "init_frame (us + of_nat (idx + 1) * USER_STACK_SIZE) e"
    obtain stk m where fp: "fold push_word ?fr (kst, pmem v) = (stk, m)" by fastforce
    have P: "proc s' j = (if j = idx then new_process root kst stk idx s else proc s j)" for j
      unfolding ok(5) fp fst_conv by (rule proc_new [OF i])
    have lf: "length ?fr = 20" by (simp add: init_frame_def)
    have kal: "aligned8 kst" unfolding ok(4) by (rule aligned8_stack [OF al])
    have lb: "length ?fr < 2 ^ 59" unfolding lf by simp
    note pw = push_words [OF kal lb fp, unfolded lf]
    have m: "pmem (vm s') = m" unfolding ok(5) fp by simp
    have r': "r = int (unat (next_pid s))" using ok(6) sint_small_pid [OF b] by simp
    have "(word_of_int r :: u32) = ucast (next_pid s)"
      unfolding r' by (simp add: unsigned_of_nat)
    then have g: "get_process_by_pid (word_of_int r) s' = Some idx"
      using get_process_by_pid_live [of s' idx] inv' f by (simp add: P live_def sched_inv_def)
    have fw: "frame_words s' idx = rev ?fr"
    proof (rule nth_equalityI)
      show "length (frame_words s' idx) = length (rev ?fr)" by (simp only: length_rev lf length_frame_words)
      fix k assume "k < length (frame_words s' idx)"
      then have k: "k < 20" by simp
      have "frame_words s' idx ! k = rd64 m (stk + 8 * of_nat k)" using k by (simp add: m P)
      also have "\<dots> = rev ?fr ! k" using pw k lf by blast
      finally show "frame_words s' idx ! k = rev ?fr ! k" .
    qed
    show thesis
    proof (rule that [OF ok(1) g inv' r'])
      show "frame_words s' idx = replicate 15 0 @ [e, 0x23, 0x202, us + of_nat (idx + 1) * USER_STACK_SIZE, 0x1B]"
        unfolding fw by (simp add: init_frame_def)
    qed (use pw ok(2,4) in \<open>simp_all add: P new_process_def\<close>)
  qed
qed

section \<open>Round robin\<close>

text \<open>A run of timer ticks; \<open>es n\<close> is the stack pointer the \<open>n\<close>th tick is entered with.\<close>

fun ticks :: "(nat \<Rightarrow> u64) \<Rightarrow> nat \<Rightarrow> sched \<Rightarrow> sched" where
  "ticks es 0 s = s"
| "ticks es (Suc n) s = ticks (\<lambda>k. es (Suc k)) n (state_of (schedule (es 0) s))"

definition dist_to :: "sched \<Rightarrow> nat \<Rightarrow> nat" where
  "dist_to s j = (j + MAX_PROCESSES - current_process_idx s) mod MAX_PROCESSES"

lemma dist_next:
  fixes c :: nat
  assumes "c < N" and "j < N" and "1 \<le> d" and "d < N" and "d < (j + N - c) mod N"
  shows "(j + N - (c + d) mod N) mod N = (j + N - c) mod N - d"
proof (cases "c \<le> j")
  case True
  then have "(j + N - c) mod N = j - c" using assms
    by (metis Nat.add_diff_assoc2 less_imp_diff_less mod_add_self2 mod_less)
  with assms True show ?thesis by (simp add: mod_if)
next
  case False
  then have e: "(j + N - c) mod N = j + N - c" using assms by simp
  show ?thesis
  proof (cases "c + d < N")
    case True
    with e False assms show ?thesis by simp
  next
    case c2: False
    then have m: "(c + d) mod N = c + d - N" using assms by (simp add: le_mod_geq)
    have "j + N - (c + d - N) = (j + N - c - d) + N" using c2 assms e by simp
    then have "(j + N - (c + d) mod N) mod N = (j + N - c - d) mod N"
      by (simp only: m mod_add_self2)
    also have "\<dots> = j + N - c - d" using False c2 assms by (intro mod_less) simp
    finally show ?thesis by (simp only: e)
  qed
qed

lemma dist_offset:
  fixes c :: nat
  assumes "c < N" and "d < N" and "j = (c + d) mod N" shows "(j + N - c) mod N = d"
  using assms by (cases "c + d < N") (simp_all add: le_mod_geq)

lemma schedule_progress:
  assumes inv: "sched_inv s" and j: "p_state (proc s j) = READY" "j < MAX_PROCESSES" "j \<noteq> current_process_idx s"
    and s'_def: "s' = state_of (schedule e s)"
  shows "(current_process_idx s' = j \<and> p_state (proc s' j) = RUNNING) \<or>
    (p_state (proc s' j) = READY \<and> j \<noteq> current_process_idx s' \<and> dist_to s' j < dist_to s j)"
proof -
  have t: "table_ok s" using inv by (simp add: sched_inv_def one_running_def)
  then have c: "current_process_idx s < MAX_PROCESSES" by (simp add: table_ok_def)
  have "next_ready s \<noteq> None" using next_ready_None [OF t] j by blast
  then obtain k where k: "next_ready s = Some k" by blast
  from next_ready_SomeD [OF k t] obtain d where d: "1 \<le> d" "d < MAX_PROCESSES"
    "k = (current_process_idx s + d) mod MAX_PROCESSES" "k < MAX_PROCESSES" "p_state (proc s k) = READY"
    and first: "\<And>e. 1 \<le> e \<Longrightarrow> e < d \<Longrightarrow> p_state (proc s ((current_process_idx s + e) mod MAX_PROCESSES)) \<noteq> READY"
    by metis
  note A = activate_process_facts [OF save_current_facts(1) [OF t, of e] d(4) refl]
    and S = save_current_facts [OF t, of e]
  have s': "s' = activate_process k (save_current e s)"
    by (simp add: s'_def schedule_switch [OF t k])
  show ?thesis
  proof (cases "k = j")
    case True
    then show ?thesis using A(2) A(3) [of j] by (simp add: s')
  next
    case False
    obtain dj where dj: "1 \<le> dj" "dj < MAX_PROCESSES" "j = (current_process_idx s + dj) mod MAX_PROCESSES"
      using cyclic_cover [OF c j(2,3)] by blast
    have D: "dist_to s j = dj" unfolding dist_to_def by (rule dist_offset [OF c dj(2,3)])
    have "\<not> dj < d" using first [OF dj(1)] j(1) dj(3) by blast
    moreover have "dj \<noteq> d" using False d(3) dj(3) by blast
    ultimately have lt: "d < dj" by simp
    have cs: "current_process_idx s' = k" by (simp add: s' A)
    have "dist_to s' j = dj - d"
      using dist_next [OF c j(2) d(1,2)] D lt unfolding dist_to_def cs d(3) by simp
    moreover have "p_state (proc s' j) = READY" using False j by (simp add: s' A S)
    ultimately show ?thesis using D lt d(1) False by (simp add: s' A)
  qed
qed

lemma ticks_reach:
  "sched_inv s \<Longrightarrow> p_state (proc s j) = READY \<Longrightarrow> j < MAX_PROCESSES \<Longrightarrow> j \<noteq> current_process_idx s \<Longrightarrow>
    dist_to s j \<le> n \<Longrightarrow>
    \<exists>k. 1 \<le> k \<and> k \<le> n \<and> current_process_idx (ticks es k s) = j \<and> p_state (proc (ticks es k s) j) = RUNNING"
proof (induction n arbitrary: s es)
  case 0
  then have "table_ok s" by (simp add: sched_inv_def one_running_def)
  then have c: "current_process_idx s < MAX_PROCESSES" by (simp add: table_ok_def)
  obtain dj where dj: "1 \<le> dj" "dj < MAX_PROCESSES" "j = (current_process_idx s + dj) mod MAX_PROCESSES"
    using cyclic_cover [OF c 0(3,4)] by blast
  have "dist_to s j = dj" unfolding dist_to_def by (rule dist_offset [OF c dj(2,3)])
  with 0(5) dj(1) show ?case by simp
next
  case (Suc n)
  let ?s' = "state_of (schedule (es 0) s)"
  from schedule_progress [OF Suc.prems(1-4) refl, of "es 0"] show ?case
  proof
    assume "current_process_idx ?s' = j \<and> p_state (proc ?s' j) = RUNNING"
    then show ?case by (intro exI [of _ 1]) simp
  next
    assume p: "p_state (proc ?s' j) = READY \<and> j \<noteq> current_process_idx ?s' \<and> dist_to ?s' j < dist_to s j"
    have "\<exists>k. 1 \<le> k \<and> k \<le> n \<and> current_process_idx (ticks (\<lambda>k. es (Suc k)) k ?s') = j \<and>
        p_state (proc (ticks (\<lambda>k. es (Suc k)) k ?s') j) = RUNNING"
      by (rule Suc.IH) (use p Suc.prems schedule_inv [OF Suc.prems(1)] in auto)
    then obtain k where "1 \<le> k" "k \<le> n" "current_process_idx (ticks (\<lambda>k. es (Suc k)) k ?s') = j"
      "p_state (proc (ticks (\<lambda>k. es (Suc k)) k ?s') j) = RUNNING" by blast
    then show ?case by (intro exI [of _ "Suc k"]) simp
  qed
qed

section \<open>Reachable tables\<close>

lemma fold_upd_proc:
  assumes "length (processes s) = MAX_PROCESSES" and "n \<le> MAX_PROCESSES"
  shows "length (processes (fold (\<lambda>i. upd_proc i f) [0..<n] s)) = MAX_PROCESSES \<and>
    (\<forall>i < MAX_PROCESSES. proc (fold (\<lambda>i. upd_proc i f) [0..<n] s) i = (if i < n then f (proc s i) else proc s i)) \<and>
    vm (fold (\<lambda>i. upd_proc i f) [0..<n] s) = vm s"
  using assms(2)
proof (induction n)
  case (Suc n)
  then have "n < length (processes (fold (\<lambda>i. upd_proc i f) [0..<n] s))" by simp
  with Suc show ?case by (auto simp: proc_upd_proc less_Suc_eq)
qed (use assms(1) in simp)

lemma scheduler_init_facts:
  assumes "length (processes s) = MAX_PROCESSES"
  shows "table_ok (scheduler_init s)" and "current_process_idx (scheduler_init s) = 0"
    and "next_pid (scheduler_init s) = 1" and "vm (scheduler_init s) = vm s"
    and "i < MAX_PROCESSES \<Longrightarrow> p_state (proc (scheduler_init s) i) = TERMINATED"
  unfolding scheduler_init_def
  using fold_upd_proc [OF assms order_refl, of "\<lambda>p. p\<lparr>p_pid := 0, p_ppid := 0, p_exit_code := 0, p_esp := 0,
       p_kernel_stack := 0, p_state := TERMINATED, p_pml4 := 0, p_heap_start := 0, p_heap_end := 0,
       p_ofiles := clear_ofiles (p_ofiles p)\<rparr>"]
  by (simp_all add: table_ok_def proc_def) (simp add: MAX_PROCESSES_def)

lemma scheduler_init_inv:
  assumes "length (processes s) = MAX_PROCESSES" shows "sched_inv (scheduler_init s)"
proof -
  note f = scheduler_init_facts [OF assms]
  have "\<not> live (scheduler_init s) i" for i using f(5) by (auto simp: live_def)
  then show ?thesis using f by (simp add: sched_inv_def one_running_def pids_ok_def)
qed

text \<open>
  The steps of the process table: every operation of \<open>process.c\<close>, the reaping
  of \<open>wait4\<close>, and the abandoned spawn that marks the new process as free.
  Fewer than \<open>2^32\<close> processes are made.
\<close>

inductive sched_step :: "u64 \<Rightarrow> u64 \<Rightarrow> sched \<Rightarrow> sched \<Rightarrow> bool" for ks us where
  step_create: "unat (next_pid s) < 2 ^ 32 \<Longrightarrow> create_process ks us e s = (r, t) \<Longrightarrow> sched_step ks us s t"
| step_entry: "sched_step ks us s (set_process_entry i e s)"
| step_argv: "sched_step ks us s (set_process_argv i n v s)"
| step_tick: "sched_step ks us s (state_of (schedule esp s))"
| step_exit: "p_state (proc s (current_process_idx s)) = RUNNING \<Longrightarrow>
    sched_step ks us s (state_of (exit_current_process code s))"
| step_reap: "wait_reap s = (r, t) \<Longrightarrow> sched_step ks us s t"
| step_abandon: "i < MAX_PROCESSES \<Longrightarrow> p_state (proc s i) = READY \<Longrightarrow>
    sched_step ks us s (upd_proc i (\<lambda>p. p\<lparr>p_state := TERMINATED\<rparr>) s)"

inductive_cases sched_stepE: "sched_step ks us s t"

lemma exit_inv:
  assumes inv: "sched_inv s" and live: "p_state (proc s (current_process_idx s)) \<noteq> TERMINATED"
  shows "sched_inv (state_of (exit_current_process code s))"
proof -
  have "current_process_idx s < MAX_PROCESSES" using inv by (simp add: sched_inv_def one_running_def table_ok_def)
  then show ?thesis using live by (auto simp: exit_current_process_def intro!: sched_inv_upd [OF inv])
qed

lemma sched_step_inv:
  assumes inv: "sched_inv s" and st: "sched_step ks us s t"
  shows "sched_inv t"
  using st
proof (rule sched_stepE)
qed (use inv in \<open>auto simp: set_process_entry_def set_process_argv_def Let_def vm_only_inv
    dest: wait_reap_inv create_process_inv [OF inv, simplified] intro: schedule_inv exit_inv intro!: sched_inv_upd [OF inv]\<close>)

definition sched_start :: "sched \<Rightarrow> bool" where
  "sched_start s \<longleftrightarrow> (\<exists>s0. length (processes s0) = MAX_PROCESSES \<and> s = scheduler_init s0)"

interpretation scheduler: invariant_system sched_start "sched_step ks us" sched_inv for ks us
  by unfold_locales (auto simp: sched_start_def scheduler_init_inv intro: sched_step_inv)

section \<open>Properties\<close>

text \<open>A concrete table: a kernel root without entries in zeroed memory.\<close>

definition empty_vm :: vm_state where
  "empty_vm = \<lparr>pmem = (\<lambda>_. 0), frames = pmm_init (replicate 4096 0) 8, kernel_pml4 = 0x1000, cr3 = 0x1000,
    invlpg_log = []\<rparr>"

definition no_process :: process where
  "no_process = \<lparr>p_pid = 0, p_ppid = 0, p_exit_code = 0, p_esp = 0, p_kernel_stack = 0, p_state = TERMINATED,
    p_pml4 = 0, p_heap_start = 0, p_heap_end = 0,
    p_ofiles = replicate 16 \<lparr>of_ip = None, of_offset = 0, of_flags = 0\<rparr>\<rparr>"

definition boot_sched :: sched where
  "boot_sched = scheduler_init
    \<lparr>vm = empty_vm, processes = replicate 8 no_process, current_process_idx = 0, next_pid = 0, tss_rsp0 = 0\<rparr>"

lemma boot_sched_start: "sched_start boot_sched"
  unfolding sched_start_def boot_sched_def by (rule exI, rule conjI [OF _ refl]) (simp add: MAX_PROCESSES_def)

lemma boot_sched_inv: "sched_inv boot_sched"
  by (rule scheduler.start_inv [OF boot_sched_start])

text \<open>C15: in every state reached from \<open>scheduler_init\<close> by creating, entering, scheduling,
  exiting, reaping and abandoning processes, at most one process is running and it is
  the current one, and the processes that are not free have distinct positive pids
  below the pid counter.\<close>

theorem scheduler_invariant:
  assumes "length (processes s0) = MAX_PROCESSES"
    and "reach (\<lambda>s. s = scheduler_init s0) (sched_step ks us) s"
  shows "(\<forall>i < MAX_PROCESSES. p_state (proc s i) = RUNNING \<longrightarrow> i = current_process_idx s) \<and>
    (\<forall>i j. live s i \<longrightarrow> live s j \<longrightarrow> p_pid (proc s i) = p_pid (proc s j) \<longrightarrow> i = j) \<and>
    (\<forall>i. live s i \<longrightarrow> get_process_by_pid (p_pid (proc s i)) s = Some i)"
proof -
  from assms(2) have "reach sched_start (sched_step ks us) s"
  proof (induction rule: reach.induct)
    case (reach_start s)
    then have "sched_start s" using assms(1) by (auto simp: sched_start_def)
    then show ?case by (rule reach.reach_start)
  qed (rule reach.reach_step)
  from scheduler.reach_inv [OF this] show ?thesis
    unfolding sched_inv_def one_running_def using get_process_by_pid_live
    by (auto simp: pids_ok_def)
qed

text \<open>The first process made in the concrete table.\<close>

lemma wr64_zero: "wr64 (\<lambda>_. 0) a 0 = (\<lambda>_. 0)"
  by (rule ext) (simp add: wr64_apply le_bytes_def)

lemma zero_table_zero: "zero_table t (\<lambda>_. 0) = (\<lambda>_. 0)"
proof -
  have "fold (\<lambda>i m. wr64 m (entry t i) 0) xs (\<lambda>_. 0) = (\<lambda>_. 0)" for xs
    by (induction xs) (simp_all add: wr64_zero)
  then show ?thesis by (simp add: zero_table_def)
qed

lemma rd64_zero: "rd64 (\<lambda>_. 0) a = 0"
  using rd64_wr64_same [of "\<lambda>_. 0" a 0] by (simp add: wr64_zero)

lemma empty_vm_create: "fst (create_user_pml4 empty_vm) \<noteq> 0"
proof -
  let ?b = "pmm_init (replicate 4096 0) 8"
  have ok: "pmm_ok ?b" and fr: "free_pages ?b = {n. 8 \<le> n \<and> n < MAX_PAGES}"
    using pmm_ok_pmm_init [of "replicate 4096 0" 8] free_pages_pmm_init [of "replicate 4096 0" 8]
    by (simp_all add: bitmap_ok_def MAX_PAGES_eq)
  obtain p b where a: "pmm_alloc_page ?b = (p, b)" by fastforce
  have "8 \<in> free_pages ?b" by (simp add: fr MAX_PAGES_eq)
  then have "p \<noteq> 0" using pmm.alloc_nonzero [OF ok a] by auto
  then show ?thesis
    by (simp add: create_user_pml4_def empty_vm_def a Let_def zero_table_zero vmm_get_kernel_pml4_def
        rd64_zero PAGE_PRESENT_def)
qed

lemma boot_create:
  assumes "create_process ks us e boot_sched = (r, s')" and "aligned8 ks"
  shows "r = 1" and "get_process_by_pid 1 s' = Some 0" and "sched_inv s'" and "p_state (proc s' 0) = READY"
    and "p_esp (proc s' 0) = ks + 0x2000 - 160"
    and "j \<noteq> 0 \<Longrightarrow> proc s' j = proc boot_sched j" and "current_process_idx s' = 0"
proof -
  have l: "length (replicate 8 no_process) = MAX_PROCESSES" by (simp add: MAX_PROCESSES_def)
  note f = scheduler_init_facts [of "\<lparr>vm = empty_vm, processes = replicate 8 no_process,
    current_process_idx = 0, next_pid = 0, tss_rsp0 = 0\<rparr>", unfolded sched.simps, OF l, folded boot_sched_def]
  have fs: "free_slot boot_sched = Some 0"
    using f(5) by (auto simp: free_slot_def find_first MAX_PROCESSES_def)
  have ne: "r \<noteq> -1 \<and> r = sint (ucast (next_pid boot_sched) :: u32) \<and> current_process_idx s' = 0"
    using f(1) assms(1)
  proof (cases rule: create_process_cases)
    case (fail v)
    then show ?thesis using fs empty_vm_create by (simp add: f(4))
  next
    case (ok idx root v kst)
    then show ?thesis by (simp add: f)
  qed
  then show r: "r = 1" "current_process_idx s' = 0" by (simp_all add: f)
  have "unat (next_pid boot_sched) < 2 ^ 31" by (simp add: f)
  from create_process_result [OF boot_sched_inv this assms(2,1)] r fs
  show "get_process_by_pid 1 s' = Some 0" "sched_inv s'" "p_state (proc s' 0) = READY"
    "j \<noteq> 0 \<Longrightarrow> proc s' j = proc boot_sched j" "p_esp (proc s' 0) = ks + 0x2000 - 160"
    by (auto simp: KERNEL_STACK_SIZE_def)
qed

theorem scheduler_invariant_witness:
  "get_process_by_pid (p_pid (proc (snd (create_process 0x100000 0x200000 0 boot_sched)) 0))
    (snd (create_process 0x100000 0x200000 0 boot_sched)) = Some 0"
proof -
  let ?s0 = "\<lparr>vm = empty_vm, processes = replicate 8 no_process, current_process_idx = 0, next_pid = 0, tss_rsp0 = 0\<rparr>"
  obtain r s' where c: "create_process 0x100000 0x200000 0 boot_sched = (r, s')" by fastforce
  have al: "aligned8 0x100000" by (simp add: aligned8_def)
  have "unat (next_pid boot_sched) < 2 ^ 32" by (simp add: boot_sched_def scheduler_init_def)
  then have "sched_step 0x100000 0x200000 boot_sched s'" using c by (rule step_create)
  then have "reach (\<lambda>s. s = scheduler_init ?s0) (sched_step 0x100000 0x200000) s'"
    by (intro reach_step [OF reach_start]) (simp_all add: boot_sched_def)
  from scheduler_invariant [OF _ this] have "live s' 0 \<Longrightarrow> get_process_by_pid (p_pid (proc s' 0)) s' = Some 0"
    by (simp add: MAX_PROCESSES_def)
  then show ?thesis using boot_create [OF c al] c by (simp add: live_def MAX_PROCESSES_def)
qed

text \<open>C17: when \<open>schedule\<close> returns, the process it returns to runs on its own saved stack
  pointer; it is the first ready one after the current process in the cyclic order of the
  table (or the current one when no other is ready), its kernel stack and page tables are
  in force, and the process that was running is ready with its stack pointer saved.\<close>

theorem schedule_round_robin:
  assumes "sched_inv s" and "schedule e s = Ret esp s'"
    and "c = current_process_idx s" and "j = current_process_idx s'"
  shows "p_state (proc s' j) = RUNNING \<and> esp = p_esp (proc s' j) \<and>
    (if j = c then (\<forall>i < MAX_PROCESSES. i \<noteq> c \<longrightarrow> p_state (proc s i) \<noteq> READY)
     else p_state (proc s j) = READY \<and> tss_rsp0 s' = p_kernel_stack (proc s j) \<and>
       (p_pml4 (proc s j) \<noteq> 0 \<longrightarrow> cr3 (vm s') = p_pml4 (proc s j)) \<and>
       (\<forall>d. 1 \<le> d \<and> d < dist_to s j \<longrightarrow> p_state (proc s ((c + d) mod MAX_PROCESSES)) \<noteq> READY)) \<and>
    (\<forall>i < MAX_PROCESSES. i \<noteq> j \<longrightarrow> proc s' i =
      (if p_state (proc s i) = RUNNING then (proc s i)\<lparr>p_esp := e, p_state := READY\<rparr> else proc s i))"
proof -
  have t: "table_ok s" and r: "\<And>i. i < MAX_PROCESSES \<Longrightarrow> p_state (proc s i) = RUNNING \<Longrightarrow> i = c"
    using assms(1,3) by (auto simp: sched_inv_def one_running_def)
  have c: "c < MAX_PROCESSES" using t assms(3) by (simp add: table_ok_def)
  show ?thesis
  proof (cases "next_ready s")
    case (Some k)
    from next_ready_SomeD [OF Some t] obtain d where d: "1 \<le> d" "d < MAX_PROCESSES"
      "k = (c + d) mod MAX_PROCESSES" "k < MAX_PROCESSES" "p_state (proc s k) = READY" "k \<noteq> c"
      and first: "\<forall>e. 1 \<le> e \<and> e < d \<longrightarrow> p_state (proc s ((c + e) mod MAX_PROCESSES)) \<noteq> READY"
      unfolding assms(3) by metis
    have D: "dist_to s k = d" unfolding dist_to_def assms(3) [symmetric] by (rule dist_offset [OF c d(2,3)])
    have s': "s' = activate_process k (save_current e s)" and esp: "esp = p_esp (proc s k)"
      using assms(2) schedule_switch [OF t Some, of e] by auto
    note A = activate_process_facts [OF save_current_facts(1) [OF t, of e] d(4) s']
      and S = save_current_facts [OF t, of e]
    have k: "j = k" using assms(4) A(2) by simp
    have "proc s' i = (if p_state (proc s i) = RUNNING then (proc s i)\<lparr>p_esp := e, p_state := READY\<rparr> else proc s i)"
      if "i < MAX_PROCESSES" "i \<noteq> k" for i
      using that r [OF that(1)] by (auto simp: A(3) S(5) assms(3))
    then show ?thesis using d first D esp by (simp add: k A S)
  next
    case None
    have l: "c < length (processes s)" using c t by (simp add: table_ok_def)
    have no: "\<forall>i < MAX_PROCESSES. i \<noteq> c \<longrightarrow> p_state (proc s i) \<noteq> READY"
      using next_ready_None [OF t] None assms(3) by simp
    have "j = c \<and> p_state (proc s' c) = RUNNING \<and> esp = p_esp (proc s' c) \<and>
        (\<forall>i. i \<noteq> c \<longrightarrow> proc s' i = proc s i)"
      using assms(2,4) l unfolding schedule_stay [OF t None] assms(3) [symmetric]
      by (auto simp: proc_upd_proc assms(3) split: process_state.splits)
    then show ?thesis using no r by auto
  qed
qed

theorem schedule_round_robin_witness:
  "\<exists>s s'. schedule 7 s = Ret 0x101F60 s' \<and> p_state (proc s' 0) = RUNNING"
proof -
  obtain r s where c: "create_process 0x100000 0x200000 0 boot_sched = (r, s)" by fastforce
  have al: "aligned8 0x100000" by (simp add: aligned8_def)
  note b = boot_create [OF c al]
  have t: "table_ok s" using b(3) by (simp add: sched_inv_def one_running_def)
  have "next_ready s = None"
    unfolding next_ready_None [OF t] b(7) using b(6) scheduler_init_facts(5)
    by (auto simp: boot_sched_def MAX_PROCESSES_def)
  then obtain s' where s': "schedule 7 s = Ret 0x101F60 s'"
    using schedule_stay [OF t, of 7] b(4,5,7) by simp
  then have "current_process_idx s' = 0"
    using schedule_stay [OF t \<open>next_ready s = None\<close>, of 7] b(4,7) by auto
  with schedule_round_robin [OF b(3) s' refl refl] s' show ?thesis by auto
qed

text \<open>C26: \<open>schedule\<close> stops the machine exactly when no process is ready or running.\<close>

theorem schedule_halts_iff:
  assumes "sched_inv s"
  shows "\<not> returns (schedule e s) \<longleftrightarrow>
    (\<forall>i < MAX_PROCESSES. p_state (proc s i) \<noteq> READY \<and> p_state (proc s i) \<noteq> RUNNING)"
proof -
  have t: "table_ok s" and r: "\<And>i. i < MAX_PROCESSES \<Longrightarrow> p_state (proc s i) = RUNNING \<Longrightarrow> i = current_process_idx s"
    using assms by (auto simp: sched_inv_def one_running_def)
  then have c: "current_process_idx s < MAX_PROCESSES" by (simp add: table_ok_def)
  show ?thesis
  proof (cases "next_ready s")
    case (Some k)
    from next_ready_SomeD [OF Some t] have "k < MAX_PROCESSES" "p_state (proc s k) = READY" by metis+
    then show ?thesis by (auto simp: schedule_switch [OF t Some])
  next
    case None
    then have n: "\<forall>i < MAX_PROCESSES. i \<noteq> current_process_idx s \<longrightarrow> p_state (proc s i) \<noteq> READY"
      using next_ready_None [OF t] by simp
    have "(\<forall>i < MAX_PROCESSES. p_state (proc s i) \<noteq> READY \<and> p_state (proc s i) \<noteq> RUNNING) \<longleftrightarrow>
        p_state (proc s (current_process_idx s)) \<noteq> READY \<and> p_state (proc s (current_process_idx s)) \<noteq> RUNNING"
      using n r c by blast
    then show ?thesis
      by (cases "p_state (proc s (current_process_idx s))") (simp_all add: schedule_stay [OF t None])
  qed
qed

theorem schedule_halts_iff_witness: "\<not> returns (schedule 7 boot_sched)"
  using schedule_halts_iff [OF boot_sched_inv, of 7] scheduler_init_facts(5)
  by (simp add: boot_sched_def MAX_PROCESSES_def)

text \<open>C20: no process starves: a ready process runs after at most seven timer ticks, whatever
  stack pointers they are entered with.\<close>

theorem ready_process_runs:
  assumes "sched_inv s" and "j < MAX_PROCESSES" and "p_state (proc s j) = READY" and "j \<noteq> current_process_idx s"
  shows "\<exists>k. 1 \<le> k \<and> k \<le> 7 \<and> current_process_idx (ticks es k s) = j \<and> p_state (proc (ticks es k s) j) = RUNNING"
proof (rule ticks_reach [OF assms(1,3,2,4)])
  have "dist_to s j < MAX_PROCESSES" by (simp add: dist_to_def MAX_PROCESSES_def)
  then show "dist_to s j \<le> 7" by (simp add: MAX_PROCESSES_def)
qed


text \<open>Two processes: the second runs and is a child of the first.\<close>

definition two_sched :: sched where
  "two_sched = \<lparr>vm = empty_vm,
    processes = [no_process\<lparr>p_pid := 1, p_state := READY\<rparr>, no_process\<lparr>p_pid := 2, p_ppid := 1, p_state := RUNNING\<rparr>]
      @ replicate 6 no_process,
    current_process_idx = 1, next_pid = 3, tss_rsp0 = 0\<rparr>"

lemma two_sched_proc:
  "proc two_sched 0 = no_process\<lparr>p_pid := 1, p_state := READY\<rparr>"
  "proc two_sched 1 = no_process\<lparr>p_pid := 2, p_ppid := 1, p_state := RUNNING\<rparr>"
  "1 < i \<Longrightarrow> i < MAX_PROCESSES \<Longrightarrow> proc two_sched i = no_process"
  by (simp_all add: proc_def two_sched_def nth_append nth_Cons' MAX_PROCESSES_def)

lemma two_sched_pid: "next_pid two_sched = 3" "current_process_idx two_sched = 1"
  by (simp_all add: two_sched_def)

lemma two_sched_inv: "sched_inv two_sched"
proof -
  have ix: "i = 0 \<or> i = 1 \<or> (1 < i \<and> i < MAX_PROCESSES \<and> proc two_sched i = no_process)" if "i < MAX_PROCESSES" for i
    using two_sched_proc(3) [of i] that by (cases "1 < i") auto
  have live: "live two_sched i \<Longrightarrow> i = 0 \<or> i = 1" for i
    using ix [of i] by (auto simp: live_def no_process_def)
  have st: "i < MAX_PROCESSES \<Longrightarrow> p_state (proc two_sched i) = RUNNING \<Longrightarrow> i = 1" for i
    using ix [of i] two_sched_proc(1) by (auto simp: no_process_def)
  have "table_ok two_sched" "current_process_idx two_sched = 1"
    by (simp_all add: two_sched_def table_ok_def MAX_PROCESSES_def)
  then have "one_running two_sched" using st by (simp add: one_running_def)
  moreover have "pids_ok two_sched" unfolding pids_ok_def
    by (auto dest!: live simp: two_sched_proc [unfolded One_nat_def] two_sched_pid)
  ultimately show ?thesis by (simp add: sched_inv_def)
qed

theorem ready_process_runs_witness:
  "\<exists>k \<le> 7. p_state (proc (ticks (\<lambda>_. 0x5000) k two_sched) 0) = RUNNING"
  using ready_process_runs [OF two_sched_inv, of 0 "\<lambda>_. 0x5000"] two_sched_proc(1)
  by (auto simp: MAX_PROCESSES_def two_sched_pid)

text \<open>C22: \<open>create_process\<close> on success takes the first free slot with a fresh pid, records the
  running process as the parent, and leaves, at the new process's stack pointer, the
  twenty words \<open>iretq\<close> needs: cleared registers, the entry point, the user code and data
  selectors, the interrupt flag and the top of its own user stack; \<open>set_process_entry\<close> and
  \<open>set_process_argv\<close> then set RIP, RDI and RSI and nothing else of the frame.\<close>

theorem spawn_frame:
  assumes "sched_inv s" and "unat (next_pid s) < 2 ^ 31" and "aligned8 ks"
    and "ks + of_nat (idx + 1) * KERNEL_STACK_SIZE \<noteq> 160"
    and "create_process ks us 0 s = (r, s1)" and "0 \<le> r" and "get_process_by_pid (word_of_int r) s1 = Some idx"
    and "s2 = set_process_argv idx argc argv (set_process_entry idx entry_point s1)"
  shows "free_slot s = Some idx \<and> r = int (unat (next_pid s)) \<and> p_state (proc s2 idx) = READY \<and>
    p_ppid (proc s2 idx) = (if p_state (proc s (current_process_idx s)) = RUNNING
      then p_pid (proc s (current_process_idx s)) else 0) \<and>
    p_esp (proc s2 idx) + 160 = ks + of_nat (idx + 1) * KERNEL_STACK_SIZE \<and>
    frame_words s2 idx = (replicate 15 0)[9 := argc, 10 := argv] @
      [entry_point, 0x23, 0x202, us + of_nat (idx + 1) * USER_STACK_SIZE, 0x1B] \<and>
    (\<forall>j. j \<noteq> idx \<longrightarrow> proc s2 j = proc s j)"
proof (rule create_process_result [OF assms(1-3,5,6)])
  fix idx'
  assume f: "free_slot s = Some idx'" "get_process_by_pid (word_of_int r) s1 = Some idx'"
    "r = int (unat (next_pid s))" "p_state (proc s1 idx') = READY"
    "p_ppid (proc s1 idx') = (if p_state (proc s (current_process_idx s)) = RUNNING
       then p_pid (proc s (current_process_idx s)) else 0)"
    "p_kernel_stack (proc s1 idx') = ks + of_nat (idx' + 1) * KERNEL_STACK_SIZE"
    "p_esp (proc s1 idx') = p_kernel_stack (proc s1 idx') - 160"
    "frame_words s1 idx' = replicate 15 0 @ [0, 0x23, 0x202, us + of_nat (idx' + 1) * USER_STACK_SIZE, 0x1B]"
    "\<And>j. j \<noteq> idx' \<Longrightarrow> proc s1 j = proc s j"
  have e: "idx' = idx" using f(2) assms(7) by simp
  note f = f [unfolded e]
  have esp: "p_esp (proc s1 idx) = ks + of_nat (idx + 1) * KERNEL_STACK_SIZE - 160" using f(6,7) by simp
  have nz: "p_esp (proc s1 idx) \<noteq> 0" using assms(4) unfolding esp by simp
  have al: "aligned8 (p_esp (proc s1 idx))"
    unfolding esp using aligned8_minus [OF aligned8_stack [OF assms(3)], of "of_nat (idx + 1)" 20] by simp
  note E = set_process_entry_frame [OF al nz, of entry_point]
  note A = set_process_argv_frame [of "set_process_entry idx entry_point s1" idx, unfolded E(2), OF al nz, of argc argv]
  have fw: "frame_words s2 idx = (replicate 15 0)[9 := argc, 10 := argv] @
      [entry_point, 0x23, 0x202, us + of_nat (idx + 1) * USER_STACK_SIZE, 0x1B]"
    unfolding assms(8) A(1) E(1) f(8) by (simp add: list_update_append numeral_eq_Suc)
  have "proc s2 = proc s1" using A(2) E(2) assms(8) by simp
  then show ?thesis using f esp fw by simp
qed

theorem spawn_frame_witness:
  "\<exists>r s1. create_process 0x100000 0x200000 0 boot_sched = (r, s1) \<and> p_esp (proc s1 0) = 0x101F60 \<and>
    frame_words (set_process_argv 0 1 0x7000 (set_process_entry 0 0x400000 s1)) 0 ! 15 = 0x400000"
proof -
  obtain r s1 where c: "create_process 0x100000 0x200000 0 boot_sched = (r, s1)" by fastforce
  have al: "aligned8 0x100000" by (simp add: aligned8_def)
  note b = boot_create [OF c al]
  have n: "unat (next_pid boot_sched) < 2 ^ 31" by (simp add: boot_sched_def scheduler_init_def)
  have "ks + of_nat (0 + 1) * KERNEL_STACK_SIZE \<noteq> 160" if "ks = 0x100000" for ks :: u64
    using that by (simp add: KERNEL_STACK_SIZE_def)
  from spawn_frame [OF boot_sched_inv n al this [OF refl] c _ _ refl, of 1 "0x7000" "0x400000"] b c
  show ?thesis by (simp del: frame_words_nth add: nth_append)
qed




end
