(* ===== verification/Console.thy ===== *)
theory Console
  imports Prelude
begin

text \<open>
  The text console, \<open>kernel/console.c\<close>, with the drawing it uses:
  \<open>kernel/gfx.c\<close> and \<open>kernel/font.c\<close>.  The framebuffer is a map from pixel
  indices to 32-bit pixels.  The glyph table \<open>font_8x8\<close> is generated data and an
  argument: \<open>font i row\<close> is byte \<open>row\<close> of glyph \<open>i\<close>.
\<close>

type_synonym framebuffer = "int \<Rightarrow> u32"
type_synonym font = "nat \<Rightarrow> nat \<Rightarrow> u8"

record console =
  fb :: framebuffer
  cursor_x :: int
  cursor_y :: int

definition SCREEN_W :: int where "SCREEN_W = 800"
definition SCREEN_H :: int where "SCREEN_H = 600"
definition CHAR_W :: int where "CHAR_W = 8"
definition CHAR_H :: int where "CHAR_H = 16"
definition COLS :: int where "COLS = SCREEN_W div CHAR_W"
definition ROWS :: int where "ROWS = SCREEN_H div CHAR_H"

lemma screen_consts [simp]:
  "SCREEN_W = 800" "SCREEN_H = 600" "CHAR_W = 8" "CHAR_H = 16" "COLS = 100" "ROWS = 37"
  by (simp_all add: SCREEN_W_def SCREEN_H_def CHAR_W_def CHAR_H_def COLS_def ROWS_def)

section \<open>The operations\<close>

definition putpixel :: "int \<Rightarrow> int \<Rightarrow> u32 \<Rightarrow> framebuffer \<Rightarrow> framebuffer" where
  "putpixel x y color f = f(y * SCREEN_W + x := color)"

definition drawchar :: "font \<Rightarrow> int \<Rightarrow> int \<Rightarrow> u8 \<Rightarrow> u32 \<Rightarrow> framebuffer \<Rightarrow> framebuffer" where
  "drawchar font x y c color f =
    (let index = (if 0x20 \<le> c \<and> c \<le> 0x7E then unat (c - 0x20) else 0) in
     fold (\<lambda>row f. let bits = font index row in
       fold (\<lambda>col f. if bits AND drop_bit col 0x80 \<noteq> 0
                     then putpixel (x + int col) (y + int row) color f else f) [0..<8] f)
       [0..<8] f)"

fun drawstring :: "font \<Rightarrow> int \<Rightarrow> int \<Rightarrow> u8 list \<Rightarrow> u32 \<Rightarrow> framebuffer \<Rightarrow> framebuffer" where
  "drawstring font x y [] color f = f"
| "drawstring font x y (c # s) color f = drawstring font (x + 8) y s color (drawchar font x y c color f)"

definition cinit :: "console \<Rightarrow> console" where
  "cinit k = k\<lparr>cursor_x := 0, cursor_y := 0\<rparr>"

text \<open>\<open>f[i] = f[i + d]\<close> for \<open>i < n\<close>, and \<open>f[i] = c\<close> for \<open>a \<le> i < b\<close>, in the order of the loops.\<close>

definition copy_up :: "int \<Rightarrow> nat \<Rightarrow> framebuffer \<Rightarrow> framebuffer" where
  "copy_up d n f = fold (\<lambda>i f. f(int i := f (int i + d))) [0..<n] f"

definition fill :: "nat \<Rightarrow> nat \<Rightarrow> u32 \<Rightarrow> framebuffer \<Rightarrow> framebuffer" where
  "fill a b c f = fold (\<lambda>i f. f(int i := c)) [a..<b] f"

definition scroll :: "console \<Rightarrow> console" where
  "scroll k =
    (let row_pixels = SCREEN_W * CHAR_H;
         f = copy_up row_pixels (nat (row_pixels * (ROWS - 1))) (fb k);
         f = fill (nat (row_pixels * (ROWS - 1))) (nat (row_pixels * ROWS)) 0xFFFFFFFF f
     in k\<lparr>fb := f, cursor_y := cursor_y k - 1\<rparr>)"

lemma scroll_cursor [simp]: "cursor_x (scroll k) = cursor_x k" "cursor_y (scroll k) = cursor_y k - 1"
  by (simp_all add: scroll_def Let_def)

definition newline :: "console \<Rightarrow> console" where
  "newline k =
    (let k = k\<lparr>cursor_x := 0, cursor_y := cursor_y k + 1\<rparr>
     in if ROWS \<le> cursor_y k then scroll k else k)"

text \<open>The body of the loops of \<open>kprint\<close> and \<open>kprintn\<close> for one character.\<close>

definition kprint_char :: "font \<Rightarrow> u32 \<Rightarrow> u8 \<Rightarrow> console \<Rightarrow> console" where
  "kprint_char font color c k =
    (if c = 10 then newline k
     else let k = k\<lparr>fb := drawchar font (cursor_x k * CHAR_W) (cursor_y k * CHAR_H) c color (fb k)\<rparr>;
              k = k\<lparr>cursor_x := cursor_x k + 1\<rparr>
          in if COLS \<le> cursor_x k then newline k else k)"

text \<open>\<open>kprint\<close> reads up to the terminating 0, \<open>kprintn\<close> exactly \<open>len\<close> bytes.\<close>

fun kprint :: "font \<Rightarrow> u8 list \<Rightarrow> u32 \<Rightarrow> console \<Rightarrow> console" where
  "kprint font [] color k = k"
| "kprint font (c # s) color k =
    (if c = 0 then k else kprint font s color (kprint_char font color c k))"

definition kprintn :: "font \<Rightarrow> u8 list \<Rightarrow> u32 \<Rightarrow> console \<Rightarrow> console" where
  "kprintn font s color k = fold (kprint_char font color) s k"

definition console_get_col :: "console \<Rightarrow> int" where "console_get_col k = cursor_x k"
definition console_get_row :: "console \<Rightarrow> int" where "console_get_row k = cursor_y k"

function scroll_down :: "console \<Rightarrow> console" where
  "scroll_down k = (if ROWS \<le> cursor_y k then scroll_down (scroll k) else k)"
  by pat_completeness auto
termination
  by (relation "measure (\<lambda>k. nat (cursor_y k))") auto

declare scroll_down.simps [simp del]

definition console_set_pos :: "int \<Rightarrow> int \<Rightarrow> console \<Rightarrow> console" where
  "console_set_pos col row k = scroll_down (k\<lparr>cursor_x := col, cursor_y := row\<rparr>)"

definition vbefill :: "u32 \<Rightarrow> framebuffer \<Rightarrow> framebuffer" where
  "vbefill color f = fill 0 (800 * 600) color f"

section \<open>Pixels\<close>

lemma fill_apply:
  "a \<le> b \<Longrightarrow> fill a b c f j = (if int a \<le> j \<and> j < int b then c else f j)"
  unfolding fill_def
proof (induction b)
  case (Suc b)
  then show ?case by (cases "a \<le> b") (auto simp: le_Suc_eq)
qed auto

lemma copy_up_apply:
  assumes "0 < d"
  shows "copy_up d n f j = (if 0 \<le> j \<and> j < int n then f (j + d) else f j)"
  unfolding copy_up_def
proof (induction n arbitrary: j)
  case (Suc n)
  show ?case using assms Suc [of j] Suc [of "int n + d"]
    by (cases "j = int n") (simp_all, linarith?)
qed auto

lemma scroll_fb:
  "fb (scroll k) j = (if 0 \<le> j \<and> j < 460800 then fb k (j + 12800)
     else if 460800 \<le> j \<and> j < 473600 then 0xFFFFFFFF else fb k j)"
  by (simp add: scroll_def Let_def fill_apply copy_up_apply)

definition glyph_index :: "u8 \<Rightarrow> nat" where
  "glyph_index c = (if 0x20 \<le> c \<and> c \<le> 0x7E then unat (c - 0x20) else 0)"

definition glyph_bit :: "font \<Rightarrow> u8 \<Rightarrow> int \<Rightarrow> int \<Rightarrow> bool" where
  "glyph_bit font c dx dy \<longleftrightarrow> 0 \<le> dx \<and> dx < 8 \<and> 0 \<le> dy \<and> dy < 8 \<and>
    bit (font (glyph_index c) (nat dy)) (7 - nat dx)"

lemma drop_0x80: "col < 8 \<Longrightarrow> (b :: u8) AND drop_bit col 0x80 \<noteq> 0 \<longleftrightarrow> bit b (7 - col)"
proof -
  assume "col < 8"
  then have "drop_bit col (0x80 :: u8) = 2 ^ (7 - col)"
    by (simp add: less_Suc_eq numeral_eq_Suc) (auto simp: drop_bit_eq_div)
  then show ?thesis by (simp add: and_exp_eq_0_iff_not_bit)
qed

text \<open>Row \<open>y\<close> of a glyph: pixel \<open>j\<close> lies \<open>j - (800 y + x)\<close> columns into it.\<close>

lemma draw_row:
  "n \<le> 8 \<Longrightarrow> fold (\<lambda>col f. if (b :: u8) AND drop_bit col 0x80 \<noteq> 0 then putpixel (x + int col) y color f else f) [0..<n] f j =
    (let dx = j - (y * 800 + x) in if 0 \<le> dx \<and> dx < int n \<and> bit b (7 - nat dx) then color else f j)"
proof (induction n)
  case (Suc n)
  then have n: "n < 8" by simp
  show ?case
  proof (cases "j = y * 800 + x + int n")
    case True
    then show ?thesis using Suc n by (auto simp: drop_0x80 putpixel_def Let_def)
  next
    case False
    then have "j \<noteq> y * 800 + (x + int n)" "j - (y * 800 + x) \<noteq> int n" by simp_all
    then show ?thesis using Suc n by (auto simp: drop_0x80 putpixel_def Let_def)
  qed
qed (auto simp: Let_def)

definition draw_rows :: "font \<Rightarrow> nat \<Rightarrow> int \<Rightarrow> int \<Rightarrow> u32 \<Rightarrow> nat \<Rightarrow> framebuffer \<Rightarrow> framebuffer" where
  "draw_rows font index x y color n f =
    fold (\<lambda>row f. let bits = font index row in
       fold (\<lambda>col f. if bits AND drop_bit col 0x80 \<noteq> 0
                     then putpixel (x + int col) (y + int row) color f else f) [0..<8] f) [0..<n] f"

lemma drawchar_rows: "drawchar font x y c color f = draw_rows font (glyph_index c) x y color 8 f"
  by (simp only: drawchar_def draw_rows_def glyph_index_def Let_def)

lemma draw_rows_apply:
  assumes "0 \<le> x" and "x \<le> 792" and "0 \<le> px" and "px < 800"
  shows "draw_rows font index x y color n f (py * 800 + px) =
    (if x \<le> px \<and> px < x + 8 \<and> y \<le> py \<and> py < y + int n \<and> bit (font index (nat (py - y))) (7 - nat (px - x))
     then color else f (py * 800 + px))"
proof (induction n)
  case (Suc n)
  let ?f = "draw_rows font index x y color n f" and ?dx = "py * 800 + px - ((y + int n) * 800 + x)"
  have step: "draw_rows font index x y color (Suc n) f (py * 800 + px) =
      (if 0 \<le> ?dx \<and> ?dx < 8 \<and> bit (font index n) (7 - nat ?dx) then color else ?f (py * 800 + px))"
    using draw_row [of 8 "font index n" x "y + int n" color ?f "py * 800 + px"]
    by (simp add: draw_rows_def Let_def)
  show ?case
  proof (cases "py = y + int n")
    case True
    then have "?dx = px - x" by simp
    then show ?thesis using Suc True unfolding step by auto
  next
    case False
    have "\<not> (0 \<le> ?dx \<and> ?dx < 8)"
    proof (cases "py < y + int n")
      case True
      then have "py * 800 \<le> (y + int n - 1) * 800" by simp
      then show ?thesis using assms by simp
    next
      case False
      with \<open>py \<noteq> y + int n\<close> have "(y + int n + 1) * 800 \<le> py * 800" by simp
      then show ?thesis using assms by simp
    qed
    then show ?thesis using Suc False unfolding step by auto
  qed
qed (auto simp: draw_rows_def)

section \<open>The terminal the console implements\<close>

text \<open>Lines of coloured characters; the last line is the one being written.\<close>

type_synonym cell = "u8 \<times> u32"

definition term_newline :: "cell list list \<Rightarrow> cell list list" where
  "term_newline rows = (if length rows < 37 then rows @ [[]] else tl rows @ [[]])"

definition term_put :: "u32 \<Rightarrow> u8 \<Rightarrow> cell list list \<Rightarrow> cell list list" where
  "term_put color c rows =
    (if c = 10 then term_newline rows
     else let rows = butlast rows @ [last rows @ [(c, color)]]
          in if length (last rows) = 100 then term_newline rows else rows)"

text \<open>The low 24 bits of a pixel are its colour.\<close>

definition visible :: "u32 \<Rightarrow> u32" where "visible p = p AND 0xFFFFFF"

definition term_pixel :: "font \<Rightarrow> cell list list \<Rightarrow> int \<Rightarrow> int \<Rightarrow> u32" where
  "term_pixel font rows px py =
    (let r = nat (py div 16); c = nat (px div 8)
     in if r < length rows \<and> c < length (rows ! r) \<and> glyph_bit font (fst (rows ! r ! c)) (px mod 8) (py mod 16)
        then visible (snd (rows ! r ! c)) else 0xFFFFFF)"

definition draws :: "font \<Rightarrow> console \<Rightarrow> cell list list \<Rightarrow> bool" where
  "draws font k rows \<longleftrightarrow> (\<forall>px py. 0 \<le> px \<longrightarrow> px < 800 \<longrightarrow> 0 \<le> py \<longrightarrow> py < 592 \<longrightarrow>
    visible (fb k (py * 800 + px)) = term_pixel font rows px py)"

definition term_ok :: "cell list list \<Rightarrow> bool" where
  "term_ok rows \<longleftrightarrow> rows \<noteq> [] \<and> length rows \<le> 37 \<and> length (last rows) < 100"

definition displays :: "font \<Rightarrow> console \<Rightarrow> cell list list \<Rightarrow> bool" where
  "displays font k rows \<longleftrightarrow> term_ok rows \<and> draws font k rows \<and>
    cursor_y k = int (length rows) - 1 \<and> cursor_x k = int (length (last rows))"

lemma term_pixel_snoc: "term_pixel font (rows @ [[]]) px py = term_pixel font rows px py"
  by (auto simp: term_pixel_def Let_def nth_append less_Suc_eq)

lemma term_pixel_tl:
  assumes "rows \<noteq> []" and "0 \<le> py"
  shows "term_pixel font (tl rows) px py = term_pixel font rows px (py + 16)"
proof -
  have "0 \<le> py div 16" using assms(2) by (simp add: pos_imp_zdiv_nonneg_iff)
  then have "nat (py div 16 + 1) = Suc (nat (py div 16))" by simp
  moreover have "(py + 16) div 16 = py div 16 + 1" "(py + 16) mod 16 = py mod 16" by simp_all
  ultimately have "nat ((py + 16) div 16) = Suc (nat (py div 16))" "(py + 16) mod 16 = py mod 16"
    by (simp_all only:)
  moreover obtain r rs where rows: "rows = r # rs" using assms(1) by (cases rows) auto
  ultimately show ?thesis unfolding term_pixel_def Let_def rows by (simp only: list.sel length_Cons nth_Cons_Suc Suc_less_eq)
qed

lemma draws_scroll:
  assumes "draws font k rows" and "length rows = 37"
  shows "draws font (scroll k) (tl rows @ [[]])"
  unfolding draws_def
proof (intro allI impI)
  fix px py :: int assume p: "0 \<le> px" "px < 800" "0 \<le> py" "py < 592"
  have ne: "rows \<noteq> []" using assms(2) by auto
  show "visible (fb (scroll k) (py * 800 + px)) = term_pixel font (tl rows @ [[]]) px py"
  proof (cases "py < 576")
    case True
    have "fb (scroll k) (py * 800 + px) = fb k ((py + 16) * 800 + px)"
      using True p by (simp add: scroll_fb algebra_simps)
    then show ?thesis
      using assms(1) [unfolded draws_def, rule_format, of px "py + 16"] p True
      by (simp add: term_pixel_snoc term_pixel_tl [OF ne p(3)] algebra_simps)
  next
    case False
    have "36 \<le> py div 16" using False by simp
    then have "\<not> nat (py div 16) < 36" by simp
    then have "term_pixel font (tl rows @ [[]]) px py = 0xFFFFFF"
      using assms(2) unfolding term_pixel_snoc by (simp add: term_pixel_def Let_def)
    moreover have "fb (scroll k) (py * 800 + px) = 0xFFFFFFFF" using False p by (simp add: scroll_fb)
    ultimately show ?thesis by (simp add: visible_def)
  qed
qed

lemma newline_displays:
  assumes "draws font k rows" and "rows \<noteq> []" and "length rows \<le> 37" and "cursor_y k = int (length rows) - 1"
  shows "displays font (newline k) (term_newline rows)"
proof (cases "length rows < 37")
  case True
  have "draws font (k\<lparr>cursor_x := 0, cursor_y := cursor_y k + 1\<rparr>) (rows @ [[]])"
    using assms(1) by (simp add: draws_def term_pixel_snoc)
  then show ?thesis
    using True assms(4) by (simp add: displays_def newline_def Let_def term_newline_def term_ok_def)
next
  case False
  then have l: "length rows = 37" using assms(3) by simp
  have "draws font (k\<lparr>cursor_x := 0, cursor_y := cursor_y k + 1\<rparr>) rows" using assms(1) by (simp add: draws_def)
  from draws_scroll [OF this l] show ?thesis
    using l assms(4) by (simp add: displays_def newline_def Let_def term_newline_def term_ok_def)
qed

lemma cell_of_pixel:
  assumes "0 \<le> (px :: int)" and "0 < w"
  shows "int c * w \<le> px \<and> px < int c * w + w \<longleftrightarrow> nat (px div w) = c"
    and "nat (px div w) = c \<Longrightarrow> px - int c * w = px mod w"
proof -
  have d: "int (nat (px div w)) = px div w" using assms by (simp add: pos_imp_zdiv_nonneg_iff)
  have m: "px = px div w * w + px mod w" "0 \<le> px mod w" "px mod w < w" using assms by simp_all
  show "int c * w \<le> px \<and> px < int c * w + w \<longleftrightarrow> nat (px div w) = c"
  proof
    assume a: "int c * w \<le> px \<and> px < int c * w + w"
    have "px div w = int c"
      by (rule int_div_pos_eq [of px w "int c" "px - int c * w"]) (use a in auto)
    then show "nat (px div w) = c" by simp
  next
    assume "nat (px div w) = c"
    then have "px div w = int c" using d by simp
    with m show "int c * w \<le> px \<and> px < int c * w + w" by auto
  qed
  show "px - int c * w = px mod w" if "nat (px div w) = c"
    using m(1) d that by (metis add_diff_cancel_left')
qed


lemma term_pixel_put:
  assumes "rows \<noteq> []" and "0 \<le> px" and "0 \<le> py"
  defines "R \<equiv> length rows - 1" and "n \<equiv> length (last rows)"
  shows "term_pixel font (butlast rows @ [last rows @ [(c, color)]]) px py =
    (if nat (py div 16) = R \<and> nat (px div 8) = n \<and> glyph_bit font c (px mod 8) (py mod 16)
     then visible color else term_pixel font rows px py)"
proof -
  obtain rs l where rows: "rows = rs @ [l]" using assms(1) by (metis append_butlast_last_id)
  have RS: "R = length rs" "n = length l" by (simp_all add: R_def n_def rows)
  define dx dy where "dx = px mod 8" and "dy = py mod 16"
  define r c' where "r = nat (py div 16)" and "c' = nat (px div 8)"
  show ?thesis
    unfolding term_pixel_def Let_def RS dx_def [symmetric] dy_def [symmetric] r_def [symmetric] c'_def [symmetric]
    by (auto simp: rows nth_append less_Suc_eq)
qed

lemma drawchar_draws:
  fixes c :: u8 and color :: u32
  assumes d: "displays font k rows"
  defines "f \<equiv> drawchar font (cursor_x k * CHAR_W) (cursor_y k * CHAR_H) c color (fb k)"
  shows "draws font (k\<lparr>fb := f\<rparr>) (butlast rows @ [last rows @ [(c, color)]])"
  unfolding draws_def
proof (intro allI impI)
  fix px py :: int assume p: "0 \<le> px" "px < 800" "0 \<le> py" "py < 592"
  let ?R = "length rows - 1" and ?n = "length (last rows)"
  have k: "rows \<noteq> []" "?n < 100" "cursor_x k = int ?n" "cursor_y k = int ?R"
    using d by (auto simp: displays_def term_ok_def of_nat_diff Suc_le_eq)
  have "f (py * 800 + px) = (if int ?n * 8 \<le> px \<and> px < int ?n * 8 + 8 \<and> int ?R * 16 \<le> py \<and> py < int ?R * 16 + 8 \<and>
        bit (font (glyph_index c) (nat (py - int ?R * 16))) (7 - nat (px - int ?n * 8))
      then color else fb k (py * 800 + px))"
    unfolding f_def drawchar_rows using draw_rows_apply [OF _ _ p(1,2), of "int ?n * 8"] k by simp
  also have "\<dots> = (if nat (py div 16) = ?R \<and> nat (px div 8) = ?n \<and> glyph_bit font c (px mod 8) (py mod 16)
      then color else fb k (py * 800 + px))"
  proof -
    note cx = cell_of_pixel [OF p(1), of 8 ?n] and cy = cell_of_pixel [OF p(3), of 16 ?R]
    have y: "int ?R * 16 \<le> py \<and> py < int ?R * 16 + 8 \<longleftrightarrow> nat (py div 16) = ?R \<and> py mod 16 < 8"
    proof
      assume a: "int ?R * 16 \<le> py \<and> py < int ?R * 16 + 8"
      then have r: "nat (py div 16) = ?R" using cy(1) by linarith
      then show "nat (py div 16) = ?R \<and> py mod 16 < 8" using a cy(2) [OF _ r] by linarith
    next
      assume a: "nat (py div 16) = ?R \<and> py mod 16 < 8"
      then show "int ?R * 16 \<le> py \<and> py < int ?R * 16 + 8" using cy(1) cy(2) by linarith
    qed
    have m: "0 \<le> px mod 8" "px mod 8 < 8" "0 \<le> py mod 16" by simp_all
    have x1: "int ?n * 8 \<le> px \<and> px < int ?n * 8 + 8 \<longleftrightarrow> nat (px div 8) = ?n" by (rule cx(1)) simp
    have x2: "px - int ?n * 8 = px mod 8" if "nat (px div 8) = ?n" by (rule cx(2) [OF _ that]) simp
    have y2: "py - int ?R * 16 = py mod 16" if "nat (py div 16) = ?R" by (rule cy(2) [OF _ that]) simp
    have "(int ?n * 8 \<le> px \<and> px < int ?n * 8 + 8 \<and> int ?R * 16 \<le> py \<and> py < int ?R * 16 + 8 \<and> b) \<longleftrightarrow>
        (nat (px div 8) = ?n \<and> nat (py div 16) = ?R \<and> py mod 16 < 8 \<and> b)" for b
      using x1 y by blast
    then show ?thesis using x2 y2 m by (simp only: glyph_bit_def cong: conj_cong) (meson)
  qed
  finally have e: "f (py * 800 + px) = \<dots>" .
  show "visible (fb (k\<lparr>fb := f\<rparr>) (py * 800 + px)) =
      term_pixel font (butlast rows @ [last rows @ [(c, color)]]) px py"
    using d p unfolding term_pixel_put [OF k(1) p(1,3)] by (simp add: e displays_def draws_def)
qed

lemma kprint_char_displays:
  assumes d: "displays font k rows"
  shows "displays font (kprint_char font color c k) (term_put color c rows)"
proof -
  have k: "rows \<noteq> []" "length rows \<le> 37" "length (last rows) < 100" "draws font k rows"
    "cursor_x k = int (length (last rows))" "cursor_y k = int (length rows) - 1"
    using d by (auto simp: displays_def term_ok_def)
  show ?thesis
  proof (cases "c = 10")
    case True
    then show ?thesis using newline_displays [OF k(4,1,2,6)] by (simp add: kprint_char_def term_put_def)
  next
    case False
    let ?rows = "butlast rows @ [last rows @ [(c, color)]]"
    let ?k = "k\<lparr>fb := drawchar font (cursor_x k * CHAR_W) (cursor_y k * CHAR_H) c color (fb k)\<rparr>"
    let ?k' = "?k\<lparr>cursor_x := cursor_x k + 1\<rparr>"
    have dr: "draws font ?k' ?rows" using drawchar_draws [OF d, of c color] by (simp add: draws_def)
    have l: "length ?rows = length rows" using k(1) by simp
    have cy: "cursor_y ?k' = int (length ?rows) - 1" unfolding l using k(6) by simp
    have step: "kprint_char font color c k = (if 100 \<le> cursor_x ?k' then newline ?k' else ?k')"
      using False by (simp add: kprint_char_def Let_def)
    show ?thesis
    proof (cases "length (last rows) = 99")
      case True
      have "displays font (newline ?k') (term_newline ?rows)"
        by (rule newline_displays [OF dr _ _ cy]) (use k(1,2) in simp_all)
      then show ?thesis using True False k(5) by (simp add: step term_put_def)
    next
      case n: False
      have "displays font ?k' ?rows"
        unfolding displays_def using dr cy k n by (simp add: term_ok_def)
      then show ?thesis using n False k(3,5) by (simp add: step term_put_def)
    qed
  qed
qed

lemma kprintn_displays:
  "displays font k rows \<Longrightarrow> displays font (kprintn font s color k) (fold (term_put color) s rows)"
  unfolding kprintn_def by (induction s arbitrary: k rows) (auto intro: kprint_char_displays)

lemma kprint_kprintn: "0 \<notin> set s \<Longrightarrow> kprint font (s @ 0 # rest) color k = kprintn font s color k"
  by (induction s arbitrary: k) (auto simp: kprintn_def)

lemma term_put_ok: "term_ok rows \<Longrightarrow> term_ok (term_put color c rows)"
  by (auto simp: term_ok_def term_put_def term_newline_def Let_def)


text \<open>Everything written, wrapped at 100 columns; the terminal is its last 37 lines.\<close>

definition transcript_put :: "u32 \<Rightarrow> u8 \<Rightarrow> cell list list \<Rightarrow> cell list list" where
  "transcript_put color c ls =
    (if c = 10 then ls @ [[]]
     else let ls = butlast ls @ [last ls @ [(c, color)]]
          in if length (last ls) = 100 then ls @ [[]] else ls)"

definition last_lines :: "cell list list \<Rightarrow> cell list list" where
  "last_lines ls = drop (length ls - 37) ls"

lemma last_lines_newline: "ls \<noteq> [] \<Longrightarrow> last_lines (ls @ [[]]) = term_newline (last_lines ls)"
proof (cases "length ls < 37")
  case False
  then have "length ls - 36 = Suc (length ls - 37)" by simp
  with False show ?thesis by (simp add: last_lines_def term_newline_def drop_Suc tl_drop)
qed (simp add: last_lines_def term_newline_def)

lemma last_lines_snoc: "last_lines (ls @ [l]) \<noteq> [] \<and> last (last_lines (ls @ [l])) = l \<and>
    butlast (last_lines (ls @ [l])) @ [l'] = last_lines (ls @ [l'])"
  by (simp add: last_lines_def)

lemma last_lines_put: "ls \<noteq> [] \<Longrightarrow> last_lines (transcript_put color c ls) = term_put color c (last_lines ls)"
proof -
  assume "ls \<noteq> []"
  then obtain xs l where ls: "ls = xs @ [l]" by (metis append_butlast_last_id)
  have s: "last (last_lines (xs @ [l])) = l" "butlast (last_lines (xs @ [l])) @ [l'] = last_lines (xs @ [l'])" for l l'
    using last_lines_snoc [of xs l] by blast+
  show ?thesis
    using last_lines_newline [of "xs @ [l]"] last_lines_newline [of "xs @ [l @ [(c, color)]]"]
    by (simp add: ls transcript_put_def term_put_def s Let_def)
qed

lemma transcript_put_nonempty: "transcript_put color c ls \<noteq> []"
  by (simp add: transcript_put_def Let_def)

lemma last_lines_puts:
  "ls \<noteq> [] \<Longrightarrow> last_lines (fold (transcript_put color) s ls) = fold (term_put color) s (last_lines ls)"
proof (induction s arbitrary: ls)
  case (Cons c s)
  then show ?case using transcript_put_nonempty by (simp add: last_lines_put)
qed simp

text \<open>The cursor stays in range and only the text area of the framebuffer is written.\<close>

definition cursor_ok :: "console \<Rightarrow> bool" where
  "cursor_ok k \<longleftrightarrow> 0 \<le> cursor_x k \<and> cursor_x k < COLS \<and> 0 \<le> cursor_y k \<and> cursor_y k < ROWS"

lemma draw_rows_outside:
  assumes "0 \<le> x" and "x \<le> 792" and "0 \<le> y" and "y + int n \<le> 592" and "j < 0 \<or> 473600 \<le> j"
  shows "draw_rows font index x y color n f j = f j"
  using assms(4)
proof (induction n)
  case (Suc n)
  have "draw_rows font index x y color (Suc n) f j =
      (let dx = j - ((y + int n) * 800 + x) in
       if 0 \<le> dx \<and> dx < 8 \<and> bit (font index n) (7 - nat dx) then color else draw_rows font index x y color n f j)"
    using draw_row [of 8 "font index n" x "y + int n" color "draw_rows font index x y color n f" j]
    by (simp add: draw_rows_def Let_def)
  moreover have "\<not> (0 \<le> j - ((y + int n) * 800 + x) \<and> j - ((y + int n) * 800 + x) < 8)"
  proof -
    have "(y + int n) * 800 \<le> 591 * 800" "0 \<le> (y + int n) * 800" using Suc.prems assms(3) by simp_all
    then show ?thesis using assms(1,2,5) by linarith
  qed
  ultimately show ?case using Suc by (auto simp: Let_def)
qed (simp add: draw_rows_def)

lemma newline_bounds:
  assumes "0 \<le> cursor_y k" and "cursor_y k < 37"
  shows "cursor_ok (newline k) \<and> (\<forall>j. j < 0 \<or> 473600 \<le> j \<longrightarrow> fb (newline k) j = fb k j)"
  using assms by (auto simp: newline_def Let_def cursor_ok_def scroll_fb)

lemma kprint_char_bounds:
  assumes "cursor_ok k"
  shows "cursor_ok (kprint_char font color c k) \<and>
    (\<forall>j. j < 0 \<or> 473600 \<le> j \<longrightarrow> fb (kprint_char font color c k) j = fb k j)"
proof -
  have k: "0 \<le> cursor_x k" "cursor_x k < 100" "0 \<le> cursor_y k" "cursor_y k < 37"
    using assms by (simp_all add: cursor_ok_def)
  let ?f = "drawchar font (cursor_x k * CHAR_W) (cursor_y k * CHAR_H) c color (fb k)"
  have out: "?f j = fb k j" if "j < 0 \<or> 473600 \<le> j" for j
    unfolding drawchar_rows by (rule draw_rows_outside) (use k that in simp_all)
  show ?thesis
    using newline_bounds [of k] newline_bounds [of "k\<lparr>fb := ?f, cursor_x := cursor_x k + 1\<rparr>"] k out
    by (auto simp: kprint_char_def Let_def cursor_ok_def)
qed

lemma cinit_ok: "cursor_ok (cinit k)"
  by (simp add: cursor_ok_def cinit_def)

interpretation console: invariant_system "\<lambda>k. \<exists>k0. k = cinit k0" "\<lambda>k k'. \<exists>font color c. k' = kprint_char font color c k"
  cursor_ok
  by unfold_locales (auto simp: kprint_char_bounds cinit_ok)

section \<open>Properties\<close>

definition boot_console :: console where
  "boot_console = cinit \<lparr>fb = vbefill 0xFFFFFF (\<lambda>_. 0), cursor_x = 7, cursor_y = 7\<rparr>"

lemma boot_console_displays: "displays font boot_console [[]]"
proof -
  have "fb boot_console (py * 800 + px) = 0xFFFFFF" if "0 \<le> px" "px < 800" "0 \<le> py" "py < 592" for px py
    using that by (simp add: boot_console_def cinit_def vbefill_def fill_apply)
  moreover have "term_pixel font [[]] px py = 0xFFFFFF" for px py
    by (auto simp: term_pixel_def Let_def)
  ultimately have "draws font boot_console [[]]" by (simp add: draws_def visible_def)
  then show ?thesis by (simp add: displays_def term_ok_def boot_console_def cinit_def)
qed

text \<open>C18: the console implements a scrolling terminal: when the screen shows the last 37 lines
  of a transcript, then after \<open>kprintn\<close> every pixel of the text area shows the last 37
  lines of the transcript with the new bytes appended, wrapped at 100 columns, whatever
  the glyphs, with the cursor at its end.\<close>

theorem console_shows_transcript:
  assumes "ls \<noteq> []" and "displays font k (last_lines ls)"
  shows "displays font (kprintn font s color k) (last_lines (fold (transcript_put color) s ls))"
  using kprintn_displays [OF assms(2), of s color] by (simp add: last_lines_puts assms(1))

theorem console_shows_transcript_witness:
  "displays (\<lambda>_ _. 0x18) (kprintn (\<lambda>_ _. 0x18) [72, 10, 73] 0 boot_console) [[(72, 0)], [(73, 0)]]"
  using console_shows_transcript [of "[[]]" "\<lambda>_ _. 0x18" boot_console "[72, 10, 73]" 0] boot_console_displays
  by (simp add: last_lines_def transcript_put_def)

text \<open>C28: printing keeps the cursor on the 100 by 37 grid and never writes a framebuffer
  word outside the text area, whatever the bytes, the glyphs and the colour.\<close>

theorem console_stays_in_bounds:
  assumes "cursor_ok k"
  shows "cursor_ok (kprintn font s color k) \<and>
    (\<forall>j. j < 0 \<or> 473600 \<le> j \<longrightarrow> fb (kprintn font s color k) j = fb k j)"
  using assms unfolding kprintn_def
proof (induction s arbitrary: k)
  case (Cons c s)
  then show ?case using kprint_char_bounds [OF Cons.prems, of font color c] by simp
qed simp

theorem console_stays_in_bounds_witness:
  "cursor_ok (kprintn (\<lambda>_ _. 0xFF) (replicate 5000 72) 0 boot_console)"
  using console_stays_in_bounds [of boot_console] by (simp add: cursor_ok_def boot_console_def cinit_def)

end
