(* ===== verification/Bcache.thy ===== *)
theory Bcache
  imports Prelude
begin

text \<open>
  The buffer cache of the file system, first half of
  \<open>kernel/Xjail/xv6/xv6fs_bridge.c\<close>: 64 buffers, replaced in turn, that write
  through to the disk.  A \<open>struct buf *\<close> is the index of a buffer.  The disk
  behind \<open>ahci_read_sectors\<close> and \<open>ahci_write_sectors\<close> maps a sector to its 512
  bytes; transfers of the sectors in \<open>faulty\<close> fail.
\<close>

record buf =
  b_flags :: u32
  b_dev :: u32
  b_blockno :: u32
  b_data :: "u8 list"

record bcache =
  bcache_pool :: "buf list"
  bcache_inited :: bool
  bcache_next_victim :: nat
  ahci_dev :: bool
  disk :: "u32 \<Rightarrow> u8 list"
  faulty :: "u32 \<Rightarrow> bool"

definition B_VALID :: u32 where "B_VALID = 2"
definition B_DIRTY :: u32 where "B_DIRTY = 4"
definition XV6FS_NBUF :: nat where "XV6FS_NBUF = 64"
definition BSIZE :: nat where "BSIZE = 512"

section \<open>The operations\<close>

definition upd_buf :: "nat \<Rightarrow> (buf \<Rightarrow> buf) \<Rightarrow> bcache \<Rightarrow> bcache" where
  "upd_buf i f c = c\<lparr>bcache_pool := (bcache_pool c)[i := f (bcache_pool c ! i)]\<rparr>"

definition bcache_init :: "bcache \<Rightarrow> bcache" where
  "bcache_init c =
    (fold (\<lambda>i. upd_buf i (\<lambda>b. b\<lparr>b_flags := 0, b_dev := -1, b_blockno := 0\<rparr>)) [0..<XV6FS_NBUF] c)
      \<lparr>bcache_inited := True\<rparr>"

definition ahci_read_sectors :: "u32 \<Rightarrow> bcache \<Rightarrow> u8 list option" where
  "ahci_read_sectors n c = (if faulty c n then None else Some (disk c n))"

definition ahci_write_sectors :: "u32 \<Rightarrow> u8 list \<Rightarrow> bcache \<Rightarrow> bool \<times> bcache" where
  "ahci_write_sectors n d c = (if faulty c n then (False, c) else (True, c\<lparr>disk := (disk c)(n := d)\<rparr>))"

definition bcache_get :: "u32 \<Rightarrow> u32 \<Rightarrow> bcache \<Rightarrow> nat \<times> bcache" where
  "bcache_get dev blockno c =
    (let c = (if bcache_inited c then c else bcache_init c) in
     case find (\<lambda>i. let b = bcache_pool c ! i in
            b_flags b AND B_VALID \<noteq> 0 \<and> b_dev b = dev \<and> b_blockno b = blockno) [0..<XV6FS_NBUF] of
       Some i \<Rightarrow> (i, c)
     | None \<Rightarrow>
         let v = bcache_next_victim c; victim = bcache_pool c ! v;
             c = c\<lparr>bcache_next_victim := (v + 1) mod XV6FS_NBUF\<rparr>;
             c = (if b_flags victim AND B_VALID \<noteq> 0 \<and> b_flags victim AND B_DIRTY \<noteq> 0 \<and> ahci_dev c
                  then snd (ahci_write_sectors (b_blockno victim) (b_data victim) c) else c);
             c = upd_buf v (\<lambda>b. b\<lparr>b_dev := dev, b_blockno := blockno, b_flags := 0\<rparr>) c
         in (v, c))"

definition bread :: "u32 \<Rightarrow> u32 \<Rightarrow> bcache \<Rightarrow> (nat, bcache) outcome" where
  "bread dev blockno c =
    (let (i, c) = bcache_get dev blockno c in
     if b_flags (bcache_pool c ! i) AND B_VALID \<noteq> 0 then Ret i c
     else if \<not> ahci_dev c then Halt ''bread() - AHCI device not initialized'' c
     else case ahci_read_sectors blockno c of
         None \<Rightarrow> Halt ''bread() - AHCI read error'' c
       | Some d \<Rightarrow>
           let c = upd_buf i (\<lambda>b. b\<lparr>b_data := d, b_flags := (b_flags b OR B_VALID) AND NOT B_DIRTY\<rparr>) c
           in Ret i c)"

definition bwrite :: "nat \<Rightarrow> bcache \<Rightarrow> (unit, bcache) outcome" where
  "bwrite i c =
    (if \<not> ahci_dev c then Ret () c
     else let b = bcache_pool c ! i; (ok, c) = ahci_write_sectors (b_blockno b) (b_data b) c in
       if \<not> ok then Halt ''bwrite() - AHCI write error'' c
       else Ret () (upd_buf i (\<lambda>b. b\<lparr>b_flags := b_flags b AND NOT B_DIRTY\<rparr>) c))"

definition log_write :: "nat \<Rightarrow> bcache \<Rightarrow> (unit, bcache) outcome" where
  "log_write i c = bwrite i (upd_buf i (\<lambda>b. b\<lparr>b_flags := b_flags b OR B_DIRTY\<rparr>) c)"

text \<open>The bytes of a held buffer, and assignments to them.\<close>

definition buf_data :: "nat \<Rightarrow> bcache \<Rightarrow> u8 list" where
  "buf_data i c = b_data (bcache_pool c ! i)"

definition set_buf_data :: "nat \<Rightarrow> u8 list \<Rightarrow> bcache \<Rightarrow> bcache" where
  "set_buf_data i d c = upd_buf i (\<lambda>b. b\<lparr>b_data := d\<rparr>) c"

section \<open>Coherence\<close>

definition valid_buf :: "bcache \<Rightarrow> nat \<Rightarrow> bool" where
  "valid_buf c i \<longleftrightarrow> b_flags (bcache_pool c ! i) AND B_VALID \<noteq> 0"

definition dirty_buf :: "bcache \<Rightarrow> nat \<Rightarrow> bool" where
  "dirty_buf c i \<longleftrightarrow> b_flags (bcache_pool c ! i) AND B_DIRTY \<noteq> 0"

definition blk :: "bcache \<Rightarrow> nat \<Rightarrow> u32" where
  "blk c i = b_blockno (bcache_pool c ! i)"

text \<open>Between operations of the file system: every valid buffer holds its block.\<close>

definition cache_ok :: "bcache \<Rightarrow> bool" where
  "cache_ok c \<longleftrightarrow> length (bcache_pool c) = XV6FS_NBUF \<and> bcache_next_victim c < XV6FS_NBUF \<and>
    (\<forall>b. length (disk c b) = BSIZE) \<and>
    (bcache_inited c \<longrightarrow>
      (\<forall>i < XV6FS_NBUF. valid_buf c i \<longrightarrow>
         b_dev (bcache_pool c ! i) = 0 \<and> buf_data i c = disk c (blk c i) \<and> \<not> dirty_buf c i) \<and>
      (\<forall>i < XV6FS_NBUF. \<forall>j < XV6FS_NBUF. valid_buf c i \<longrightarrow> valid_buf c j \<longrightarrow> blk c i = blk c j \<longrightarrow> i = j))"

lemma upd_buf_sel [simp]:
  "length (bcache_pool (upd_buf i f c)) = length (bcache_pool c)"
  "bcache_inited (upd_buf i f c) = bcache_inited c"
  "bcache_next_victim (upd_buf i f c) = bcache_next_victim c"
  "ahci_dev (upd_buf i f c) = ahci_dev c" "disk (upd_buf i f c) = disk c" "faulty (upd_buf i f c) = faulty c"
  by (simp_all add: upd_buf_def)

lemma pool_upd_buf:
  "i < length (bcache_pool c) \<Longrightarrow>
    bcache_pool (upd_buf i f c) ! j = (if j = i then f (bcache_pool c ! i) else bcache_pool c ! j)"
  by (simp add: upd_buf_def nth_list_update)

lemma fold_upd_buf:
  assumes "n \<le> length (bcache_pool c)"
  shows "length (bcache_pool (fold (\<lambda>i. upd_buf i f) [0..<n] c)) = length (bcache_pool c) \<and>
    (\<forall>j. bcache_pool (fold (\<lambda>i. upd_buf i f) [0..<n] c) ! j =
      (if j < n then f (bcache_pool c ! j) else bcache_pool c ! j)) \<and>
    disk (fold (\<lambda>i. upd_buf i f) [0..<n] c) = disk c \<and> faulty (fold (\<lambda>i. upd_buf i f) [0..<n] c) = faulty c \<and>
    ahci_dev (fold (\<lambda>i. upd_buf i f) [0..<n] c) = ahci_dev c \<and>
    bcache_next_victim (fold (\<lambda>i. upd_buf i f) [0..<n] c) = bcache_next_victim c"
  using assms by (induction n) (auto simp: pool_upd_buf less_Suc_eq)

lemma bcache_init_facts:
  assumes "length (bcache_pool c) = XV6FS_NBUF" "bcache_next_victim c < XV6FS_NBUF" "\<forall>b. length (disk c b) = BSIZE"
  shows "cache_ok (bcache_init c) \<and> bcache_inited (bcache_init c) \<and> disk (bcache_init c) = disk c \<and>
    faulty (bcache_init c) = faulty c \<and> ahci_dev (bcache_init c) = ahci_dev c \<and>
    (\<forall>i < XV6FS_NBUF. \<not> valid_buf (bcache_init c) i)"
  using fold_upd_buf [of XV6FS_NBUF c "\<lambda>b. b\<lparr>b_flags := 0, b_dev := -1, b_blockno := 0\<rparr>"] assms
  by (simp add: bcache_init_def cache_ok_def valid_buf_def)

text \<open>The cache as the next operation sees it.\<close>

definition ready :: "bcache \<Rightarrow> bcache" where
  "ready c = (if bcache_inited c then c else bcache_init c)"

lemma ready_facts:
  assumes "cache_ok c"
  shows "cache_ok (ready c)" "bcache_inited (ready c)" "disk (ready c) = disk c" "faulty (ready c) = faulty c"
    "ahci_dev (ready c) = ahci_dev c"
  using assms bcache_init_facts [of c] by (auto simp: ready_def cache_ok_def)

lemma flag_facts:
  "x AND B_VALID \<noteq> 0 \<longleftrightarrow> bit x 1" "x AND B_DIRTY \<noteq> 0 \<longleftrightarrow> bit x 2"
  "bit ((x OR B_VALID) AND NOT B_DIRTY) 1" "\<not> bit ((x OR B_VALID) AND NOT B_DIRTY) 2"
  "bit (x OR B_DIRTY) 1 = bit x 1" "bit (x AND NOT B_DIRTY) 1 = bit x 1" "\<not> bit (x AND NOT B_DIRTY) 2"
  for x :: u32
proof -
  have c: "B_VALID = 2 ^ 1" "B_DIRTY = 2 ^ 2" by (simp_all add: B_VALID_def B_DIRTY_def)
  show "x AND B_VALID \<noteq> 0 \<longleftrightarrow> bit x 1" "x AND B_DIRTY \<noteq> 0 \<longleftrightarrow> bit x 2"
    unfolding c by (simp_all only: and_exp_eq_0_iff_not_bit not_not)
  show "bit ((x OR B_VALID) AND NOT B_DIRTY) 1" "\<not> bit ((x OR B_VALID) AND NOT B_DIRTY) 2"
    "bit (x OR B_DIRTY) 1 = bit x 1" "bit (x AND NOT B_DIRTY) 1 = bit x 1" "\<not> bit (x AND NOT B_DIRTY) 2"
    unfolding c by (simp_all add: bit_and_iff bit_or_iff bit_not_iff bit_exp_iff del: power_one_right)
qed

section \<open>What the operations do\<close>

definition disk_up :: "bcache \<Rightarrow> bool" where
  "disk_up c \<longleftrightarrow> ahci_dev c \<and> (\<forall>b. \<not> faulty c b)"

definition cached :: "bcache \<Rightarrow> nat \<Rightarrow> u32 \<Rightarrow> bool" where
  "cached c i b \<longleftrightarrow> i < XV6FS_NBUF \<and> valid_buf c i \<and> blk c i = b"

text \<open>Buffer \<open>i\<close> is the buffer of block \<open>b\<close>, and the cache is coherent.\<close>

definition holds :: "bcache \<Rightarrow> nat \<Rightarrow> u32 \<Rightarrow> bool" where
  "holds c i b \<longleftrightarrow> cache_ok c \<and> bcache_inited c \<and> cached c i b"

lemma bcache_get_ready: "bcache_get dev b c = bcache_get dev b (ready c)"
  by (simp add: bcache_get_def ready_def bcache_init_def Let_def)

lemma bcache_get_hit:
  assumes "holds c i b"
  shows "bcache_get 0 b c = (i, c)"
proof -
  have ok: "cache_ok c" "bcache_inited c" "i < XV6FS_NBUF" "valid_buf c i" "blk c i = b"
    using assms by (simp_all add: holds_def cached_def)
  let ?P = "\<lambda>i. b_flags (bcache_pool c ! i) AND B_VALID \<noteq> 0 \<and> b_dev (bcache_pool c ! i) = 0 \<and>
    b_blockno (bcache_pool c ! i) = b"
  have P: "?P j \<longleftrightarrow> j = i" if "j < XV6FS_NBUF" for j
    using ok that unfolding cache_ok_def valid_buf_def blk_def by blast
  have "find ?P [0..<XV6FS_NBUF] = Some i"
    unfolding find_Some_iff using ok(3) P by (intro exI [of _ i]) (auto simp: nth_append)
  then show ?thesis using ok(2) by (simp add: bcache_get_def Let_def)
qed

lemma bcache_get_miss:
  assumes ok: "cache_ok c" "bcache_inited c" and no: "\<And>i. \<not> cached c i b"
  shows "bcache_get 0 b c = (bcache_next_victim c,
    upd_buf (bcache_next_victim c) (\<lambda>x. x\<lparr>b_dev := 0, b_blockno := b, b_flags := 0\<rparr>)
      (c\<lparr>bcache_next_victim := (bcache_next_victim c + 1) mod XV6FS_NBUF\<rparr>))"
proof -
  let ?P = "\<lambda>i. b_flags (bcache_pool c ! i) AND B_VALID \<noteq> 0 \<and> b_dev (bcache_pool c ! i) = 0 \<and>
    b_blockno (bcache_pool c ! i) = b"
  have "find ?P [0..<XV6FS_NBUF] = None"
    unfolding find_None_iff using no by (auto simp: cached_def valid_buf_def blk_def)
  moreover have "\<not> (valid_buf c v \<and> dirty_buf c v)" if "v < XV6FS_NBUF" for v
    using ok that by (auto simp: cache_ok_def)
  ultimately show ?thesis
    using ok by (auto simp: bcache_get_def Let_def cache_ok_def valid_buf_def dirty_buf_def)
qed

lemma holds_bread: "holds c i b \<Longrightarrow> bread 0 b c = Ret i c"
  by (simp add: bread_def bcache_get_hit) (simp add: holds_def cached_def valid_buf_def)

text \<open>Where a miss leaves the cache: the next victim holds the block read.\<close>

definition load_victim :: "u32 \<Rightarrow> bcache \<Rightarrow> bcache" where
  "load_victim b c = upd_buf (bcache_next_victim c)
    (\<lambda>x. x\<lparr>b_dev := 0, b_blockno := b, b_data := disk c b, b_flags := B_VALID\<rparr>)
    (c\<lparr>bcache_next_victim := (bcache_next_victim c + 1) mod XV6FS_NBUF\<rparr>)"

lemma bread_miss:
  assumes "cache_ok c" "bcache_inited c" "\<And>i. \<not> cached c i b"
  shows "bread 0 b c =
    (if ahci_dev c \<and> \<not> faulty c b then Ret (bcache_next_victim c) (load_victim b c)
     else bread 0 b c)"
    "ahci_dev c \<and> \<not> faulty c b \<or> \<not> returns (bread 0 b c) \<and> disk (state_of (bread 0 b c)) = disk c"
proof -
  have "(0 OR B_VALID) AND NOT B_DIRTY = B_VALID" "B_VALID AND NOT B_DIRTY = B_VALID"
    by (simp_all add: B_VALID_def B_DIRTY_def)
  moreover have "bcache_next_victim c < length (bcache_pool c)" using assms by (simp add: cache_ok_def)
  ultimately show "bread 0 b c =
    (if ahci_dev c \<and> \<not> faulty c b then Ret (bcache_next_victim c) (load_victim b c)
     else bread 0 b c)"
    "ahci_dev c \<and> \<not> faulty c b \<or> \<not> returns (bread 0 b c) \<and> disk (state_of (bread 0 b c)) = disk c"
    using bcache_get_miss [OF assms(1-2), of b] assms(3)
    by (auto simp: bread_def Let_def pool_upd_buf ahci_read_sectors_def load_victim_def upd_buf_def)
qed

lemma load_victim_ok:
  assumes "cache_ok c" "bcache_inited c" "\<And>i. \<not> cached c i b"
  shows "holds (load_victim b c) (bcache_next_victim c) b"
proof -
  have v: "bcache_next_victim c < XV6FS_NBUF" "length (bcache_pool c) = XV6FS_NBUF"
    "B_VALID AND B_VALID \<noteq> 0" "B_VALID AND B_DIRTY = 0" "(0::nat) < XV6FS_NBUF"
    using assms by (auto simp: cache_ok_def B_VALID_def B_DIRTY_def XV6FS_NBUF_def)
  let ?c = "load_victim b c"
  have p: "bcache_pool ?c ! j = (if j = bcache_next_victim c
      then (bcache_pool c ! j)\<lparr>b_dev := 0, b_blockno := b, b_data := disk c b, b_flags := B_VALID\<rparr>
      else bcache_pool c ! j)" for j
    using v by (simp add: load_victim_def pool_upd_buf)
  have q: "valid_buf ?c j \<longleftrightarrow> j = bcache_next_victim c \<or> valid_buf c j"
    "blk ?c j = (if j = bcache_next_victim c then b else blk c j)"
    "buf_data j ?c = (if j = bcache_next_victim c then disk c b else buf_data j c)"
    "dirty_buf ?c j \<longleftrightarrow> j \<noteq> bcache_next_victim c \<and> dirty_buf c j"
    "b_dev (bcache_pool ?c ! j) = (if j = bcache_next_victim c then 0 else b_dev (bcache_pool c ! j))" for j
    using v p by (auto simp: valid_buf_def blk_def buf_data_def dirty_buf_def)
  have r: "disk ?c = disk c" "bcache_inited ?c = bcache_inited c" "length (bcache_pool ?c) = length (bcache_pool c)"
    "bcache_next_victim ?c = (bcache_next_victim c + 1) mod XV6FS_NBUF"
    by (simp_all add: load_victim_def)
  have uniq: "i = j" if "i < XV6FS_NBUF" "j < XV6FS_NBUF" "valid_buf ?c i" "valid_buf ?c j" "blk ?c i = blk ?c j" for i j
    using that assms unfolding q cache_ok_def cached_def by (auto split: if_splits)
  have same: "b_dev (bcache_pool ?c ! i) = 0 \<and> buf_data i ?c = disk ?c (blk ?c i) \<and> \<not> dirty_buf ?c i"
    if "i < XV6FS_NBUF" "valid_buf ?c i" for i
    using that assms unfolding q r cache_ok_def by auto
  have "cache_ok ?c"
    unfolding cache_ok_def using uniq same assms v r by (auto simp: cache_ok_def)
  then show ?thesis using assms v by (simp add: holds_def r cached_def q)
qed

lemma load_victim_sel [simp]:
  "disk (load_victim b c) = disk c" "faulty (load_victim b c) = faulty c"
  "ahci_dev (load_victim b c) = ahci_dev c" "bcache_inited (load_victim b c) = bcache_inited c"
  by (simp_all add: load_victim_def)

lemma holds_data: "holds c i b \<Longrightarrow> buf_data i c = disk c b"
  unfolding holds_def cached_def cache_ok_def by blast

text \<open>Writing a held buffer.\<close>

lemma write_held:
  assumes h: "holds c i b" and d: "length d = BSIZE" and up: "ahci_dev c" "\<not> faulty c b"
  shows "\<exists>c'. log_write i (set_buf_data i d c) = Ret () c' \<and> holds c' i b \<and>
    disk c' = (disk c)(b := d) \<and> faulty c' = faulty c \<and> ahci_dev c' = ahci_dev c \<and>
    bcache_next_victim c' = bcache_next_victim c \<and> (\<forall>j b'. cached c' j b' \<longleftrightarrow> cached c j b')"
proof -
  have i: "i < XV6FS_NBUF" "length (bcache_pool c) = XV6FS_NBUF" "cache_ok c" "bcache_inited c"
    "valid_buf c i" "blk c i = b" "\<not> dirty_buf c i"
    using h by (auto simp: holds_def cached_def cache_ok_def)
  let ?f = "\<lambda>x. x\<lparr>b_data := d, b_flags := (b_flags x OR B_DIRTY) AND NOT B_DIRTY\<rparr>"
  let ?c = "upd_buf i ?f (c\<lparr>disk := (disk c)(b := d)\<rparr>)"
  have lw: "log_write i (set_buf_data i d c) = Ret () ?c"
    using i up by (simp add: log_write_def set_buf_data_def bwrite_def upd_buf_def ahci_write_sectors_def
        Let_def blk_def)
  have p: "bcache_pool ?c ! j = (if j = i then ?f (bcache_pool c ! j) else bcache_pool c ! j)" for j
    using i by (simp add: pool_upd_buf)
  have fl: "bit ((x OR B_DIRTY) AND NOT B_DIRTY) 1 = bit x 1" "\<not> bit ((x OR B_DIRTY) AND NOT B_DIRTY) 2" for x
    using flag_facts [of x] flag_facts [of "x OR B_DIRTY"] by simp_all
  have q: "valid_buf ?c j = valid_buf c j" "blk ?c j = blk c j"
    "b_dev (bcache_pool ?c ! j) = b_dev (bcache_pool c ! j)"
    "buf_data j ?c = (if j = i then d else buf_data j c)" "dirty_buf ?c j \<longleftrightarrow> j \<noteq> i \<and> dirty_buf c j" for j
    using i(5) unfolding valid_buf_def dirty_buf_def blk_def buf_data_def p flag_facts(1,2)
    by (simp_all add: fl [simplified])
  have same: "b_dev (bcache_pool ?c ! j) = 0 \<and> buf_data j ?c = disk ?c (blk ?c j) \<and> \<not> dirty_buf ?c j"
    if "j < XV6FS_NBUF" "valid_buf ?c j" for j
    using that i unfolding q cache_ok_def by auto
  have "cache_ok ?c"
    unfolding cache_ok_def using i same d q(1,2) by (auto simp: cache_ok_def)
  moreover have "cached ?c j b' \<longleftrightarrow> cached c j b'" for j b'
    by (simp add: cached_def q)
  ultimately show ?thesis
    using lw h by (intro exI [of _ ?c]) (simp add: holds_def)
qed

lemma read_block:
  assumes ok: "cache_ok c" and up: "ahci_dev c" "\<not> faulty c b"
  shows "\<exists>i c'. bread 0 b c = Ret i c' \<and> holds c' i b \<and> disk c' = disk c \<and> faulty c' = faulty c \<and>
    ahci_dev c' = ahci_dev c"
proof -
  note r = ready_facts [OF ok]
  have e: "bread 0 b c = bread 0 b (ready c)" by (simp add: bread_def bcache_get_ready [of 0 b c])
  show ?thesis
  proof (cases "\<exists>i. cached (ready c) i b")
    case True
    then obtain i where "holds (ready c) i b" using r by (auto simp: holds_def)
    then show ?thesis using holds_bread r unfolding e by blast
  next
    case False
    have "bread 0 b (ready c) = Ret (bcache_next_victim (ready c)) (load_victim b (ready c))"
      using bread_miss(1) [OF r(1,2), of b] False up r by simp
    then show ?thesis using load_victim_ok [OF r(1,2), of b] False r unfolding e by simp
  qed
qed


lemma bread_fails:
  assumes ok: "cache_ok c" and h: "bread 0 b c = Halt m c'"
  shows "disk c' = disk c \<and> (\<forall>i. \<not> cached (ready c) i b) \<and> \<not> (ahci_dev c \<and> \<not> faulty c b)"
proof -
  note r = ready_facts [OF ok]
  have e: "bread 0 b c = bread 0 b (ready c)" by (simp add: bread_def bcache_get_ready [of 0 b c])
  have no: "\<not> cached (ready c) i b" for i
    using holds_bread [of "ready c" i b] r h e by (auto simp: holds_def)
  have "\<not> (ahci_dev c \<and> \<not> faulty c b)" using read_block [OF ok, of b] h by auto
  then show ?thesis
    using bread_miss(2) [OF r(1,2) no] r h e no by auto
qed

section \<open>The cache as a store of blocks\<close>

text \<open>A store: reading gives the view at a key, writing changes the view there and nowhere else.\<close>

locale block_store =
  fixes get :: "'k \<Rightarrow> 's \<Rightarrow> ('v, 's) outcome"
    and put :: "'k \<Rightarrow> 'v \<Rightarrow> 's \<Rightarrow> (unit, 's) outcome"
    and view :: "'s \<Rightarrow> 'k \<Rightarrow> 'v"
    and inv :: "'s \<Rightarrow> bool"
    and fits :: "'v \<Rightarrow> bool"
  assumes get_law: "inv s \<Longrightarrow> \<exists>t. get k s = Ret (view s k) t \<and> inv t \<and> view t = view s"
    and put_law: "inv s \<Longrightarrow> fits v \<Longrightarrow> \<exists>t. put k v s = Ret () t \<and> inv t \<and> view t = (view s)(k := v)"
begin

lemma read_back:
  assumes "inv s" "fits v"
  shows "\<exists>t. obind (put k v s) (\<lambda>_. get j) = Ret (if j = k then v else view s j) t \<and>
    inv t \<and> view t = (view s)(k := v)"
proof -
  obtain t where t: "put k v s = Ret () t" "inv t" "view t = (view s)(k := v)"
    using put_law [OF assms] by blast
  obtain u where "get j t = Ret (view t j) u" "inv u" "view u = view t" using get_law [OF t(2)] by blast
  then show ?thesis using t by simp
qed

lemma modify:
  assumes "inv s" "\<And>v. f v = g v" "fits (f (view s k))"
  shows "\<exists>t. obind (get k s) (\<lambda>v. put k (g v)) = Ret () t \<and> inv t \<and> view t = (view s)(k := f (view s k))"
proof -
  obtain t where t: "get k s = Ret (view s k) t" "inv t" "view t = view s" using get_law [OF assms(1)] by blast
  obtain u where "put k (f (view s k)) t = Ret () u" "inv u" "view u = (view t)(k := f (view s k))"
    using put_law [OF t(2) assms(3)] by blast
  then show ?thesis using t assms(2) by simp
qed

end

text \<open>Reading and overwriting one block through the cache.\<close>

definition read_through :: "u32 \<Rightarrow> bcache \<Rightarrow> (u8 list, bcache) outcome" where
  "read_through b c = obind (bread 0 b c) (\<lambda>i c. Ret (buf_data i c) c)"

definition write_through :: "u32 \<Rightarrow> u8 list \<Rightarrow> bcache \<Rightarrow> (unit, bcache) outcome" where
  "write_through b d c = obind (bread 0 b c) (\<lambda>i c. log_write i (set_buf_data i d c))"

lemma read_through_law:
  assumes "cache_ok c \<and> disk_up c"
  shows "\<exists>t. read_through b c = Ret (disk c b) t \<and> (cache_ok t \<and> disk_up t) \<and> disk t = disk c"
proof -
  obtain i t where "bread 0 b c = Ret i t" "holds t i b" "disk t = disk c" "disk_up t"
    using read_block [of c b] assms by (auto simp: disk_up_def)
  then show ?thesis using holds_data [of t i b] by (auto simp: read_through_def holds_def)
qed

lemma write_through_law:
  assumes "cache_ok c \<and> disk_up c" and "length d = BSIZE"
  shows "\<exists>t. write_through b d c = Ret () t \<and> (cache_ok t \<and> disk_up t) \<and> disk t = (disk c)(b := d)"
proof -
  obtain i c1 where c1: "bread 0 b c = Ret i c1" "holds c1 i b" "disk c1 = disk c" "disk_up c1"
    using read_block [of c b] assms by (auto simp: disk_up_def)
  then obtain c2 where "log_write i (set_buf_data i d c1) = Ret () c2" "holds c2 i b"
      "disk c2 = (disk c1)(b := d)" "disk_up c2"
    using write_held [OF c1(2) assms(2)] by (auto simp: disk_up_def)
  then show ?thesis using c1 by (auto simp: write_through_def holds_def)
qed

interpretation blocks: block_store read_through write_through disk "\<lambda>c. cache_ok c \<and> disk_up c"
  "\<lambda>d. length d = BSIZE"
  by unfold_locales (rule read_through_law write_through_law; simp)+

section \<open>Properties\<close>

text \<open>A cache with no block in it and a disk of zeros.\<close>

definition empty_cache :: bcache where
  "empty_cache = \<lparr>bcache_pool = replicate 64 \<lparr>b_flags = 0, b_dev = 0, b_blockno = 0, b_data = replicate 512 0\<rparr>,
    bcache_inited = True, bcache_next_victim = 0, ahci_dev = True, disk = (\<lambda>_. replicate 512 0), faulty = (\<lambda>_. False)\<rparr>"

lemma empty_cache_ok: "cache_ok empty_cache" "disk_up empty_cache" "\<not> cached empty_cache i b"
  by (simp_all add: cache_ok_def empty_cache_def XV6FS_NBUF_def BSIZE_def valid_buf_def disk_up_def cached_def)

text \<open>C29: \<open>bread\<close> of a coherent cache returns a buffer with the bytes of the disk block, leaves
  the disk alone and the cache coherent; it stops the machine only when the block is not
  cached and the controller is absent or fails the read.\<close>

theorem bread_returns_block:
  assumes "cache_ok c"
  shows "case bread 0 b c of
      Ret i c' \<Rightarrow> cache_ok c' \<and> cached c' i b \<and> buf_data i c' = disk c b \<and> disk c' = disk c
    | Halt m c' \<Rightarrow> disk c' = disk c \<and> (ahci_dev c \<longrightarrow> faulty c b)"
proof (cases "bread 0 b c")
  case (Halt m c')
  then show ?thesis using bread_fails [OF assms] by auto
next
  case (Ret i c')
  note r = ready_facts [OF assms]
  have e: "bread 0 b c = bread 0 b (ready c)" by (simp add: bread_def bcache_get_ready [of 0 b c])
  have "holds c' i b \<and> disk c' = disk c"
  proof (cases "\<exists>i. cached (ready c) i b")
    case True
    then obtain j where "holds (ready c) j b" using r by (auto simp: holds_def)
    then show ?thesis using holds_bread [of "ready c" j b] r Ret unfolding e by simp
  next
    case False
    then have "ahci_dev c \<and> \<not> faulty c b"
      using bread_miss(2) [OF r(1,2), of b] r Ret e by auto
    then show ?thesis using read_block [OF assms, of b] Ret by auto
  qed
  then show ?thesis using Ret holds_data [of c' i b] by (simp add: holds_def)
qed

theorem bread_returns_block_witness:
  "case bread 0 7 empty_cache of Ret i c' \<Rightarrow> buf_data i c' = replicate 512 0 | Halt m c' \<Rightarrow> False"
  using bread_returns_block [of empty_cache 7] empty_cache_ok read_block [of empty_cache 7]
  by (auto simp: empty_cache_def split: outcome.splits)

text \<open>C30: overwriting a block through the cache and reading any block afterwards gives the new
  bytes at that block and the old ones everywhere else; the disk itself changes in that
  block only, before the write returns.\<close>

theorem write_then_read_block:
  assumes "cache_ok c" and "disk_up c" and "length d = BSIZE"
  shows "\<exists>c'. obind (write_through b d c) (\<lambda>_. read_through a) = Ret (if a = b then d else disk c a) c' \<and>
    disk c' = (disk c)(b := d) \<and> cache_ok c'"
  using blocks.read_back [of c d b a] assms by blast

theorem write_then_read_block_witness:
  "\<exists>c'. obind (write_through 3 (replicate 512 1) empty_cache) (\<lambda>_. read_through 3) = Ret (replicate 512 1) c'"
proof -
  have "length (replicate 512 (1 :: u8)) = BSIZE" by (simp only: length_replicate BSIZE_def)
  from write_then_read_block [OF empty_cache_ok(1,2) this, of 3 3] show ?thesis by auto
qed

text \<open>C31: \<open>brelse\<close> does nothing and nothing pins a buffer, so a buffer that is still in use can
  be replaced: when the block a caller just read sits in the buffer that is next in turn, the
  next miss reads its block into that same buffer.\<close>

theorem held_buffer_replaced:
  assumes "cache_ok c" and "bcache_inited c" and "disk_up c"
    and "bread 0 b c = Ret i c" and "i = bcache_next_victim c" and "\<forall>j. \<not> cached c j b'"
  shows "\<exists>c'. bread 0 b' c = Ret i c' \<and> buf_data i c' = disk c b'"
proof -
  have n: "\<And>j. \<not> cached c j b'" using assms by blast
  have "bread 0 b' c = Ret i (load_victim b' c)"
    using bread_miss(1) [OF assms(1,2) n] assms by (simp add: disk_up_def)
  moreover have "buf_data i (load_victim b' c) = disk c b'"
    using holds_data [OF load_victim_ok [OF assms(1,2) n]] assms(5) by simp
  ultimately show ?thesis by blast
qed


text \<open>A cache whose buffer next in turn holds block 9.\<close>

definition wrapped_cache :: bcache where
  "wrapped_cache = empty_cache\<lparr>bcache_pool := (bcache_pool empty_cache)
    [0 := \<lparr>b_flags = 2, b_dev = 0, b_blockno = 9, b_data = replicate 512 0\<rparr>]\<rparr>"

lemma wrapped_cache_cached: "cached wrapped_cache j b \<longleftrightarrow> j = 0 \<and> b = 9"
  by (auto simp: cached_def valid_buf_def blk_def wrapped_cache_def empty_cache_def XV6FS_NBUF_def B_VALID_def
      nth_list_update simp del: replicate.simps)

lemma wrapped_cache_ok: "cache_ok wrapped_cache" "disk_up wrapped_cache" "bcache_inited wrapped_cache"
    "bcache_next_victim wrapped_cache = 0"
  by (auto simp: cache_ok_def valid_buf_def disk_up_def blk_def buf_data_def dirty_buf_def wrapped_cache_def
      empty_cache_def XV6FS_NBUF_def BSIZE_def B_VALID_def B_DIRTY_def nth_list_update split: if_splits
      simp del: replicate.simps)

theorem held_buffer_replaced_witness:
  "\<exists>c'. bread 0 9 wrapped_cache = Ret 0 wrapped_cache \<and> bread 0 5 wrapped_cache = Ret 0 c'"
proof -
  have h: "holds wrapped_cache 0 9" by (simp add: holds_def wrapped_cache_ok wrapped_cache_cached)
  have "\<forall>j. \<not> cached wrapped_cache j 5" by (simp add: wrapped_cache_cached)
  from held_buffer_replaced [OF wrapped_cache_ok(1,3,2) holds_bread [OF h] _ this] holds_bread [OF h]
  show ?thesis by (auto simp: wrapped_cache_ok)
qed

end
