(* ===== verification/CString.thy ===== *)
theory CString
  imports PhysMem
begin

text \<open>
  The C library routines of \<open>kernel/Xjail/xv6/string.c\<close>, on byte-addressed
  memory: pointers are 64-bit addresses, \<open>uint n\<close> is a 32-bit count.
\<close>

section \<open>The routines\<close>

text \<open>The two loops of \<open>memmove\<close>: ascending and descending, byte \<open>i\<close> of either range at a time.\<close>

definition copy_byte :: "u64 \<Rightarrow> u64 \<Rightarrow> nat \<Rightarrow> mem \<Rightarrow> mem" where
  "copy_byte dst src i m = m(dst + of_nat i := m (src + of_nat i))"

definition copy_forward :: "nat \<Rightarrow> u64 \<Rightarrow> u64 \<Rightarrow> mem \<Rightarrow> mem" where
  "copy_forward n dst src m = fold (copy_byte dst src) [0..<n] m"

definition copy_backward :: "nat \<Rightarrow> u64 \<Rightarrow> u64 \<Rightarrow> mem \<Rightarrow> mem" where
  "copy_backward n dst src m = fold (copy_byte dst src) (rev [0..<n]) m"

definition memmove :: "u64 \<Rightarrow> u64 \<Rightarrow> u32 \<Rightarrow> mem \<Rightarrow> mem" where
  "memmove dst src n m =
    (if n = 0 \<or> dst = src then m
     else if src < dst \<and> dst < src + ucast n
     then copy_backward (unat n) dst src m
     else copy_forward (unat n) dst src m)"

definition memset :: "u64 \<Rightarrow> u32 \<Rightarrow> u32 \<Rightarrow> mem \<Rightarrow> mem" where
  "memset dst c n m = fold (\<lambda>i m. m(dst + of_nat i := ucast c)) [0..<unat n] m"

text \<open>A string read beyond its bytes gives the terminator.\<close>

definition byte_at :: "u8 list \<Rightarrow> nat \<Rightarrow> u8" where
  "byte_at s i = (if i < length s then s ! i else 0)"

fun strncmp_from :: "nat \<Rightarrow> u8 list \<Rightarrow> u8 list \<Rightarrow> nat \<Rightarrow> int" where
  "strncmp_from i p q 0 = 0"
| "strncmp_from i p q (Suc n) =
    (if byte_at p i \<noteq> 0 \<and> byte_at p i = byte_at q i then strncmp_from (i + 1) p q n
     else uint (byte_at p i) - uint (byte_at q i))"

definition strncmp :: "u8 list \<Rightarrow> u8 list \<Rightarrow> nat \<Rightarrow> int" where
  "strncmp p q n = strncmp_from 0 p q n"

text \<open>The \<open>n\<close> bytes \<open>strncpy\<close> stores.\<close>

fun strncpy_from :: "nat \<Rightarrow> u8 list \<Rightarrow> nat \<Rightarrow> u8 list" where
  "strncpy_from i t 0 = []"
| "strncpy_from i t (Suc n) =
    (if byte_at t i \<noteq> 0 then byte_at t i # strncpy_from (i + 1) t n else replicate (Suc n) 0)"

definition strncpy :: "u8 list \<Rightarrow> nat \<Rightarrow> u8 list" where
  "strncpy t n = strncpy_from 0 t n"

section \<open>Copying\<close>

text \<open>The \<open>n\<close> bytes at \<open>dst\<close> replaced by those at \<open>src\<close>, read before any is written.\<close>

definition block_copy :: "u64 \<Rightarrow> u64 \<Rightarrow> nat \<Rightarrow> mem \<Rightarrow> mem" where
  "block_copy dst src n m = (\<lambda>a. if unat (a - dst) < n then m (src + (a - dst)) else m a)"

lemma offset_eq: "n < 2 ^ 64 \<Longrightarrow> unat ((a :: u64) - b) = n \<longleftrightarrow> a = b + of_nat n"
proof
  assume "n < 2 ^ 64" "a = b + of_nat n"
  then show "unat (a - b) = n" by (simp add: unat_of_nat_u64)
next
  assume "unat (a - b) = n"
  then have "a - b = of_nat n" by (metis of_nat_unat ucast_id)
  then show "a = b + of_nat n" by (simp add: algebra_simps)
qed

lemma copy_forward_block:
  assumes "n < 2 ^ 64" and "\<forall>k < n. \<forall>j < k. src + of_nat k \<noteq> dst + of_nat j"
  shows "copy_forward n dst src m = block_copy dst src n m"
  using assms
proof (induction n)
  case 0
  show ?case by (simp add: block_copy_def copy_forward_def)
next
  case (Suc n)
  then have ih: "fold (copy_byte dst src) [0..<n] m = block_copy dst src n m" by (simp add: copy_forward_def)
  have "\<not> unat (src + of_nat n - dst) < n"
  proof
    assume lt: "unat (src + of_nat n - dst) < n"
    then have "src + of_nat n = dst + of_nat (unat (src + of_nat n - dst))" by simp
    then show False using Suc.prems(2) lt by blast
  qed
  moreover have "unat (a - dst) = n \<longleftrightarrow> a = dst + of_nat n" for a
    using Suc.prems(1) by (intro offset_eq) simp
  ultimately show ?case
    by (auto simp: copy_forward_def ih copy_byte_def block_copy_def fun_eq_iff less_Suc_eq)
qed

lemma copy_backward_block:
  assumes "n < 2 ^ 64" and "\<forall>k < n. \<forall>i < k. src + of_nat i \<noteq> dst + of_nat k"
  shows "copy_backward n dst src m = block_copy dst src n m"
  using assms
proof (induction n arbitrary: m)
  case 0
  show ?case by (simp add: block_copy_def copy_backward_def)
next
  case (Suc n)
  let ?m = "copy_byte dst src n m"
  have ih: "fold (copy_byte dst src) (rev [0..<n]) ?m = block_copy dst src n ?m"
    using Suc.IH [of ?m] Suc.prems by (simp add: copy_backward_def)
  have eq: "unat (a - dst) = n \<longleftrightarrow> a = dst + of_nat n" for a
    using Suc.prems(1) by (intro offset_eq) simp
  have st: "copy_backward (Suc n) dst src m = block_copy dst src n ?m"
    unfolding copy_backward_def using ih by simp
  have ne: "src + (a - dst) \<noteq> dst + of_nat n" if "unat (a - dst) < n" for a
  proof -
    have "a - dst = of_nat (unat (a - dst))" by simp
    then show ?thesis using Suc.prems(2) that by (metis lessI)
  qed
  show ?case unfolding st
  proof (rule ext)
    fix a
    show "block_copy dst src n ?m a = block_copy dst src (Suc n) m a"
      using ne [of a] eq [of a] by (auto simp: copy_byte_def block_copy_def less_Suc_eq)
  qed
qed

lemma unat_plus_nat: "unat (a :: u64) + k < 2 ^ 64 \<Longrightarrow> unat (a + of_nat k) = unat a + k"
  by (simp add: unat_word_ariths unat_of_nat_u64)

lemma strncpy_from_length [simp]: "length (strncpy_from i t n) = n"
  by (induction n arbitrary: i) auto

lemma all_nat_le_Suc: "(\<forall>j \<le> Suc k. P j) \<longleftrightarrow> P 0 \<and> (\<forall>j \<le> k. P (Suc j))"
proof (intro iffI allI impI)
  fix j assume a: "P 0 \<and> (\<forall>j \<le> k. P (Suc j))" and j: "j \<le> Suc k"
  from a j show "P j" by (cases j) auto
qed auto

lemma strncpy_from_nth:
  "k < n \<Longrightarrow> strncpy_from i t n ! k = (if \<forall>j \<le> k. byte_at t (i + j) \<noteq> 0 then byte_at t (i + k) else 0)"
proof (induction n arbitrary: i k)
  case (Suc n)
  show ?case
  proof (cases "byte_at t i = 0")
    case True
    then have "strncpy_from i t (Suc n) ! k = 0" using Suc.prems by (simp del: replicate.simps)
    then show ?thesis using True by (metis add.right_neutral le0)
  next
    case False
    have "(\<forall>j \<le> Suc k'. byte_at t (i + j) \<noteq> 0) \<longleftrightarrow> (\<forall>j \<le> k'. byte_at t (i + 1 + j) \<noteq> 0)" for k'
      using False by (auto simp: all_nat_le_Suc)
    then show ?thesis using Suc False by (cases k) auto
  qed
qed simp

definition same_prefix :: "(nat \<Rightarrow> u8) \<Rightarrow> (nat \<Rightarrow> u8) \<Rightarrow> nat \<Rightarrow> bool" where
  "same_prefix p q n \<longleftrightarrow> (\<forall>k < n. (\<forall>j < k. p j \<noteq> 0) \<longrightarrow> p k = q k)"

lemma same_prefix_Suc:
  "same_prefix p q (Suc n) \<longleftrightarrow> p 0 = q 0 \<and> (p 0 \<noteq> 0 \<longrightarrow> same_prefix (p \<circ> Suc) (q \<circ> Suc) n)"
proof
  assume a: "same_prefix p q (Suc n)"
  show "p 0 = q 0 \<and> (p 0 \<noteq> 0 \<longrightarrow> same_prefix (p \<circ> Suc) (q \<circ> Suc) n)"
  proof (intro conjI impI)
    show "p 0 = q 0" using a by (simp add: same_prefix_def)
    assume z: "p 0 \<noteq> 0"
    show "same_prefix (p \<circ> Suc) (q \<circ> Suc) n" unfolding same_prefix_def
    proof (intro allI impI)
      fix k assume k: "k < n" "\<forall>j < k. (p \<circ> Suc) j \<noteq> 0"
      have "\<forall>j < Suc k. p j \<noteq> 0" using k(2) z by (auto simp: less_Suc_eq_0_disj)
      then show "(p \<circ> Suc) k = (q \<circ> Suc) k" using a k(1) by (simp add: same_prefix_def)
    qed
  qed
next
  assume a: "p 0 = q 0 \<and> (p 0 \<noteq> 0 \<longrightarrow> same_prefix (p \<circ> Suc) (q \<circ> Suc) n)"
  show "same_prefix p q (Suc n)" unfolding same_prefix_def
  proof (intro allI impI)
    fix k assume k: "k < Suc n" "\<forall>j < k. p j \<noteq> 0"
    show "p k = q k"
    proof (cases k)
      case (Suc l)
      have "\<forall>j < l. (p \<circ> Suc) j \<noteq> 0" "p 0 \<noteq> 0" using k(2) Suc by auto
      then show ?thesis using a k(1) Suc by (simp add: same_prefix_def)
    qed (use a in simp)
  qed
qed

lemma strncmp_from_0:
  "strncmp_from i p q n = 0 \<longleftrightarrow> same_prefix (\<lambda>k. byte_at p (i + k)) (\<lambda>k. byte_at q (i + k)) n"
proof (induction n arbitrary: i)
  case (Suc n)
  have "(\<lambda>k. byte_at x (i + k)) \<circ> Suc = (\<lambda>k. byte_at x (i + 1 + k))" for x
    by (simp add: fun_eq_iff)
  then show ?case using Suc [of "i + 1"] by (auto simp: same_prefix_Suc word_uint_eq_iff)
qed (simp add: same_prefix_def)

section \<open>Properties\<close>

text \<open>C32: \<open>memmove\<close> copies the \<open>n\<close> bytes as they were before the call, even when the two
  ranges overlap, and changes nothing else, when neither range wraps around.\<close>

theorem memmove_copies:
  assumes "unat src + unat n < 2 ^ 64" and "unat dst + unat n \<le> 2 ^ 64"
  shows "memmove dst src n m =
    (\<lambda>a. if unat (a - dst) < unat n then m (src + (a - dst)) else m a)"
proof -
  let ?n = "unat n"
  have n: "?n < 2 ^ 32" using unsigned_less [of n] by simp
  then have n64: "?n < 2 ^ 64" by simp
  have un: "(ucast n :: u64) = of_nat ?n" by simp
  have s: "unat (src + of_nat k) = unat src + k" if "k < ?n" for k
    by (rule unat_plus_nat) (use assms(1) that in linarith)
  have d: "unat (dst + of_nat k) = unat dst + k" if "k < ?n" for k
    by (rule unat_plus_nat) (use assms(2) that in linarith)
  have sn: "unat (src + ucast n) = unat src + ?n" unfolding un by (rule unat_plus_nat [OF assms(1)])
  show ?thesis unfolding block_copy_def [symmetric]
  proof (cases "n = 0 \<or> dst = src")
    case True
    then show "memmove dst src n m = block_copy dst src ?n m"
      by (auto simp: memmove_def block_copy_def fun_eq_iff)
  next
    case False
    show "memmove dst src n m = block_copy dst src ?n m"
    proof (cases "src < dst \<and> dst < src + ucast n")
      case True
      have *: "src + of_nat i \<noteq> dst + of_nat k" if "k < ?n" "i < k" for i k
      proof
        assume "src + of_nat i = dst + of_nat k"
        then have "unat src + i = unat dst + k" using s [of i] d [of k] that by simp
        then show False using True that by (simp add: word_less_nat_alt)
      qed
      have "copy_backward ?n dst src m = block_copy dst src ?n m"
        by (rule copy_backward_block [OF n64]) (use * in blast)
      then show ?thesis using True False by (simp add: memmove_def)
    next
      case ov: False
      have disj: "unat dst < unat src \<or> unat src + ?n \<le> unat dst"
        using ov False sn word_unat_eq_iff [of dst src] by (auto simp: word_less_nat_alt not_less)
      have *: "src + of_nat k \<noteq> dst + of_nat j" if "k < ?n" "j < k" for j k
      proof
        assume "src + of_nat k = dst + of_nat j"
        then have "unat src + k = unat dst + j" using s [of k] d [of j] that by simp
        then show False using that disj by auto
      qed
      have "copy_forward ?n dst src m = block_copy dst src ?n m"
        by (rule copy_forward_block [OF n64]) (use * in blast)
      then show ?thesis using ov False by (auto simp: memmove_def)
    qed
  qed
qed


theorem memmove_copies_witness:
  "\<forall>m. memmove 0x1002 0x1000 4 m 0x1005 = m 0x1003 \<and> memmove 0x1000 0x1002 4 m 0x1003 = m 0x1005"
proof
  fix m
  show "memmove 0x1002 0x1000 4 m 0x1005 = m 0x1003 \<and> memmove 0x1000 0x1002 4 m 0x1003 = m 0x1005"
    using memmove_copies [of "0x1000" 4 "0x1002" m] memmove_copies [of "0x1002" 4 "0x1000" m] by simp
qed

lemma byte_at_nonzero: "0 \<notin> set s \<Longrightarrow> byte_at s i \<noteq> 0 \<longleftrightarrow> i < length s"
  by (auto simp: byte_at_def in_set_conv_nth)

lemma byte_at_strncpy:
  assumes "0 \<notin> set t" and "k < n"
  shows "byte_at (strncpy t n) k = byte_at t k"
proof -
  have "(\<forall>j \<le> k. byte_at t j \<noteq> 0) \<longleftrightarrow> k < length t"
    unfolding byte_at_nonzero [OF assms(1)] by (metis le_refl order.strict_trans1)
  then show ?thesis
    using assms strncpy_from_nth [of k n 0 t] by (simp add: strncpy_def) (simp add: byte_at_def)
qed

text \<open>a name stored in a directory entry with \<open>strncpy(de.name, b, n)\<close> is found by
  \<open>strncmp(a, de.name, n)\<close> exactly when the two names agree on their first \<open>n\<close> bytes: a
  name is found again, and longer names that share their first \<open>n\<close> bytes are the same.\<close>

theorem stored_name_matches:
  assumes "0 \<notin> set a" and "0 \<notin> set b"
  shows "strncmp a (strncpy b n) n = 0 \<longleftrightarrow> take n a = take n b"
proof -
  have "strncmp a (strncpy b n) n = 0 \<longleftrightarrow>
      (\<forall>k < n. (\<forall>j < k. byte_at a j \<noteq> 0) \<longrightarrow> byte_at a k = byte_at b k)"
    by (simp add: strncmp_def strncmp_from_0 same_prefix_def byte_at_strncpy assms(2))
  also have "\<dots> \<longleftrightarrow> take n a = take n b"
  proof
    assume e: "take n a = take n b"
    have "byte_at a k = byte_at b k" if "k < n" for k
    proof -
      have "byte_at s k = byte_at (take n s) k" for s using that by (simp add: byte_at_def)
      then show ?thesis using e by metis
    qed
    then show "\<forall>k < n. (\<forall>j < k. byte_at a j \<noteq> 0) \<longrightarrow> byte_at a k = byte_at b k" by blast
  next
    assume e: "\<forall>k < n. (\<forall>j < k. byte_at a j \<noteq> 0) \<longrightarrow> byte_at a k = byte_at b k"
    have eq: "byte_at a k = byte_at b k" if "k < n" "k \<le> length a" for k
      using e that byte_at_nonzero [OF assms(1)] by auto
    have "length (take n a) = length (take n b)"
    proof (rule ccontr)
      assume "length (take n a) \<noteq> length (take n b)"
      then consider "length a < n" "length a < length b" | "length b < n" "length b < length a"
        by (cases "length a < length b"; cases "length a < n"; cases "length b < n") auto
      then show False
      proof cases
        case 1
        then have "byte_at b (length a) \<noteq> 0" using byte_at_nonzero [OF assms(2)] by blast
        then show False using eq [of "length a"] 1 by (simp add: byte_at_def)
      next
        case 2
        then have "byte_at a (length b) \<noteq> 0" using byte_at_nonzero [OF assms(1)] by blast
        then show False using eq [of "length b"] 2 by (simp add: byte_at_def)
      qed
    qed
    then show "take n a = take n b"
    proof (rule nth_equalityI)
      fix i assume i: "i < length (take n a)"
      then have "i < length (take n b)" using \<open>length (take n a) = length (take n b)\<close> by (simp only:)
      then show "take n a ! i = take n b ! i" using i eq [of i] by (simp add: byte_at_def)
    qed
  qed
  finally show ?thesis .
qed

theorem stored_name_matches_witness:
  "strncmp [97, 98, 99] (strncpy [97, 98, 100] 14) 14 \<noteq> 0 \<and> strncmp [97, 98] (strncpy [97, 98] 14) 14 = 0"
  using stored_name_matches [of "[97, 98, 99]" "[97, 98, 100]" 14] stored_name_matches [of "[97, 98]" "[97, 98]" 14]
  by simp

text \<open>\<open>memset\<close> sets exactly the \<open>n\<close> bytes from \<open>dst\<close> to the low byte of \<open>c\<close>.\<close>

theorem memset_fills:
  "memset dst c n m a = (if unat (a - dst) < unat n then ucast c else m a)"
proof -
  have "fold (\<lambda>i m. m(dst + of_nat i := ucast c)) [0..<k] m a = (if unat (a - dst) < k then ucast c else m a)"
    if "k \<le> unat n" for k
    using that
  proof (induction k)
    case (Suc k)
    have "unat n < 2 ^ 32" using unsigned_less [of n] by simp
    then have "k < 2 ^ 64" using Suc.prems by simp
    then have "unat (a - dst) = k \<longleftrightarrow> a = dst + of_nat k" by (rule offset_eq)
    then show ?case using Suc by (auto simp: less_Suc_eq)
  qed simp
  then show ?thesis by (simp add: memset_def)
qed

end
