(* ===== verification/FsLayout.thy ===== *)
theory FsLayout
  imports Bcache CString
begin

text \<open>
  What the file system keeps in its blocks (\<open>kernel/Xjail/xv6/fs.h\<close>): the
  superblock, the 68-byte inodes, seven to a block, and the 16-byte directory
  entries, with the little-endian codecs of their fields.
\<close>

section \<open>Layout\<close>

definition XV6_MAGIC :: u32 where "XV6_MAGIC = 0x10203040"
definition NDIRECT :: nat where "NDIRECT = 12"
definition NINDIRECT :: nat where "NINDIRECT = BSIZE div 4"
definition NDINDIRECT :: nat where "NDINDIRECT = NINDIRECT * NINDIRECT"
definition MAXFILE :: nat where "MAXFILE = NDIRECT + NINDIRECT + NDINDIRECT"
definition ROOTINO :: u32 where "ROOTINO = 1"
definition DIRSIZ :: nat where "DIRSIZ = 14"

record superblock =
  magic :: u32
  sb_size :: u32
  nblocks :: u32
  ninodes :: u32
  nlog :: u32
  logstart :: u32
  inodestart :: u32
  bmapstart :: u32

record dinode =
  d_type :: u16
  d_major :: u16
  d_minor :: u16
  d_nlink :: u16
  d_size :: u32
  d_addrs :: "u32 list"

record dirent =
  de_inum :: u16
  de_name :: "u8 list"

definition sizeof_dinode :: nat where "sizeof_dinode = 4 * 2 + 4 + (NDIRECT + 2) * 4"
definition sizeof_dirent :: nat where "sizeof_dirent = 2 + DIRSIZ"
definition IPB :: nat where "IPB = BSIZE div sizeof_dinode"
definition BPB :: nat where "BPB = BSIZE * 8"

definition IBLOCK :: "u32 \<Rightarrow> superblock \<Rightarrow> u32" where
  "IBLOCK i sb = i div of_nat IPB + inodestart sb"

definition BBLOCK :: "u32 \<Rightarrow> superblock \<Rightarrow> u32" where
  "BBLOCK b sb = b div of_nat BPB + bmapstart sb"

section \<open>Fields\<close>

definition get16 :: "nat \<Rightarrow> u8 list \<Rightarrow> u16" where
  "get16 k d = ucast (d ! k) OR push_bit 8 (ucast (d ! (k + 1)))"

definition get32 :: "nat \<Rightarrow> u8 list \<Rightarrow> u32" where
  "get32 k d = ucast (d ! k) OR push_bit 8 (ucast (d ! (k + 1))) OR push_bit 16 (ucast (d ! (k + 2)))
    OR push_bit 24 (ucast (d ! (k + 3)))"

definition le16 :: "u16 \<Rightarrow> u8 list" where
  "le16 w = [ucast w, ucast (drop_bit 8 w)]"

definition le32 :: "u32 \<Rightarrow> u8 list" where
  "le32 w = [ucast w, ucast (drop_bit 8 w), ucast (drop_bit 16 w), ucast (drop_bit 24 w)]"

text \<open>The bytes at an offset of a block, and storing them.\<close>

definition get_bytes :: "nat \<Rightarrow> nat \<Rightarrow> u8 list \<Rightarrow> u8 list" where
  "get_bytes k n d = take n (drop k d)"

definition put_bytes :: "nat \<Rightarrow> u8 list \<Rightarrow> u8 list \<Rightarrow> u8 list" where
  "put_bytes k bs d = take k d @ bs @ drop (k + length bs) d"

definition put32 :: "nat \<Rightarrow> u32 \<Rightarrow> u8 list \<Rightarrow> u8 list" where
  "put32 k w d = put_bytes k (le32 w) d"

definition dec_superblock :: "u8 list \<Rightarrow> superblock" where
  "dec_superblock d = \<lparr>magic = get32 0 d, sb_size = get32 4 d, nblocks = get32 8 d, ninodes = get32 12 d,
    nlog = get32 16 d, logstart = get32 20 d, inodestart = get32 24 d, bmapstart = get32 28 d\<rparr>"

definition enc_dinode :: "dinode \<Rightarrow> u8 list" where
  "enc_dinode x = le16 (d_type x) @ le16 (d_major x) @ le16 (d_minor x) @ le16 (d_nlink x) @
    le32 (d_size x) @ concat (map le32 (d_addrs x))"

definition dec_dinode :: "u8 list \<Rightarrow> dinode" where
  "dec_dinode d = \<lparr>d_type = get16 0 d, d_major = get16 2 d, d_minor = get16 4 d, d_nlink = get16 6 d,
    d_size = get32 8 d, d_addrs = map (\<lambda>j. get32 (12 + 4 * j) d) [0..<NDIRECT + 2]\<rparr>"

definition enc_dirent :: "dirent \<Rightarrow> u8 list" where
  "enc_dirent e = le16 (de_inum e) @ de_name e"

definition dec_dirent :: "u8 list \<Rightarrow> dirent" where
  "dec_dirent d = \<lparr>de_inum = get16 0 d, de_name = get_bytes 2 DIRSIZ d\<rparr>"

text \<open>The slot of inode \<open>i\<close> in its block.\<close>

definition ipos :: "u32 \<Rightarrow> nat" where
  "ipos i = (unat i mod IPB) * sizeof_dinode"

definition get_dinode :: "u32 \<Rightarrow> u8 list \<Rightarrow> dinode" where
  "get_dinode i d = dec_dinode (get_bytes (ipos i) sizeof_dinode d)"

definition put_dinode :: "u32 \<Rightarrow> dinode \<Rightarrow> u8 list \<Rightarrow> u8 list" where
  "put_dinode i x d = put_bytes (ipos i) (enc_dinode x) d"

lemmas layout_defs = BSIZE_def NDIRECT_def NINDIRECT_def NDINDIRECT_def DIRSIZ_def sizeof_dinode_def
  sizeof_dirent_def IPB_def BPB_def MAXFILE_def

section \<open>Codecs\<close>

lemma length_le [simp]: "length (le16 v) = 2" "length (le32 w) = 4"
  by (simp_all add: le16_def le32_def)

lemma get16_le16: "get16 0 (le16 w @ r) = w"
  by (rule bit_word_eqI)
    (auto simp: get16_def le16_def bit_or_iff bit_push_bit_iff bit_ucast_iff bit_drop_bit_eq not_le)

lemma get32_le32: "get32 0 (le32 w @ r) = w"
proof (rule bit_word_eqI)
  fix n assume "n < LENGTH(32)"
  then consider "n < 8" | "8 \<le> n" "n < 16" | "16 \<le> n" "n < 24" | "24 \<le> n" "n < 32"
    by fastforce
  then show "bit (get32 0 (le32 w @ r)) n = bit w n"
    by cases (auto simp: get32_def le32_def bit_or_iff bit_push_bit_iff bit_ucast_iff bit_drop_bit_eq)
qed

lemma get_append: "k \<ge> length a \<Longrightarrow> get16 k (a @ b) = get16 (k - length a) b"
  "k \<ge> length a \<Longrightarrow> get32 k (a @ b) = get32 (k - length a) b"
  by (simp_all add: get16_def get32_def nth_append Suc_diff_le)

lemma length_put_bytes [simp]: "k + length bs \<le> length d \<Longrightarrow> length (put_bytes k bs d) = length d"
  by (simp add: put_bytes_def)

lemma get_put_bytes: "k + length bs \<le> length d \<Longrightarrow> get_bytes k (length bs) (put_bytes k bs d) = bs"
  by (simp add: get_bytes_def put_bytes_def)

lemma nth_put_bytes:
  assumes "k + length bs \<le> length d" "j < length d"
  shows "put_bytes k bs d ! j = (if k \<le> j \<and> j < k + length bs then bs ! (j - k) else d ! j)"
  using assms by (auto simp: put_bytes_def nth_append min_def)

lemma get_put_other:
  assumes "k + length bs \<le> length d" "j + n \<le> k \<or> k + length bs \<le> j" "j + n \<le> length d"
  shows "get_bytes j n (put_bytes k bs d) = get_bytes j n d"
  using assms by (intro nth_equalityI) (auto simp: get_bytes_def nth_put_bytes)

lemma get32_bytes: "get32 k d = get32 0 (get_bytes k 4 d)" if "k + 4 \<le> length d"
  using that by (simp add: get32_def get_bytes_def)

lemma get_put32: "k + 4 \<le> length d \<Longrightarrow> get32 k (put32 k w d) = w"
  using get_put_bytes [of k "le32 w" d] get32_bytes [of k "put32 k w d"] get32_le32 [of w "[]"]
  by (simp add: put32_def)

lemma get_put32_other:
  "k + 4 \<le> length d \<Longrightarrow> j + 4 \<le> k \<or> k + 4 \<le> j \<Longrightarrow> j + 4 \<le> length d \<Longrightarrow> get32 j (put32 k w d) = get32 j d"
  using get_put_other [of k "le32 w" d j 4] by (simp add: put32_def get32_bytes)

lemma length_concat_le32 [simp]: "length (concat (map le32 ws)) = 4 * length ws"
  by (induction ws) auto

lemma get32_concat: "j < length ws \<Longrightarrow> get32 (4 * j) (concat (map le32 ws)) = ws ! j"
proof (induction ws arbitrary: j)
  case (Cons w ws)
  show ?case
  proof (cases j)
    case 0
    then show ?thesis by (simp add: get32_le32)
  next
    case (Suc i)
    then show ?thesis using Cons by (simp add: get_append)
  qed
qed simp

definition dinode_ok :: "dinode \<Rightarrow> bool" where
  "dinode_ok x \<longleftrightarrow> length (d_addrs x) = NDIRECT + 2"

lemma length_enc_dinode: "dinode_ok x \<Longrightarrow> length (enc_dinode x) = sizeof_dinode"
  by (simp add: enc_dinode_def dinode_ok_def layout_defs)

lemma dec_enc_dinode:
  assumes "dinode_ok x"
  shows "dec_dinode (enc_dinode x) = x"
proof -
  have "map (\<lambda>j. get32 (4 * j) (concat (map le32 (d_addrs x)))) [0..<NDIRECT + 2] = d_addrs x"
    using assms by (intro nth_equalityI) (simp_all add: dinode_ok_def get32_concat del: upt_Suc upt_conv_Cons)
  then show ?thesis
    by (simp add: dec_dinode_def enc_dinode_def get_append get16_le16 get32_le32)
qed

lemma ipos_bound: "ipos i + sizeof_dinode \<le> BSIZE"
proof -
  have "unat i mod 7 \<le> 6" using mod_less_divisor [of 7 "unat i"] by linarith
  then show ?thesis by (simp add: ipos_def layout_defs)
qed

lemma ipos_disjoint:
  assumes "i div of_nat IPB = j div of_nat IPB" "i \<noteq> j"
  shows "ipos i + sizeof_dinode \<le> ipos j \<or> ipos j + sizeof_dinode \<le> ipos i"
proof -
  have "unat i div 7 = unat j div 7"
    using arg_cong [OF assms(1), of unat] by (simp add: layout_defs unat_div)
  moreover have "unat i \<noteq> unat j" using assms(2) by (simp add: word_unat_eq_iff)
  ultimately have "unat i mod 7 \<noteq> unat j mod 7" by (metis div_mult_mod_eq)
  then have "unat i mod 7 + 1 \<le> unat j mod 7 \<or> unat j mod 7 + 1 \<le> unat i mod 7" by linarith
  then show ?thesis by (auto simp: ipos_def layout_defs)
qed

lemma length_put_dinode [simp]:
  "dinode_ok x \<Longrightarrow> length d = BSIZE \<Longrightarrow> length (put_dinode i x d) = BSIZE"
  using ipos_bound [of i] by (simp add: put_dinode_def length_enc_dinode)

lemma get_put_dinode:
  assumes "dinode_ok x" "length d = BSIZE"
  shows "get_dinode i (put_dinode i x d) = x"
  using get_put_bytes [of "ipos i" "enc_dinode x" d] assms ipos_bound [of i]
  by (simp add: get_dinode_def put_dinode_def length_enc_dinode dec_enc_dinode)

lemma get_put_dinode_other:
  assumes "dinode_ok x" "length d = BSIZE" "i div of_nat IPB = j div of_nat IPB" "i \<noteq> j"
  shows "get_dinode j (put_dinode i x d) = get_dinode j d"
  using get_put_other [of "ipos i" "enc_dinode x" d "ipos j" sizeof_dinode] assms ipos_bound [of i] ipos_bound [of j]
    ipos_disjoint [OF assms(3,4)]
  by (auto simp: get_dinode_def put_dinode_def length_enc_dinode)

lemma dec_enc_dirent: "length (de_name e) = DIRSIZ \<Longrightarrow> dec_dirent (enc_dirent e) = e"
  using get16_le16 [of "de_inum e" "de_name e"] by (simp add: dec_dirent_def enc_dirent_def get_bytes_def)

text \<open>Bits of the free map.\<close>

definition map_bit :: "nat \<Rightarrow> u8 list \<Rightarrow> bool" where
  "map_bit k d = bit (d ! (k div 8)) (k mod 8)"

definition set_map_bit :: "nat \<Rightarrow> u8 list \<Rightarrow> u8 list" where
  "set_map_bit k d = d[k div 8 := d ! (k div 8) OR push_bit (k mod 8) 1]"

definition clear_map_bit :: "nat \<Rightarrow> u8 list \<Rightarrow> u8 list" where
  "clear_map_bit k d = d[k div 8 := d ! (k div 8) AND NOT (push_bit (k mod 8) 1)]"

lemma length_map_bit [simp]: "length (set_map_bit k d) = length d" "length (clear_map_bit k d) = length d"
  by (simp_all add: set_map_bit_def clear_map_bit_def)

lemma div_mod_8_eq: "j div 8 = k div 8 \<Longrightarrow> j mod 8 = k mod 8 \<Longrightarrow> j = (k :: nat)"
  by (metis div_mult_mod_eq)

lemma bit_one_push: "bit (2 ^ m :: u8) n \<longleftrightarrow> m = n \<and> n < 8"
  by (auto simp: bit_exp_iff possible_bit_word)

lemma map_bit_set: "k div 8 < length d \<Longrightarrow> map_bit j (set_map_bit k d) \<longleftrightarrow> j = k \<or> map_bit j d"
  by (cases "j div 8 = k div 8")
    (auto simp: map_bit_def set_map_bit_def bit_or_iff bit_one_push dest: div_mod_8_eq)

lemma map_bit_clear: "k div 8 < length d \<Longrightarrow> map_bit j (clear_map_bit k d) \<longleftrightarrow> j \<noteq> k \<and> map_bit j d"
  by (cases "j div 8 = k div 8")
    (auto simp: map_bit_def clear_map_bit_def bit_and_iff bit_not_iff bit_one_push dest: div_mod_8_eq)

lemma clear_set_map_bit:
  assumes "k div 8 < length d" "\<not> map_bit k d"
  shows "clear_map_bit k (set_map_bit k d) = d"
proof -
  have "(w OR push_bit n 1) AND NOT (push_bit n 1) = w" if "\<not> bit w n" for w :: u8 and n
    by (rule bit_word_eqI) (use that in \<open>auto simp: bit_or_iff bit_and_iff bit_not_iff bit_one_push\<close>)
  then show ?thesis using assms by (simp add: clear_map_bit_def set_map_bit_def map_bit_def)
qed

end
