(* ===== verification/Elf.thy ===== *)
theory Elf
  imports Process Console FsLayout
begin

text \<open>
  The program loader: \<open>load_elf_into_process\<close> of \<open>kernel/onion.c\<close> and the
  in-memory file system of \<open>kernel/ramfs.c\<close>, \<open>kernel/vfs.c\<close> and
  \<open>kernel/ramfspawn.c\<close>.  A file is the bytes behind the pointer; only its first
  \<open>file_size\<close> bytes belong to it.  Frames are written by their physical
  addresses, as under the identity map of the kernel's page tables.  What the loader writes to
  the serial port is not modelled.
\<close>

section \<open>ELF headers\<close>

definition get64 :: "nat \<Rightarrow> u8 list \<Rightarrow> u64" where
  "get64 k d = ucast (get32 k d) OR push_bit 32 (ucast (get32 (k + 4) d))"

record elf64_ehdr =
  e_ident :: "u8 list"
  e_type :: u16
  e_machine :: u16
  e_entry :: u64
  e_phoff :: u64
  e_phentsize :: u16
  e_phnum :: u16

record elf64_phdr =
  ph_type :: u32
  ph_flags :: u32
  ph_offset :: u64
  ph_vaddr :: u64
  ph_filesz :: u64
  ph_memsz :: u64

definition sizeof_ehdr :: u64 where "sizeof_ehdr = 64"
definition sizeof_phdr :: u64 where "sizeof_phdr = 56"

definition dec_ehdr :: "u8 list \<Rightarrow> elf64_ehdr" where
  "dec_ehdr f = \<lparr>e_ident = get_bytes 0 16 f, e_type = get16 16 f, e_machine = get16 18 f, e_entry = get64 24 f,
    e_phoff = get64 32 f, e_phentsize = get16 54 f, e_phnum = get16 56 f\<rparr>"

text \<open>\<open>phdr[i]\<close> of the table at \<open>file + e_phoff\<close>.\<close>

definition dec_phdr :: "u64 \<Rightarrow> u16 \<Rightarrow> u8 list \<Rightarrow> elf64_phdr" where
  "dec_phdr phoff i f =
    (let k = unat (phoff + ucast i * sizeof_phdr) in
     \<lparr>ph_type = get32 k f, ph_flags = get32 (k + 4) f, ph_offset = get64 (k + 8) f, ph_vaddr = get64 (k + 16) f,
       ph_filesz = get64 (k + 32) f, ph_memsz = get64 (k + 40) f\<rparr>)"

section \<open>Loading\<close>

definition PAGE_BYTES :: u64 where "PAGE_BYTES = 4096"

text \<open>The fresh frame: zeros, then the bytes of the file that fall into the page.\<close>

definition zero_frame :: "u64 \<Rightarrow> mem \<Rightarrow> mem" where
  "zero_frame phys m = fold (\<lambda>i m. m(phys + of_nat i := 0)) [0..<4096] m"

definition copy_file :: "u64 \<Rightarrow> u8 list \<Rightarrow> u64 \<Rightarrow> nat \<Rightarrow> mem \<Rightarrow> mem" where
  "copy_file dst f src_off n m = fold (\<lambda>j m. m(dst + of_nat j := f ! (unat src_off + j))) [0..<n] m"

definition load_page :: "u64 \<Rightarrow> u8 list \<Rightarrow> u64 \<Rightarrow> elf64_phdr \<Rightarrow> u64 \<Rightarrow> u64 \<Rightarrow> vm_state \<Rightarrow> bool \<times> vm_state" where
  "load_page pml4 f file_size ph flags page v =
    (let (phys, fr) = pmm_alloc_page (frames v); v = v\<lparr>frames := fr\<rparr> in
     if phys = 0 then (False, v)
     else
       let v = v\<lparr>pmem := zero_frame phys (pmem v)\<rparr>;
           v = vmm_map_page pml4 page phys flags v;
           copy_start = (if page < ph_vaddr ph then ph_vaddr ph else page);
           file_end = ph_vaddr ph + ph_filesz ph;
           copy_end = page + PAGE_BYTES;
           copy_end = (if copy_end > file_end then file_end else copy_end)
       in if copy_start \<ge> copy_end then (True, v)
          else
            let len = copy_end - copy_start; src_off = ph_offset ph + (copy_start - ph_vaddr ph)
            in if src_off > file_size then (False, v)
               else if len > file_size - src_off then (False, v)
               else (True, v\<lparr>pmem := copy_file (phys + (copy_start - page)) f src_off (unat len) (pmem v)\<rparr>))"

text \<open>The \<open>n\<close> pages of a segment from \<open>page\<close> on.\<close>

fun load_pages :: "u64 \<Rightarrow> u8 list \<Rightarrow> u64 \<Rightarrow> elf64_phdr \<Rightarrow> u64 \<Rightarrow> u64 \<Rightarrow> nat \<Rightarrow> vm_state \<Rightarrow> bool \<times> vm_state" where
  "load_pages pml4 f file_size ph flags page 0 v = (True, v)"
| "load_pages pml4 f file_size ph flags page (Suc n) v =
    (let (ok, v) = load_page pml4 f file_size ph flags page v in
     if \<not> ok then (False, v) else load_pages pml4 f file_size ph flags (page + PAGE_BYTES) n v)"

definition segment_ok :: "u64 \<Rightarrow> elf64_phdr \<Rightarrow> bool" where
  "segment_ok file_size ph \<longleftrightarrow> \<not> ph_filesz ph > ph_memsz ph \<and> \<not> ph_offset ph > file_size \<and>
    \<not> ph_filesz ph > file_size - ph_offset ph \<and> \<not> ph_vaddr ph + ph_memsz ph < ph_vaddr ph"

definition load_segment :: "u64 \<Rightarrow> u8 list \<Rightarrow> u64 \<Rightarrow> elf64_phdr \<Rightarrow> vm_state \<Rightarrow> bool \<times> vm_state" where
  "load_segment pml4 f file_size ph v =
    (if \<not> segment_ok file_size ph then (False, v)
     else if ph_memsz ph = 0 then (True, v)
     else
       let seg_end = ph_vaddr ph + ph_memsz ph; page_start = ph_vaddr ph AND NOT 0xFFF in
       if seg_end > 0xFFFFFFFFFFFFF000 then (False, v)
       else
         let page_end = (seg_end + 0xFFF) AND NOT 0xFFF;
             flags = PAGE_USER OR (if ph_flags ph AND 2 \<noteq> 0 then PAGE_WRITE else 0)
         in if page_end < seg_end then (False, v)
            else load_pages pml4 f file_size ph flags page_start
              (if page_start < page_end then unat ((page_end - page_start) div PAGE_BYTES) else 0) v)"

text \<open>The loop over the program headers, with the number of \<open>PT_LOAD\<close> segments seen.\<close>

fun load_segments :: "u64 \<Rightarrow> u8 list \<Rightarrow> u64 \<Rightarrow> u64 \<Rightarrow> nat list \<Rightarrow> nat \<Rightarrow> vm_state \<Rightarrow> nat option \<times> vm_state" where
  "load_segments pml4 f file_size phoff [] loaded v = (Some loaded, v)"
| "load_segments pml4 f file_size phoff (i # is) loaded v =
    (let ph = dec_phdr phoff (of_nat i) f in
     if ph_type ph \<noteq> 1 then load_segments pml4 f file_size phoff is loaded v
     else let (ok, v) = load_segment pml4 f file_size ph v in
       if \<not> ok then (None, v) else load_segments pml4 f file_size phoff is (loaded + 1) v)"

definition ehdr_ok :: "u8 list \<Rightarrow> u64 \<Rightarrow> bool" where
  "ehdr_ok f file_size \<longleftrightarrow> \<not> file_size < sizeof_ehdr \<and>
    (let h = dec_ehdr f in
       take 4 (e_ident h) = [0x7F, 0x45, 0x4C, 0x46] \<and> e_ident h ! 4 = 2 \<and> e_ident h ! 5 = 1 \<and>
       e_machine h = 62 \<and> (e_type h = 2 \<or> e_type h = 3) \<and> e_phnum h \<noteq> 0 \<and> ucast (e_phentsize h) = sizeof_phdr \<and>
       \<not> e_phoff h > file_size \<and> \<not> ucast (e_phnum h) * ucast (e_phentsize h) > file_size - e_phoff h)"

definition load_elf_into_process :: "nat option \<Rightarrow> u8 list option \<Rightarrow> u64 \<Rightarrow> sched \<Rightarrow> int \<times> sched" where
  "load_elf_into_process target file file_size s =
    (case target of None \<Rightarrow> (- 1, s) | Some p \<Rightarrow>
     let pml4 = p_pml4 (processes s ! p) in
     if pml4 = 0 then (- 1, s)
     else case file of None \<Rightarrow> (- 1, s) | Some f \<Rightarrow>
       if \<not> ehdr_ok f file_size then (- 1, s)
       else let h = dec_ehdr f;
                (r, v) = load_segments pml4 f file_size (e_phoff h) [0..<unat (e_phnum h)] 0 (vm s);
                s = s\<lparr>vm := v\<rparr>
            in case r of None \<Rightarrow> (- 1, s) | Some loaded \<Rightarrow> if loaded = 0 then (- 1, s) else (0, s))"

section \<open>The in-memory file system\<close>

text \<open>The image is the memory from \<open>disk\<close> on; names end at their first zero byte.\<close>

record ramfs =
  ramdisk :: "u8 list option"
  ram_magic :: u32
  ram_file_count :: u32

definition RAMFS_MAGIC :: u32 where "RAMFS_MAGIC = 0x52414D46"

fun streq :: "u8 list \<Rightarrow> u8 list \<Rightarrow> bool" where
  "streq (a # as) (b # bs) = (if a \<noteq> 0 \<and> a = b then streq as bs else a = 0 \<and> b = 0)"
| "streq [] (b # bs) = (b = 0)"
| "streq (a # as) [] = (a = 0)"
| "streq [] [] = True"

definition ramfs_init :: "u8 list \<Rightarrow> ramfs \<Rightarrow> ramfs" where
  "ramfs_init img r = r\<lparr>ramdisk := Some img, ram_magic := get32 0 img, ram_file_count := get32 4 img\<rparr>"

definition ramfs_open :: "u8 list \<Rightarrow> ramfs \<Rightarrow> int" where
  "ramfs_open name r =
    (case ramdisk r of None \<Rightarrow> - 1 | Some d \<Rightarrow>
     if ram_magic r \<noteq> RAMFS_MAGIC then - 1
     else case find (\<lambda>i. streq (drop (8 + 40 * i) d) name) [0..<unat (ram_file_count r)] of
       None \<Rightarrow> - 1 | Some i \<Rightarrow> sint (of_nat i :: u32))"

definition ramfs_size :: "int \<Rightarrow> ramfs \<Rightarrow> u32" where
  "ramfs_size fd r = (if fd < 0 then 0 else get32 (8 + 40 * nat fd + 36) (the (ramdisk r)))"

definition ramfs_data :: "int \<Rightarrow> ramfs \<Rightarrow> u8 list option" where
  "ramfs_data fd r =
    (if fd < 0 then None
     else let d = the (ramdisk r) in Some (drop (unat (get32 (8 + 40 * nat fd + 32) d)) d))"

definition vfs_init :: "u8 list \<Rightarrow> ramfs \<Rightarrow> ramfs" where "vfs_init = ramfs_init"
definition vfs_open :: "u8 list \<Rightarrow> ramfs \<Rightarrow> int" where "vfs_open = ramfs_open"
definition vfs_size :: "int \<Rightarrow> ramfs \<Rightarrow> u32" where "vfs_size = ramfs_size"
definition vfs_data :: "int \<Rightarrow> ramfs \<Rightarrow> u8 list option" where "vfs_data = ramfs_data"

text \<open>A message and the file name on the screen.\<close>

definition ram_message :: "font \<Rightarrow> string \<Rightarrow> u8 list \<Rightarrow> u32 \<Rightarrow> console \<Rightarrow> console" where
  "ram_message glyphs text filename color c =
    kprint glyphs [10] color (kprint glyphs filename color (kprint glyphs (map of_char text) color c))"

definition spawn_from_ramfs :: "font \<Rightarrow> u64 \<Rightarrow> u64 \<Rightarrow> u8 list \<Rightarrow> ramfs \<Rightarrow> sched \<Rightarrow> console \<Rightarrow> int \<times> sched \<times> console" where
  "spawn_from_ramfs glyphs kernel_stacks user_stacks filename r s c =
    (let fd = ramfs_open filename r in
     if fd < 0 then (- 1, s, ram_message glyphs ''[RAMFS] File not found: '' filename 0x00FF0000 c)
     else
       let elf_data = ramfs_data fd r; sz = ucast (ramfs_size fd r);
           (pid, s) = create_process kernel_stacks user_stacks 0 s
       in if pid < 0 then (- 1, s, ram_message glyphs ''[RAMFS] Failed to create process: '' filename 0x00FF0000 c)
          else case get_process_by_pid (word_of_int pid) s of
            None \<Rightarrow> (- 1, s, c)
          | Some child \<Rightarrow>
              let (res, s) = load_elf_into_process (Some child) elf_data sz s in
              if res < 0 then (- 1, s, ram_message glyphs ''[RAMFS] Failed to parse ELF: '' filename 0x00FF0000 c)
              else (0, set_process_entry child (get64 24 (the elf_data)) s,
                ram_message glyphs ''[RAMFS] Process spawned: '' filename 0x0000FF00 c))"

section \<open>Reads of the file\<close>

text \<open>Two files that agree on their first \<open>n\<close> bytes.\<close>

definition agree :: "nat \<Rightarrow> u8 list \<Rightarrow> u8 list \<Rightarrow> bool" where
  "agree n f g \<longleftrightarrow> n \<le> length f \<and> n \<le> length g \<and> (\<forall>k < n. f ! k = g ! k)"

lemma agree_get:
  assumes "agree n f g"
  shows "k + 2 \<le> n \<Longrightarrow> get16 k f = get16 k g" "k + 4 \<le> n \<Longrightarrow> get32 k f = get32 k g"
    "k + 8 \<le> n \<Longrightarrow> get64 k f = get64 k g" "k + j \<le> n \<Longrightarrow> get_bytes k j f = get_bytes k j g"
proof -
  have e: "f ! k = g ! k" if "k < n" for k using assms that by (simp add: agree_def)
  show 1: "k + 2 \<le> n \<Longrightarrow> get16 k f = get16 k g" by (simp add: get16_def e)
  show 2: "k + 4 \<le> n \<Longrightarrow> get32 k f = get32 k g" for k by (simp add: get32_def e)
  show "k + 8 \<le> n \<Longrightarrow> get64 k f = get64 k g" using 2 [of k] 2 [of "k + 4"] by (simp add: get64_def)
  show "k + j \<le> n \<Longrightarrow> get_bytes k j f = get_bytes k j g"
    using assms by (intro nth_equalityI) (auto simp: get_bytes_def agree_def)
qed

lemma agree_ehdr: "agree n f g \<Longrightarrow> 64 \<le> n \<Longrightarrow> dec_ehdr f = dec_ehdr g"
  by (simp add: dec_ehdr_def agree_get [of n f g])

lemma unat_plus_le:
  fixes a b n :: u64
  assumes "a \<le> n" "b \<le> n - a"
  shows "unat (a + b) = unat a + unat b" "unat a + unat b \<le> unat n"
proof -
  have "unat (n - a) = unat n - unat a" using assms(1) by (simp add: unat_sub word_le_nat_alt)
  then show le: "unat a + unat b \<le> unat n" using assms by (simp add: word_le_nat_alt)
  then show "unat (a + b) = unat a + unat b"
    using unat_plus_nat [of a "unat b"] unsigned_less [of n, where ?'a = nat] by simp
qed

lemma agree_phdr:
  assumes "agree (unat n) f g" "ehdr_ok f n" "i < unat (e_phnum (dec_ehdr f))"
  shows "dec_phdr (e_phoff (dec_ehdr f)) (of_nat i) f = dec_phdr (e_phoff (dec_ehdr f)) (of_nat i) g"
proof -
  let ?h = "dec_ehdr f"
  have h: "e_phoff ?h \<le> n" "ucast (e_phnum ?h) * 56 \<le> n - e_phoff ?h"
    using assms(2) by (auto simp: ehdr_ok_def Let_def sizeof_phdr_def not_less)
  have num: "unat (e_phnum ?h) < 2 ^ 16" using unsigned_less [of "e_phnum ?h"] by simp
  have u: "unat (ucast (of_nat i :: u16) * sizeof_phdr) = 56 * i"
    using assms(3) num by (simp add: sizeof_phdr_def unat_word_ariths unsigned_ucast_eq unat_of_nat take_bit_nat_eq_self)
  have v: "unat (ucast (e_phnum ?h) * (56 :: u64)) = 56 * unat (e_phnum ?h)"
    using num by (simp add: unat_word_ariths unsigned_ucast_eq take_bit_nat_eq_self)
  have le: "ucast (of_nat i :: u16) * sizeof_phdr \<le> n - e_phoff ?h"
    using h(2) u v assms(3) by (simp add: word_le_nat_alt)
  have "unat (e_phoff ?h) + 56 * unat (e_phnum ?h) \<le> unat n"
    using unat_plus_le(2) [OF h] v by simp
  moreover have "unat (e_phoff ?h + ucast (of_nat i :: u16) * sizeof_phdr) = unat (e_phoff ?h) + 56 * i"
    using unat_plus_le(1) [OF h(1) le] u by simp
  ultimately have "unat (e_phoff ?h + ucast (of_nat i :: u16) * sizeof_phdr) + 56 \<le> unat n"
    using assms(3) by simp
  then show ?thesis by (simp add: dec_phdr_def Let_def agree_get [OF assms(1)])
qed

lemma agree_copy:
  assumes "agree n f g" "unat off + l \<le> n"
  shows "copy_file dst f off l m = copy_file dst g off l m"
  unfolding copy_file_def by (rule fold_cong) (use assms in \<open>auto simp: agree_def\<close>)

lemma agree_page:
  assumes "agree (unat n) f g"
  shows "load_page pml4 f n ph flags page v = load_page pml4 g n ph flags page v"
proof -
  have "copy_file dst f off (unat len) m = copy_file dst g off (unat len) m"
    if "\<not> off > n" "\<not> len > n - off" for dst off len m
    using that unat_plus_le(2) [of off n len] by (intro agree_copy [OF assms]) simp
  then show ?thesis by (simp add: load_page_def Let_def split_def)
qed

lemma agree_pages:
  assumes "agree (unat n) f g"
  shows "load_pages pml4 f n ph flags page k v = load_pages pml4 g n ph flags page k v"
  by (induction k arbitrary: page v) (simp_all add: agree_page [OF assms] split: prod.split)

lemma agree_segment: "agree (unat n) f g \<Longrightarrow> load_segment pml4 f n ph v = load_segment pml4 g n ph v"
  unfolding load_segment_def by (simp only: agree_pages)

lemma agree_segments:
  assumes "agree (unat n) f g" "\<forall>i \<in> set idxs. dec_phdr off (of_nat i) f = dec_phdr off (of_nat i) g"
  shows "load_segments pml4 f n off idxs c v = load_segments pml4 g n off idxs c v"
  using assms(2) by (induction idxs arbitrary: c v) (simp_all add: agree_segment [OF assms(1)] Let_def split: prod.split)

section \<open>Properties\<close>

text \<open>C39: whatever its headers claim, the loader reads only the \<open>file_size\<close> bytes of the file: its result
  and the memory and page tables it leaves are the same for any two files that agree on them.\<close>

theorem elf_loader_stays_in_file:
  assumes "unat file_size \<le> length f" and "unat file_size \<le> length g"
    and "take (unat file_size) f = take (unat file_size) g"
  shows "load_elf_into_process p (Some f) file_size s = load_elf_into_process p (Some g) file_size s"
proof -
  let ?n = "unat file_size"
  have a: "agree ?n f g" unfolding agree_def using assms by (metis nth_take)
  show ?thesis
  proof (cases "ehdr_ok f file_size")
    case True
    then have "64 \<le> ?n" by (simp add: ehdr_ok_def sizeof_ehdr_def not_less word_le_nat_alt)
    then have h: "dec_ehdr g = dec_ehdr f" using agree_ehdr [OF a] by simp
    have "load_segments q f file_size (e_phoff (dec_ehdr f)) [0..<unat (e_phnum (dec_ehdr f))] 0 v =
        load_segments q g file_size (e_phoff (dec_ehdr f)) [0..<unat (e_phnum (dec_ehdr f))] 0 v" for q v
      by (rule agree_segments [OF a]) (use agree_phdr [OF a True] in simp)
    moreover have "ehdr_ok g file_size" using True by (simp add: ehdr_ok_def h)
    ultimately show ?thesis using True h
      by (simp add: load_elf_into_process_def Let_def split: option.split)
  next
    case False
    have "\<not> ehdr_ok g file_size"
    proof (cases "file_size < sizeof_ehdr")
      case True then show ?thesis by (simp add: ehdr_ok_def)
    next
      case ge: False
      then have "64 \<le> ?n" by (simp add: sizeof_ehdr_def not_less word_le_nat_alt)
      then show ?thesis using False agree_ehdr [OF a] by (simp add: ehdr_ok_def)
    qed
    then show ?thesis using False by (simp add: load_elf_into_process_def Let_def split: option.split)
  qed
qed

theorem elf_loader_stays_in_file_witness:
  "\<forall>s x. load_elf_into_process (Some 1) (Some (replicate 64 0 @ [x])) 64 s =
     load_elf_into_process (Some 1) (Some (replicate 64 0)) 64 s"
  using elf_loader_stays_in_file [of 64 "replicate 64 0 @ [_]" "replicate 64 0" "Some 1"]
  by (simp del: replicate.simps)

lemma streq_takeWhile: "streq a b \<longleftrightarrow> takeWhile (\<lambda>c. c \<noteq> 0) a = takeWhile (\<lambda>c. c \<noteq> 0) b"
  by (induction a b rule: streq.induct) auto

text \<open>The name of entry \<open>i\<close>, up to its terminator.\<close>

definition ram_name :: "u8 list \<Rightarrow> nat \<Rightarrow> u8 list" where
  "ram_name d i = takeWhile (\<lambda>c. c \<noteq> 0) (drop (8 + 40 * i) d)"

text \<open>\<open>ramfs_open\<close> of a valid image returns the index of the first entry with that name, and
  -1 when there is none; before \<open>ramfs_init\<close> it always returns -1.\<close>

theorem ramfs_open_finds_name:
  assumes "0 \<notin> set name" and "unat (ram_file_count r) < 2 ^ 31"
  shows "ramfs_open name r =
    (case ramdisk r of None \<Rightarrow> - 1 | Some d \<Rightarrow>
      if ram_magic r = RAMFS_MAGIC \<and> (\<exists>i < unat (ram_file_count r). ram_name d i = name)
      then int (LEAST i. ram_name d i = name) else - 1)"
proof (cases "ramdisk r")
  case None
  then show ?thesis by (simp add: ramfs_open_def)
next
  case (Some d)
  let ?n = "unat (ram_file_count r)" and ?P = "\<lambda>i. streq (drop (8 + 40 * i) d) name"
  have "takeWhile (\<lambda>c. c \<noteq> 0) name = name" using assms(1) by (auto intro: takeWhile_eq_all_conv [THEN iffD2])
  then have P: "?P i \<longleftrightarrow> ram_name d i = name" for i unfolding streq_takeWhile ram_name_def by (simp only:)
  show ?thesis
  proof (cases "\<exists>i < ?n. ram_name d i = name")
    case True
    define k where "k = (LEAST i. ram_name d i = name)"
    obtain j where j: "j < ?n" "ram_name d j = name" using True by blast
    have i: "ram_name d k = name" unfolding k_def by (rule LeastI [of _ j]) (rule j(2))
    have "k \<le> j" unfolding k_def by (rule Least_le) (rule j(2))
    then have lt: "k < ?n" using j(1) by (rule le_less_trans)
    have before: "\<not> ?P l" if "l < k" for l unfolding P using that not_less_Least unfolding k_def by blast
    have "find ?P [0..<?n] = Some k"
      unfolding find_Some_iff
      by (rule exI [of _ k]) (use lt before P [of k] i in simp)
    moreover have "sint (of_nat k :: u32) = int k"
      using lt assms(2) by (simp add: signed_of_nat signed_take_bit_int_eq_self)
    ultimately show ?thesis using Some True by (simp add: ramfs_open_def k_def)
  next
    case False
    then have "find ?P [0..<?n] = None" unfolding find_None_iff using P by auto
    then show ?thesis using Some False by (simp add: ramfs_open_def)
  qed
qed

theorem ramfs_open_finds_name_witness:
  "ramfs_open [97] \<lparr>ramdisk = None, ram_magic = 0, ram_file_count = 0\<rparr> = - 1"
  using ramfs_open_finds_name [of "[97]" "\<lparr>ramdisk = None, ram_magic = 0, ram_file_count = 0\<rparr>"] by simp

end
