(* ===== verification/ElfLoad.thy ===== *)
theory ElfLoad
  imports Elf VmmSpaces Scheduler
begin

text \<open>
  What the program loader of \<open>kernel/onion.c\<close> achieves: with enough memory every byte of every
  loadable segment is found at its virtual address in the address space of the process.
\<close>

section \<open>Frames\<close>

lemma fold_put:
  "n \<le> 2 ^ 64 \<Longrightarrow> fold (\<lambda>i m. m(a + of_nat i := g i)) [0..<n] m x =
    (if unat (x - a) < n then g (unat (x - a)) else m (x :: u64))"
proof (induction n)
  case (Suc n)
  have "unat (of_nat n :: u64) = n" using Suc.prems by (intro unat_of_nat_u64) simp
  moreover have "x = a + of_nat n \<longleftrightarrow> x - a = of_nat n" by (auto simp: algebra_simps)
  ultimately have "x = a + of_nat n \<longleftrightarrow> unat (x - a) = n" by (simp add: word_unat_eq_iff)
  then show ?case using Suc by (auto simp: less_Suc_eq)
qed simp

lemma zero_frame_apply: "zero_frame phys m x = (if unat (x - phys) < 4096 then 0 else m x)"
  unfolding zero_frame_def by (subst fold_put) simp_all

lemma copy_file_apply:
  "n \<le> 2 ^ 64 \<Longrightarrow> copy_file dst f off n m x = (if unat (x - dst) < n then f ! (unat off + unat (x - dst)) else m x)"
  unfolding copy_file_def by (subst fold_put) simp_all

text \<open>Offsets in an aligned frame or page.\<close>

lemma aligned_plus:
  assumes "page_aligned t" "k < 4096"
  shows "t + of_nat k = t OR of_nat k" "page_off (t + of_nat k) = of_nat k" "page_base (t + of_nat k) = t"
    "drop_bit 12 (t + of_nat k) = drop_bit 12 t" "unat (t + of_nat k) = unat t + k" "frame_of (t + of_nat k) = frame_of t"
proof -
  have low: "bit (of_nat k :: u64) n \<Longrightarrow> n < 12" for n
  proof -
    have "take_bit 12 k = k" using assms(2) by (simp add: take_bit_nat_eq_self)
    then have "take_bit 12 (of_nat k :: u64) = of_nat k" using of_nat_take_bit [of 12 k, where 'a = u64] by simp
    then show "bit (of_nat k :: u64) n \<Longrightarrow> n < 12" by (metis bit_take_bit_iff)
  qed
  have high: "\<not> bit t n" if "n < 12" for n using assms(1) that by (simp add: page_aligned_bit)
  show eq: "t + of_nat k = t OR of_nat k"
    by (rule disjunctive_add_eq_or, rule bit_word_eqI) (auto simp: bit_and_iff dest: low high)
  show "page_off (t + of_nat k) = of_nat k" unfolding eq
    by (rule bit_word_eqI) (auto simp: bit_page_off bit_or_iff dest: low high)
  show "page_base (t + of_nat k) = t" unfolding eq
  proof (rule bit_word_eqI)
    fix n show "bit (page_base (t OR of_nat k)) n = bit t n"
      using low [of n] high [of n] by (cases "n < 12") (simp_all add: bit_page_base bit_or_iff, blast)
  qed
  show "drop_bit 12 (t + of_nat k) = drop_bit 12 t" unfolding eq
    by (rule bit_word_eqI) (auto simp: bit_drop_bit_eq bit_or_iff dest: low)
  have t: "unat t < 2 ^ 64" "unat t mod 4096 = 0" using unsigned_less [of t] assms(1) by (simp_all add: page_aligned_def)
  show u: "unat (t + of_nat k) = unat t + k"
    using aligned_room [OF t(2,1)] assms(2) by (simp add: unat_word_ariths unat_of_nat_u64)
  show "frame_of (t + of_nat k) = frame_of t"
    unfolding frame_of_def u using t(2) assms(2) div_add1_eq [of "unat t" k 4096] by simp
qed

lemma frame_offset: "page_aligned t \<Longrightarrow> unat (x - t) < 4096 \<longleftrightarrow> frame_of x = frame_of t"
proof
  assume t: "page_aligned t" and k: "unat (x - t) < 4096"
  then show "frame_of x = frame_of t" using aligned_plus(6) [OF t k] by simp
next
  assume t: "page_aligned t" and eq: "frame_of x = frame_of t"
  have "unat t = 4096 * frame_of t" using t by (auto simp: frame_of_def page_aligned_def)
  moreover have "unat x = 4096 * frame_of x + unat x mod 4096" by (simp add: frame_of_def)
  ultimately have "t \<le> x" "unat x - unat t < 4096" using eq by (simp_all add: word_le_nat_alt)
  then show "unat (x - t) < 4096" by (simp add: unat_sub)
qed

lemma same_page_aligned: "page_aligned page \<Longrightarrow> k < 4096 \<Longrightarrow> same_page (page + of_nat k) page"
proof -
  have "drop_bit 12 (take_bit 48 x) = take_bit 36 (drop_bit 12 x)" for x :: u64
    by (simp add: drop_bit_take_bit)
  then show "page_aligned page \<Longrightarrow> k < 4096 \<Longrightarrow> same_page (page + of_nat k) page"
    by (simp add: same_page_def aligned_plus(4))
qed

section \<open>Frames taken\<close>

lemma alloc_card: "pmm_ok fr \<Longrightarrow> pmm_alloc_page fr = (n, fr') \<Longrightarrow> card (free_pages fr) \<le> Suc (card (free_pages fr')) \<and> pmm_ok fr'"
  using alloc_zero_same [of fr fr'] alloc_facts [of fr n fr']
  by (cases "n = 0") (auto simp: card_Diff_singleton)

lemma get_next_level_card:
  "pmm_ok (frames s) \<Longrightarrow> get_next_level e a s = (n, s') \<Longrightarrow>
    card (free_pages (frames s)) \<le> Suc (card (free_pages (frames s'))) \<and> pmm_ok (frames s')"
  by (auto simp: get_next_level_def Let_def split: if_splits prod.splits dest: alloc_card)

lemma map_page_pt_card:
  "pmm_ok (frames s) \<Longrightarrow> map_page_pt e s = (n, s') \<Longrightarrow>
    card (free_pages (frames s)) \<le> Suc (card (free_pages (frames s'))) \<and> pmm_ok (frames s')"
  by (auto simp: map_page_pt_def split_huge_pde_def Let_def split: if_splits prod.splits dest: alloc_card)

lemma vmm_map_page_card:
  assumes "pmm_ok (frames s)"
  shows "card (free_pages (frames s)) \<le> card (free_pages (frames (vmm_map_page root virt phys flags s))) + 3"
proof -
  obtain pdp s1 where 1: "get_next_level (entry root (PML4_IDX virt)) True s = (pdp, s1)" by fastforce
  obtain pd s2 where 2: "get_next_level (entry pdp (PDP_IDX virt)) True s1 = (pd, s2)" by fastforce
  obtain pt s3 where 3: "map_page_pt (entry pd (PD_IDX virt)) s2 = (pt, s3)" by fastforce
  note c1 = get_next_level_card [OF assms 1]
  note c2 = get_next_level_card [OF conjunct2 [OF c1] 2]
  note c3 = map_page_pt_card [OF conjunct2 [OF c2] 3]
  show ?thesis using c1 c2 c3 by (simp add: vmm_map_page_def 1 2 3)
qed


section \<open>One page\<close>

text \<open>
  The virtual address \<open>a\<close> shows the byte \<open>b\<close>, which lies in a frame taken from those of \<open>F\<close>:
  neither a table of this address space nor still free.
\<close>

definition shows_byte :: "nat set \<Rightarrow> u64 \<Rightarrow> vm_state \<Rightarrow> u64 \<Rightarrow> u8 \<Rightarrow> bool" where
  "shows_byte F root v a b \<longleftrightarrow> (let x = xlate (pmem v) root a in
    x \<noteq> 0 \<and> frame_of x \<in> F - (table_frames (pmem v) root \<union> free_pages (frames v)) \<and> pmem v x = b)"

lemma shows_byte_kept:
  assumes "shows_byte F root v a b" "writes_in root v v'" "xlate (pmem v') root a = xlate (pmem v) root a"
  shows "shows_byte F root v' a b"
  using assms unfolding shows_byte_def writes_in_def Let_def by auto

text \<open>The address space \<open>root\<close> is usable and \<open>n\<close> frames are left.\<close>

definition space_ready :: "u64 \<Rightarrow> nat \<Rightarrow> vm_state \<Rightarrow> bool" where
  "space_ready root n v \<longleftrightarrow> vm_ok root v \<and> plain_top (pmem v) root \<and> n \<le> card (free_pages (frames v))"

definition seg_byte :: "elf64_phdr \<Rightarrow> u8 list \<Rightarrow> nat \<Rightarrow> u8" where
  "seg_byte ph f a = (if unat (ph_vaddr ph) \<le> a \<and> a < unat (ph_vaddr ph) + unat (ph_filesz ph)
     then f ! (unat (ph_offset ph) + (a - unat (ph_vaddr ph))) else 0)"

text \<open>The zeroed frame is mapped.\<close>

lemma map_fresh_frame:
  assumes ready: "space_ready root (n + 4) v" and al: "pmm_alloc_page (frames v) = (phys, fr)"
    and page: "page_aligned page" and flags: "page_base flags = 0"
    and v': "v' = vmm_map_page root page phys flags (v\<lparr>frames := fr, pmem := zero_frame phys (pmem v)\<rparr>)"
  shows "phys \<noteq> 0" "page_aligned phys" "space_ready root n v'" "writes_in root v v'" "kernel_pml4 v' = kernel_pml4 v"
    "frame_of phys \<notin> table_frames (pmem v') root \<union> free_pages (frames v')" "frame_of phys \<in> free_pages (frames v)"
    and "frame_of x = frame_of phys \<Longrightarrow> pmem v' x = 0"
    and "k < 4096 \<Longrightarrow> xlate (pmem v') root (page + of_nat k) = phys + of_nat k"
    and "\<not> same_page a page \<Longrightarrow> xlate (pmem v') root a = xlate (pmem v) root a"
proof -
  have ok: "vm_ok root v" "pmm_ok (frames v)" "plain_top (pmem v) root" "n + 4 \<le> card (free_pages (frames v))"
    using ready by (auto simp: space_ready_def vm_ok_def)
  show p0: "phys \<noteq> 0" using pmm.alloc_nonzero [OF ok(2) al] ok(4) by auto
  note a = alloc_facts [OF ok(2) al p0, folded frame_of_def]
  show "page_aligned phys" "frame_of phys \<in> free_pages (frames v)" by (rule a(2), rule a(3))
  let ?z = "v\<lparr>frames := fr, pmem := zero_frame phys (pmem v)\<rparr>"
  have notab: "frame_of phys \<notin> table_frames (pmem v) root" using table_frames_used [OF ok(1)] a(3) by blast
  have z: "pmem ?z x = (if frame_of x = frame_of phys then 0 else pmem v x)" for x
    by (simp add: zero_frame_apply frame_offset [OF a(2)])
  have fz: "free_pages (frames ?z) \<subseteq> free_pages (frames v)" "pmm_ok (frames ?z)" using a by auto
  have same: "pmem ?z x = pmem v x" if "frame_of x \<in> table_frames (pmem v) root" for x
    using that notab z by auto
  note U = space_untouched [OF ok(1) fz(2,1) same]
  have pz: "plain_top (pmem ?z) root" using space_untouched(4) [OF ok(1) fz(2,1) same ok(3)] .
  have wz: "writes_in root v ?z" using fz U(3) z a(3) unfolding writes_in_def by auto
  have enough: "3 \<le> card (free_pages (frames ?z))" using a(3,4) ok(4) by simp
  note E = vmm_map_page_effect [OF U(1) flags v']
  note M = vmm_map_page_logs [OF U(1) plain_top_no_big_page [OF pz] enough, of page phys flags, folded v']
  show "writes_in root v v'" using writes_in_trans [OF wz] E by blast
  show "kernel_pml4 v' = kernel_pml4 v" using E by simp
  show "space_ready root n v'"
    using E pz ok(4) a(3,4) vmm_map_page_card [OF fz(2), of root page phys flags, folded v'] by (auto simp: space_ready_def)
  have out: "frame_of phys \<notin> table_frames (pmem ?z) root \<union> free_pages (frames ?z)" using U(3) notab a(4) by auto
  then show "frame_of phys \<notin> table_frames (pmem v') root \<union> free_pages (frames v')"
    using E by (auto simp: writes_in_def)
  show "pmem v' x = 0" if "frame_of x = frame_of phys" for x
  proof -
    have "pmem v' x = pmem ?z x" using E out that by (auto simp: writes_in_def)
    then show ?thesis using z that by simp
  qed
  have V: "\<forall>w. vmm_virt_to_phys root w v' = (if same_page w page then page_base phys OR page_off w else vmm_virt_to_phys root w ?z)"
    using E M by auto
  have X: "xlate (pmem v') root w = (if same_page w page then page_base phys OR page_off w else xlate (pmem ?z) root w)" for w
    using V [rule_format, of w] vmm_virt_to_phys_xlate [OF conjunct1 [OF E], of w] vmm_virt_to_phys_xlate [OF U(1), of w]
    by metis
  show "\<not> same_page a page \<Longrightarrow> xlate (pmem v') root a = xlate (pmem v) root a" using X U(2) by simp
  show "k < 4096 \<Longrightarrow> xlate (pmem v') root (page + of_nat k) = phys + of_nat k"
    using X same_page_aligned [OF page, of k] aligned_plus(2) [OF page, of k] aligned_plus(1) [OF a(2), of k] page_base_aligned [OF a(2)]
    by simp
qed

text \<open>Writing into a private frame changes nothing but the bytes shown.\<close>

lemma private_write:
  assumes "space_ready root n v" "frame_of phys \<notin> table_frames (pmem v) root"
    and "\<And>x. frame_of x \<noteq> frame_of phys \<Longrightarrow> m x = pmem v x" and v': "v' = v\<lparr>pmem := m\<rparr>"
  shows "space_ready root n v'" "xlate (pmem v') root a = xlate (pmem v) root a"
    "table_frames (pmem v') root = table_frames (pmem v) root"
proof -
  have ok: "vm_ok root v" using assms(1) by (simp add: space_ready_def)
  have same: "pmem v' x = pmem v x" if "frame_of x \<in> table_frames (pmem v) root" for x
    using that assms(2,3) unfolding v' by (simp, metis)
  have fr: "pmm_ok (frames v')" "free_pages (frames v') \<subseteq> free_pages (frames v)" using vm_okD(2) [OF ok] by (simp_all add: v')
  note U = space_untouched [OF ok fr same]
  show "xlate (pmem v') root a = xlate (pmem v) root a" "table_frames (pmem v') root = table_frames (pmem v) root" using U(2,3) by simp_all
  show "space_ready root n v'" using U(1) space_untouched(4) [OF ok fr same] assms(1) by (simp add: space_ready_def v')
qed


lemma copy_in_frame:
  assumes "page_aligned phys" "q + l \<le> 4096"
  shows "copy_file (phys + of_nat q) f off l m x =
    (if frame_of x = frame_of phys \<and> q \<le> unat (x - phys) \<and> unat (x - phys) < q + l
     then f ! (unat off + (unat (x - phys) - q)) else m x)"
proof -
  let ?y = "x - phys"
  have q: "unat (of_nat q :: u64) = q" using assms(2) by (intro unat_of_nat_u64) simp
  have d: "x - (phys + of_nat q) = ?y - of_nat q" by simp
  have y: "unat ?y < 2 ^ 64" using unsigned_less [of ?y] by simp
  have u: "unat (?y - of_nat q) = (if q \<le> unat ?y then unat ?y - q else unat ?y + 2 ^ 64 - q)"
    using q by (simp add: unat_sub_if_size word_le_nat_alt word_size)
  have l: "l \<le> 2 ^ 64" using assms(2) by simp
  show ?thesis
  proof (cases "q \<le> unat ?y \<and> unat ?y < q + l")
    case True
    then have "frame_of x = frame_of phys" using assms frame_offset [OF assms(1), of x] by simp
    then show ?thesis unfolding copy_file_apply [OF l] d u using True by auto
  next
    case False
    then have "\<not> unat (?y - of_nat q) < l" using u assms(2) by (auto split: if_splits)
    then show ?thesis unfolding copy_file_apply [OF l] d using False by auto
  qed
qed

lemma load_page_effect:
  assumes ready: "space_ready root (n + 4) v" and F: "free_pages (frames v) \<subseteq> F" and seg: "segment_ok fsz ph"
    and top: "unat (ph_vaddr ph) + unat (ph_memsz ph) \<le> 2 ^ 48" and flags: "page_base flags = 0"
    and page: "page_aligned page" "unat page < unat (ph_vaddr ph) + unat (ph_memsz ph)" "unat (ph_vaddr ph) < unat page + 4096"
  obtains v' where "load_page root f fsz ph flags page v = (True, v')"
    and "space_ready root n v'" "writes_in root v v'" "kernel_pml4 v' = kernel_pml4 v"
    and "\<And>k. k < 4096 \<Longrightarrow> shows_byte F root v' (page + of_nat k) (seg_byte ph f (unat page + k))"
    and "\<And>a. \<not> same_page a page \<Longrightarrow> xlate (pmem v') root a = xlate (pmem v) root a"
proof -
  let ?V = "unat (ph_vaddr ph)" and ?F = "unat (ph_filesz ph)" and ?O = "unat (ph_offset ph)" and ?P = "unat page"
  have FS: "?F \<le> unat (ph_memsz ph)" "?O + ?F \<le> unat fsz"
    using seg unat_plus_le(1) [of "ph_offset ph" fsz "ph_filesz ph"] by (auto simp: segment_ok_def not_less word_le_nat_alt unat_sub)
  obtain phys fr where al: "pmm_alloc_page (frames v) = (phys, fr)" by fastforce
  define w where "w = vmm_map_page root page phys flags (v\<lparr>frames := fr, pmem := zero_frame phys (pmem v)\<rparr>)"
  note W = map_fresh_frame [OF ready al page(1) flags w_def]
  define c where "c = (if page < ph_vaddr ph then ph_vaddr ph else page)"
  define e where "e = (if page + PAGE_BYTES > ph_vaddr ph + ph_filesz ph then ph_vaddr ph + ph_filesz ph else page + PAGE_BYTES)"
  have c: "unat c = max ?P ?V" by (auto simp: c_def word_less_nat_alt max_def)
  have fe: "unat (ph_vaddr ph + ph_filesz ph) = ?V + ?F" and pe: "unat (page + PAGE_BYTES) = ?P + 4096"
    using FS top page by (simp_all add: unat_word_ariths PAGE_BYTES_def)
  have e: "unat e = min (?P + 4096) (?V + ?F)" unfolding e_def using fe pe by (auto simp: word_less_nat_alt min_def)
  have shows0: "shows_byte F root w' (page + of_nat k) b"
    if "k < 4096" "xlate (pmem w') root (page + of_nat k) = phys + of_nat k" "pmem w' (phys + of_nat k) = b"
      "table_frames (pmem w') root = table_frames (pmem w) root" "frames w' = frames w" for w' k b
  proof -
    have "phys + of_nat k \<noteq> 0"
    proof
      assume "phys + of_nat k = 0"
      then have "unat phys + k = 0" using aligned_plus(5) [OF W(2) that(1)] by simp
      then show False using W(1) by (simp add: unat_eq_0)
    qed
    then show ?thesis using that W(6,7) F aligned_plus(6) [OF W(2) that(1)] by (auto simp: shows_byte_def)
  qed
  show thesis
  proof (cases "e \<le> c")
    case True
    have "load_page root f fsz ph flags page v = (True, w)"
      using al W(1) True by (simp add: load_page_def w_def c_def e_def Let_def)
    moreover have "shows_byte F root w (page + of_nat k) (seg_byte ph f (?P + k))" if "k < 4096" for k
    proof (rule shows0 [OF that W(9) [OF that] _ refl refl])
      have "\<not> (?V \<le> ?P + k \<and> ?P + k < ?V + ?F)" using True that c e by (auto simp: word_le_nat_alt)
      then show "pmem w (phys + of_nat k) = seg_byte ph f (?P + k)"
        using W(8) aligned_plus(6) [OF W(2) that] by (auto simp: seg_byte_def)
    qed
    ultimately show thesis using W(3-5,10) by (intro that)
  next
    case False
    then have lt: "max ?P ?V < min (?P + 4096) (?V + ?F)" using c e by (simp only: word_le_nat_alt not_le)
    have start: "max ?P ?V - ?V < ?F" using lt by auto
    let ?off = "ph_offset ph + (c - ph_vaddr ph)" and ?q = "max ?P ?V - ?P" and ?l = "min (?P + 4096) (?V + ?F) - max ?P ?V"
    have off: "unat ?off = ?O + (max ?P ?V - ?V)"
    proof -
      have "unat (c - ph_vaddr ph) = max ?P ?V - ?V" using c by (simp add: unat_sub word_le_nat_alt)
      moreover have "unat fsz < 2 ^ 64" using unsigned_less [of fsz] by simp
      then have "?O + (max ?P ?V - ?V) < 2 ^ 64" using start FS(2) by linarith
      ultimately show ?thesis by (simp add: unat_word_ariths)
    qed
    have len: "unat (e - c) = ?l" using c e lt by (simp add: unat_sub word_le_nat_alt)
    have q: "phys + (c - page) = phys + of_nat ?q"
    proof -
      have "unat (c - page) = ?q" using c by (simp add: unat_sub word_le_nat_alt)
      moreover have "?q < 4096" using lt by auto
      then have "unat (of_nat ?q :: u64) = ?q" by (intro unat_of_nat_u64) simp
      ultimately show ?thesis by (metis unsigned_word_eqI)
    qed
    have fits: "\<not> ?off > fsz" "\<not> e - c > fsz - ?off"
    proof -
      show 1: "\<not> ?off > fsz" using off start FS(2) unfolding word_less_nat_alt by linarith
      have "unat (fsz - ?off) = unat fsz - unat ?off" using 1 by (simp add: unat_sub not_less)
      moreover have "?l + (max ?P ?V - ?V) \<le> ?F" using lt by auto
      ultimately show "\<not> e - c > fsz - ?off" using off len FS(2) unfolding word_less_nat_alt by linarith
    qed
    define m where "m = copy_file (phys + (c - page)) f ?off (unat (e - c)) (pmem w)"
    have m: "m x = (if frame_of x = frame_of phys \<and> ?q \<le> unat (x - phys) \<and> unat (x - phys) < ?q + ?l
        then f ! (unat ?off + (unat (x - phys) - ?q)) else pmem w x)" for x
      unfolding m_def q len by (rule copy_in_frame [OF W(2)]) (use lt in simp)
    have "load_page root f fsz ph flags page v = (True, w\<lparr>pmem := m\<rparr>)"
      using al W(1) False fits by (simp add: load_page_def w_def [symmetric] c_def [symmetric] e_def [symmetric] m_def Let_def)
    moreover note Z = private_write [OF W(3) _ _ refl, of phys m]
    have Z: "space_ready root n (w\<lparr>pmem := m\<rparr>)" "xlate (pmem (w\<lparr>pmem := m\<rparr>)) root a = xlate (pmem w) root a"
      "table_frames (pmem (w\<lparr>pmem := m\<rparr>)) root = table_frames (pmem w) root" for a
      by (rule Z; use W(6) m in simp)+
    moreover have "writes_in root v (w\<lparr>pmem := m\<rparr>)"
      using W(4,7) Z(3) m unfolding writes_in_def by auto
    moreover have "shows_byte F root (w\<lparr>pmem := m\<rparr>) (page + of_nat k) (seg_byte ph f (?P + k))" if k: "k < 4096" for k
    proof (rule shows0 [OF k])
      show "xlate (pmem (w\<lparr>pmem := m\<rparr>)) root (page + of_nat k) = phys + of_nat k" using Z(2) W(9) [OF k] by simp
      have uk: "unat (phys + of_nat k - phys) = k" using k by (simp add: unat_of_nat_u64)
      have "pmem w (phys + of_nat k) = 0" using W(8) aligned_plus(6) [OF W(2) k] by simp
      moreover have "?q \<le> k \<and> k < ?q + ?l \<longleftrightarrow> ?V \<le> ?P + k \<and> ?P + k < ?V + ?F" using k lt by auto
      moreover have "unat ?off + (k - ?q) = ?O + (?P + k - ?V)" if "?q \<le> k" using off that by auto
      ultimately show "pmem (w\<lparr>pmem := m\<rparr>) (phys + of_nat k) = seg_byte ph f (?P + k)"
        using m [of "phys + of_nat k"] aligned_plus(6) [OF W(2) k] uk by (auto simp: seg_byte_def)
    qed (use Z(3) in simp_all)
    ultimately show thesis using W(5,10) by (intro that [of "w\<lparr>pmem := m\<rparr>"]) simp_all
  qed
qed


section \<open>A segment\<close>

text \<open>The pages of the segment of a program header.\<close>

definition seg_first :: "elf64_phdr \<Rightarrow> nat" where
  "seg_first ph = unat (ph_vaddr ph) div 4096"

definition seg_pages :: "elf64_phdr \<Rightarrow> nat" where
  "seg_pages ph = (if ph_memsz ph = 0 then 0
     else (unat (ph_vaddr ph) + unat (ph_memsz ph) + 4095) div 4096 - seg_first ph)"

definition page_at :: "nat \<Rightarrow> u64" where
  "page_at j = of_nat (4096 * j)"

lemma page_at_facts:
  assumes "j < 2 ^ 52" shows "page_aligned (page_at j)" "unat (page_at j) = 4096 * j"
    and "page_at j + PAGE_BYTES = page_at (Suc j)"
proof -
  show u: "unat (page_at j) = 4096 * j" unfolding page_at_def by (rule unat_of_nat_u64) (use assms in simp)
  show "page_aligned (page_at j)" by (simp add: page_aligned_def u)
  show "page_at j + PAGE_BYTES = page_at (Suc j)" by (simp add: page_at_def PAGE_BYTES_def)
qed

lemma same_page_at:
  assumes "i < 2 ^ 36" "j < 2 ^ 36" shows "same_page (page_at i) (page_at j) \<longleftrightarrow> i = j"
proof -
  have "unat (drop_bit 12 (take_bit 48 (page_at n))) = n" if "n < 2 ^ 36" for n
  proof -
    have "unat (page_at n) = 4096 * n" using page_at_facts(2) that by simp
    moreover have "(4096 * n) mod 2 ^ 48 = 4096 * n" using that by (intro mod_less) simp
    moreover have "unat (drop_bit 12 (take_bit 48 (page_at n))) = drop_bit 12 (take_bit 48 (unat (page_at n)))"
      by (simp add: unsigned_drop_bit_eq unsigned_take_bit_eq)
    ultimately show ?thesis by (simp add: take_bit_eq_mod drop_bit_eq_div)
  qed
  then show ?thesis using assms by (metis same_page_def)
qed

lemma same_page_trans: "same_page a b \<Longrightarrow> same_page a c = same_page b c" "same_page a b = same_page b a"
  by (auto simp: same_page_def)

lemma load_pages_effect:
  assumes seg: "segment_ok fsz ph" and top: "unat (ph_vaddr ph) + unat (ph_memsz ph) \<le> 2 ^ 47" and flags: "page_base flags = 0"
    and n: "seg_first ph \<le> j" "4096 * (j + n) < unat (ph_vaddr ph) + unat (ph_memsz ph) + 4096"
    and ready: "space_ready root (c + 4 * n) v" and F: "free_pages (frames v) \<subseteq> F"
  shows "\<exists>v'. load_pages root f fsz ph flags (page_at j) n v = (True, v') \<and> space_ready root c v' \<and> writes_in root v v' \<and>
    kernel_pml4 v' = kernel_pml4 v \<and>
    (\<forall>i. j \<le> i \<and> i < j + n \<longrightarrow> (\<forall>k < 4096. shows_byte F root v' (page_at i + of_nat k) (seg_byte ph f (4096 * i + k)))) \<and>
    (\<forall>a. (\<forall>i. j \<le> i \<and> i < j + n \<longrightarrow> \<not> same_page a (page_at i)) \<longrightarrow> xlate (pmem v') root a = xlate (pmem v) root a)"
  using n ready F
proof (induction n arbitrary: j v)
  case 0
  then show ?case by auto
next
  case (Suc n)
  have small: "i < 2 ^ 36" if "i \<le> j + n" for i using Suc.prems(2) top that by simp
  from small [of j] have j52: "j < 2 ^ 52" by simp
  note pj = page_at_facts [OF j52]
  have V: "unat (ph_vaddr ph) < unat (page_at j) + 4096"
    using Suc.prems(1) dividend_less_times_div [of 4096 "unat (ph_vaddr ph)"] by (simp add: seg_first_def pj(2))
  have T: "unat (page_at j) < unat (ph_vaddr ph) + unat (ph_memsz ph)" using Suc.prems(2) by (simp add: pj(2))
  have r: "space_ready root (c + 4 * n + 4) v" using Suc.prems(3) by (simp add: ac_simps)
  have top': "unat (ph_vaddr ph) + unat (ph_memsz ph) \<le> 2 ^ 48" using top by simp
  obtain w where w: "load_page root f fsz ph flags (page_at j) v = (True, w)"
    "space_ready root (c + 4 * n) w" "writes_in root v w" "kernel_pml4 w = kernel_pml4 v"
    "\<And>k. k < 4096 \<Longrightarrow> shows_byte F root w (page_at j + of_nat k) (seg_byte ph f (unat (page_at j) + k))"
    "\<And>a. \<not> same_page a (page_at j) \<Longrightarrow> xlate (pmem w) root a = xlate (pmem v) root a"
    using load_page_effect [OF r Suc.prems(4) seg top' flags pj(1) T V] by blast
  have n': "seg_first ph \<le> Suc j" "4096 * (Suc j + n) < unat (ph_vaddr ph) + unat (ph_memsz ph) + 4096"
    using Suc.prems(1,2) by simp_all
  have wF: "free_pages (frames w) \<subseteq> F" using w(3) Suc.prems(4) by (auto simp: writes_in_def)
  from Suc.IH [OF n' w(2) wF] obtain v' where v': "load_pages root f fsz ph flags (page_at (Suc j)) n w = (True, v')"
    "space_ready root c v'" "writes_in root w v'" "kernel_pml4 v' = kernel_pml4 w"
    "\<And>i k. Suc j \<le> i \<Longrightarrow> i < Suc j + n \<Longrightarrow> k < 4096 \<Longrightarrow> shows_byte F root v' (page_at i + of_nat k) (seg_byte ph f (4096 * i + k))"
    "\<And>a. (\<And>i. Suc j \<le> i \<Longrightarrow> i < Suc j + n \<Longrightarrow> \<not> same_page a (page_at i)) \<Longrightarrow> xlate (pmem v') root a = xlate (pmem w) root a"
    by blast
  have first: "shows_byte F root v' (page_at j + of_nat k) (seg_byte ph f (4096 * j + k))" if "k < 4096" for k
  proof -
    have "\<not> same_page (page_at j + of_nat k) (page_at i)" if "Suc j \<le> i" "i < Suc j + n" for i
      using same_page_trans(1) [OF same_page_aligned [OF pj(1) \<open>k < 4096\<close>]] same_page_at [OF small small, of j i] that by simp
    from shows_byte_kept [OF w(5) [OF that] v'(3) v'(6) [OF this]] show ?thesis by (simp add: pj(2))
  qed
  have "shows_byte F root v' (page_at i + of_nat k) (seg_byte ph f (4096 * i + k))" if "j \<le> i" "i < j + Suc n" "k < 4096" for i k
    using first v'(5) [of i k] that by (cases "i = j") auto
  moreover have "xlate (pmem v') root a = xlate (pmem v) root a" if "\<forall>i. j \<le> i \<and> i < j + Suc n \<longrightarrow> \<not> same_page a (page_at i)" for a
    using w(6) [of a] v'(6) [of a] that by simp
  ultimately show ?case
    using w(1,4) v'(1,2,4) writes_in_trans [OF w(3) v'(3)] pj(3) by (intro exI [of _ v']) simp
qed


lemma unat_page_base: "unat (page_base x) = 4096 * (unat x div 4096)"
proof -
  have "page_base x = push_bit 12 (drop_bit 12 x)"
    by (rule bit_word_eqI) (auto simp: bit_page_base bit_push_bit_iff bit_drop_bit_eq)
  moreover have "unat (drop_bit 12 x) = unat x div 4096" by (simp add: drop_bit_eq_div unat_div)
  moreover have "unat x < 2 ^ 64" using unsigned_less [of x] by simp
  then have "unat x div 4096 * 4096 < 2 ^ 64" using div_times_less_eq_dividend [of "unat x" 4096] by linarith
  ultimately show ?thesis by (simp add: push_bit_eq_mult unat_word_ariths mult.commute)
qed

lemma page_base_at: "page_base x = page_at (unat x div 4096)"
proof -
  have "unat x < 2 ^ 64" using unsigned_less [of x] by simp
  then have "unat x < 2 ^ 52 * 4096" by simp
  then have "unat x div 4096 < 2 ^ 52" by (rule less_mult_imp_div_less)
  then show ?thesis using unat_page_base [of x] page_at_facts(2) by (metis unsigned_word_eqI)
qed

definition seg_page_list :: "elf64_phdr \<Rightarrow> nat list" where
  "seg_page_list ph = [seg_first ph..<seg_first ph + seg_pages ph]"

text \<open>What the loader asks of a segment, and that it lies in the lower half of the address space.\<close>

definition seg_fits :: "u64 \<Rightarrow> elf64_phdr \<Rightarrow> bool" where
  "seg_fits fsz ph \<longleftrightarrow> segment_ok fsz ph \<and> unat (ph_vaddr ph) + unat (ph_memsz ph) \<le> 2 ^ 47"

definition seg_shown :: "nat set \<Rightarrow> u64 \<Rightarrow> u8 list \<Rightarrow> vm_state \<Rightarrow> elf64_phdr \<Rightarrow> bool" where
  "seg_shown F root f v ph \<longleftrightarrow> (\<forall>i \<in> set (seg_page_list ph). \<forall>k < 4096.
    shows_byte F root v (page_at i + of_nat k) (seg_byte ph f (4096 * i + k)))"

definition kept_off :: "u64 \<Rightarrow> nat list \<Rightarrow> vm_state \<Rightarrow> vm_state \<Rightarrow> bool" where
  "kept_off root pages v v' \<longleftrightarrow> writes_in root v v' \<and> kernel_pml4 v' = kernel_pml4 v \<and>
    (\<forall>a. (\<forall>i \<in> set pages. \<not> same_page a (page_at i)) \<longrightarrow> xlate (pmem v') root a = xlate (pmem v) root a)"

lemma seg_page_bound: "seg_fits fsz ph \<Longrightarrow> i \<in> set (seg_page_list ph) \<Longrightarrow> i < 2 ^ 36"
  by (auto simp: seg_fits_def seg_page_list_def seg_pages_def seg_first_def split: if_splits)

lemma seg_shown_kept:
  assumes "seg_shown F root f v ph" "kept_off root pages v v'" "seg_fits fsz ph" "set pages \<inter> set (seg_page_list ph) = {}"
    and "\<And>i. i \<in> set pages \<Longrightarrow> i < 2 ^ 36"
  shows "seg_shown F root f v' ph"
  unfolding seg_shown_def
proof (intro ballI allI impI)
  fix i k :: nat assume i: "i \<in> set (seg_page_list ph)" and k: "k < 4096"
  have b: "i < 2 ^ 36" by (rule seg_page_bound [OF assms(3) i])
  then have al: "page_aligned (page_at i)" by (intro page_at_facts(1)) simp
  have "\<not> same_page (page_at i + of_nat k) (page_at j)" if "j \<in> set pages" for j
  proof -
    have "i \<noteq> j" using i that assms(4) by auto
    then show ?thesis using same_page_trans(1) [OF same_page_aligned [OF al k]] same_page_at [OF b assms(5) [OF that]] by simp
  qed
  then have "xlate (pmem v') root (page_at i + of_nat k) = xlate (pmem v) root (page_at i + of_nat k)" "writes_in root v v'"
    using assms(2) unfolding kept_off_def by blast+
  then show "shows_byte F root v' (page_at i + of_nat k) (seg_byte ph f (4096 * i + k))"
    using shows_byte_kept assms(1) i k unfolding seg_shown_def by blast
qed

lemma kept_off_trans: "kept_off root P v w \<Longrightarrow> kept_off root Q w u \<Longrightarrow> kept_off root (P @ Q) v u"
  unfolding kept_off_def using writes_in_trans [of root v w u] by simp

lemma load_segment_effect:
  assumes seg: "seg_fits fsz ph" and ready: "space_ready root (c + 4 * seg_pages ph) v" and F: "free_pages (frames v) \<subseteq> F"
  shows "\<exists>v'. load_segment root f fsz ph v = (True, v') \<and> space_ready root c v' \<and> kept_off root (seg_page_list ph) v v' \<and>
    seg_shown F root f v' ph"
proof (cases "ph_memsz ph = 0")
  case True
  then show ?thesis using seg ready
    by (auto simp: load_segment_def seg_fits_def seg_pages_def seg_page_list_def seg_shown_def kept_off_def)
next
  case False
  let ?V = "unat (ph_vaddr ph)" and ?M = "unat (ph_memsz ph)"
  have ok: "segment_ok fsz ph" "?V + ?M \<le> 2 ^ 47" using seg by (simp_all add: seg_fits_def)
  have M: "0 < ?M" using False by (simp add: unat_gt_0)
  have e: "unat (ph_vaddr ph + ph_memsz ph) = ?V + ?M" using ok(2) by (simp add: unat_word_ariths)
  then have e': "unat (ph_vaddr ph + ph_memsz ph + 0xFFF) = ?V + ?M + 4095" using ok(2) by (simp add: unat_word_ariths)
  let ?page_end = "page_base (ph_vaddr ph + ph_memsz ph + 0xFFF)" and ?start = "page_base (ph_vaddr ph)"
  have pe: "unat ?page_end = 4096 * ((?V + ?M + 4095) div 4096)" by (simp only: unat_page_base e')
  have ps: "unat ?start = 4096 * seg_first ph" by (simp add: unat_page_base seg_first_def)
  have b: "?V + ?M \<le> 4096 * ((?V + ?M + 4095) div 4096)" "4096 * seg_first ph \<le> ?V" "seg_first ph < (?V + ?M + 4095) div 4096"
    using M by (simp_all add: seg_first_def)
  have "unat ((?page_end - ?start) div PAGE_BYTES) = seg_pages ph"
  proof -
    have "unat (?page_end - ?start) = 4096 * seg_pages ph"
      using pe ps b False by (simp add: unat_sub word_le_nat_alt seg_pages_def diff_mult_distrib2)
    then show ?thesis by (simp add: unat_div PAGE_BYTES_def)
  qed
  moreover have "?start < ?page_end" "\<not> ph_vaddr ph + ph_memsz ph > 0xFFFFFFFFFFFFF000" "\<not> ?page_end < ph_vaddr ph + ph_memsz ph"
    using pe ps e b ok(2) by (simp_all add: word_less_nat_alt)
  moreover have "?start = page_at (seg_first ph)" by (simp only: page_base_at seg_first_def)
  ultimately have code: "load_segment root f fsz ph v =
      load_pages root f fsz ph (PAGE_USER OR (if ph_flags ph AND 2 \<noteq> 0 then PAGE_WRITE else 0)) (page_at (seg_first ph)) (seg_pages ph) v"
    using False ok(1) unfolding load_segment_def Let_def page_base_def [symmetric] by simp
  have flags: "page_base (PAGE_USER OR (if ph_flags ph AND 2 \<noteq> 0 then PAGE_WRITE else 0)) = 0"
    by (simp add: page_base_def PAGE_USER_def PAGE_WRITE_def)
  have n: "4096 * (seg_first ph + seg_pages ph) < ?V + ?M + 4096"
    using b False by (simp add: seg_pages_def)
  from load_pages_effect [OF ok flags order_refl n ready F, of f] show ?thesis
    unfolding code seg_shown_def kept_off_def seg_page_list_def by (auto simp del: load_pages.simps)
qed

section \<open>The program\<close>

definition prog_segments :: "u8 list \<Rightarrow> u64 \<Rightarrow> nat list \<Rightarrow> elf64_phdr list" where
  "prog_segments f phoff idxs = filter (\<lambda>ph. ph_type ph = 1) (map (\<lambda>i. dec_phdr phoff (of_nat i) f) idxs)"

lemma load_segments_effect:
  assumes "\<forall>ph \<in> set (prog_segments f phoff idxs). seg_fits fsz ph"
    and "distinct (concat (map seg_page_list (prog_segments f phoff idxs)))"
    and "space_ready root (c + 4 * (\<Sum>ph\<leftarrow>prog_segments f phoff idxs. seg_pages ph)) v" and "free_pages (frames v) \<subseteq> F"
  shows "\<exists>v'. load_segments root f fsz phoff idxs n v = (Some (n + length (prog_segments f phoff idxs)), v') \<and> space_ready root c v' \<and>
    kept_off root (concat (map seg_page_list (prog_segments f phoff idxs))) v v' \<and>
    (\<forall>ph \<in> set (prog_segments f phoff idxs). seg_shown F root f v' ph)"
  using assms
proof (induction idxs arbitrary: n v)
  case Nil
  then show ?case by (auto simp: prog_segments_def kept_off_def)
next
  case (Cons i idxs)
  let ?ph = "dec_phdr phoff (of_nat i) f" and ?L = "prog_segments f phoff idxs"
  show ?case
  proof (cases "ph_type ?ph = 1")
    case False
    then have "prog_segments f phoff (i # idxs) = ?L" by (simp add: prog_segments_def)
    then show ?thesis using Cons False by (simp add: Let_def)
  next
    case True
    then have L: "prog_segments f phoff (i # idxs) = ?ph # ?L" by (simp add: prog_segments_def)
    have fits: "seg_fits fsz ?ph" "\<forall>ph \<in> set ?L. seg_fits fsz ph" using Cons.prems(1) L by simp_all
    have d: "distinct (concat (map seg_page_list ?L))" "set (concat (map seg_page_list ?L)) \<inter> set (seg_page_list ?ph) = {}"
      using Cons.prems(2) unfolding L by auto
    have "space_ready root ((c + 4 * (\<Sum>ph\<leftarrow>?L. seg_pages ph)) + 4 * seg_pages ?ph) v"
      using Cons.prems(3) unfolding L by (simp add: algebra_simps)
    from load_segment_effect [OF fits(1) this Cons.prems(4), of f] obtain w where w: "load_segment root f fsz ?ph v = (True, w)"
      "space_ready root (c + 4 * (\<Sum>ph\<leftarrow>?L. seg_pages ph)) w" "kept_off root (seg_page_list ?ph) v w" "seg_shown F root f w ?ph" by blast
    have "free_pages (frames w) \<subseteq> F" using w(3) Cons.prems(4) by (auto simp: kept_off_def writes_in_def)
    from Cons.IH [OF fits(2) d(1) w(2) this, of "n + 1"] obtain v' where v':
      "load_segments root f fsz phoff idxs (n + 1) w = (Some (n + 1 + length ?L), v')" "space_ready root c v'"
      "kept_off root (concat (map seg_page_list ?L)) w v'" "\<forall>ph \<in> set ?L. seg_shown F root f v' ph" by blast
    have "seg_shown F root f v' ?ph"
      using seg_shown_kept [OF w(4) v'(3) fits(1) d(2)] seg_page_bound fits(2) by auto
    moreover have "kept_off root (concat (map seg_page_list (?ph # ?L))) v v'"
      using kept_off_trans [OF w(3) v'(3)] by simp
    ultimately show ?thesis using w(1) v' True unfolding L by (intro exI [of _ v']) (simp add: Let_def)
  qed
qed


lemma seg_shown_bytes:
  assumes "seg_shown F root f v ph" "seg_fits fsz ph" "vm_ok root v" "k < unat (ph_memsz ph)"
  shows "let x = vmm_virt_to_phys root (ph_vaddr ph + of_nat k) v in
    x \<noteq> 0 \<and> pmem v x = (if k < unat (ph_filesz ph) then f ! (unat (ph_offset ph) + k) else 0)"
proof -
  let ?a = "unat (ph_vaddr ph) + k"
  have M: "unat (ph_vaddr ph) + unat (ph_memsz ph) \<le> 2 ^ 47" "ph_memsz ph \<noteq> 0" using assms(2,4) by (auto simp: seg_fits_def)
  have i: "?a div 4096 \<in> set (seg_page_list ph)"
  proof -
    have "seg_first ph \<le> ?a div 4096" unfolding seg_first_def by (rule div_le_mono) simp
    moreover have "?a div 4096 < (unat (ph_vaddr ph) + unat (ph_memsz ph) + 4095) div 4096" using assms(4) by linarith
    ultimately show ?thesis using M(2) by (simp add: seg_page_list_def seg_pages_def)
  qed
  have "?a div 4096 < 2 ^ 52" using M(1) assms(4) by simp
  note p = page_at_facts [OF this]
  have "ph_vaddr ph + of_nat k = page_at (?a div 4096) + of_nat (?a mod 4096)"
  proof -
    have k: "unat (of_nat k :: u64) = k" using M(1) assms(4) by (intro unat_of_nat_u64) simp
    have "unat (ph_vaddr ph + of_nat k) = ?a" using M(1) assms(4) by (subst unat_word_ariths) (simp add: k)
    moreover have "unat (page_at (?a div 4096) + of_nat (?a mod 4096)) = ?a"
      using aligned_plus(5) [OF p(1), of "?a mod 4096"] p(2) by simp
    ultimately show ?thesis by (metis unsigned_word_eqI)
  qed
  moreover have "shows_byte F root v (page_at (?a div 4096) + of_nat (?a mod 4096)) (seg_byte ph f (4096 * (?a div 4096) + ?a mod 4096))"
    using assms(1) [unfolded seg_shown_def, rule_format, OF i, of "?a mod 4096"] by simp
  ultimately show ?thesis
    using vmm_virt_to_phys_xlate [OF assms(3)] by (simp add: shows_byte_def Let_def seg_byte_def)
qed

lemma load_elf_effect:
  assumes L: "L = prog_segments f (e_phoff (dec_ehdr f)) [0..<unat (e_phnum (dec_ehdr f))]" "L \<noteq> []"
    and head: "ehdr_ok f fsz" and fits: "\<forall>ph \<in> set L. seg_fits fsz ph" and sep: "distinct (concat (map seg_page_list L))"
    and root: "p_pml4 (processes s ! p) = root" and ready: "space_ready root (c + 4 * (\<Sum>ph\<leftarrow>L. seg_pages ph)) (vm s)"
    and F: "free_pages (frames (vm s)) \<subseteq> F"
  shows "\<exists>v. load_elf_into_process (Some p) (Some f) fsz s = (0, s\<lparr>vm := v\<rparr>) \<and> space_ready root c v \<and>
    kept_off root (concat (map seg_page_list L)) (vm s) v \<and> (\<forall>ph \<in> set L. seg_shown F root f v ph)"
proof -
  have "root \<noteq> 0" using ready root_nonzero by (auto simp: space_ready_def)
  from load_segments_effect [OF fits [unfolded L(1)] sep [unfolded L(1)] ready [unfolded L(1)] F, of 0] obtain v where
    "load_segments root f fsz (e_phoff (dec_ehdr f)) [0..<unat (e_phnum (dec_ehdr f))] 0 (vm s) = (Some (length L), v)"
    "space_ready root c v" "kept_off root (concat (map seg_page_list L)) (vm s) v" "\<forall>ph \<in> set L. seg_shown F root f v ph"
    unfolding L(1) by auto
  then show ?thesis using root \<open>root \<noteq> 0\<close> head L(2)
    by (intro exI [of _ v]) (simp add: load_elf_into_process_def Let_def)
qed

section \<open>Properties\<close>


text \<open>A program of one segment, eight bytes across a page boundary, the last four not in the file.\<close>

definition demo_elf :: "u8 list" where
  "demo_elf = [0x7F, 0x45, 0x4C, 0x46, 2, 1, 1, 0, 0, 0, 0, 0, 0, 0, 0, 0, 2, 0, 62, 0, 1, 0, 0, 0,
    0xFE, 0x0F, 0x40, 0, 0, 0, 0, 0, 64, 0, 0, 0, 0, 0, 0, 0, 0, 0, 0, 0, 0, 0, 0, 0, 0, 0, 0, 0, 64, 0, 56, 0, 1, 0, 0, 0, 0, 0, 0, 0,
    1, 0, 0, 0, 5, 0, 0, 0, 120, 0, 0, 0, 0, 0, 0, 0, 0xFE, 0x0F, 0x40, 0, 0, 0, 0, 0, 0, 0, 0, 0, 0, 0, 0, 0,
    4, 0, 0, 0, 0, 0, 0, 0, 8, 0, 0, 0, 0, 0, 0, 0, 0, 0, 0, 0, 0, 0, 0, 0, 0x11, 0x22, 0x33, 0x44]"

lemma demo_elf_fields:
  "get64 32 demo_elf = 64" "get16 56 demo_elf = 1" "get16 54 demo_elf = 56" "get16 16 demo_elf = 2" "get16 18 demo_elf = 62"
  "take 4 (get_bytes 0 16 demo_elf) = [0x7F, 0x45, 0x4C, 0x46]" "get_bytes 0 16 demo_elf ! 4 = 2" "get_bytes 0 16 demo_elf ! 5 = 1"
  "get32 64 demo_elf = 1" "get32 68 demo_elf = 5" "get64 72 demo_elf = 120" "get64 80 demo_elf = 0x400FFE"
  "get64 96 demo_elf = 4" "get64 104 demo_elf = 8"
  by code_simp+

lemma demo_elf_facts:
  "e_phoff (dec_ehdr demo_elf) = 64" "e_phnum (dec_ehdr demo_elf) = 1" "ehdr_ok demo_elf 124"
  "dec_phdr 64 0 demo_elf = \<lparr>ph_type = 1, ph_flags = 5, ph_offset = 120, ph_vaddr = 0x400FFE, ph_filesz = 4, ph_memsz = 8\<rparr>"
  by (simp_all add: dec_ehdr_def dec_phdr_def demo_elf_fields ehdr_ok_def sizeof_ehdr_def sizeof_phdr_def Let_def)

definition demo_sched :: sched where
  "demo_sched = \<lparr>vm = vmm_init boot_vm, processes = replicate 8 (no_process\<lparr>p_pml4 := 0x1000\<rparr>), current_process_idx = 0,
    next_pid = 1, tss_rsp0 = 0\<rparr>"

lemma demo_elf_segments:
  "prog_segments demo_elf 64 [0..<1] =
    [\<lparr>ph_type = 1, ph_flags = 5, ph_offset = 120, ph_vaddr = 0x400FFE, ph_filesz = 4, ph_memsz = 8\<rparr>]"
  by (simp add: prog_segments_def demo_elf_facts)


end
