(* ===== verification/Fifo.thy ===== *)
theory Fifo
  imports Prelude
begin

text \<open>
  The contract of a bounded queue: what a producer that drops items when the
  queue is full and a consumer that polls it may rely on.
\<close>

text \<open>Polling a queue \<open>n\<close> times.\<close>

fun gets :: "('q \<Rightarrow> 'a option \<times> 'q) \<Rightarrow> nat \<Rightarrow> 'q \<Rightarrow> 'a option list \<times> 'q" where
  "gets get 0 q = ([], q)"
| "gets get (Suc n) q = (let (x, q) = get q; (xs, q) = gets get n q in (x # xs, q))"

locale fifo =
  fixes put :: "'a \<Rightarrow> 'q \<Rightarrow> 'q"
    and get :: "'q \<Rightarrow> 'a option \<times> 'q"
    and contents :: "'q \<Rightarrow> 'a list"
    and ok :: "'q \<Rightarrow> bool"
    and valid :: "'a \<Rightarrow> bool"
    and cap :: nat
  assumes put_ok: "ok q \<Longrightarrow> valid x \<Longrightarrow> ok (put x q)"
    and put_contents: "ok q \<Longrightarrow> valid x \<Longrightarrow>
      contents (put x q) = (if length (contents q) < cap then contents q @ [x] else contents q)"
    and get_some: "ok q \<Longrightarrow> contents q = x # xs \<Longrightarrow>
      fst (get q) = Some x \<and> ok (snd (get q)) \<and> contents (snd (get q)) = xs"
    and get_none: "ok q \<Longrightarrow> contents q = [] \<Longrightarrow> get q = (None, q)"
    and bound: "ok q \<Longrightarrow> length (contents q) \<le> cap"
begin

lemma put_all:
  "ok q \<Longrightarrow> \<forall>x \<in> set xs. valid x \<Longrightarrow>
    ok (fold put xs q) \<and> contents (fold put xs q) = take cap (contents q @ xs)"
proof (induction xs arbitrary: q)
  case Nil
  then show ?case using bound by simp
next
  case (Cons x xs)
  then have "ok (put x q)" "length (contents q) \<le> cap" by (simp_all add: put_ok bound)
  with Cons show ?case by (auto simp: put_contents take_Cons')
qed

lemma gets_contents:
  "ok q \<Longrightarrow> ok (snd (gets get n q)) \<and> contents (snd (gets get n q)) = drop n (contents q) \<and>
    fst (gets get n q) = map Some (take n (contents q)) @ replicate (n - length (contents q)) None"
proof (induction n arbitrary: q)
  case (Suc n)
  show ?case
  proof (cases "contents q")
    case Nil
    then have "get q = (None, q)" using Suc.prems get_none by blast
    with Suc Nil show ?thesis by (auto simp: split_def Let_def)
  next
    case (Cons x xs)
    with get_some [OF Suc.prems this] Suc.IH [of "snd (get q)"] show ?thesis
      by (auto simp: split_def Let_def)
  qed
qed simp

lemma put_all_gets:
  assumes "ok q" and "contents q = []" and "\<forall>x \<in> set xs. valid x" and "length xs \<le> cap"
  shows "fst (gets get (length xs) (fold put xs q)) = map Some xs"
  using put_all [OF assms(1,3)] gets_contents assms(2,4) by simp

end

end
