(* ===== verification/Keyboard.thy ===== *)
theory Keyboard
  imports Fifo
begin

text \<open>
  The keyboard driver, \<open>kernel/keyboard.c\<close>: the interrupt handler decodes
  scancodes and puts characters into a ring buffer of 64 bytes, \<open>kgetc\<close> takes
  them out.  The scancode read from port 0x60 is an argument of the handler; the
  end-of-interrupt signals it sends are recorded in \<open>kb_eois\<close>, newest first.
\<close>

datatype eoi = PicEoi int | LapicEoi

record kbd =
  kb_buf :: "u8 list"
  kb_head :: u32
  kb_tail :: u32
  e0_prefix :: bool
  shift_pressed :: bool
  kb_eois :: "eoi list"

definition KB_BUF_SIZE :: u32 where "KB_BUF_SIZE = 64"

definition chars :: "string \<Rightarrow> u8 list" where
  "chars s = map of_char s"

definition scancode_ascii :: "u8 list" where
  "scancode_ascii = [0, 27] @ chars ''1234567890-='' @ [8, 9] @ chars ''qwertyuiop[]'' @ [10, 0] @
     chars ''asdfghjkl;'' @ [0x27, 0x60, 0, 0x5C] @ chars ''zxcvbnm,./'' @ [0, 0x2A, 0, 0x20]"

section \<open>The operations\<close>

definition kgetc :: "kbd \<Rightarrow> u8 \<times> kbd" where
  "kgetc k =
    (if kb_head k = kb_tail k then (0, k)
     else (kb_buf k ! unat (kb_tail k), k\<lparr>kb_tail := (kb_tail k + 1) mod KB_BUF_SIZE\<rparr>))"

definition kflush :: "kbd \<Rightarrow> kbd" where
  "kflush k = k\<lparr>kb_tail := kb_head k\<rparr>"

text \<open>The characters a shifted key gives: letters by arithmetic, the rest by the switch.\<close>

definition shift_char :: "u8 \<Rightarrow> u8" where
  "shift_char c =
    (if of_char (CHR ''a'') \<le> c \<and> c \<le> of_char (CHR ''z'') then c - of_char (CHR ''a'') + of_char (CHR ''A'')
     else case map_of (zip (chars ''1234567890-=[];`,./'' @ [0x27, 0x5C])
                           (chars ''!@#$%^&*()_+{}:~<>?'' @ [0x22, 0x7C])) c of
            Some d \<Rightarrow> d | None \<Rightarrow> c)"

definition kb_put :: "u8 \<Rightarrow> kbd \<Rightarrow> kbd" where
  "kb_put c k =
    (let nxt = (kb_head k + 1) mod KB_BUF_SIZE in
     if nxt \<noteq> kb_tail k
     then k\<lparr>kb_buf := (kb_buf k)[unat (kb_head k) := c], kb_head := nxt, kb_eois := LapicEoi # kb_eois k\<rparr>
     else k)"

definition kb_scancode :: "u8 \<Rightarrow> kbd \<Rightarrow> kbd" where
  "kb_scancode scancode k =
    (if scancode = 0xE0 then k\<lparr>e0_prefix := True\<rparr>
     else if e0_prefix k then k\<lparr>e0_prefix := False\<rparr>
     else if scancode = 0x2A then k\<lparr>shift_pressed := True\<rparr>
     else if scancode = 0xAA then k\<lparr>shift_pressed := False\<rparr>
     else if scancode = 0x36 then k\<lparr>shift_pressed := True\<rparr>
     else if scancode = 0xB6 then k\<lparr>shift_pressed := False\<rparr>
     else if scancode AND 0x80 = 0 then
       (if unat scancode < length scancode_ascii then
          let c = scancode_ascii ! unat scancode in
          if c \<noteq> 0 then kb_put (if shift_pressed k then shift_char c else c) k else k
        else k)
     else k)"

definition irqhandler :: "int \<Rightarrow> u8 \<Rightarrow> kbd \<Rightarrow> kbd" where
  "irqhandler irq_no scancode k =
    (let k = (if irq_no = 33 then kb_scancode scancode k else k)
     in k\<lparr>kb_eois := PicEoi (irq_no - 32) # kb_eois k\<rparr>)"

section \<open>The ring buffer is a queue\<close>

definition kb_len :: "kbd \<Rightarrow> nat" where
  "kb_len k = (unat (kb_head k) + 64 - unat (kb_tail k)) mod 64"

definition kb_contents :: "kbd \<Rightarrow> u8 list" where
  "kb_contents k = map (\<lambda>i. kb_buf k ! ((unat (kb_tail k) + i) mod 64)) [0..<kb_len k]"

definition kb_ok :: "kbd \<Rightarrow> bool" where
  "kb_ok k \<longleftrightarrow> length (kb_buf k) = 64 \<and> unat (kb_head k) < 64 \<and> unat (kb_tail k) < 64 \<and>
    0 \<notin> set (kb_contents k)"

lemma unat_next: "unat (i :: u32) < 64 \<Longrightarrow> unat ((i + 1) mod KB_BUF_SIZE) = (unat i + 1) mod 64"
  by (simp add: KB_BUF_SIZE_def unat_mod unat_word_ariths)

lemma kb_len_next_tail:
  assumes "h < 64" and "t < 64" and "h \<noteq> t"
  shows "(h + 64 - (t + 1) mod 64) mod 64 + 1 = (h + 64 - t) mod (64 :: nat)"
  using assms by (cases "t = 63"; cases "t < h") (auto simp: mod_if)

lemma kb_len_next_head:
  assumes "h < 64" and "t < 64" and "(h + 1) mod 64 \<noteq> t"
  shows "((h + 1) mod 64 + 64 - t) mod 64 = (h + 64 - t) mod (64 :: nat) + 1"
  using assms by (cases "h = 63"; cases "t \<le> h") (auto simp: mod_if)

lemma kb_len_full:
  assumes "h < 64" and "t < 64"
  shows "(h + 1) mod 64 = t \<longleftrightarrow> (h + 64 - t) mod (64 :: nat) = 63"
  using assms by (cases "h = 63"; cases "t \<le> h") (auto simp: mod_if)

lemma kb_tail_plus_len:
  assumes "h < 64" and "t < 64"
  shows "(t + (h + 64 - t) mod 64) mod (64 :: nat) = h"
  using assms by (cases "t \<le> h") (auto simp: mod_if)

lemma kb_index_ne:
  assumes "h < 64" and "t < 64" and "i < (h + 64 - t) mod 64"
  shows "(t + i) mod (64 :: nat) \<noteq> h"
proof
  assume e: "(t + i) mod 64 = h"
  have "(h + 64 - t) mod 64 < 64" by simp
  then have "i < 64" using assms(3) by simp
  then have "(h + 64 - t) mod 64 = i"
    using e assms(1,2) by (cases "t + i < 64") (auto simp: le_mod_geq)
  then show False using assms(3) by simp
qed

lemma kb_len_le: "kb_len k < 64"
  by (simp add: kb_len_def)

lemma kb_put_contents:
  assumes ok: "kb_ok k" and c: "c \<noteq> 0"
  shows "kb_ok (kb_put c k) \<and>
    kb_contents (kb_put c k) = (if length (kb_contents k) < 63 then kb_contents k @ [c] else kb_contents k)"
proof -
  let ?h = "unat (kb_head k)" and ?t = "unat (kb_tail k)"
  have b: "length (kb_buf k) = 64" "?h < 64" "?t < 64" and nz: "0 \<notin> set (kb_contents k)"
    using ok by (auto simp: kb_ok_def)
  have full: "(kb_head k + 1) mod KB_BUF_SIZE = kb_tail k \<longleftrightarrow> kb_len k = 63"
    using kb_len_full [OF b(2,3)] unat_next [OF b(2)] by (metis kb_len_def unsigned_word_eqI)
  show ?thesis
  proof (cases "kb_len k = 63")
    case True
    then show ?thesis using ok full by (simp add: kb_put_def Let_def kb_contents_def)
  next
    case False
    let ?k = "kb_put c k"
    have k: "?k = k\<lparr>kb_buf := (kb_buf k)[?h := c], kb_head := (kb_head k + 1) mod KB_BUF_SIZE, kb_eois := LapicEoi # kb_eois k\<rparr>"
      using False full by (simp add: kb_put_def Let_def)
    have ne: "(?h + 1) mod 64 \<noteq> ?t" using kb_len_full [OF b(2,3)] False by (simp add: kb_len_def)
    have len: "kb_len ?k = kb_len k + 1"
      using kb_len_next_head [OF b(2,3) ne] by (simp add: k kb_len_def unat_next b(2))
    have old: "(kb_buf k)[?h := c] ! ((?t + i) mod 64) = kb_buf k ! ((?t + i) mod 64)" if "i < kb_len k" for i
      using kb_index_ne [OF b(2,3), of i] that by (metis kb_len_def nth_list_update_neq)
    have new: "(kb_buf k)[?h := c] ! ((?t + kb_len k) mod 64) = c"
      using kb_tail_plus_len [OF b(2,3)] b(1,2) by (simp add: kb_len_def)
    have con: "kb_contents ?k = kb_contents k @ [c]"
      unfolding kb_contents_def len using old new by (simp add: k)
    have "kb_ok ?k" using b nz c con by (simp add: kb_ok_def k unat_next)
    then show ?thesis using con False kb_len_le [of k] by (simp add: kb_contents_def)
  qed
qed

lemma kgetc_contents:
  assumes ok: "kb_ok k"
  shows "case kb_contents k of [] \<Rightarrow> kgetc k = (0, k)
    | c # cs \<Rightarrow> c \<noteq> 0 \<and> fst (kgetc k) = c \<and> kb_ok (snd (kgetc k)) \<and> kb_contents (snd (kgetc k)) = cs"
proof -
  let ?h = "unat (kb_head k)" and ?t = "unat (kb_tail k)"
  have b: "length (kb_buf k) = 64" "?h < 64" "?t < 64" and nz: "0 \<notin> set (kb_contents k)"
    using ok by (auto simp: kb_ok_def)
  show ?thesis
  proof (cases "kb_head k = kb_tail k")
    case True
    then show ?thesis by (simp add: kb_contents_def kb_len_def kgetc_def)
  next
    case False
    then have ne: "?h \<noteq> ?t" by (metis unsigned_word_eqI)
    let ?k = "k\<lparr>kb_tail := (kb_tail k + 1) mod KB_BUF_SIZE\<rparr>"
    have len: "kb_len k = Suc (kb_len ?k)"
      using kb_len_next_tail [OF b(2,3) ne] by (simp add: kb_len_def unat_next b(3))
    have "[0..<Suc n] = 0 # map Suc [0..<n]" for n by (simp add: map_Suc_upt upt_conv_Cons)
    then have con: "kb_contents k = kb_buf k ! ?t # kb_contents ?k"
      unfolding kb_contents_def len using b(3) by (simp add: unat_next mod_simps comp_def)
    then show ?thesis using False ok nz b by (simp add: kgetc_def kb_ok_def unat_next)
  qed
qed

lemma kflush_contents: "kb_ok k \<Longrightarrow> kb_ok (kflush k) \<and> kb_contents (kflush k) = []"
  by (simp add: kb_ok_def kflush_def kb_contents_def kb_len_def)

definition kb_get :: "kbd \<Rightarrow> u8 option \<times> kbd" where
  "kb_get k = (let (c, k) = kgetc k in (if c = 0 then None else Some c, k))"

interpretation kbq: fifo kb_put kb_get kb_contents kb_ok "\<lambda>c. c \<noteq> 0" 63
proof
  show "kb_ok q \<Longrightarrow> kb_contents q = x # xs \<Longrightarrow>
      fst (kb_get q) = Some x \<and> kb_ok (snd (kb_get q)) \<and> kb_contents (snd (kb_get q)) = xs" for q x xs
    using kgetc_contents [of q] by (simp add: kb_get_def split_def Let_def)
  show "kb_ok q \<Longrightarrow> kb_contents q = [] \<Longrightarrow> kb_get q = (None, q)" for q
    using kgetc_contents [of q] by (simp add: kb_get_def)
  show "kb_ok q \<Longrightarrow> length (kb_contents q) \<le> 63" for q
    using kb_len_le [of q] by (simp add: kb_contents_def)
qed (use kb_put_contents in blast)+


section \<open>Decoding\<close>

text \<open>The two layers of the US layout, by scancode; 0 for keys without a character.\<close>

definition plain_layout :: "u8 list" where
  "plain_layout = [0, 27, 49, 50, 51, 52, 53, 54, 55, 56, 57, 48, 45, 61, 8, 9, 113, 119, 101, 114, 116, 121,
     117, 105, 111, 112, 91, 93, 10, 0, 97, 115, 100, 102, 103, 104, 106, 107, 108, 59, 39, 96, 0, 92, 122,
     120, 99, 118, 98, 110, 109, 44, 46, 47, 0, 42, 0, 32]"

definition shifted_layout :: "u8 list" where
  "shifted_layout = [0, 27, 33, 64, 35, 36, 37, 94, 38, 42, 40, 41, 95, 43, 8, 9, 81, 87, 69, 82, 84, 89,
     85, 73, 79, 80, 123, 125, 10, 0, 65, 83, 68, 70, 71, 72, 74, 75, 76, 58, 34, 126, 0, 124, 90,
     88, 67, 86, 66, 78, 77, 60, 62, 63, 0, 42, 0, 32]"

lemma scancode_ascii_layout: "scancode_ascii = plain_layout"
  by (simp add: scancode_ascii_def plain_layout_def chars_def of_char_def)

lemma map_shift_char: "map (\<lambda>c. if c = 0 then 0 else shift_char c) plain_layout = shifted_layout"
  by (simp add: plain_layout_def shifted_layout_def shift_char_def chars_def of_char_def)

lemma layout_length: "length plain_layout = 58" "length shifted_layout = 58"
  by (simp_all add: plain_layout_def shifted_layout_def)

lemma shift_char_layout:
  "i < 58 \<Longrightarrow> plain_layout ! i \<noteq> 0 \<Longrightarrow> shift_char (plain_layout ! i) = shifted_layout ! i"
  unfolding map_shift_char [symmetric] by (simp add: layout_length del: map_shift_char)

text \<open>What a sequence of scancodes types, from the state of the two flags.\<close>

fun typed :: "bool \<Rightarrow> bool \<Rightarrow> u8 list \<Rightarrow> u8 list" where
  "typed e0 shift [] = []"
| "typed e0 shift (c # cs) =
    (if c = 0xE0 then typed True shift cs
     else if e0 then typed False shift cs
     else if c = 0x2A \<or> c = 0x36 then typed False True cs
     else if c = 0xAA \<or> c = 0xB6 then typed False False cs
     else if unat c < 58 \<and> plain_layout ! unat c \<noteq> 0
     then (if shift then shifted_layout ! unat c else plain_layout ! unat c) # typed False shift cs
     else typed False shift cs)"

definition type_keys :: "u8 list \<Rightarrow> kbd \<Rightarrow> kbd" where
  "type_keys scs k = fold (irqhandler 33) scs k"

lemma kb_flags [simp]:
  "e0_prefix (kb_put c k) = e0_prefix k" "shift_pressed (kb_put c k) = shift_pressed k"
  by (simp_all add: kb_put_def Let_def)

lemma high_bit_layout: "unat (c :: u8) < 58 \<Longrightarrow> c AND 0x80 = 0"
proof -
  assume "unat c < 58"
  then have "\<not> bit (unat c) 7" by (simp add: bit_iff_odd)
  then have "\<not> bit c 7" by (simp add: bit_unsigned_iff)
  then show ?thesis using and_exp_eq_0_iff_not_bit [of c 7] by simp
qed

lemma shifted_layout_nonzero: "i < 58 \<Longrightarrow> plain_layout ! i \<noteq> 0 \<Longrightarrow> shifted_layout ! i \<noteq> 0"
proof -
  have "\<forall>(a, b) \<in> set (zip plain_layout shifted_layout). a \<noteq> 0 \<longrightarrow> b \<noteq> 0"
    by (simp add: plain_layout_def shifted_layout_def)
  moreover assume "i < 58" "plain_layout ! i \<noteq> 0"
  ultimately show ?thesis using layout_length by (force simp: set_zip)
qed


lemma kb_scancode_step:
  assumes "kb_ok k"
  shows "kb_ok (irqhandler 33 c k) \<and>
    take 63 (kb_contents (irqhandler 33 c k) @ typed (e0_prefix (irqhandler 33 c k)) (shift_pressed (irqhandler 33 c k)) cs) =
      take 63 (kb_contents k @ typed (e0_prefix k) (shift_pressed k) (c # cs))"
proof -
  have eq: "kb_contents (k\<lparr>kb_eois := x\<rparr>) = kb_contents k" "kb_ok (k\<lparr>kb_eois := x\<rparr>) = kb_ok k" for k x
    by (simp_all add: kb_ok_def kb_contents_def kb_len_def)
  have fl: "kb_contents (k\<lparr>e0_prefix := b\<rparr>) = kb_contents k" "kb_ok (k\<lparr>e0_prefix := b\<rparr>) = kb_ok k"
    "kb_contents (k\<lparr>shift_pressed := b\<rparr>) = kb_contents k" "kb_ok (k\<lparr>shift_pressed := b\<rparr>) = kb_ok k" for k b
    by (simp_all add: kb_ok_def kb_contents_def kb_len_def)
  have put: "kb_ok (kb_put d k) \<and> take 63 (kb_contents (kb_put d k) @ rest) = take 63 (kb_contents k @ d # rest)"
    if "d \<noteq> 0" for d rest
    using kb_put_contents [OF assms that] by (cases "length (kb_contents k) < 63") auto
  let ?i = "unat c"
  show ?thesis
  proof (cases "c = 0xE0 \<or> e0_prefix k \<or> c \<in> {0x2A, 0xAA, 0x36, 0xB6}")
    case True
    then consider "c = 0xE0" | "c \<noteq> 0xE0" "e0_prefix k" | "\<not> e0_prefix k" "c = 0x2A" | "\<not> e0_prefix k" "c = 0xAA"
      | "\<not> e0_prefix k" "c = 0x36" | "\<not> e0_prefix k" "c = 0xB6" by auto
    then show ?thesis
      by cases (use assms in \<open>simp_all add: irqhandler_def kb_scancode_def Let_def eq fl\<close>)
  next
    case False
    show ?thesis
    proof (cases "?i < 58 \<and> plain_layout ! ?i \<noteq> 0")
      case True
      let ?d = "if shift_pressed k then shifted_layout ! ?i else plain_layout ! ?i"
      have "?d \<noteq> 0" using True shifted_layout_nonzero by simp
      moreover have "irqhandler 33 c k = (kb_put ?d k)\<lparr>kb_eois := PicEoi 1 # kb_eois (kb_put ?d k)\<rparr>"
        using False True high_bit_layout [of c] shift_char_layout [of ?i]
        by (simp add: irqhandler_def kb_scancode_def Let_def scancode_ascii_layout layout_length)
      ultimately show ?thesis using False True put [of ?d] by (simp add: eq)
    next
      case none: False
      have "irqhandler 33 c k = k\<lparr>kb_eois := PicEoi 1 # kb_eois k\<rparr>"
        using False none by (auto simp: irqhandler_def kb_scancode_def Let_def scancode_ascii_layout layout_length)
      then show ?thesis using False none assms by (auto simp: eq)
    qed
  qed
qed

lemma type_keys_contents:
  "kb_ok k \<Longrightarrow> kb_ok (type_keys scs k) \<and>
    kb_contents (type_keys scs k) = take 63 (kb_contents k @ typed (e0_prefix k) (shift_pressed k) scs)"
proof (induction scs arbitrary: k)
  case Nil
  then show ?case using kbq.bound [of k] by (simp add: type_keys_def)
next
  case (Cons c scs)
  note st = kb_scancode_step [OF Cons.prems, of c]
  have "type_keys (c # scs) k = type_keys scs (irqhandler 33 c k)" by (simp add: type_keys_def)
  with Cons.IH [of "irqhandler 33 c k"] st show ?case by simp
qed

text \<open>Reading until the queue is drained, as a program does with \<open>n\<close> calls of \<open>kgetc\<close>.\<close>

fun kgetcs :: "nat \<Rightarrow> kbd \<Rightarrow> u8 list \<times> kbd" where
  "kgetcs 0 k = ([], k)"
| "kgetcs (Suc n) k = (let (c, k) = kgetc k; (cs, k) = kgetcs n k in (c # cs, k))"

lemma kgetcs_gets:
  "kb_ok k \<Longrightarrow> kgetcs n k = (map (\<lambda>x. case x of None \<Rightarrow> 0 | Some c \<Rightarrow> c) (fst (gets kb_get n k)), snd (gets kb_get n k))"
proof (induction n arbitrary: k)
  case (Suc n)
  have "kb_ok (snd (kgetc k))" using kgetc_contents [OF Suc.prems] Suc.prems by (cases "kb_contents k") auto
  moreover have "kb_get k = (if fst (kgetc k) = 0 then None else Some (fst (kgetc k)), snd (kgetc k))"
    by (simp add: kb_get_def split_def Let_def)
  ultimately show ?case using Suc.IH [of "snd (kgetc k)"] by (auto simp: split_def Let_def)
qed simp

definition boot_kbd :: kbd where
  "boot_kbd = \<lparr>kb_buf = replicate 64 0, kb_head = 0, kb_tail = 0, e0_prefix = False, shift_pressed = False, kb_eois = []\<rparr>"

lemma boot_kbd_ok: "kb_ok boot_kbd" "kb_contents boot_kbd = []"
  by (simp_all add: kb_ok_def boot_kbd_def kb_contents_def kb_len_def)

lemma boot_kbd_flags: "e0_prefix boot_kbd = False" "shift_pressed boot_kbd = False"
  by (simp_all add: boot_kbd_def)

section \<open>Properties\<close>

text \<open>C19: what the handler types is what a reader gets: after any sequence of scancodes,
  \<open>n\<close> calls of \<open>kgetc\<close> return, in order, the queued characters followed by those the
  layout gives for the scancodes (with shift and the 0xE0 prefix tracked), up to the 63
  the ring holds, and 0 once it is empty.\<close>

theorem typed_keys_read:
  assumes "kb_ok k"
    and "q = take 63 (kb_contents k @ typed (e0_prefix k) (shift_pressed k) scs)"
  shows "fst (kgetcs n (type_keys scs k)) = take n q @ replicate (n - length q) 0 \<and>
    kb_contents (snd (kgetcs n (type_keys scs k))) = drop n q"
proof -
  note t = type_keys_contents [OF assms(1), of scs]
  from kgetcs_gets [of "type_keys scs k" n] kbq.gets_contents [of "type_keys scs k" n] t assms(2)
  show ?thesis by (simp add: comp_def)
qed

theorem typed_keys_read_witness:
  "fst (kgetcs 4 (type_keys [0x2A, 0x23, 0xA3, 0xAA, 0x17, 0xE0, 0x48, 0x1C] boot_kbd)) = [72, 105, 10, 0]"
  using typed_keys_read [OF boot_kbd_ok(1) refl, of 4 "[0x2A, 0x23, 0xA3, 0xAA, 0x17, 0xE0, 0x48, 0x1C]"]
  by (simp add: boot_kbd_ok(2) boot_kbd_flags plain_layout_def shifted_layout_def)

text \<open>the shifted layer: for each of the 58 scancodes the table of the driver and its
  shift rules give the two layers of the US layout.\<close>

theorem keyboard_layout:
  "scancode_ascii = plain_layout \<and>
    map (\<lambda>c. if c = 0 then 0 else shift_char c) scancode_ascii = shifted_layout"
  by (simp only: scancode_ascii_layout map_shift_char simp_thms)

text \<open>\<open>kflush\<close> empties the queue, and whatever was typed before is never read after it.\<close>

theorem flush_discards:
  assumes "kb_ok k"
  shows "fst (kgetcs n (kflush k)) = replicate n 0 \<and> kb_ok (kflush k)"
  using kflush_contents [OF assms] kgetcs_gets [of "kflush k" n] kbq.gets_contents [of "kflush k" n]
  by (simp add: comp_def)

theorem flush_discards_witness:
  "fst (kgetcs 1 (kflush (type_keys [0x17] boot_kbd))) = [0]"
  using flush_discards [of "type_keys [0x17] boot_kbd" 1] type_keys_contents [OF boot_kbd_ok(1)] by simp

end
