(* ===== verification/Fs.thy ===== *)
theory Fs
  imports FsLayout
begin

text \<open>
  The file system, \<open>kernel/xv6fs/fs.c\<close>, over the buffer cache, with the second half of
  \<open>kernel/Xjail/xv6/xv6fs_bridge.c\<close>: locks, the console device, the current directory and
  mounting.  A \<open>struct inode *\<close> is an index into the inode table and the null pointer is
  \<open>None\<close>; a \<open>struct buf *\<close> is an index into the cache, whose bytes are read again at every
  use, as through the C pointer.  \<open>panic\<close> and \<open>bridge_halt\<close> stop the machine.
\<close>

definition NINODE :: nat where "NINODE = 50"
definition NDEV :: nat where "NDEV = 10"
definition ROOTDEV :: u32 where "ROOTDEV = 0"
definition CONSOLE :: nat where "CONSOLE = 1"
definition T_DIR :: u16 where "T_DIR = 1"
definition T_FILE :: u16 where "T_FILE = 2"
definition T_DEV :: u16 where "T_DEV = 3"

record inode =
  i_dev :: u32
  i_inum :: u32
  i_ref :: int
  i_type :: u16
  i_major :: u16
  i_minor :: u16
  i_nlink :: u16
  i_size :: u32
  i_addrs :: "u32 list"
  i_lock :: bool
  i_valid :: bool

text \<open>The variables of the two files; \<open>kout\<close> is what was printed on the console.\<close>

record fs =
  bc :: bcache
  sb :: superblock
  xv6fs_mounted :: bool
  icache_lock :: bool
  icache :: "inode list"
  devsw :: "nat \<Rightarrow> bool"
  cwd :: "nat option"
  fake_proc_inited :: bool
  kout :: string

section \<open>Buffers, inodes and locks\<close>

definition lift_bc :: "(bcache \<Rightarrow> ('a, bcache) outcome) \<Rightarrow> fs \<Rightarrow> ('a, fs) outcome" where
  "lift_bc m s = (case m (bc s) of Ret x c \<Rightarrow> Ret x (s\<lparr>bc := c\<rparr>) | Halt e c \<Rightarrow> Halt e (s\<lparr>bc := c\<rparr>))"

abbreviation fs_bread :: "u32 \<Rightarrow> u32 \<Rightarrow> fs \<Rightarrow> (nat, fs) outcome" where
  "fs_bread dev b \<equiv> lift_bc (bread dev b)"

abbreviation fs_log_write :: "nat \<Rightarrow> fs \<Rightarrow> (unit, fs) outcome" where
  "fs_log_write bp \<equiv> lift_bc (log_write bp)"

definition bdata :: "nat \<Rightarrow> fs \<Rightarrow> u8 list" where
  "bdata bp s = buf_data bp (bc s)"

definition set_bdata :: "nat \<Rightarrow> u8 list \<Rightarrow> fs \<Rightarrow> fs" where
  "set_bdata bp d s = s\<lparr>bc := set_buf_data bp d (bc s)\<rparr>"

definition ino :: "nat \<Rightarrow> fs \<Rightarrow> inode" where
  "ino ip s = icache s ! ip"

definition upd_ino :: "nat \<Rightarrow> (inode \<Rightarrow> inode) \<Rightarrow> fs \<Rightarrow> fs" where
  "upd_ino ip f s = s\<lparr>icache := (icache s)[ip := f (icache s ! ip)]\<rparr>"

definition acquire :: "fs \<Rightarrow> (unit, fs) outcome" where
  "acquire s = (if icache_lock s then Halt ''acquire()'' s else Ret () (s\<lparr>icache_lock := True\<rparr>))"

definition release :: "fs \<Rightarrow> (unit, fs) outcome" where
  "release s = (if \<not> icache_lock s then Halt ''release()'' s else Ret () (s\<lparr>icache_lock := False\<rparr>))"

definition acquiresleep :: "nat \<Rightarrow> fs \<Rightarrow> (unit, fs) outcome" where
  "acquiresleep ip s =
    (if i_lock (ino ip s) then Halt ''acquiresleep(struct sleeplock *lk)'' s
     else Ret () (upd_ino ip (\<lambda>x. x\<lparr>i_lock := True\<rparr>) s))"

definition releasesleep :: "nat \<Rightarrow> fs \<Rightarrow> (unit, fs) outcome" where
  "releasesleep ip s =
    (if \<not> i_lock (ino ip s) then Halt ''    if (!lk->locked)'' s
     else Ret () (upd_ino ip (\<lambda>x. x\<lparr>i_lock := False\<rparr>) s))"

primrec ofold :: "('x \<Rightarrow> 's \<Rightarrow> (unit, 's) outcome) \<Rightarrow> 'x list \<Rightarrow> 's \<Rightarrow> (unit, 's) outcome" where
  "ofold f [] s = Ret () s"
| "ofold f (x # xs) s = obind (f x s) (\<lambda>_. ofold f xs)"

section \<open>Blocks\<close>

definition readsb :: "u32 \<Rightarrow> fs \<Rightarrow> (superblock, fs) outcome" where
  "readsb dev s = obind (fs_bread dev 1 s) (\<lambda>bp s. Ret (dec_superblock (bdata bp s)) s)"

definition bzero :: "u32 \<Rightarrow> u32 \<Rightarrow> fs \<Rightarrow> (unit, fs) outcome" where
  "bzero dev bno s =
    obind (fs_bread dev bno s) (\<lambda>bp s. fs_log_write bp (set_bdata bp (replicate BSIZE 0) s))"

function first_clear :: "u8 list \<Rightarrow> nat \<Rightarrow> nat \<Rightarrow> nat option" where
  "first_clear d bi n = (if bi < n then (if \<not> map_bit bi d then Some bi else first_clear d (bi + 1) n) else None)"
  by auto
termination by (relation "measure (\<lambda>(d, bi, n). n - bi)") auto

function balloc_from :: "nat \<Rightarrow> u32 \<Rightarrow> nat \<Rightarrow> fs \<Rightarrow> (u32, fs) outcome" where
  "balloc_from n dev b s =
    (if b < n then
       obind (fs_bread dev (BBLOCK (of_nat b) (sb s)) s) (\<lambda>bp s.
         case first_clear (bdata bp s) 0 (min BPB (n - b)) of
           Some bi \<Rightarrow>
             obind (fs_log_write bp (set_bdata bp (set_map_bit bi (bdata bp s)) s)) (\<lambda>_ s.
               obind (bzero dev (of_nat (b + bi)) s) (\<lambda>_ s. Ret (of_nat (b + bi)) s))
         | None \<Rightarrow> balloc_from n dev (b + BPB) s)
     else Halt ''balloc: out of blocks'' s)"
  by auto
termination by (relation "measure (\<lambda>(n, dev, b, s). n - b)") (auto simp: BPB_def BSIZE_def)

definition balloc :: "u32 \<Rightarrow> fs \<Rightarrow> (u32, fs) outcome" where
  "balloc dev s =
    (if \<not> xv6fs_mounted s then Halt ''xv6fs: balloc() with no valid superblock mounted'' s
     else balloc_from (unat (sb_size (sb s))) dev 0 s)"

definition bfree :: "u32 \<Rightarrow> u32 \<Rightarrow> fs \<Rightarrow> (unit, fs) outcome" where
  "bfree dev b s =
    obind (fs_bread dev (BBLOCK b (sb s)) s) (\<lambda>bp s.
      let bi = unat b mod BPB in
      if \<not> map_bit bi (bdata bp s) then Halt ''freeing free block'' s
      else fs_log_write bp (set_bdata bp (clear_map_bit bi (bdata bp s)) s))"

section \<open>Inodes\<close>

definition xv6fs_iinit :: "fs \<Rightarrow> (int, fs) outcome" where
  "xv6fs_iinit s =
    (let s = s\<lparr>icache_lock := False, icache := map (\<lambda>x. x\<lparr>i_lock := False\<rparr>) (icache s)\<rparr> in
     obind (readsb ROOTDEV s) (\<lambda>b s.
       let s = s\<lparr>sb := b\<rparr> in
       if magic b \<noteq> XV6_MAGIC
       then Ret (- 1) (s\<lparr>kout := kout s @ ''xv6fs: sector 1 magic mismatch (got 0x%x, want 0x%x) -- not mounting, disk left untouched'' @ [char_of (10 :: nat)]\<rparr>)
       else Ret 0 (s\<lparr>kout := kout s @ ''sb: size %d nblocks %d ninodes %d nlog %d logstart %d inodestart %d bmap start %d'' @ [char_of (10 :: nat)],
         xv6fs_mounted := True\<rparr>)))"

definition dinode_of :: "inode \<Rightarrow> dinode" where
  "dinode_of x = \<lparr>d_type = i_type x, d_major = i_major x, d_minor = i_minor x, d_nlink = i_nlink x,
    d_size = i_size x, d_addrs = i_addrs x\<rparr>"

definition iupdate :: "nat \<Rightarrow> fs \<Rightarrow> (unit, fs) outcome" where
  "iupdate ip s =
    obind (fs_bread (i_dev (ino ip s)) (IBLOCK (i_inum (ino ip s)) (sb s)) s) (\<lambda>bp s.
      fs_log_write bp (set_bdata bp (put_dinode (i_inum (ino ip s)) (dinode_of (ino ip s)) (bdata bp s)) s))"

definition iget :: "u32 \<Rightarrow> u32 \<Rightarrow> fs \<Rightarrow> (nat, fs) outcome" where
  "iget dev inum s =
    obind (acquire s) (\<lambda>_ s.
      case find (\<lambda>ip. i_ref (ino ip s) > 0 \<and> i_dev (ino ip s) = dev \<and> i_inum (ino ip s) = inum) [0..<NINODE] of
        Some ip \<Rightarrow>
          obind (release (upd_ino ip (\<lambda>x. x\<lparr>i_ref := i_ref x + 1\<rparr>) s)) (\<lambda>_ s. Ret ip s)
      | None \<Rightarrow>
          (case find (\<lambda>ip. i_ref (ino ip s) = 0) [0..<NINODE] of
             None \<Rightarrow> Halt ''iget: no inodes'' s
           | Some ip \<Rightarrow>
               obind (release (upd_ino ip (\<lambda>x. x\<lparr>i_dev := dev, i_inum := inum, i_ref := 1, i_valid := False\<rparr>) s))
                 (\<lambda>_ s. Ret ip s)))"

definition new_dinode :: "u16 \<Rightarrow> dinode" where
  "new_dinode t = \<lparr>d_type = t, d_major = 0, d_minor = 0, d_nlink = 0, d_size = 0, d_addrs = replicate (NDIRECT + 2) 0\<rparr>"

function ialloc_from :: "nat \<Rightarrow> u32 \<Rightarrow> u16 \<Rightarrow> nat \<Rightarrow> fs \<Rightarrow> (nat, fs) outcome" where
  "ialloc_from n dev t inum s =
    (if inum < n then
       obind (fs_bread dev (IBLOCK (of_nat inum) (sb s)) s) (\<lambda>bp s.
         if d_type (get_dinode (of_nat inum) (bdata bp s)) = 0
         then obind (fs_log_write bp (set_bdata bp (put_dinode (of_nat inum) (new_dinode t) (bdata bp s)) s)) (\<lambda>_.
                iget dev (of_nat inum))
         else ialloc_from n dev t (inum + 1) s)
     else Halt ''ialloc: no inodes'' s)"
  by auto
termination by (relation "measure (\<lambda>(n, dev, t, inum, s). n - inum)") auto

definition ialloc :: "u32 \<Rightarrow> u16 \<Rightarrow> fs \<Rightarrow> (nat, fs) outcome" where
  "ialloc dev t s =
    (if \<not> xv6fs_mounted s then Halt ''xv6fs: ialloc() with no valid superblock mounted'' s
     else ialloc_from (unat (ninodes (sb s))) dev t 1 s)"

definition idup :: "nat \<Rightarrow> fs \<Rightarrow> (nat, fs) outcome" where
  "idup ip s =
    obind (acquire s) (\<lambda>_ s.
    obind (release (upd_ino ip (\<lambda>x. x\<lparr>i_ref := i_ref x + 1\<rparr>) s)) (\<lambda>_ s. Ret ip s))"

definition ilock :: "nat option \<Rightarrow> fs \<Rightarrow> (unit, fs) outcome" where
  "ilock p s = (case p of None \<Rightarrow> Halt ''ilock'' s | Some ip \<Rightarrow>
    if i_ref (ino ip s) < 1 then Halt ''ilock'' s
    else obind (acquiresleep ip s) (\<lambda>_ s.
      if \<not> i_valid (ino ip s)
      then obind (fs_bread (i_dev (ino ip s)) (IBLOCK (i_inum (ino ip s)) (sb s)) s) (\<lambda>bp s.
        let d = get_dinode (i_inum (ino ip s)) (bdata bp s);
            s = upd_ino ip (\<lambda>x. x\<lparr>i_type := d_type d, i_major := d_major d, i_minor := d_minor d,
                  i_nlink := d_nlink d, i_size := d_size d, i_addrs := d_addrs d, i_valid := True\<rparr>) s
        in if i_type (ino ip s) = 0 then Halt ''ilock: no type'' s else Ret () s)
      else Ret () s))"

definition iunlock :: "nat option \<Rightarrow> fs \<Rightarrow> (unit, fs) outcome" where
  "iunlock p s = (case p of None \<Rightarrow> Halt ''iunlock'' s | Some ip \<Rightarrow>
    if \<not> i_lock (ino ip s) \<or> i_ref (ino ip s) < 1 then Halt ''iunlock'' s
    else releasesleep ip s)"

text \<open>\<open>if (a[j]) bfree(dev, a[j])\<close> for the 128 entries of the block in buffer \<open>bp\<close>.\<close>

definition free_entries :: "u32 \<Rightarrow> nat \<Rightarrow> fs \<Rightarrow> (unit, fs) outcome" where
  "free_entries dev bp =
    ofold (\<lambda>j s. if get32 (4 * j) (bdata bp s) \<noteq> 0 then bfree dev (get32 (4 * j) (bdata bp s)) s else Ret () s)
      [0..<NINDIRECT]"

definition clear_addr :: "nat \<Rightarrow> nat \<Rightarrow> fs \<Rightarrow> fs" where
  "clear_addr ip k s = upd_ino ip (\<lambda>x. x\<lparr>i_addrs := (i_addrs x)[k := 0]\<rparr>) s"

definition itrunc :: "nat \<Rightarrow> fs \<Rightarrow> (unit, fs) outcome" where
  "itrunc ip s =
    obind (ofold (\<lambda>i s. if i_addrs (ino ip s) ! i \<noteq> 0
        then obind (bfree (i_dev (ino ip s)) (i_addrs (ino ip s) ! i) s) (\<lambda>_ s. Ret () (clear_addr ip i s))
        else Ret () s) [0..<NDIRECT] s) (\<lambda>_ s.
    obind (if i_addrs (ino ip s) ! NDIRECT \<noteq> 0
        then obind (fs_bread (i_dev (ino ip s)) (i_addrs (ino ip s) ! NDIRECT) s) (\<lambda>bp s.
          obind (free_entries (i_dev (ino ip s)) bp s) (\<lambda>_ s.
          obind (bfree (i_dev (ino ip s)) (i_addrs (ino ip s) ! NDIRECT) s) (\<lambda>_ s.
          Ret () (clear_addr ip NDIRECT s))))
        else Ret () s) (\<lambda>_ s.
    obind (if i_addrs (ino ip s) ! (NDIRECT + 1) \<noteq> 0
        then obind (fs_bread (i_dev (ino ip s)) (i_addrs (ino ip s) ! (NDIRECT + 1)) s) (\<lambda>bp s.
          obind (ofold (\<lambda>j s. if get32 (4 * j) (bdata bp s) \<noteq> 0
              then obind (fs_bread (i_dev (ino ip s)) (get32 (4 * j) (bdata bp s)) s) (\<lambda>bp2 s.
                obind (free_entries (i_dev (ino ip s)) bp2 s) (\<lambda>_ s.
                bfree (i_dev (ino ip s)) (get32 (4 * j) (bdata bp s)) s))
              else Ret () s) [0..<NINDIRECT] s) (\<lambda>_ s.
          obind (bfree (i_dev (ino ip s)) (i_addrs (ino ip s) ! (NDIRECT + 1)) s) (\<lambda>_ s.
          Ret () (clear_addr ip (NDIRECT + 1) s))))
        else Ret () s) (\<lambda>_ s.
    iupdate ip (upd_ino ip (\<lambda>x. x\<lparr>i_size := 0\<rparr>) s))))"

definition iput :: "nat \<Rightarrow> fs \<Rightarrow> (unit, fs) outcome" where
  "iput ip s =
    obind (acquiresleep ip s) (\<lambda>_ s.
    obind (if i_valid (ino ip s) \<and> i_nlink (ino ip s) = 0
        then obind (acquire s) (\<lambda>_ s.
          let r = i_ref (ino ip s) in
          obind (release s) (\<lambda>_ s.
          if r = 1
          then obind (itrunc ip s) (\<lambda>_ s.
            obind (iupdate ip (upd_ino ip (\<lambda>x. x\<lparr>i_type := 0\<rparr>) s)) (\<lambda>_ s.
            Ret () (upd_ino ip (\<lambda>x. x\<lparr>i_valid := False\<rparr>) s)))
          else Ret () s))
        else Ret () s) (\<lambda>_ s.
    obind (releasesleep ip s) (\<lambda>_ s.
    obind (acquire s) (\<lambda>_ s.
    release (upd_ino ip (\<lambda>x. x\<lparr>i_ref := i_ref x - 1\<rparr>) s)))))"

definition iunlockput :: "nat \<Rightarrow> fs \<Rightarrow> (unit, fs) outcome" where
  "iunlockput ip s = obind (iunlock (Some ip) s) (\<lambda>_. iput ip)"

section \<open>File contents\<close>

text \<open>\<open>if ((addr = ip->addrs[k]) == 0) ip->addrs[k] = addr = balloc(ip->dev)\<close>\<close>

definition addr_slot :: "nat \<Rightarrow> nat \<Rightarrow> fs \<Rightarrow> (u32, fs) outcome" where
  "addr_slot ip k s =
    (if i_addrs (ino ip s) ! k = 0
     then obind (balloc (i_dev (ino ip s)) s) (\<lambda>addr s.
       Ret addr (upd_ino ip (\<lambda>x. x\<lparr>i_addrs := (i_addrs x)[k := addr]\<rparr>) s))
     else Ret (i_addrs (ino ip s) ! k) s)"

text \<open>\<open>if ((addr = a[k]) == 0) { a[k] = addr = balloc(ip->dev); log_write(bp); }\<close>\<close>

definition entry_slot :: "u32 \<Rightarrow> nat \<Rightarrow> nat \<Rightarrow> fs \<Rightarrow> (u32, fs) outcome" where
  "entry_slot dev bp k s =
    (if get32 (4 * k) (bdata bp s) = 0
     then obind (balloc dev s) (\<lambda>addr s.
       obind (fs_log_write bp (set_bdata bp (put32 (4 * k) addr (bdata bp s)) s)) (\<lambda>_ s. Ret addr s))
     else Ret (get32 (4 * k) (bdata bp s)) s)"

definition bmap :: "nat \<Rightarrow> u32 \<Rightarrow> fs \<Rightarrow> (u32, fs) outcome" where
  "bmap ip bno s =
    (let bn = unat bno in
     if bn < NDIRECT then addr_slot ip bn s
     else let bn = bn - NDIRECT in
     if bn < NINDIRECT
     then obind (addr_slot ip NDIRECT s) (\<lambda>addr s.
       obind (fs_bread (i_dev (ino ip s)) addr s) (\<lambda>bp s.
       entry_slot (i_dev (ino ip s)) bp bn s))
     else let bn = bn - NINDIRECT in
     if bn < NDINDIRECT
     then obind (addr_slot ip (NDIRECT + 1) s) (\<lambda>addr s.
       obind (fs_bread (i_dev (ino ip s)) addr s) (\<lambda>bp s.
       obind (entry_slot (i_dev (ino ip s)) bp (bn div NINDIRECT) s) (\<lambda>addr s.
       obind (fs_bread (i_dev (ino ip s)) addr s) (\<lambda>bp2 s.
       entry_slot (i_dev (ino ip s)) bp2 (bn mod NINDIRECT) s))))
     else Halt ''bmap: out of range'' s)"

record stat =
  st_type :: u16
  st_dev :: u32
  st_ino :: u32
  st_nlink :: u16
  st_size :: u32

definition stati :: "nat \<Rightarrow> fs \<Rightarrow> stat" where
  "stati ip s = \<lparr>st_type = i_type (ino ip s), st_dev = i_dev (ino ip s), st_ino = i_inum (ino ip s),
    st_nlink = i_nlink (ino ip s), st_size = i_size (ino ip s)\<rparr>"

text \<open>The device table has an entry for the console only, whose read gives no bytes.\<close>

definition dev_ready :: "nat \<Rightarrow> fs \<Rightarrow> bool" where
  "dev_ready ip s \<longleftrightarrow> \<not> (sint (i_major (ino ip s)) < 0 \<or> sint (i_major (ino ip s)) \<ge> int NDEV \<or>
    \<not> devsw s (unat (i_major (ino ip s))))"

definition console_read :: "u8 list" where
  "console_read = []"

definition console_write :: "u8 list \<Rightarrow> fs \<Rightarrow> fs" where
  "console_write bs s = s\<lparr>kout := kout s @ map (\<lambda>b. char_of (unat b)) (filter (\<lambda>b. b \<noteq> 0) bs)\<rparr>"

function readi_loop :: "nat \<Rightarrow> nat \<Rightarrow> nat \<Rightarrow> fs \<Rightarrow> (u8 list, fs) outcome" where
  "readi_loop ip off n s =
    (if n = 0 then Ret [] s
     else obind (bmap ip (of_nat (off div BSIZE)) s) (\<lambda>addr s.
       obind (fs_bread (i_dev (ino ip s)) addr s) (\<lambda>bp s.
       let m = min n (BSIZE - off mod BSIZE); bs = get_bytes (off mod BSIZE) m (bdata bp s) in
       obind (readi_loop ip (off + m) (n - m) s) (\<lambda>rest s. Ret (bs @ rest) s))))"
  by auto
termination
  by (relation "measure (\<lambda>(ip, off, n, s). n)") (auto simp: BSIZE_def intro!: diff_less)

text \<open>\<open>readi\<close> and \<open>writei\<close>: \<open>None\<close> is the result \<open>-1\<close>; otherwise the bytes read, the count written.\<close>

definition readi :: "nat \<Rightarrow> u32 \<Rightarrow> u32 \<Rightarrow> fs \<Rightarrow> (u8 list option, fs) outcome" where
  "readi ip off n s =
    (if i_type (ino ip s) = T_DEV
     then (if \<not> dev_ready ip s then Ret None s else Ret (Some console_read) s)
     else if off > i_size (ino ip s) \<or> off + n < off then Ret None s
     else let n = (if off + n > i_size (ino ip s) then i_size (ino ip s) - off else n) in
       obind (readi_loop ip (unat off) (unat n) s) (\<lambda>bs s. Ret (Some bs) s))"

function writei_loop :: "nat \<Rightarrow> nat \<Rightarrow> u8 list \<Rightarrow> fs \<Rightarrow> (unit, fs) outcome" where
  "writei_loop ip off src s =
    (if src = [] then Ret () s
     else obind (bmap ip (of_nat (off div BSIZE)) s) (\<lambda>addr s.
       obind (fs_bread (i_dev (ino ip s)) addr s) (\<lambda>bp s.
       let m = min (length src) (BSIZE - off mod BSIZE) in
       obind (fs_log_write bp (set_bdata bp (put_bytes (off mod BSIZE) (take m src) (bdata bp s)) s)) (\<lambda>_ s.
       writei_loop ip (off + m) (drop m src) s))))"
  by auto
termination
  by (relation "measure (\<lambda>(ip, off, src, s). length src)") (auto simp: BSIZE_def intro!: diff_less)

definition writei :: "nat \<Rightarrow> u8 list \<Rightarrow> u32 \<Rightarrow> fs \<Rightarrow> (u32 option, fs) outcome" where
  "writei ip src off s =
    (let n = of_nat (length src) in
     if i_type (ino ip s) = T_DEV
     then (if \<not> dev_ready ip s then Ret None s else Ret (Some n) (console_write src s))
     else if off > i_size (ino ip s) \<or> off + n < off then Ret None s
     else if unat (off + n) > MAXFILE * BSIZE then Ret None s
     else obind (writei_loop ip (unat off) src s) (\<lambda>_ s.
       if n > 0 \<and> off + n > i_size (ino ip s)
       then obind (iupdate ip (upd_ino ip (\<lambda>x. x\<lparr>i_size := off + n\<rparr>) s)) (\<lambda>_ s. Ret (Some n) s)
       else Ret (Some n) s))"

section \<open>Directories\<close>

definition namecmp :: "u8 list \<Rightarrow> u8 list \<Rightarrow> int" where
  "namecmp s t = strncmp s t DIRSIZ"

text \<open>The offsets of a loop \<open>for (off = 0; off < size; off += sizeof(de))\<close>.\<close>

definition dirent_offsets :: "u32 \<Rightarrow> nat list" where
  "dirent_offsets n = map (\<lambda>k. k * sizeof_dirent) [0..<(unat n + sizeof_dirent - 1) div sizeof_dirent]"

definition read_dirent :: "string \<Rightarrow> nat \<Rightarrow> nat \<Rightarrow> fs \<Rightarrow> (dirent, fs) outcome" where
  "read_dirent msg dp off s =
    obind (readi dp (of_nat off) (of_nat sizeof_dirent) s) (\<lambda>r s.
      case r of
        Some bs \<Rightarrow> if length bs = sizeof_dirent then Ret (dec_dirent bs) s else Halt msg s
      | None \<Rightarrow> Halt msg s)"

primrec dirlookup_from :: "nat \<Rightarrow> u8 list \<Rightarrow> nat list \<Rightarrow> fs \<Rightarrow> ((nat \<times> nat) option, fs) outcome" where
  "dirlookup_from dp name [] s = Ret None s"
| "dirlookup_from dp name (off # offs) s =
    obind (read_dirent ''dirlookup read'' dp off s) (\<lambda>de s.
      if de_inum de = 0 then dirlookup_from dp name offs s
      else if namecmp name (de_name de) = 0
      then obind (iget (i_dev (ino dp s)) (ucast (de_inum de)) s) (\<lambda>ip s. Ret (Some (ip, off)) s)
      else dirlookup_from dp name offs s)"

text \<open>The inode and the offset of its entry, the \<open>poff\<close> of the source.\<close>

definition dirlookup :: "nat \<Rightarrow> u8 list \<Rightarrow> fs \<Rightarrow> ((nat \<times> nat) option, fs) outcome" where
  "dirlookup dp name s =
    (if i_type (ino dp s) \<noteq> T_DIR then Halt ''dirlookup not DIR'' s
     else dirlookup_from dp name (dirent_offsets (i_size (ino dp s))) s)"

text \<open>The offset of the first free entry, or the end of the directory.\<close>

primrec free_dirent :: "nat \<Rightarrow> nat list \<Rightarrow> nat \<Rightarrow> fs \<Rightarrow> (nat, fs) outcome" where
  "free_dirent dp [] end_off s = Ret end_off s"
| "free_dirent dp (off # offs) end_off s =
    obind (read_dirent ''dirlink read'' dp off s) (\<lambda>de s.
      if de_inum de = 0 then Ret off s else free_dirent dp offs (off + sizeof_dirent) s)"

definition dirlink :: "nat \<Rightarrow> u8 list \<Rightarrow> u32 \<Rightarrow> fs \<Rightarrow> (int, fs) outcome" where
  "dirlink dp name inum s =
    obind (dirlookup dp name s) (\<lambda>r s.
      case r of
        Some (ip, _) \<Rightarrow> obind (iput ip s) (\<lambda>_ s. Ret (- 1) s)
      | None \<Rightarrow>
          obind (free_dirent dp (dirent_offsets (i_size (ino dp s))) 0 s) (\<lambda>off s.
          let de = \<lparr>de_inum = ucast inum, de_name = strncpy name DIRSIZ\<rparr> in
          obind (writei dp (enc_dirent de) (of_nat off) s) (\<lambda>r s.
            if r = Some (of_nat sizeof_dirent) then Ret 0 s else Halt ''dirlink'' s)))"

section \<open>Paths\<close>

text \<open>A path or a name is the bytes of a C string before its terminator.  \<open>skipelem\<close> gives
  the contents of \<open>name\<close> and the rest of the path.\<close>

abbreviation slash :: u8 where "slash \<equiv> 47"

definition skipelem :: "u8 list \<Rightarrow> (u8 list \<times> u8 list) option" where
  "skipelem path =
    (let s = dropWhile (\<lambda>c. c = slash) path in
     if s = [] then None
     else Some (take DIRSIZ (takeWhile (\<lambda>c. c \<noteq> slash) s),
       dropWhile (\<lambda>c. c = slash) (dropWhile (\<lambda>c. c \<noteq> slash) s)))"

lemma skipelem_shorter: "skipelem path = Some (name, rest) \<Longrightarrow> length rest < length path"
proof -
  assume "skipelem path = Some (name, rest)"
  then obtain c s where s: "dropWhile (\<lambda>c. c = slash) path = c # s"
    "rest = dropWhile (\<lambda>c. c = slash) (dropWhile (\<lambda>c. c \<noteq> slash) (c # s))"
    by (cases "dropWhile (\<lambda>c. c = slash) path") (auto simp: skipelem_def Let_def)
  have "c \<noteq> slash" using s(1) hd_dropWhile [of "\<lambda>c. c = slash" path] by auto
  then have "length rest \<le> length s"
    using s(2) length_dropWhile_le [of "\<lambda>c. c = slash" "dropWhile (\<lambda>c. c \<noteq> slash) s"]
      length_dropWhile_le [of "\<lambda>c. c \<noteq> slash" s] by simp
  moreover have "length (c # s) \<le> length path"
    using length_dropWhile_le [of "\<lambda>c. c = slash" path] by (simp add: s(1))
  ultimately show ?thesis by simp
qed

text \<open>The loop of \<open>namex\<close>: the inode reached and the contents of \<open>name\<close>.\<close>

function namex_loop :: "bool \<Rightarrow> u8 list \<Rightarrow> u8 list \<Rightarrow> nat \<Rightarrow> fs \<Rightarrow> ((nat \<times> u8 list) option, fs) outcome" where
  "namex_loop parent path name ip s =
    (case skipelem path of
       None \<Rightarrow> if parent then obind (iput ip s) (\<lambda>_ s. Ret None s) else Ret (Some (ip, name)) s
     | Some (name, rest) \<Rightarrow>
         obind (ilock (Some ip) s) (\<lambda>_ s.
         if i_type (ino ip s) \<noteq> T_DIR then obind (iunlockput ip s) (\<lambda>_ s. Ret None s)
         else if parent \<and> rest = [] then obind (iunlock (Some ip) s) (\<lambda>_ s. Ret (Some (ip, name)) s)
         else obind (dirlookup ip name s) (\<lambda>r s.
           case r of
             None \<Rightarrow> obind (iunlockput ip s) (\<lambda>_ s. Ret None s)
           | Some (next, _) \<Rightarrow> obind (iunlockput ip s) (\<lambda>_ s. namex_loop parent rest name next s))))"
  by auto
termination
  by (relation "measure (\<lambda>(parent, path, name, ip, s). length path)") (auto intro: skipelem_shorter)

declare first_clear.simps [simp del] balloc_from.simps [simp del] ialloc_from.simps [simp del]
  readi_loop.simps [simp del] writei_loop.simps [simp del] namex_loop.simps [simp del]

text \<open>Paths from the root need no current directory; \<open>myproc\<close> starts it at the root, and from
  then on it is never null.\<close>

definition namex_root :: "bool \<Rightarrow> u8 list \<Rightarrow> fs \<Rightarrow> ((nat \<times> u8 list) option, fs) outcome" where
  "namex_root parent path s = obind (iget ROOTDEV ROOTINO s) (\<lambda>ip. namex_loop parent path [] ip)"

definition myproc :: "fs \<Rightarrow> (unit, fs) outcome" where
  "myproc s =
    (if fake_proc_inited s then Ret () s
     else obind (namex_root False [slash] s) (\<lambda>r s.
       case r of
         None \<Rightarrow> Halt ''root inode not found'' (s\<lparr>cwd := None\<rparr>)
       | Some (ip, _) \<Rightarrow> Ret () (s\<lparr>cwd := Some ip, fake_proc_inited := True\<rparr>)))"

definition namex :: "bool \<Rightarrow> u8 list \<Rightarrow> fs \<Rightarrow> ((nat \<times> u8 list) option, fs) outcome" where
  "namex parent path s =
    (if path \<noteq> [] \<and> hd path = slash then namex_root parent path s
     else obind (myproc s) (\<lambda>_ s.
       case cwd s of
         None \<Rightarrow> Halt ''no current directory'' s
       | Some d \<Rightarrow> obind (idup d s) (\<lambda>ip. namex_loop parent path [] ip)))"

definition namei :: "u8 list \<Rightarrow> fs \<Rightarrow> (nat option, fs) outcome" where
  "namei path s = obind (namex False path s) (\<lambda>r s. Ret (map_option fst r) s)"

definition nameiparent :: "u8 list \<Rightarrow> fs \<Rightarrow> ((nat \<times> u8 list) option, fs) outcome" where
  "nameiparent path s = namex True path s"

section \<open>The bridge\<close>

definition xv6fs_bridge_set_cwd :: "nat \<Rightarrow> fs \<Rightarrow> (unit, fs) outcome" where
  "xv6fs_bridge_set_cwd ip s =
    obind (myproc s) (\<lambda>_ s.
    obind (case cwd s of None \<Rightarrow> Ret () s | Some old \<Rightarrow> iput old s) (\<lambda>_ s.
    Ret () (s\<lparr>cwd := Some ip\<rparr>)))"

definition bytes_string :: "u8 list \<Rightarrow> string" where
  "bytes_string bs = map (\<lambda>b. char_of (unat b)) bs"

definition xv6fs_bridge_read_file :: "u8 list \<Rightarrow> u32 \<Rightarrow> fs \<Rightarrow> (u8 list option, fs) outcome" where
  "xv6fs_bridge_read_file path maxlen s =
    obind (namei path s) (\<lambda>r s.
      case r of
        None \<Rightarrow> Ret None (s\<lparr>kout := kout s @ ''[xv6fsbridge] file not found or u real stupid: '' @
          bytes_string path @ [char_of (10 :: nat)]\<rparr>)
      | Some ip \<Rightarrow>
          obind (ilock (Some ip) s) (\<lambda>_ s.
          obind (readi ip 0 maxlen s) (\<lambda>n s.
          obind (iunlock (Some ip) s) (\<lambda>_ s.
          obind (iput ip s) (\<lambda>_ s. Ret n s)))))"

definition xv6fs_bridge_init :: "bool \<Rightarrow> fs \<Rightarrow> fs" where
  "xv6fs_bridge_init dev s = s\<lparr>bc := (bc s)\<lparr>ahci_dev := dev\<rparr>\<rparr>"

definition devsw_init :: "fs \<Rightarrow> fs" where
  "devsw_init s = s\<lparr>devsw := (devsw s)(CONSOLE := True)\<rparr>"

definition xv6fs_full_init :: "bool \<Rightarrow> fs \<Rightarrow> (int, fs) outcome" where
  "xv6fs_full_init dev s = xv6fs_iinit (devsw_init (xv6fs_bridge_init dev s))"

end
