(* ===== verification/FsBlocks.thy ===== *)
theory FsBlocks
  imports Fs
begin

text \<open>
  What the block operations of \<open>fs.c\<close> do to the disk when the controller works:
  allocation, release, inode updates.  Everything is stated on the disk itself, through
  the contract of the buffer cache.
\<close>

section \<open>Steps on the disk\<close>

definition fs_ok :: "fs \<Rightarrow> bool" where
  "fs_ok s \<longleftrightarrow> cache_ok (bc s) \<and> disk_up (bc s)"

abbreviation dsk :: "fs \<Rightarrow> u32 \<Rightarrow> u8 list" where
  "dsk s \<equiv> disk (bc s)"

text \<open>From \<open>s\<close> to \<open>t\<close> only the cache changed, and the disk became \<open>d\<close>.\<close>

definition to_disk :: "fs \<Rightarrow> fs \<Rightarrow> (u32 \<Rightarrow> u8 list) \<Rightarrow> bool" where
  "to_disk s t d \<longleftrightarrow> (\<exists>c. t = s\<lparr>bc := c\<rparr> \<and> cache_ok c \<and> disk_up c \<and> disk c = d)"

lemma to_disk_sel:
  assumes "to_disk s t d"
  shows "sb t = sb s" "xv6fs_mounted t = xv6fs_mounted s" "icache t = icache s" "icache_lock t = icache_lock s"
    "ino ip t = ino ip s" "dsk t = d" "fs_ok t" "devsw t = devsw s" "cwd t = cwd s" "kout t = kout s"
    "fake_proc_inited t = fake_proc_inited s"
  using assms by (auto simp: to_disk_def ino_def fs_ok_def)

lemma to_disk_trans: "to_disk s t d \<Longrightarrow> to_disk t u d' \<Longrightarrow> to_disk s u d'"
  by (auto simp: to_disk_def)

lemma to_disk_refl: "fs_ok s \<Longrightarrow> to_disk s s (dsk s)"
  unfolding to_disk_def fs_ok_def by (intro exI [of _ "bc s"]) simp

lemma to_disk_intro: "cache_ok c \<Longrightarrow> disk_up c \<Longrightarrow> disk c = d \<Longrightarrow> to_disk s (s\<lparr>bc := c\<rparr>) d"
  unfolding to_disk_def by blast

lemma fs_bread_ok:
  assumes "fs_ok s"
  obtains i t where "fs_bread 0 b s = Ret i t" "to_disk s t (dsk s)" "holds (bc t) i b" "bdata i t = dsk s b"
proof -
  have up: "cache_ok (bc s)" "ahci_dev (bc s)" "\<not> faulty (bc s) b" using assms by (auto simp: fs_ok_def disk_up_def)
  obtain i c where "bread 0 b (bc s) = Ret i c" "holds c i b" "disk c = dsk s" "faulty c = faulty (bc s)"
      "ahci_dev c = ahci_dev (bc s)"
    using read_block [OF up] by blast
  then show ?thesis
    using that [of i "s\<lparr>bc := c\<rparr>"] to_disk_intro [of c "dsk s" s] assms holds_data [of c i b]
    by (simp add: lift_bc_def fs_ok_def disk_up_def holds_def bdata_def)
qed

lemma fs_write_ok:
  assumes "fs_ok s" "holds (bc s) i b" "length d = BSIZE"
  obtains t where "fs_log_write i (set_bdata i d s) = Ret () t" "to_disk s t ((dsk s)(b := d))" "holds (bc t) i b"
proof -
  have up: "ahci_dev (bc s)" "\<not> faulty (bc s) b" using assms by (auto simp: fs_ok_def disk_up_def)
  obtain c where "log_write i (set_buf_data i d (bc s)) = Ret () c" "holds c i b" "disk c = (dsk s)(b := d)"
      "faulty c = faulty (bc s)" "ahci_dev c = ahci_dev (bc s)"
    using write_held [OF assms(2,3) up] by blast
  then show ?thesis
    using that [of "s\<lparr>bc := c\<rparr>"] to_disk_intro [of c "(dsk s)(b := d)" s] assms
    by (simp add: lift_bc_def set_bdata_def fs_ok_def disk_up_def holds_def)
qed

lemma dsk_length: "fs_ok s \<Longrightarrow> length (dsk s b) = BSIZE"
  by (simp add: fs_ok_def cache_ok_def)

text \<open>Read a block, compute new bytes from the old, write them: the shape of most operations.\<close>

lemma read_modify_write:
  assumes s: "fs_ok s" and g: "\<And>t i. to_disk s t (dsk s) \<Longrightarrow> bdata i t = dsk s b \<Longrightarrow> f i t = g (dsk s b)"
    and l: "length (g (dsk s b)) = BSIZE"
  obtains t where
    "obind (fs_bread 0 b s) (\<lambda>i t. fs_log_write i (set_bdata i (f i t) t)) = Ret () t"
    "to_disk s t ((dsk s)(b := g (dsk s b)))"
proof -
  obtain i t where t: "fs_bread 0 b s = Ret i t" "to_disk s t (dsk s)" "holds (bc t) i b" "bdata i t = dsk s b"
    using fs_bread_ok [OF s] by blast
  obtain u where u: "fs_log_write i (set_bdata i (g (dsk s b)) t) = Ret () u" "to_disk t u ((dsk t)(b := g (dsk s b)))"
    using fs_write_ok [OF to_disk_sel(7) [OF t(2)] t(3) l] by blast
  show ?thesis
    using that [of u] t u to_disk_trans [OF t(2) u(2)] g [OF t(2,4)] to_disk_sel(6) [OF t(2)] by simp
qed

section \<open>Blocks\<close>

lemma bzero_ok:
  assumes "fs_ok s"
  obtains t where "bzero 0 b s = Ret () t" "to_disk s t ((dsk s)(b := replicate BSIZE 0))"
  by (rule read_modify_write [OF assms, where f = "\<lambda>_ _. replicate BSIZE 0" and g = "\<lambda>_. replicate BSIZE 0"
        and b = b]) (use that in \<open>simp_all add: bzero_def\<close>)

lemma readsb_ok:
  assumes "fs_ok s"
  obtains t where "readsb 0 s = Ret (dec_superblock (dsk s 1)) t" "to_disk s t (dsk s)"
proof -
  obtain i t where "fs_bread 0 1 s = Ret i t" "to_disk s t (dsk s)" "bdata i t = dsk s 1"
    using fs_bread_ok [OF assms] by blast
  then show ?thesis using that [of t] by (simp add: readsb_def)
qed

lemma first_clear_Some:
  "first_clear d bi n = Some k \<longleftrightarrow> bi \<le> k \<and> k < n \<and> \<not> map_bit k d \<and> (\<forall>j. bi \<le> j \<and> j < k \<longrightarrow> map_bit j d)"
proof (induction d bi n rule: first_clear.induct)
  case (1 d bi n)
  show ?case
  proof (cases "bi < n")
    case False
    then show ?thesis by (simp add: first_clear.simps)
  next
    case lt: True
    show ?thesis
    proof (cases "map_bit bi d")
      case False
      have "(k = bi) \<longleftrightarrow> bi \<le> k \<and> k < n \<and> \<not> map_bit k d \<and> (\<forall>j. bi \<le> j \<and> j < k \<longrightarrow> map_bit j d)"
        using lt False by (metis le_antisym le_refl not_le)
      then show ?thesis using lt False by (auto simp: first_clear.simps)
    next
      case True
      have "(\<forall>j. bi \<le> j \<and> j < k \<longrightarrow> map_bit j d) \<longleftrightarrow> (\<forall>j. bi + 1 \<le> j \<and> j < k \<longrightarrow> map_bit j d)"
        using True by (metis Suc_eq_plus1 Suc_leI le_neq_implies_less le_SucI le_trans less_imp_le_nat Suc_leD)
      moreover have "k \<noteq> bi" if "\<not> map_bit k d" using that True by blast
      ultimately show ?thesis
        using lt True 1 by (subst first_clear.simps) (auto simp: Suc_le_eq le_less)
    qed
  qed
qed

lemma first_clear_None: "first_clear d bi n = None \<longleftrightarrow> (\<forall>j. bi \<le> j \<and> j < n \<longrightarrow> map_bit j d)"
proof (induction d bi n rule: first_clear.induct)
  case (1 d bi n)
  have "(\<forall>j. bi \<le> j \<and> j < n \<longrightarrow> map_bit j d) \<longleftrightarrow> map_bit bi d \<and> (\<forall>j. bi + 1 \<le> j \<and> j < n \<longrightarrow> map_bit j d)"
    if "bi < n" using that by (metis Suc_eq_plus1 Suc_leI le_neq_implies_less le_refl Suc_leD)
  then show ?case using 1 by (subst first_clear.simps) auto
qed

text \<open>Block \<open>k\<close> is marked in use in the free map of the disk.\<close>

definition used :: "(u32 \<Rightarrow> u8 list) \<Rightarrow> superblock \<Rightarrow> nat \<Rightarrow> bool" where
  "used d sbk k \<longleftrightarrow> map_bit (k mod BPB) (d (BBLOCK (of_nat k) sbk))"

text \<open>The disk after block \<open>k\<close> was marked and cleared.\<close>

definition take_block :: "superblock \<Rightarrow> nat \<Rightarrow> (u32 \<Rightarrow> u8 list) \<Rightarrow> u32 \<Rightarrow> u8 list" where
  "take_block sbk k d =
    d(BBLOCK (of_nat k) sbk := set_map_bit (k mod BPB) (d (BBLOCK (of_nat k) sbk)), of_nat k := replicate BSIZE 0)"

lemma BBLOCK_same:
  assumes "b mod BPB = 0" "j < BPB" "b + j < 2 ^ 32"
  shows "BBLOCK (of_nat (b + j)) sbk = BBLOCK (of_nat b) sbk"
proof -
  have "(of_nat (b + j) :: u32) div of_nat BPB = of_nat b div of_nat BPB"
  proof (rule word_unat_eq_iff [THEN iffD2])
    have p: "unat (of_nat BPB :: u32) = BPB" by (simp add: BPB_def BSIZE_def)
    have "(b + j) div BPB = b div BPB"
      using assms(1,2) by (auto simp: BPB_def BSIZE_def)
    then show "unat ((of_nat (b + j) :: u32) div of_nat BPB) = unat ((of_nat b :: u32) div of_nat BPB)"
      using assms(3) p unat_of_nat_u32 [of "b + j"] unat_of_nat_u32 [of b] by (simp only: unat_div)
  qed
  then show ?thesis by (simp add: BBLOCK_def)
qed

lemma balloc_from_ok:
  assumes "fs_ok s" "b mod BPB = 0" "n < 2 ^ 32" "k < n" "\<not> used (dsk s) (sb s) k"
    "\<forall>j. b \<le> j \<and> j < k \<longrightarrow> used (dsk s) (sb s) j" "b \<le> k"
  shows "\<exists>t. balloc_from n 0 b s = Ret (of_nat k) t \<and> to_disk s t (take_block (sb s) k (dsk s))"
  using assms
proof (induction "n - b" arbitrary: b s rule: less_induct)
  case less
  let ?B = "BBLOCK (of_nat b) (sb s)"
  have bp: "0 < BPB" by (simp add: BPB_def BSIZE_def)
  obtain i s1 where s1: "fs_bread 0 ?B s = Ret i s1" "to_disk s s1 (dsk s)" "holds (bc s1) i ?B" "bdata i s1 = dsk s ?B"
    using fs_bread_ok [OF less.prems(1)] by blast
  note s1s = to_disk_sel [OF s1(2)]
  have us: "used (dsk s) (sb s) (b + j) \<longleftrightarrow> map_bit j (dsk s ?B)" if "j < BPB" "b + j < n" for j
  proof -
    have "BBLOCK (of_nat (b + j)) (sb s) = ?B"
      by (rule BBLOCK_same) (use that less.prems in linarith)+
    moreover have "(b + j) mod BPB = j" using that less.prems(2) by (metis mod_add_left_eq mod_less add_0)
    ultimately show ?thesis by (simp only: used_def)
  qed
  have bn: "b < n" using less.prems by simp
  show ?case
  proof (cases "k - b < BPB")
    case True
    let ?j = "k - b"
    have k: "k = b + ?j" using less.prems by simp
    have "first_clear (dsk s ?B) 0 (min BPB (n - b)) = Some ?j"
      unfolding first_clear_Some
    proof (intro conjI allI impI)
      show "0 \<le> ?j" "?j < min BPB (n - b)" using True less.prems by auto
      show "\<not> map_bit ?j (dsk s ?B)" using us [of ?j] True less.prems(4,5) k by metis
      fix j assume j: "0 \<le> j \<and> j < ?j"
      then have "used (dsk s) (sb s) (b + j)" using less.prems(6) by simp
      then show "map_bit j (dsk s ?B)" using us [of j] j True less.prems(4) by simp
    qed
    moreover have "BBLOCK (of_nat (b + ?j)) (sb s) = ?B"
      by (rule BBLOCK_same) (use True less.prems in linarith)+
    then have B: "BBLOCK (of_nat k) (sb s) = ?B" using k by metis
    have "(b + ?j) mod BPB = ?j" using less.prems(2) True by (metis add_0 mod_add_left_eq mod_less)
    then have kj: "k mod BPB = ?j" using k by metis
    obtain s2 where s2: "fs_log_write i (set_bdata i (set_map_bit ?j (dsk s ?B)) s1) = Ret () s2"
        "to_disk s1 s2 ((dsk s1)(?B := set_map_bit ?j (dsk s ?B)))"
      using fs_write_ok [OF s1s(7) s1(3), of "set_map_bit ?j (dsk s ?B)"] dsk_length [OF less.prems(1)] by auto
    obtain s3 where s3: "bzero 0 (of_nat k) s2 = Ret () s3" "to_disk s2 s3 ((dsk s2)(of_nat k := replicate BSIZE 0))"
      using bzero_ok [OF to_disk_sel(7) [OF s2(2)]] by blast
    have "to_disk s s3 (take_block (sb s) k (dsk s))"
      using to_disk_trans [OF s1(2) to_disk_trans [OF s2(2) s3(2)]] s1s(6) to_disk_sel(6) [OF s2(2)]
      by (simp add: take_block_def B kj)
    then show ?thesis
      using bn s1 s2 s3 calculation k by (subst balloc_from.simps) (simp add: Let_def)
  next
    case False
    have "first_clear (dsk s ?B) 0 (min BPB (n - b)) = None"
      unfolding first_clear_None
    proof (intro allI impI)
      fix j assume j: "0 \<le> j \<and> j < min BPB (n - b)"
      then have "b + j < k" using False by linarith
      then have "used (dsk s) (sb s) (b + j)" using less.prems(6) by simp
      then show "map_bit j (dsk s ?B)" using us [of j] j by linarith
    qed
    moreover have "\<exists>t. balloc_from n 0 (b + BPB) s1 = Ret (of_nat k) t \<and> to_disk s1 t (take_block (sb s1) k (dsk s1))"
      by (rule less.hyps) (use less.prems False bp bn in \<open>auto simp: s1s\<close>)
    ultimately show ?thesis
      using bn s1 s1s to_disk_trans [OF s1(2)] by (subst balloc_from.simps) auto
  qed
qed

lemma balloc_ok:
  assumes "fs_ok s" "xv6fs_mounted s" "k < unat (sb_size (sb s))" "\<not> used (dsk s) (sb s) k"
    "\<forall>j < k. used (dsk s) (sb s) j"
  obtains t where "balloc 0 s = Ret (of_nat k) t" "to_disk s t (take_block (sb s) k (dsk s))"
proof -
  have "unat (sb_size (sb s)) < 2 ^ 32" using unsigned_less [of "sb_size (sb s)"] by simp
  from balloc_from_ok [OF assms(1) _ this assms(3,4), of 0] assms(2,5) that show ?thesis
    by (auto simp: balloc_def)
qed

lemma bfree_ok:
  assumes "fs_ok s" "used (dsk s) (sb s) (unat b)"
  obtains t where "bfree 0 b s = Ret () t"
    "to_disk s t ((dsk s)(BBLOCK b (sb s) := clear_map_bit (unat b mod BPB) (dsk s (BBLOCK b (sb s)))))"
proof -
  let ?B = "BBLOCK b (sb s)"
  obtain i s1 where s1: "fs_bread 0 ?B s = Ret i s1" "to_disk s s1 (dsk s)" "holds (bc s1) i ?B" "bdata i s1 = dsk s ?B"
    using fs_bread_ok [OF assms(1)] by blast
  let ?d = "clear_map_bit (unat b mod BPB) (dsk s ?B)"
  obtain t where t: "fs_log_write i (set_bdata i ?d s1) = Ret () t" "to_disk s1 t ((dsk s1)(?B := ?d))"
    using fs_write_ok [OF to_disk_sel(7) [OF s1(2)] s1(3), of ?d] dsk_length [OF assms(1)] by auto
  show ?thesis
    using that [of t] s1 t to_disk_trans [OF s1(2) t(2)] to_disk_sel(6) [OF s1(2)] assms(2)
    by (simp add: bfree_def Let_def used_def)
qed

section \<open>Inodes on the disk\<close>

definition disk_inode :: "(u32 \<Rightarrow> u8 list) \<Rightarrow> superblock \<Rightarrow> u32 \<Rightarrow> dinode" where
  "disk_inode d sbk i = get_dinode i (d (IBLOCK i sbk))"

definition store_inode :: "superblock \<Rightarrow> u32 \<Rightarrow> dinode \<Rightarrow> (u32 \<Rightarrow> u8 list) \<Rightarrow> u32 \<Rightarrow> u8 list" where
  "store_inode sbk i x d = d(IBLOCK i sbk := put_dinode i x (d (IBLOCK i sbk)))"

lemma disk_inode_store:
  assumes "\<And>b. length (d b) = BSIZE" "dinode_ok x"
  shows "disk_inode (store_inode sbk i x d) sbk j = (if j = i then x else disk_inode d sbk j)"
proof (cases "IBLOCK j sbk = IBLOCK i sbk")
  case True
  then have "i div of_nat IPB = j div of_nat IPB" by (simp add: IBLOCK_def)
  then show ?thesis
    using get_put_dinode [OF assms(2)] get_put_dinode_other [OF assms(2)] assms(1) True
    by (auto simp: disk_inode_def store_inode_def)
next
  case False
  then show ?thesis by (auto simp: disk_inode_def store_inode_def)
qed

lemma iupdate_ok:
  assumes "fs_ok s" "i_dev (ino ip s) = 0" "length (i_addrs (ino ip s)) = NDIRECT + 2"
  obtains t where "iupdate ip s = Ret () t"
    "to_disk s t (store_inode (sb s) (i_inum (ino ip s)) (dinode_of (ino ip s)) (dsk s))"
proof -
  let ?x = "ino ip s"
  have "dinode_ok (dinode_of ?x)" using assms(3) by (simp add: dinode_ok_def dinode_of_def)
  let ?g = "put_dinode (i_inum ?x) (dinode_of ?x)"
  let ?f = "\<lambda>i t. put_dinode (i_inum (ino ip t)) (dinode_of (ino ip t)) (bdata i t)"
  have l: "length (?g (dsk s (IBLOCK (i_inum ?x) (sb s)))) = BSIZE"
    using \<open>dinode_ok (dinode_of ?x)\<close> dsk_length [OF assms(1)] by simp
  have g: "?f i t = ?g (dsk s b)" if "to_disk s t (dsk s)" "bdata i t = dsk s b" for t i b
    using that to_disk_sel(5) [OF that(1)] by simp
  obtain t where t: "obind (fs_bread 0 (IBLOCK (i_inum ?x) (sb s)) s) (\<lambda>i t. fs_log_write i (set_bdata i (?f i t) t)) = Ret () t"
    "to_disk s t (store_inode (sb s) (i_inum ?x) (dinode_of ?x) (dsk s))"
    by (rule read_modify_write [OF assms(1), where f = ?f and g = ?g and b = "IBLOCK (i_inum ?x) (sb s)"])
      (use g l in \<open>simp_all add: store_inode_def\<close>)
  show ?thesis using that [OF _ t(2)] t(1) assms(2) by (simp add: iupdate_def)
qed

section \<open>Allocation and release\<close>

lemma used_take_block:
  assumes "\<And>b. length (d b) = BSIZE" "BBLOCK (of_nat j) sbk \<noteq> of_nat k" "j < 2 ^ 32" "k < 2 ^ 32"
  shows "used (take_block sbk k d) sbk j \<longleftrightarrow> j = k \<or> used d sbk j"
proof (cases "BBLOCK (of_nat j) sbk = BBLOCK (of_nat k) sbk")
  case True
  have "k mod BPB div 8 < BSIZE"
    using mod_less_divisor [of 4096 k] by (simp add: BPB_def BSIZE_def)
  moreover have "j mod BPB = k mod BPB \<longleftrightarrow> j = k"
  proof
    assume m: "j mod BPB = k mod BPB"
    have "unat ((of_nat j :: u32) div of_nat BPB) = unat ((of_nat k :: u32) div of_nat BPB)"
      using True by (simp add: BBLOCK_def)
    then have "j div BPB = k div BPB"
      using unat_of_nat_u32 [OF assms(3)] unat_of_nat_u32 [OF assms(4)] unat_of_nat_u32 [of BPB]
      by (simp add: unat_div BPB_def BSIZE_def)
    then show "j = k" using m by (metis div_mult_mod_eq)
  qed simp
  ultimately show ?thesis
    using assms(1,2) True by (simp add: used_def take_block_def map_bit_set)
next
  case False
  then have "j \<noteq> k" by auto
  then show ?thesis using assms(2) False by (simp add: used_def take_block_def)
qed

text \<open>A disk of eight blocks: inodes in block 2, the free map in block 3, blocks 0 to 3 in use.\<close>

definition small_disk :: "u32 \<Rightarrow> u8 list" where
  "small_disk b = (if b = 3 then 15 # replicate 511 0 else replicate 512 0)"

definition small_sb :: superblock where
  "small_sb = \<lparr>magic = XV6_MAGIC, sb_size = 8, nblocks = 4, ninodes = 7, nlog = 0, logstart = 2, inodestart = 2,
    bmapstart = 3\<rparr>"

definition no_inode :: inode where
  "no_inode = \<lparr>i_dev = 0, i_inum = 0, i_ref = 0, i_type = 0, i_major = 0, i_minor = 0, i_nlink = 0, i_size = 0,
    i_addrs = replicate 14 0, i_lock = False, i_valid = False\<rparr>"

definition small_fs :: fs where
  "small_fs = \<lparr>bc = empty_cache\<lparr>disk := small_disk\<rparr>, sb = small_sb, xv6fs_mounted = True, icache_lock = False,
    icache = replicate 50 no_inode, devsw = (\<lambda>_. False), cwd = None, fake_proc_inited = False, kout = []\<rparr>"

lemma small_fs_ok: "fs_ok small_fs"
  by (simp add: fs_ok_def small_fs_def cache_ok_def empty_cache_def XV6FS_NBUF_def BSIZE_def valid_buf_def
      disk_up_def small_disk_def)

lemma small_disk_used: "used small_disk sbk j \<longleftrightarrow> j < 4" if "j < 8" "bmapstart sbk = 3"
proof -
  have "BBLOCK (of_nat j) sbk = 3"
    using BBLOCK_same [of 0 j sbk] that by (simp add: BPB_def BSIZE_def BBLOCK_def)
  moreover have "j div 8 = 0" "j mod 8 = j" "j mod 4096 = j" using that(1) by auto
  moreover have "bit (15 :: u8) j \<longleftrightarrow> j < 4"
  proof -
    have "(15 :: u8) = mask 4" by (simp add: mask_eq_exp_minus_1)
    then show ?thesis by (simp only: bit_mask_iff) (auto simp: possible_bit_word)
  qed
  ultimately show ?thesis
    by (simp add: used_def map_bit_def small_disk_def BPB_def BSIZE_def)
qed

lemma small_fs_used: "used (dsk small_fs) (sb small_fs) j \<longleftrightarrow> j < 4" if "j < 8"
  using small_disk_used [OF that, of small_sb] by (simp add: small_fs_def small_sb_def)

text \<open>C33: on a mounted disk \<open>balloc\<close> returns the lowest block that is free in the free map,
  filled with zeros; in the map exactly that block becomes used, and besides it only the map's
  block changes on the disk.\<close>

theorem balloc_takes_lowest_free:
  assumes "fs_ok s" and "xv6fs_mounted s" and "k < unat (sb_size (sb s))"
    and "\<not> used (dsk s) (sb s) k" and "\<forall>j < k. used (dsk s) (sb s) j"
    and "\<forall>j < unat (sb_size (sb s)). BBLOCK (of_nat j) (sb s) \<noteq> of_nat k"
  shows "\<exists>t. balloc 0 s = Ret (of_nat k) t \<and> fs_ok t \<and> sb t = sb s \<and> icache t = icache s \<and>
    dsk t (of_nat k) = replicate BSIZE 0 \<and>
    (\<forall>j < unat (sb_size (sb s)). used (dsk t) (sb t) j \<longleftrightarrow> j = k \<or> used (dsk s) (sb s) j) \<and>
    (\<forall>b. b \<noteq> of_nat k \<and> b \<noteq> BBLOCK (of_nat k) (sb s) \<longrightarrow> dsk t b = dsk s b)"
proof -
  obtain t where t: "balloc 0 s = Ret (of_nat k) t" "to_disk s t (take_block (sb s) k (dsk s))"
    by (rule balloc_ok [OF assms(1-5)])
  have "unat (sb_size (sb s)) < 2 ^ 32" using unsigned_less [of "sb_size (sb s)"] by simp
  then have "used (take_block (sb s) k (dsk s)) (sb s) j \<longleftrightarrow> j = k \<or> used (dsk s) (sb s) j"
    if "j < unat (sb_size (sb s))" for j
    using used_take_block [of "dsk s" j "sb s" k] dsk_length [OF assms(1)] assms(3,6) that by simp
  then show ?thesis using t(1) to_disk_sel [OF t(2)] by (auto simp: take_block_def)
qed

lemma small_fs_map: "BBLOCK (of_nat j) (sb small_fs) = 3" "BBLOCK 4 (sb small_fs) = 3" if "j < 8"
  using BBLOCK_same [of 0 j small_sb] BBLOCK_same [of 0 4 small_sb] that
  by (simp_all add: BPB_def BSIZE_def BBLOCK_def small_sb_def small_fs_def)

lemma small_fs_sel [simp]: "xv6fs_mounted small_fs" "sb_size (sb small_fs) = 8"
  by (simp_all add: small_fs_def small_sb_def)

theorem balloc_takes_lowest_free_witness:
  "\<exists>t. balloc 0 small_fs = Ret 4 t \<and> used (dsk t) (sb t) 4 \<and> \<not> used (dsk t) (sb t) 5"
proof -
  have "4 < unat (sb_size (sb small_fs))" by simp
  then obtain t where "balloc 0 small_fs = Ret 4 t"
      "\<forall>j < 8. used (dsk t) (sb t) j \<longleftrightarrow> j = 4 \<or> used (dsk small_fs) (sb small_fs) j"
    using balloc_takes_lowest_free [OF small_fs_ok small_fs_sel(1), of 4] small_fs_used small_fs_map(1) by auto
  then show ?thesis using small_fs_used [of 5] by auto
qed

lemma allocation_halts:
  assumes "fs_ok s"
  shows "(\<forall>j < unat (sb_size (sb s)). used (dsk s) (sb s) j) \<or> \<not> xv6fs_mounted s \<Longrightarrow>
      \<not> returns (balloc 0 s) \<and> dsk (state_of (balloc 0 s)) = dsk s"
    and "\<not> used (dsk s) (sb s) (unat b) \<Longrightarrow>
      \<not> returns (bfree 0 b s) \<and> dsk (state_of (bfree 0 b s)) = dsk s"
    and "\<not> xv6fs_mounted s \<Longrightarrow> \<not> returns (ialloc dev t s) \<and> dsk (state_of (ialloc dev t s)) = dsk s"
proof -
  let ?n = "unat (sb_size (sb s))"
  have n: "?n < 2 ^ 32" using unsigned_less [of "sb_size (sb s)"] by simp
  have full: "\<not> returns (balloc_from ?n 0 b u) \<and> dsk (state_of (balloc_from ?n 0 b u)) = dsk u"
    if "fs_ok u" "sb u = sb s" "dsk u = dsk s" "b mod BPB = 0" "\<forall>j < ?n. used (dsk s) (sb s) j" for b u
    using that
  proof (induction "?n - b" arbitrary: b u rule: less_induct)
    case less
    show ?case
    proof (cases "b < ?n")
      case False
      then show ?thesis by (subst (1 2) balloc_from.simps) simp
    next
      case True
      let ?B = "BBLOCK (of_nat b) (sb s)"
      obtain i v where v: "fs_bread 0 ?B u = Ret i v" "to_disk u v (dsk u)" "bdata i v = dsk u ?B"
        using fs_bread_ok [OF less.prems(1)] by blast
      have "map_bit j (dsk u ?B)" if "j < min BPB (?n - b)" for j
      proof -
        have j: "j < BPB" "b + j < ?n" using that by auto
        have "BBLOCK (of_nat (b + j)) (sb s) = ?B"
          by (rule BBLOCK_same) (use j n less.prems in linarith)+
        moreover have "(b + j) mod BPB = j" using j less.prems(4) by (metis mod_add_left_eq mod_less add_0)
        ultimately show ?thesis using less.prems(3,5) j(2) by (metis used_def)
      qed
      then have "first_clear (dsk u ?B) 0 (min BPB (?n - b)) = None" unfolding first_clear_None by blast
      moreover have "0 < BPB" by (simp add: BPB_def BSIZE_def)
      then have "\<not> returns (balloc_from ?n 0 (b + BPB) v) \<and> dsk (state_of (balloc_from ?n 0 (b + BPB) v)) = dsk v"
        by (intro less.hyps) (use less.prems to_disk_sel [OF v(2)] True in auto)
      ultimately show ?thesis
        using v True less.prems(2) to_disk_sel [OF v(2)] by (subst (1 2) balloc_from.simps) simp
    qed
  qed
  show "(\<forall>j < ?n. used (dsk s) (sb s) j) \<or> \<not> xv6fs_mounted s \<Longrightarrow>
      \<not> returns (balloc 0 s) \<and> dsk (state_of (balloc 0 s)) = dsk s"
    using full [OF assms refl refl, of 0] by (auto simp: balloc_def)
  show "\<not> xv6fs_mounted s \<Longrightarrow> \<not> returns (ialloc dev t s) \<and> dsk (state_of (ialloc dev t s)) = dsk s"
    by (simp add: ialloc_def)
  obtain i v where "fs_bread 0 (BBLOCK b (sb s)) s = Ret i v" "to_disk s v (dsk s)" "bdata i v = dsk s (BBLOCK b (sb s))"
    using fs_bread_ok [OF assms] by blast
  then show "\<not> used (dsk s) (sb s) (unat b) \<Longrightarrow> \<not> returns (bfree 0 b s) \<and> dsk (state_of (bfree 0 b s)) = dsk s"
    using to_disk_sel [of s v "dsk s"] by (simp add: bfree_def used_def Let_def)
qed

text \<open>\<open>balloc\<close> of a full disk and \<open>bfree\<close> of a free block stop the machine with the disk
  unchanged, and so does any allocation when no file system is mounted.\<close>

theorem block_allocation_errors:
  assumes "fs_ok s"
  shows "((\<forall>j < unat (sb_size (sb s)). used (dsk s) (sb s) j) \<or> \<not> xv6fs_mounted s \<longrightarrow>
      \<not> returns (balloc 0 s) \<and> dsk (state_of (balloc 0 s)) = dsk s) \<and>
    (\<not> used (dsk s) (sb s) (unat b) \<longrightarrow>
      \<not> returns (bfree 0 b s) \<and> dsk (state_of (bfree 0 b s)) = dsk s) \<and>
    (\<not> xv6fs_mounted s \<longrightarrow> \<not> returns (ialloc dev t s) \<and> dsk (state_of (ialloc dev t s)) = dsk s)"
  using allocation_halts [OF assms] by simp

theorem block_allocation_errors_witness:
  "\<not> returns (bfree 0 6 small_fs) \<and> \<not> returns (balloc 0 (small_fs\<lparr>xv6fs_mounted := False\<rparr>)) \<and>
    \<not> returns (ialloc 0 2 (small_fs\<lparr>xv6fs_mounted := False\<rparr>))"
proof -
  have "fs_ok (small_fs\<lparr>xv6fs_mounted := False\<rparr>)" using small_fs_ok by (simp add: fs_ok_def)
  then show ?thesis
    using block_allocation_errors [OF small_fs_ok, of 6] small_fs_used [of 6]
      block_allocation_errors [of "small_fs\<lparr>xv6fs_mounted := False\<rparr>"] by simp
qed

text \<open>C34: freeing a block right after it was allocated restores the free map; of the rest of
  the disk only the block itself changed, to zeros.\<close>

theorem balloc_bfree_roundtrip:
  assumes "fs_ok s" and "xv6fs_mounted s" and "k < unat (sb_size (sb s))"
    and "\<not> used (dsk s) (sb s) k" and "\<forall>j < k. used (dsk s) (sb s) j"
    and "BBLOCK (of_nat k) (sb s) \<noteq> of_nat k"
  shows "\<exists>t. obind (balloc 0 s) (bfree 0) = Ret () t \<and> dsk t = (dsk s)(of_nat k := replicate BSIZE 0)"
proof -
  let ?B = "BBLOCK (of_nat k) (sb s)" and ?d = "take_block (sb s) k (dsk s)"
  obtain t where t: "balloc 0 s = Ret (of_nat k) t" "to_disk s t ?d"
    by (rule balloc_ok [OF assms(1-5)])
  note ts = to_disk_sel [OF t(2)]
  have "unat (sb_size (sb s)) < 2 ^ 32" using unsigned_less [of "sb_size (sb s)"] by simp
  then have k: "k < 2 ^ 32" using assms(3) by linarith
  then have uk: "unat (of_nat k :: u32) = k" by (rule unat_of_nat_u32)
  have l: "k mod BPB div 8 < length (dsk s ?B)"
    using mod_less_divisor [of 4096 k] by (simp add: dsk_length [OF assms(1)] BPB_def BSIZE_def)
  have "used (dsk t) (sb t) (unat (of_nat k :: u32))"
    using used_take_block [of "dsk s" k "sb s" k] dsk_length [OF assms(1)] assms(6) k ts by (simp add: uk)
  from bfree_ok [OF ts(7) this] obtain u where u: "bfree 0 (of_nat k) t = Ret () u"
    "to_disk t u (?d(?B := clear_map_bit (k mod BPB) (?d ?B)))"
    unfolding ts uk by blast
  have "?d ?B = set_map_bit (k mod BPB) (dsk s ?B)" using assms(6) by (simp add: take_block_def)
  then have "clear_map_bit (k mod BPB) (?d ?B) = dsk s ?B"
    using clear_set_map_bit [OF l] assms(4) by (simp add: used_def)
  then have "dsk u = (dsk s)(of_nat k := replicate BSIZE 0)"
    using to_disk_sel(6) [OF u(2)] assms(6) by (auto simp: take_block_def)
  then show ?thesis using t u by simp
qed

theorem balloc_bfree_roundtrip_witness:
  "\<exists>t. obind (balloc 0 small_fs) (bfree 0) = Ret () t \<and> dsk t 3 = dsk small_fs 3"
  using balloc_bfree_roundtrip [OF small_fs_ok, of 4] small_fs_used small_fs_map(2) by fastforce

end
