(* ===== verification/FsHazards.thy ===== *)
theory FsHazards
  imports FsBlocks
begin

text \<open>
  Two ways in which the file system damages a disk although the controller works: a buffer
  that is replaced while \<open>bmap\<close> still uses it, and an inode that is put back on a disk that
  was never mounted.
\<close>

section \<open>An indirect block replaced while it is extended\<close>

lemma holds_after_read:
  assumes h: "holds c i b" and up: "disk_up c" and v: "i \<noteq> bcache_next_victim c" and ne: "b' \<noteq> b"
  obtains j c' where "bread 0 b' c = Ret j c'" "holds c' i b" "holds c' j b'" "disk c' = disk c" "disk_up c'" "j \<noteq> i"
proof (cases "\<exists>j. cached c j b'")
  case True
  then obtain j where j: "holds c j b'" using h by (auto simp: holds_def)
  then have "j \<noteq> i" using h ne by (auto simp: holds_def cached_def)
  then show ?thesis using that holds_bread [OF j] j h up by simp
next
  case False
  then have ok: "cache_ok c" "bcache_inited c" "\<And>k. \<not> cached c k b'" using h by (auto simp: holds_def)
  let ?v = "bcache_next_victim c" and ?c = "load_victim b' c"
  have w: "holds ?c ?v b'" by (rule load_victim_ok [OF ok])
  have "?v < length (bcache_pool c)" using ok(1) by (simp add: cache_ok_def)
  then have "bcache_pool ?c ! i = bcache_pool c ! i" using v by (simp add: load_victim_def pool_upd_buf)
  then have "holds ?c i b"
    using h w by (simp add: holds_def cached_def valid_buf_def blk_def)
  moreover have "bread 0 b' c = Ret ?v ?c" using bread_miss(1) [OF ok] up by (simp add: disk_up_def)
  ultimately show ?thesis using that [of ?v ?c] w v up by (simp add: disk_up_def)
qed

lemma next_victim_ne: "n < XV6FS_NBUF \<Longrightarrow> (n + 1) mod XV6FS_NBUF \<noteq> n"
  by (cases "n = 63") (auto simp: XV6FS_NBUF_def)

text \<open>Writing a held buffer does not move the turn.\<close>

lemma fs_write_victim:
  assumes "fs_ok s" "holds (bc s) i b" "length d = BSIZE"
  obtains t where "fs_log_write i (set_bdata i d s) = Ret () t" "to_disk s t ((dsk s)(b := d))" "holds (bc t) i b"
    "bcache_next_victim (bc t) = bcache_next_victim (bc s)"
proof -
  have up: "ahci_dev (bc s)" "\<not> faulty (bc s) b" using assms by (auto simp: fs_ok_def disk_up_def)
  obtain c where "log_write i (set_buf_data i d (bc s)) = Ret () c" "bcache_next_victim c = bcache_next_victim (bc s)"
    using write_held [OF assms(2,3) up] by blast
  moreover obtain t where "fs_log_write i (set_bdata i d s) = Ret () t" "to_disk s t ((dsk s)(b := d))" "holds (bc t) i b"
    using fs_write_ok [OF assms] by blast
  ultimately show ?thesis using that [of t] by (auto simp: lift_bc_def set_bdata_def)
qed

lemma put32_length: "4 * j + 4 \<le> BSIZE \<Longrightarrow> length d = BSIZE \<Longrightarrow> length (put32 (4 * j) w d) = BSIZE"
  by (simp add: put32_def)

text \<open>C37: \<open>bmap\<close> keeps the buffer of the indirect block while \<open>balloc\<close> reads the free map.  When
  that buffer is next in turn and the free map is not cached, the map is read into it, and
  the new entry is then written into the free map: its bytes are overwritten on the disk
  and the file never gets the block \<open>bmap\<close> returned.\<close>

theorem bmap_corrupts_free_map:
  assumes "fs_ok s" and "xv6fs_mounted s" and "i_dev (ino ip s) = 0"
    and "j < NINDIRECT" and "i_addrs (ino ip s) ! NDIRECT = a" and "a \<noteq> 0" and "get32 (4 * j) (dsk s a) = 0"
    and "holds (bc s) i a" and "i = bcache_next_victim (bc s)"
    and "\<forall>l. \<not> cached (bc s) l (bmapstart (sb s))"
    and "k < BPB" and "k < unat (sb_size (sb s))" and "\<not> used (dsk s) (sb s) k" and "\<forall>l < k. used (dsk s) (sb s) l"
    and "of_nat k \<noteq> bmapstart (sb s)" and "of_nat k \<noteq> a"
  shows "\<exists>t. bmap ip (of_nat (NDIRECT + j)) s = Ret (of_nat k) t \<and> dsk t a = dsk s a \<and>
    dsk t (bmapstart (sb s)) = put32 (4 * j) (of_nat k) (set_map_bit k (dsk s (bmapstart (sb s))))"
proof -
  let ?c = "bc s" and ?B = "bmapstart (sb s)" and ?n = "unat (sb_size (sb s))"
  let ?m = "set_map_bit k (dsk s ?B)"
  have ok: "cache_ok ?c" "disk_up ?c" "bcache_inited ?c" using assms(1,8) by (simp_all add: fs_ok_def holds_def)
  have nc: "\<And>l. \<not> cached ?c l ?B" using assms(10) by blast
  have un: "unat (of_nat (NDIRECT + j) :: u32) = NDIRECT + j"
    using assms(4) by (intro unat_of_nat_u32) (simp add: layout_defs)
  have r1: "fs_bread 0 a s = Ret i s" using holds_bread [OF assms(8)] by (simp add: lift_bc_def)
  have bd: "bdata i s = dsk s a" using holds_data [OF assms(8)] by (simp add: bdata_def)
  \<comment> \<open>the free map is read into the same buffer\<close>
  define s1 where "s1 = s\<lparr>bc := load_victim ?B ?c\<rparr>"
  have r2: "fs_bread 0 ?B s = Ret i s1"
    using bread_miss(1) [OF ok(1,3) nc] ok(2) by (simp add: s1_def lift_bc_def disk_up_def assms(9))
  have h1: "holds (bc s1) i ?B" using load_victim_ok [OF ok(1,3) nc] by (simp add: s1_def assms(9))
  have s1: "fs_ok s1" "dsk s1 = dsk s" "sb s1 = sb s" "ino ip s1 = ino ip s"
    using h1 ok(2) by (simp_all add: s1_def fs_ok_def disk_up_def holds_def ino_def)
  have v1: "bcache_next_victim (bc s1) \<noteq> i"
    using ok(1) next_victim_ne [of i] by (simp add: s1_def load_victim_def assms(9) cache_ok_def)
  have fc: "first_clear (bdata i s1) 0 (min BPB (?n - 0)) = Some k"
  proof -
    have "used (dsk s) (sb s) l \<longleftrightarrow> map_bit l (dsk s ?B)" if "l < BPB" "l < ?n" for l
    proof -
      have "l < 2 ^ 32" using that(1) by (simp add: BPB_def BSIZE_def)
      then have "BBLOCK (of_nat l) (sb s) = ?B"
        using BBLOCK_same [of 0 l "sb s"] that(1) by (simp add: BBLOCK_def)
      then show ?thesis using that(1) by (simp add: used_def)
    qed
    then show ?thesis
      using assms(11-14) holds_data [OF h1] s1(2) by (auto simp: first_clear_Some bdata_def)
  qed
  obtain s2 where s2: "fs_log_write i (set_bdata i ?m s1) = Ret () s2" "to_disk s1 s2 ((dsk s1)(?B := ?m))" "holds (bc s2) i ?B"
    "bcache_next_victim (bc s2) = bcache_next_victim (bc s1)"
    using fs_write_victim [OF s1(1) h1, of ?m] dsk_length [OF assms(1)] by auto
  note t2 = to_disk_sel [OF s2(2)]
  \<comment> \<open>the new block is cleared in another buffer\<close>
  obtain l c3 where c3: "bread 0 (of_nat k) (bc s2) = Ret l c3" "holds c3 i ?B" "holds c3 l (of_nat k)" "disk c3 = dsk s2"
      "disk_up c3" "l \<noteq> i"
    using holds_after_read [OF s2(3), of "of_nat k"] t2(7) v1 s2(4) assms(15) by (metis fs_ok_def)
  define s3 where "s3 = s2\<lparr>bc := c3\<rparr>"
  have b3: "fs_bread 0 (of_nat k) s2 = Ret l s3" using c3(1) by (simp add: lift_bc_def s3_def)
  have s3: "fs_ok s3" "holds (bc s3) l (of_nat k)" "dsk s3 = dsk s2" "sb s3 = sb s2" "ino ip s3 = ino ip s2"
    using c3 by (simp_all add: s3_def fs_ok_def holds_def ino_def)
  obtain c4 where c4: "log_write l (set_buf_data l (replicate BSIZE 0) (bc s3)) = Ret () c4" "holds c4 l (of_nat k)"
      "disk c4 = (dsk s3)(of_nat k := replicate BSIZE 0)" "disk_up c4" "\<forall>j b'. cached c4 j b' \<longleftrightarrow> cached (bc s3) j b'"
    using write_held [OF s3(2), of "replicate BSIZE 0"] s3(1) by (auto simp: fs_ok_def disk_up_def)
  define s4 where "s4 = s3\<lparr>bc := c4\<rparr>"
  have b4: "bzero 0 (of_nat k) s2 = Ret () s4"
    using b3 c4(1) by (simp add: bzero_def lift_bc_def set_bdata_def s4_def)
  have h4: "holds (bc s4) i ?B" using c4(2,5) c3(2) by (simp add: s4_def s3_def holds_def)
  have s4: "fs_ok s4" "dsk s4 = (dsk s)(?B := ?m, of_nat k := replicate BSIZE 0)" "sb s4 = sb s"
    using c4 h4 s3 t2 s1 by (simp_all add: s4_def fs_ok_def holds_def)
  have al: "balloc 0 s = Ret (of_nat k) s4"
  proof -
    have "BBLOCK 0 (sb s) = ?B" by (simp add: BBLOCK_def)
    moreover have "bdata i s1 = dsk s ?B" using holds_data [OF h1] s1(2) by (simp add: bdata_def)
    ultimately show ?thesis
      using r2 fc s2(1) b4 assms(2,12) by (simp add: balloc_def balloc_from.simps [of _ _ 0])
  qed
  \<comment> \<open>the entry goes into the buffer that held the indirect block\<close>
  have bd4: "bdata i s4 = ?m" using holds_data [OF h4] s4(2) assms(15) by (simp add: bdata_def)
  have "4 * j + 4 \<le> BSIZE" using assms(4) by (simp add: NINDIRECT_def BSIZE_def)
  then have len: "length (put32 (4 * j) (of_nat k) ?m) = BSIZE"
    by (rule put32_length) (simp add: dsk_length [OF assms(1)])
  obtain s5 where s5: "fs_log_write i (set_bdata i (put32 (4 * j) (of_nat k) ?m) s4) = Ret () s5"
      "to_disk s4 s5 ((dsk s4)(?B := put32 (4 * j) (of_nat k) ?m))"
    using fs_write_ok [OF s4(1) h4 len] by blast
  have "entry_slot 0 i j s = Ret (of_nat k) s5"
    using al bd assms(7) s5(1) by (simp add: entry_slot_def bd4)
  then have "bmap ip (of_nat (NDIRECT + j)) s = Ret (of_nat k) s5"
    unfolding bmap_def un Let_def using r1 assms(3-6) by (simp add: addr_slot_def)
  moreover have "a \<noteq> ?B" using assms(8,10) by (auto simp: holds_def)
  then have "dsk s5 a = dsk s a" using to_disk_sel(6) [OF s5(2)] s4(2) assms(16) by auto
  ultimately show ?thesis using to_disk_sel(6) [OF s5(2)] by auto
qed


text \<open>A file whose indirect block 9 is in the buffer that is next in turn.\<close>

definition hazard_fs :: fs where
  "hazard_fs = small_fs\<lparr>bc := wrapped_cache\<lparr>disk := small_disk\<rparr>, sb := small_sb\<lparr>sb_size := 16\<rparr>,
    icache := (replicate 50 no_inode)[0 := no_inode\<lparr>i_ref := 1, i_addrs := replicate 12 1 @ [9, 0]\<rparr>]\<rparr>"

lemma hazard_fs_ok: "fs_ok hazard_fs" "holds (bc hazard_fs) 0 9" "\<not> cached (bc hazard_fs) l 3"
proof -
  have c: "cached (wrapped_cache\<lparr>disk := d\<rparr>) j b \<longleftrightarrow> cached wrapped_cache j b" for d j b
    by (simp add: cached_def valid_buf_def blk_def)
  have "cache_ok (wrapped_cache\<lparr>disk := small_disk\<rparr>)"
    by (auto simp: cache_ok_def valid_buf_def blk_def buf_data_def dirty_buf_def wrapped_cache_def small_disk_def
        empty_cache_def XV6FS_NBUF_def BSIZE_def B_VALID_def B_DIRTY_def nth_list_update split: if_splits
        simp del: replicate.simps)
  then show "fs_ok hazard_fs" "holds (bc hazard_fs) 0 9" "\<not> cached (bc hazard_fs) l 3"
    using wrapped_cache_cached [of 0 9] wrapped_cache_cached [of l 3] wrapped_cache_ok
    by (simp_all add: hazard_fs_def fs_ok_def disk_up_def holds_def c)
qed

theorem bmap_corrupts_free_map_witness:
  "\<exists>t. bmap 0 12 hazard_fs = Ret 4 t \<and> dsk t 9 = dsk hazard_fs 9 \<and> dsk t 3 \<noteq> dsk hazard_fs 3"
proof -
  have [simp]: "xv6fs_mounted hazard_fs" "ino 0 hazard_fs = no_inode\<lparr>i_ref := 1, i_addrs := replicate 12 1 @ [9, 0]\<rparr>"
    "dsk hazard_fs = small_disk" "bcache_next_victim (bc hazard_fs) = 0" "sb hazard_fs = small_sb\<lparr>sb_size := 16\<rparr>"
    by (simp_all add: hazard_fs_def small_fs_def ino_def wrapped_cache_def empty_cache_def)
  have z: "get32 (4 * 0) (dsk hazard_fs 9) = 0" by (simp add: small_disk_def get32_def)
  have u: "\<not> used (dsk hazard_fs) (sb hazard_fs) 4" "\<forall>l < 4. used (dsk hazard_fs) (sb hazard_fs) l"
    using small_disk_used [of _ "sb hazard_fs"] by (simp_all add: small_sb_def)
  have "\<exists>t. bmap 0 (of_nat (NDIRECT + 0)) hazard_fs = Ret (of_nat 4) t \<and> dsk t 9 = dsk hazard_fs 9 \<and>
    dsk t (bmapstart (sb hazard_fs)) = put32 (4 * 0) (of_nat 4) (set_map_bit 4 (dsk hazard_fs (bmapstart (sb hazard_fs))))"
    by (rule bmap_corrupts_free_map [OF hazard_fs_ok(1) _ _ _ _ _ z hazard_fs_ok(2) _ _ _ _ u])
      (use hazard_fs_ok(3) in \<open>simp_all add: no_inode_def layout_defs small_sb_def nth_append\<close>)
  moreover have "put32 0 4 (set_map_bit 4 (small_disk 3)) ! 0 \<noteq> small_disk 3 ! 0"
    by (simp add: put32_def put_bytes_def le32_def small_disk_def)
  ultimately show ?thesis by (auto simp: NDIRECT_def small_sb_def)
qed

section \<open>Writing to a disk that is not mounted\<close>

lemma ofold_skip: "(\<And>x. x \<in> set xs \<Longrightarrow> f x s = Ret () s) \<Longrightarrow> ofold f xs s = Ret () s"
  by (induction xs) auto

lemma itrunc_empty:
  assumes "i_addrs (ino ip s) = replicate (NDIRECT + 2) 0"
  shows "itrunc ip s = iupdate ip (upd_ino ip (\<lambda>x. x\<lparr>i_size := 0\<rparr>) s)"
proof -
  have "i_addrs (ino ip s) ! k = 0" if "k < NDIRECT + 2" for k using that assms by (simp only: nth_replicate)
  then have z: "ofold (\<lambda>i s. if i_addrs (ino ip s) ! i \<noteq> 0
        then obind (bfree (i_dev (ino ip s)) (i_addrs (ino ip s) ! i) s) (\<lambda>_ s. Ret () (clear_addr ip i s))
        else Ret () s) [0..<NDIRECT] s = Ret () s" "i_addrs (ino ip s) ! NDIRECT = 0" "i_addrs (ino ip s) ! (NDIRECT + 1) = 0"
    by (auto intro!: ofold_skip)
  show ?thesis unfolding itrunc_def z(1) obind.simps using z(2,3) by simp
qed


lemma mount_refused:
  assumes "fs_ok s" "magic (dec_superblock (dsk s 1)) \<noteq> XV6_MAGIC"
  obtains t where "xv6fs_full_init True s = Ret (- 1) t" "dsk t = dsk s" "fs_ok t" "xv6fs_mounted t = xv6fs_mounted s"
    "sb t = dec_superblock (dsk s 1)" "icache t = map (\<lambda>x. x\<lparr>i_lock := False\<rparr>) (icache s)" "\<not> icache_lock t"
proof -
  let ?s = "(devsw_init (xv6fs_bridge_init True s))\<lparr>icache_lock := False, icache := map (\<lambda>x. x\<lparr>i_lock := False\<rparr>) (icache s)\<rparr>"
  have "bc ?s = bc s" using assms(1) by (cases "bc s") (simp add: devsw_init_def xv6fs_bridge_init_def fs_ok_def disk_up_def)
  then have s: "fs_ok ?s" "dsk ?s = dsk s" using assms(1) by (simp_all add: fs_ok_def)
  obtain t where t: "readsb 0 ?s = Ret (dec_superblock (dsk s 1)) t" "to_disk ?s t (dsk s)"
    using readsb_ok [OF s(1)] unfolding s(2) by blast
  have i: "icache (devsw_init (xv6fs_bridge_init True s)) = icache s"
    by (simp add: devsw_init_def xv6fs_bridge_init_def)
  let ?t = "t\<lparr>sb := dec_superblock (dsk s 1), kout := kout t @
    ''xv6fs: sector 1 magic mismatch (got 0x%x, want 0x%x) -- not mounting, disk left untouched'' @ [char_of (10 :: nat)]\<rparr>"
  have "xv6fs_full_init True s = Ret (- 1) ?t"
    unfolding xv6fs_full_init_def xv6fs_iinit_def Let_def ROOTDEV_def i using t(1) assms(2) by simp
  then show ?thesis
    using that [of ?t] to_disk_sel [OF t(2)] by (simp add: fs_ok_def devsw_init_def xv6fs_bridge_init_def)
qed

lemma iget_empty:
  assumes "icache t = replicate 50 no_inode" "\<not> icache_lock t"
  shows "iget 0 i t = Ret 0 (upd_ino 0 (\<lambda>x. x\<lparr>i_dev := 0, i_inum := i, i_ref := 1, i_valid := False\<rparr>) t)"
proof -
  have n: "i_ref (icache t ! ip) = 0" if "ip < NINODE" for ip
    using that assms(1) by (simp add: NINODE_def no_inode_def)
  have "find (\<lambda>ip. i_ref (ino ip (t\<lparr>icache_lock := True\<rparr>)) > 0 \<and> i_dev (ino ip (t\<lparr>icache_lock := True\<rparr>)) = 0 \<and>
      i_inum (ino ip (t\<lparr>icache_lock := True\<rparr>)) = i) [0..<NINODE] = None"
    using n by (auto simp: find_None_iff ino_def)
  moreover have "find (\<lambda>ip. i_ref (ino ip (t\<lparr>icache_lock := True\<rparr>)) = 0) [0..<NINODE] = Some 0"
    using n unfolding find_Some_iff by (intro exI [of _ 0]) (auto simp: ino_def NINODE_def)
  moreover have "t\<lparr>icache := ic, icache_lock := False\<rparr> = t\<lparr>icache := ic\<rparr>" for ic
    using assms(2) by (cases t) simp
  ultimately show ?thesis
    using assms(2) by (simp add: iget_def acquire_def release_def upd_ino_def)
qed

text \<open>The state of inode 0, the disk and the rest that the following steps depend on.\<close>

definition at0 :: "fs \<Rightarrow> inode \<Rightarrow> (u32 \<Rightarrow> u8 list) \<Rightarrow> fs \<Rightarrow> bool" where
  "at0 t v d s \<longleftrightarrow> fs_ok s \<and> icache s \<noteq> [] \<and> ino 0 s = v \<and> dsk s = d \<and> \<not> icache_lock s \<and> sb s = sb t \<and>
    xv6fs_mounted s = xv6fs_mounted t"

lemma at0_upd: "at0 t v d s \<Longrightarrow> at0 t (f v) d (upd_ino 0 f s)"
  by (cases "icache s") (auto simp: at0_def upd_ino_def ino_def fs_ok_def)

lemma at0_disk: "at0 t v d s \<Longrightarrow> to_disk s s' d' \<Longrightarrow> at0 t v d' s'"
  using to_disk_sel [of s s' d'] by (simp add: at0_def)

lemma at0_iupdate:
  assumes "at0 t v d s" "i_dev v = 0" "length (i_addrs v) = NDIRECT + 2"
  obtains s' where "iupdate 0 s = Ret () s'" "at0 t v (store_inode (sb t) (i_inum v) (dinode_of v) d) s'"
proof -
  obtain s' where s': "iupdate 0 s = Ret () s'"
      "to_disk s s' (store_inode (sb s) (i_inum (ino 0 s)) (dinode_of (ino 0 s)) (dsk s))"
    using iupdate_ok [of s 0] assms unfolding at0_def by blast
  have "sb s = sb t" "ino 0 s = v" "dsk s = d" using assms(1) by (simp_all add: at0_def)
  then show ?thesis using that [OF s'(1)] at0_disk [OF assms(1) s'(2)] by simp
qed

text \<open>\<open>iput\<close> of the last reference to an inode without links and without blocks.\<close>

lemma iput_unlinked:
  assumes s: "at0 t v d s" and v: "\<not> i_lock v" "i_valid v" "i_nlink v = 0" "i_ref v = 1" "i_dev v = 0"
    "i_addrs v = replicate (NDIRECT + 2) 0"
  obtains s' where "iput 0 s = Ret () s'" "xv6fs_mounted s' = xv6fs_mounted t"
    "dsk s' = store_inode (sb t) (i_inum v) (dinode_of (v\<lparr>i_type := 0, i_size := 0\<rparr>))
      (store_inode (sb t) (i_inum v) (dinode_of (v\<lparr>i_size := 0\<rparr>)) d)"
proof -
  define v1 where "v1 = v\<lparr>i_lock := True\<rparr>"
  define s1 where "s1 = upd_ino 0 (\<lambda>x. x\<lparr>i_lock := True\<rparr>) s"
  have s1: "at0 t v1 d s1" using at0_upd [OF s] by (simp add: s1_def v1_def)
  have a1: "acquiresleep 0 s = Ret () s1" using s v(1) by (simp add: acquiresleep_def at0_def s1_def)
  have l1: "acquire s1 = Ret () (s1\<lparr>icache_lock := True\<rparr>)" "release (s1\<lparr>icache_lock := True\<rparr>) = Ret () s1"
    "ino 0 (s1\<lparr>icache_lock := True\<rparr>) = v1" "ino 0 s1 = v1"
    using s1 by (auto simp: acquire_def release_def at0_def ino_def intro: fs.equality)
  have s2: "at0 t (v1\<lparr>i_size := 0\<rparr>) d (upd_ino 0 (\<lambda>x. x\<lparr>i_size := 0\<rparr>) s1)" by (rule at0_upd [OF s1])
  obtain s3 where s3: "iupdate 0 (upd_ino 0 (\<lambda>x. x\<lparr>i_size := 0\<rparr>) s1) = Ret () s3"
      "at0 t (v1\<lparr>i_size := 0\<rparr>) (store_inode (sb t) (i_inum v) (dinode_of (v\<lparr>i_size := 0\<rparr>)) d) s3"
    using at0_iupdate [OF s2] v by (auto simp: v1_def dinode_of_def)
  obtain s4 where s4: "iupdate 0 (upd_ino 0 (\<lambda>x. x\<lparr>i_type := 0\<rparr>) s3) = Ret () s4"
      "at0 t (v1\<lparr>i_size := 0, i_type := 0\<rparr>) (store_inode (sb t) (i_inum v) (dinode_of (v\<lparr>i_type := 0, i_size := 0\<rparr>))
        (store_inode (sb t) (i_inum v) (dinode_of (v\<lparr>i_size := 0\<rparr>)) d)) s4"
    using at0_iupdate [OF at0_upd [OF s3(2), of "\<lambda>x. x\<lparr>i_type := 0\<rparr>"]] v by (auto simp: v1_def dinode_of_def)
  define s5 where "s5 = upd_ino 0 (\<lambda>x. x\<lparr>i_valid := False\<rparr>) s4"
  note s5 = at0_upd [OF s4(2), of "\<lambda>x. x\<lparr>i_valid := False\<rparr>", folded s5_def]
  define s6 where "s6 = upd_ino 0 (\<lambda>x. x\<lparr>i_lock := False\<rparr>) s5"
  note s6 = at0_upd [OF s5, of "\<lambda>x. x\<lparr>i_lock := False\<rparr>", folded s6_def]
  have r5: "releasesleep 0 s5 = Ret () s6" using s5 by (simp add: releasesleep_def at0_def s6_def v1_def)
  note s7 = at0_upd [OF s6, of "\<lambda>x. x\<lparr>i_ref := i_ref x - 1\<rparr>"]
  let ?s7 = "upd_ino 0 (\<lambda>x. x\<lparr>i_ref := i_ref x - 1\<rparr>) (s6\<lparr>icache_lock := True\<rparr>)\<lparr>icache_lock := False\<rparr>"
  have tr: "itrunc 0 s1 = Ret () s3" using itrunc_empty [of 0 s1] s3(1) v(6) by (simp add: l1 v1_def)
  have "acquire s6 = Ret () (s6\<lparr>icache_lock := True\<rparr>)" using s6 by (simp add: acquire_def at0_def)
  then have "iput 0 s = Ret () ?s7"
    unfolding iput_def a1 obind.simps l1 Let_def tr using v s4(1) r5
    by (simp add: v1_def s5_def release_def upd_ino_def)
  moreover have "dsk ?s7 = dsk s6" "xv6fs_mounted ?s7 = xv6fs_mounted s6" by (simp_all add: upd_ino_def)
  ultimately show ?thesis using that [of ?s7] s6 by (simp add: at0_def)
qed

lemma put_back_writes:
  assumes t: "fs_ok t" "icache t = replicate 50 no_inode" "\<not> icache_lock t"
    and x: "disk_inode (dsk t) (sb t) 1 = x" "d_type x \<noteq> 0" "d_type x \<noteq> T_DIR" "d_nlink x = 0"
    "d_addrs x = replicate (NDIRECT + 2) 0"
  shows "\<exists>u. namei [slash, 97] t = Ret None u \<and>
    disk_inode (dsk u) (sb t) 1 = x\<lparr>d_type := 0, d_size := 0\<rparr> \<and> xv6fs_mounted u = xv6fs_mounted t"
proof -
  define y where "y = no_inode\<lparr>i_inum := 1, i_ref := 1, i_valid := False\<rparr>"
  define z where "z = y\<lparr>i_lock := True, i_type := d_type x, i_major := d_major x, i_minor := d_minor x,
                  i_nlink := d_nlink x, i_size := d_size x, i_addrs := d_addrs x, i_valid := True\<rparr>"
  have sk: "skipelem [slash, 97] = Some ([97], [])" by (simp add: skipelem_def DIRSIZ_def)
  define s0 where "s0 = upd_ino 0 (\<lambda>x. x\<lparr>i_dev := 0, i_inum := 1, i_ref := 1, i_valid := False\<rparr>) t"
  have "at0 t no_inode (dsk t) t" using t by (simp add: at0_def ino_def)
  from at0_upd [OF this, of "\<lambda>x. x\<lparr>i_dev := 0, i_inum := 1, i_ref := 1, i_valid := False\<rparr>"]
  have s0: "at0 t y (dsk t) s0" by (simp add: s0_def y_def no_inode_def)
  have g: "iget ROOTDEV ROOTINO t = Ret 0 s0"
    using iget_empty [OF t(2,3)] by (simp add: ROOTDEV_def ROOTINO_def s0_def)
  define s1 where "s1 = upd_ino 0 (\<lambda>x. x\<lparr>i_lock := True\<rparr>) s0"
  note s1 = at0_upd [OF s0, of "\<lambda>x. x\<lparr>i_lock := True\<rparr>", folded s1_def]
  obtain i s2 where s2: "fs_bread 0 (IBLOCK 1 (sb t)) s1 = Ret i s2" "to_disk s1 s2 (dsk t)" "bdata i s2 = dsk t (IBLOCK 1 (sb t))"
    using fs_bread_ok [of s1] s1 unfolding at0_def by metis
  note a2 = at0_disk [OF s1 s2(2)]
  let ?ld = "\<lambda>v. v\<lparr>i_type := d_type x, i_major := d_major x, i_minor := d_minor x,
                  i_nlink := d_nlink x, i_size := d_size x, i_addrs := d_addrs x, i_valid := True\<rparr>"
  define s3 where "s3 = upd_ino 0 ?ld s2"
  note s3 = at0_upd [OF a2, of ?ld, folded s3_def]
  have z3: "?ld (y\<lparr>i_lock := True\<rparr>) = z" by (simp add: z_def)
  have lk: "ilock (Some 0) s0 = Ret () s3"
    using s0 s1 a2 s2 s3 x(1,2) unfolding ilock_def
    by (simp add: at0_def y_def no_inode_def acquiresleep_def s1_def [symmetric] disk_inode_def s3_def [symmetric])
  define s4 where "s4 = upd_ino 0 (\<lambda>x. x\<lparr>i_lock := False\<rparr>) s3"
  note s4 = at0_upd [OF s3, of "\<lambda>x. x\<lparr>i_lock := False\<rparr>", folded s4_def]
  have ul: "iunlock (Some 0) s3 = Ret () s4"
    using s3 by (simp add: iunlock_def releasesleep_def at0_def s4_def z3) (simp add: z_def y_def)
  have zx: "dinode_of (z\<lparr>i_lock := False, i_size := 0\<rparr>) = x\<lparr>d_size := 0\<rparr>"
    "dinode_of (z\<lparr>i_lock := False, i_type := 0, i_size := 0\<rparr>) = x\<lparr>d_type := 0, d_size := 0\<rparr>"
    by (cases x; simp add: dinode_of_def z_def y_def)+
  obtain u where u: "iput 0 s4 = Ret () u" "xv6fs_mounted u = xv6fs_mounted t"
      "dsk u = store_inode (sb t) 1 (x\<lparr>d_type := 0, d_size := 0\<rparr>) (store_inode (sb t) 1 (x\<lparr>d_size := 0\<rparr>) (dsk t))"
    by (rule iput_unlinked [OF s4 [unfolded z3]])
      (use x zx in \<open>simp_all add: z_def y_def no_inode_def\<close>)
  have "i_type (ino 0 s3) \<noteq> T_DIR" using s3 x(3) by (simp add: at0_def)
  then have "namei [slash, 97] t = Ret None u"
    using g lk ul u(1) by (simp add: namei_def namex_def namex_root_def namex_loop.simps [of _ "[slash, 97]"] sk iunlockput_def)
  moreover have "dinode_ok (x\<lparr>d_type := 0, d_size := 0\<rparr>)" "dinode_ok (x\<lparr>d_size := 0\<rparr>)" using x(5) by (simp_all add: dinode_ok_def)
  then have "disk_inode (dsk u) (sb t) 1 = x\<lparr>d_type := 0, d_size := 0\<rparr>"
    unfolding u(3) using dsk_length [OF t(1)] by (subst disk_inode_store) (auto simp: store_inode_def)
  ultimately show ?thesis using u(2) by blast
qed


text \<open>The disk of another system: sector 1 is no superblock, and block 0 has bytes that read as
  an inode 1 of type 2 without links.\<close>

definition foreign_disk :: "u32 \<Rightarrow> u8 list" where
  "foreign_disk b = (if b = 0 then replicate 68 0 @ [2, 0] @ replicate 442 0 else replicate 512 0)"

definition foreign_fs :: fs where
  "foreign_fs = small_fs\<lparr>bc := empty_cache\<lparr>disk := foreign_disk\<rparr>, xv6fs_mounted := False\<rparr>"

lemma get16_nth: "get16 k d = ucast (d ! k) OR push_bit 8 (ucast (d ! (k + 1)))"
  by (simp add: get16_def)

lemma foreign_layout:
  "magic (dec_superblock (foreign_disk 1)) = 0" "inodestart (dec_superblock (foreign_disk 1)) = 0"
  by (simp_all add: dec_superblock_def foreign_disk_def get32_def)

lemma foreign_inode:
  assumes "inodestart sbk = 0"
  shows "disk_inode foreign_disk sbk 1 = \<lparr>d_type = 2, d_major = 0, d_minor = 0, d_nlink = 0, d_size = 0,
    d_addrs = replicate (NDIRECT + 2) 0\<rparr>"
proof -
  have b: "get_bytes (ipos 1) sizeof_dinode (foreign_disk (IBLOCK 1 sbk)) = [2, 0] @ replicate 66 0"
    using assms by (simp add: IBLOCK_def foreign_disk_def ipos_def layout_defs get_bytes_def del: replicate.simps)
  have n: "([2, 0] @ replicate 66 0 :: u8 list) ! k = (if k = 0 then 2 else 0)" if "k < 68" for k
    using that by (auto simp: nth_append nth_Cons' simp del: replicate.simps)
  have z32: "get32 k ([2, 0] @ replicate 66 0) = 0" if "0 < k" "k + 3 < 68" for k
    using that n [of k] n [of "k + 1"] n [of "k + 2"] n [of "k + 3"] unfolding get32_def by simp
  have "map (\<lambda>j. get32 (12 + 4 * j) ([2, 0] @ replicate 66 0)) [0..<NDIRECT + 2] = replicate (NDIRECT + 2) 0"
    by (rule nth_equalityI) (use z32 in \<open>simp_all add: NDIRECT_def del: upt_Suc replicate.simps\<close>)
  then show ?thesis
    using z32 [of 8] n unfolding disk_inode_def get_dinode_def b dec_dinode_def get16_def by simp
qed


end
