(* ===== verification/FsOps.thy ===== *)
theory FsOps
  imports Fs
begin

text \<open>
  Creating and removing files, \<open>kernel/Xjail/xv6/xv6fs_ops.c\<close>.  The pair of calls
  \<open>iunlock(ip); iput(ip)\<close> of the source is \<open>iunlockput\<close>.
\<close>

section \<open>The operations\<close>

text \<open>The inode comes back locked.\<close>

definition xv6fs_create :: "u8 list \<Rightarrow> u16 \<Rightarrow> u16 \<Rightarrow> u16 \<Rightarrow> fs \<Rightarrow> (nat option, fs) outcome" where
  "xv6fs_create path t major minor s =
    obind (nameiparent path s) (\<lambda>r s.
    case r of None \<Rightarrow> Ret None s | Some (dp, name) \<Rightarrow>
    obind (ilock (Some dp) s) (\<lambda>_ s.
    obind (dirlookup dp name s) (\<lambda>r s.
    case r of
      Some (ip, _) \<Rightarrow>
        obind (iunlockput dp s) (\<lambda>_ s.
        obind (ilock (Some ip) s) (\<lambda>_ s.
        if t = T_FILE \<and> i_type (ino ip s) = T_FILE then Ret (Some ip) s
        else obind (iunlockput ip s) (\<lambda>_ s. Ret None s)))
    | None \<Rightarrow>
        obind (ialloc (i_dev (ino dp s)) t s) (\<lambda>ip s.
        obind (ilock (Some ip) s) (\<lambda>_ s.
        obind (iupdate ip (upd_ino ip (\<lambda>x. x\<lparr>i_major := major, i_minor := minor, i_nlink := 1\<rparr>) s)) (\<lambda>_ s.
        obind (if t = T_DIR
            then obind (iupdate dp (upd_ino dp (\<lambda>x. x\<lparr>i_nlink := i_nlink x + 1\<rparr>) s)) (\<lambda>_ s.
              obind (dirlink ip [46] (i_inum (ino ip s)) s) (\<lambda>r s.
              if r < 0 then Ret False s
              else obind (dirlink ip [46, 46] (i_inum (ino dp s)) s) (\<lambda>r s. Ret (\<not> r < 0) s)))
            else Ret True s) (\<lambda>ok s.
        if \<not> ok then obind (iunlockput ip s) (\<lambda>_ s. obind (iunlockput dp s) (\<lambda>_ s. Ret None s))
        else obind (dirlink dp name (i_inum (ino ip s)) s) (\<lambda>r s.
        if r < 0 then obind (iunlockput ip s) (\<lambda>_ s. obind (iunlockput dp s) (\<lambda>_ s. Ret None s))
        else obind (iunlockput dp s) (\<lambda>_ s. Ret (Some ip) s)))))))))"

text \<open>No entry of the directory from these offsets on is in use.\<close>

primrec dir_empty :: "nat \<Rightarrow> nat list \<Rightarrow> fs \<Rightarrow> (bool, fs) outcome" where
  "dir_empty ip [] s = Ret True s"
| "dir_empty ip (off # offs) s =
    obind (readi ip (of_nat off) (of_nat sizeof_dirent) s) (\<lambda>r s.
      case r of
        None \<Rightarrow> Ret False s
      | Some bs \<Rightarrow> if length bs \<noteq> sizeof_dirent then Ret False s
          else if de_inum (dec_dirent bs) \<noteq> 0 then Ret False s
          else dir_empty ip offs s)"

definition xv6fs_unlink :: "u8 list \<Rightarrow> fs \<Rightarrow> (int, fs) outcome" where
  "xv6fs_unlink path s =
    obind (nameiparent path s) (\<lambda>r s.
    case r of None \<Rightarrow> Ret (- 1) s | Some (dp, name) \<Rightarrow>
    obind (ilock (Some dp) s) (\<lambda>_ s.
    if name = [46] then obind (iunlockput dp s) (\<lambda>_ s. Ret (- 1) s)
    else if name = [46, 46] then obind (iunlockput dp s) (\<lambda>_ s. Ret (- 1) s)
    else obind (dirlookup dp name s) (\<lambda>r s.
    case r of None \<Rightarrow> obind (iunlockput dp s) (\<lambda>_ s. Ret (- 1) s) | Some (ip, off) \<Rightarrow>
    obind (ilock (Some ip) s) (\<lambda>_ s.
    if sint (i_nlink (ino ip s)) < 1
    then obind (iunlockput ip s) (\<lambda>_ s. obind (iunlockput dp s) (\<lambda>_ s. Ret (- 1) s))
    else obind (if i_type (ino ip s) = T_DIR then dir_empty ip (drop 2 (dirent_offsets (i_size (ino ip s)))) s
        else Ret True s) (\<lambda>empty s.
    if \<not> empty
    then obind (iunlockput ip s) (\<lambda>_ s. obind (iunlockput dp s) (\<lambda>_ s. Ret (- 1) s))
    else obind (writei dp (replicate sizeof_dirent 0) (of_nat off) s) (\<lambda>r s.
    if r \<noteq> Some (of_nat sizeof_dirent)
    then obind (iunlockput ip s) (\<lambda>_ s. obind (iunlockput dp s) (\<lambda>_ s. Ret (- 1) s))
    else obind (if i_type (ino ip s) = T_DIR
        then iupdate dp (upd_ino dp (\<lambda>x. x\<lparr>i_nlink := i_nlink x - 1\<rparr>) s)
        else Ret () s) (\<lambda>_ s.
    obind (iunlockput dp s) (\<lambda>_ s.
    obind (iupdate ip (upd_ino ip (\<lambda>x. x\<lparr>i_nlink := i_nlink x - 1\<rparr>) s)) (\<lambda>_ s.
    obind (iunlockput ip s) (\<lambda>_ s. Ret 0 s))))))))))"

end
