(* ===== verification/FsInv.thy ===== *)
theory FsInv
  imports FsOps FsBlocks
begin

text \<open>
  Invariants that every operation of the file system keeps, proved operation by operation
  with a Hoare rule for outcomes: the shapes of its tables and blocks, and the
  discipline of its locks.
\<close>

section \<open>Outcomes\<close>

text \<open>A returning run ends in \<open>Q\<close>, a run that stops the machine in \<open>E\<close>.\<close>

definition ensures :: "('s \<Rightarrow> bool) \<Rightarrow> ('a \<Rightarrow> 's \<Rightarrow> bool) \<Rightarrow> ('a, 's) outcome \<Rightarrow> bool" where
  "ensures E Q m \<longleftrightarrow> (case m of Ret x t \<Rightarrow> Q x t | Halt msg t \<Rightarrow> E t)"

lemma ensures_simps [simp]: "ensures E Q (Ret x t) = Q x t" "ensures E Q (Halt msg t) = E t"
  by (simp_all add: ensures_def)

lemma ensures_obind:
  "ensures E R m \<Longrightarrow> (\<And>x t. R x t \<Longrightarrow> ensures E Q (f x t)) \<Longrightarrow> ensures E Q (obind m f)"
  by (cases m) auto

lemma ensures_weaken:
  "ensures E R m \<Longrightarrow> (\<And>x t. R x t \<Longrightarrow> Q x t) \<Longrightarrow> ensures E Q m"
  by (cases m) auto

lemma ensures_ofold:
  assumes "\<And>x t. I t \<Longrightarrow> ensures E (\<lambda>_. I) (f x t)" "I s"
  shows "ensures E (\<lambda>_. I) (ofold f xs s)"
  using assms(2) by (induction xs arbitrary: s) (auto intro!: ensures_obind assms(1))

lemma ensures_state: "ensures I (\<lambda>_. I) m \<Longrightarrow> I (state_of m)"
  by (cases m) auto

section \<open>Shapes\<close>

lemma nth_upd: "j < length xs \<Longrightarrow> xs[i := v] ! j = (if i = j then v else xs ! j)"
  by (cases "i = j") auto

definition cache_wf :: "bcache \<Rightarrow> bool" where
  "cache_wf c \<longleftrightarrow> length (bcache_pool c) = XV6FS_NBUF \<and> bcache_next_victim c < XV6FS_NBUF \<and>
    (\<forall>i < XV6FS_NBUF. length (b_data (bcache_pool c ! i)) = BSIZE) \<and> (\<forall>b. length (disk c b) = BSIZE)"

definition fs_wf :: "fs \<Rightarrow> bool" where
  "fs_wf s \<longleftrightarrow> cache_wf (bc s) \<and> length (icache s) = NINODE \<and>
    (\<forall>ip < NINODE. length (i_addrs (ino ip s)) = NDIRECT + 2) \<and> (\<forall>d. cwd s = Some d \<longrightarrow> d < NINODE)"

abbreviation typed :: "('a \<Rightarrow> bool) \<Rightarrow> ('a, fs) outcome \<Rightarrow> bool" where
  "typed P m \<equiv> ensures fs_wf (\<lambda>x t. fs_wf t \<and> P x) m"

abbreviation any :: "'a \<Rightarrow> bool" where "any \<equiv> \<lambda>_. True"

lemma typed_bind:
  "typed any m \<Longrightarrow> (\<And>x t. m = Ret x t \<Longrightarrow> fs_wf t \<Longrightarrow> typed Q (f x t)) \<Longrightarrow> typed Q (obind m f)"
  by (cases m) auto

lemma typed_bind_with:
  "typed R m \<Longrightarrow> (\<And>x t. m = Ret x t \<Longrightarrow> fs_wf t \<Longrightarrow> R x \<Longrightarrow> typed Q (f x t)) \<Longrightarrow> typed Q (obind m f)"
  by (cases m) auto

lemma typed_Ret: "fs_wf t \<Longrightarrow> P x \<Longrightarrow> typed P (Ret x t)" by simp

lemma typed_Halt: "fs_wf t \<Longrightarrow> typed P (Halt msg t)" by simp

lemma typed_if: "(c \<Longrightarrow> typed P x) \<Longrightarrow> (\<not> c \<Longrightarrow> typed P y) \<Longrightarrow> typed P (if c then x else y)" by simp

lemma typed_Let: "typed P (f x) \<Longrightarrow> typed P (Let x f)" by simp

lemma typed_option:
  "(v = None \<Longrightarrow> typed P a) \<Longrightarrow> (\<And>x. v = Some x \<Longrightarrow> typed P (f x)) \<Longrightarrow> typed P (case v of None \<Rightarrow> a | Some x \<Rightarrow> f x)"
  by (cases v) auto

lemma typed_pair: "(\<And>a b. v = (a, b) \<Longrightarrow> typed P (f a b)) \<Longrightarrow> typed P (case v of (a, b) \<Rightarrow> f a b)"
  by (cases v) auto

lemma typed_ofold:
  "(\<And>x t. fs_wf t \<Longrightarrow> typed any (f x t)) \<Longrightarrow> fs_wf s \<Longrightarrow> typed any (ofold f xs s)"
  using ensures_ofold [of fs_wf fs_wf f s xs] by simp

subsection \<open>Buffers\<close>

lemma cache_wf_upd:
  assumes "cache_wf c" "i < XV6FS_NBUF \<Longrightarrow> length (b_data (f (bcache_pool c ! i))) = BSIZE"
  shows "cache_wf (upd_buf i f c)"
  using assms by (auto simp: cache_wf_def upd_buf_def nth_upd)

lemma cache_wf_init: "cache_wf c \<Longrightarrow> cache_wf (bcache_init c)"
  using fold_upd_buf [of XV6FS_NBUF c "\<lambda>b. b\<lparr>b_flags := 0, b_dev := -1, b_blockno := 0\<rparr>"]
  by (simp add: bcache_init_def cache_wf_def)

lemma cache_wf_get:
  assumes "cache_wf c"
  shows "fst (bcache_get dev b c) < XV6FS_NBUF \<and> cache_wf (snd (bcache_get dev b c))"
proof -
  let ?c = "if bcache_inited c then c else bcache_init c"
  have w: "cache_wf ?c" using assms cache_wf_init by simp
  have f: "i < n" if "find P [0..<n] = Some i" for P i n
    using that by (auto simp: find_Some_iff)
  have v: "cache_wf (snd (ahci_write_sectors n d x))" if "cache_wf x" "length d = BSIZE" for n d x
    using that by (auto simp: ahci_write_sectors_def cache_wf_def)
  have n: "0 < XV6FS_NBUF" by (simp add: XV6FS_NBUF_def)
  have a: "cache_wf (?c\<lparr>bcache_next_victim := (k + 1) mod XV6FS_NBUF\<rparr>)" for k
    using w n by (simp add: cache_wf_def)
  have vl: "bcache_next_victim ?c < XV6FS_NBUF" "length (b_data (bcache_pool ?c ! bcache_next_victim ?c)) = BSIZE"
    using w by (auto simp: cache_wf_def)
  have u: "cache_wf (upd_buf v (\<lambda>b. b\<lparr>b_dev := x, b_blockno := y, b_flags := 0\<rparr>) c)" if "cache_wf c" for v x y c
    using that by (intro cache_wf_upd) (auto simp: cache_wf_def)
  show ?thesis
    using f w vl a v u unfolding bcache_get_def Let_def
    by (auto simp del: One_nat_def split: option.split)
qed

lemma typed_bread:
  assumes "fs_wf s"
  shows "typed (\<lambda>i. i < XV6FS_NBUF) (fs_bread dev b s)"
proof -
  obtain i c where g: "bcache_get dev b (bc s) = (i, c)" by force
  have w: "i < XV6FS_NBUF" "cache_wf c"
    using cache_wf_get [of "bc s" dev b] assms by (auto simp: g fs_wf_def)
  have u: "cache_wf (upd_buf i (\<lambda>x. x\<lparr>b_data := d, b_flags := (b_flags x OR B_VALID) AND NOT B_DIRTY\<rparr>) c)"
    if "ahci_read_sectors b c = Some d" for d
    using that w by (intro cache_wf_upd) (auto simp: ahci_read_sectors_def cache_wf_def split: if_splits)
  show ?thesis
    using assms w u by (auto simp: lift_bc_def bread_def g ensures_def fs_wf_def ino_def split: option.split)
qed

lemma typed_bread_bind:
  assumes "fs_wf s" "\<And>i t. fs_bread dev b s = Ret i t \<Longrightarrow> i < XV6FS_NBUF \<Longrightarrow> fs_wf t \<Longrightarrow> typed Q (f i t)"
  shows "typed Q (obind (fs_bread dev b s) f)"
  using typed_bread [OF assms(1), of dev b] assms(2) by (cases "fs_bread dev b s") auto

lemma typed_log_write:
  assumes "fs_wf s" "bp < XV6FS_NBUF"
  shows "typed any (fs_log_write bp s)"
proof -
  let ?c = "upd_buf bp (\<lambda>b. b\<lparr>b_flags := b_flags b OR B_DIRTY\<rparr>) (bc s)"
  have c: "cache_wf ?c" using assms by (intro cache_wf_upd) (auto simp: cache_wf_def fs_wf_def)
  have "cache_wf (snd (ahci_write_sectors n (b_data (bcache_pool ?c ! bp)) ?c))" for n
    using c assms(2) by (auto simp: ahci_write_sectors_def cache_wf_def)
  moreover from this have "cache_wf (upd_buf bp (\<lambda>b. b\<lparr>b_flags := b_flags b AND NOT B_DIRTY\<rparr>)
      (snd (ahci_write_sectors n (b_data (bcache_pool ?c ! bp)) ?c)))" for n
    by (intro cache_wf_upd) (auto simp: cache_wf_def assms(2))
  ultimately have "case log_write bp (bc s) of Ret x c \<Rightarrow> cache_wf c | Halt m c \<Rightarrow> cache_wf c"
    using c by (auto simp: log_write_def bwrite_def Let_def split_def split: outcome.splits if_splits)
  then show ?thesis
    using assms(1) by (auto simp: lift_bc_def ensures_def fs_wf_def ino_def split: outcome.splits)
qed

lemma wf_set_bdata: "fs_wf s \<Longrightarrow> length d = BSIZE \<Longrightarrow> fs_wf (set_bdata bp d s)"
  using cache_wf_upd [of "bc s" bp "\<lambda>b. b\<lparr>b_data := d\<rparr>"]
  by (simp add: fs_wf_def set_bdata_def set_buf_data_def ino_def)

lemma wf_bdata: "fs_wf s \<Longrightarrow> bp < XV6FS_NBUF \<Longrightarrow> length (bdata bp s) = BSIZE"
  by (simp add: fs_wf_def cache_wf_def bdata_def buf_data_def)

lemma wf_upd_ino:
  "fs_wf s \<Longrightarrow> (\<And>x. length (i_addrs x) = NDIRECT + 2 \<Longrightarrow> length (i_addrs (f x)) = NDIRECT + 2) \<Longrightarrow> fs_wf (upd_ino ip f s)"
  by (auto simp: fs_wf_def upd_ino_def ino_def nth_upd)

lemma wf_addrs: "fs_wf s \<Longrightarrow> ip < NINODE \<Longrightarrow> length (i_addrs (ino ip s)) = NDIRECT + 2"
  by (simp add: fs_wf_def)

lemma wf_other [simp]:
  "fs_wf (s\<lparr>icache_lock := l\<rparr>) = fs_wf s" "fs_wf (s\<lparr>kout := out\<rparr>) = fs_wf s"
  "fs_wf (s\<lparr>fake_proc_inited := q\<rparr>) = fs_wf s" "fs_wf (s\<lparr>devsw := w\<rparr>) = fs_wf s"
  "fs_wf (s\<lparr>xv6fs_mounted := q\<rparr>) = fs_wf s" "fs_wf (s\<lparr>sb := b\<rparr>) = fs_wf s"
  by (simp_all add: fs_wf_def ino_def)

subsection \<open>Blocks and inodes\<close>

lemma typed_acquire: "fs_wf s \<Longrightarrow> typed any (acquire s)"
  by (simp add: acquire_def)

lemma typed_release: "fs_wf s \<Longrightarrow> typed any (release s)"
  by (simp add: release_def)

lemma typed_acquiresleep: "fs_wf s \<Longrightarrow> typed any (acquiresleep ip s)"
  by (auto simp: acquiresleep_def intro!: wf_upd_ino)

lemma typed_releasesleep: "fs_wf s \<Longrightarrow> typed any (releasesleep ip s)"
  by (auto simp: releasesleep_def intro!: wf_upd_ino)

lemma wf_put:
  "fs_wf s \<Longrightarrow> bp < XV6FS_NBUF \<Longrightarrow> dinode_ok d \<Longrightarrow> length (put_dinode i d (bdata bp s)) = BSIZE"
  "fs_wf s \<Longrightarrow> bp < XV6FS_NBUF \<Longrightarrow> k < NINDIRECT \<Longrightarrow> length (put32 (4 * k) w (bdata bp s)) = BSIZE"
  "fs_wf s \<Longrightarrow> bp < XV6FS_NBUF \<Longrightarrow> k + length bs \<le> BSIZE \<Longrightarrow> length (put_bytes k bs (bdata bp s)) = BSIZE"
  by (simp_all add: wf_bdata put32_def NINDIRECT_def BSIZE_def)

lemmas typed_base = typed_bread_bind typed_bind typed_Ret typed_Halt typed_if typed_Let typed_option typed_pair
  typed_ofold typed_acquire typed_release typed_acquiresleep typed_releasesleep typed_log_write wf_set_bdata
  wf_upd_ino TrueI

lemma typed_bzero: "fs_wf s \<Longrightarrow> typed any (bzero dev b s)"
  unfolding bzero_def by (rule typed_base | assumption | (simp; fail))+

lemma typed_balloc_from: "fs_wf s \<Longrightarrow> typed any (balloc_from n dev b s)"
proof (induction n dev b s rule: balloc_from.induct)
  case (1 n dev b s)
  show ?case
    by (subst balloc_from.simps)
      (rule typed_base typed_bzero 1 | assumption | (simp add: wf_bdata; fail))+
qed

lemma typed_balloc: "fs_wf s \<Longrightarrow> typed any (balloc dev s)"
  unfolding balloc_def by (rule typed_base typed_balloc_from | assumption)+

lemma typed_bfree: "fs_wf s \<Longrightarrow> typed any (bfree dev b s)"
  unfolding bfree_def by (rule typed_base | assumption | (simp add: wf_bdata; fail))+

lemma typed_xv6fs_iinit: "fs_wf s \<Longrightarrow> typed any (xv6fs_iinit s)"
proof -
  assume "fs_wf s"
  then have "fs_wf (s\<lparr>icache_lock := False, icache := map (\<lambda>x. x\<lparr>i_lock := False\<rparr>) (icache s)\<rparr>)"
    by (simp add: fs_wf_def ino_def)
  then show ?thesis
    unfolding xv6fs_iinit_def readsb_def Let_def obind_assoc obind.simps
    by (rule typed_base | assumption | (simp; fail))+
qed

lemma typed_iget: "fs_wf s \<Longrightarrow> typed (\<lambda>ip. ip < NINODE) (iget dev i s)"
  unfolding iget_def by (rule typed_base | assumption | (auto simp: find_Some_iff; fail))+

lemma typed_idup: "fs_wf s \<Longrightarrow> ip < NINODE \<Longrightarrow> typed (\<lambda>ip. ip < NINODE) (idup ip s)"
  unfolding idup_def by (rule typed_base | assumption | (simp; fail))+

lemma new_dinode_ok: "dinode_ok (new_dinode t)"
  by (simp add: dinode_ok_def new_dinode_def)

lemma typed_ialloc_from: "fs_wf s \<Longrightarrow> typed (\<lambda>ip. ip < NINODE) (ialloc_from n dev t i s)"
proof (induction n dev t i s rule: ialloc_from.induct)
  case (1 n dev t i s)
  show ?case
    by (subst ialloc_from.simps)
      (rule typed_base typed_iget 1 wf_put new_dinode_ok | assumption | (simp; fail))+
qed

lemma typed_ialloc: "fs_wf s \<Longrightarrow> typed (\<lambda>ip. ip < NINODE) (ialloc dev t s)"
  unfolding ialloc_def by (rule typed_base typed_ialloc_from | assumption)+

text \<open>An inode index is in the table; the callers get theirs from \<open>iget\<close>.\<close>

lemma typed_iupdate: "fs_wf s \<Longrightarrow> ip < NINODE \<Longrightarrow> typed any (iupdate ip s)"
  unfolding iupdate_def
  by (rule typed_base wf_put | assumption | (simp add: dinode_ok_def dinode_of_def wf_addrs; fail))+

lemma get_dinode_addrs: "length (d_addrs (get_dinode i d)) = NDIRECT + 2"
  by (simp add: get_dinode_def dec_dinode_def)

lemma typed_ilock: "fs_wf s \<Longrightarrow> typed any (ilock p s)"
  unfolding ilock_def
  by (rule typed_base | assumption | (simp add: get_dinode_addrs; fail))+

lemma typed_iunlock: "fs_wf s \<Longrightarrow> typed any (iunlock p s)"
  unfolding iunlock_def by (rule typed_base | assumption | (simp; fail))+

lemma wf_clear_addr: "fs_wf s \<Longrightarrow> fs_wf (clear_addr ip k s)"
  unfolding clear_addr_def by (rule wf_upd_ino) auto

lemma typed_free_entries: "fs_wf s \<Longrightarrow> typed any (free_entries dev bp s)"
  unfolding free_entries_def by (rule typed_base typed_bfree | assumption)+

lemma typed_itrunc: "fs_wf s \<Longrightarrow> ip < NINODE \<Longrightarrow> typed any (itrunc ip s)"
  unfolding itrunc_def
  by (rule typed_base typed_bfree typed_free_entries wf_clear_addr typed_iupdate | assumption | (simp; fail))+

lemma typed_iput: "fs_wf s \<Longrightarrow> ip < NINODE \<Longrightarrow> typed any (iput ip s)"
  unfolding iput_def
  by (rule typed_base typed_itrunc typed_iupdate | assumption | (simp; fail))+

lemma typed_iunlockput: "fs_wf s \<Longrightarrow> ip < NINODE \<Longrightarrow> typed any (iunlockput ip s)"
  unfolding iunlockput_def by (rule typed_base typed_iunlock typed_iput | assumption)+


subsection \<open>Contents and directories\<close>

lemma typed_addr_slot: "fs_wf s \<Longrightarrow> typed any (addr_slot ip k s)"
  unfolding addr_slot_def by (rule typed_base typed_balloc | assumption | (simp; fail))+

lemma typed_entry_slot: "fs_wf s \<Longrightarrow> bp < XV6FS_NBUF \<Longrightarrow> k < NINDIRECT \<Longrightarrow> typed any (entry_slot dev bp k s)"
  unfolding entry_slot_def by (rule typed_base typed_balloc wf_put | assumption | (simp; fail))+

lemma typed_bmap: "fs_wf s \<Longrightarrow> typed any (bmap ip b s)"
proof -
  have "n < NDINDIRECT \<Longrightarrow> n div NINDIRECT < NINDIRECT" "n mod NINDIRECT < NINDIRECT" for n
    by (simp_all add: NDINDIRECT_def NINDIRECT_def BSIZE_def)
  then show "fs_wf s \<Longrightarrow> typed any (bmap ip b s)"
    unfolding bmap_def by - (rule typed_base typed_addr_slot typed_entry_slot | assumption)+
qed

lemma typed_readi_loop: "fs_wf s \<Longrightarrow> typed any (readi_loop ip off n s)"
proof (induction ip off n s rule: readi_loop.induct)
  case (1 ip off n s)
  show ?case
    by (subst readi_loop.simps) (rule typed_base typed_bmap 1 refl | assumption)+
qed

lemma typed_readi: "fs_wf s \<Longrightarrow> typed any (readi ip off n s)"
  unfolding readi_def by (rule typed_base typed_readi_loop | assumption)+

lemma typed_writei_loop: "fs_wf s \<Longrightarrow> typed any (writei_loop ip off src s)"
proof (induction ip off src s rule: writei_loop.induct)
  case (1 ip off src s)
  have "off mod BSIZE < BSIZE" by (simp add: BSIZE_def)
  then have "off mod BSIZE + length (take (min (length src) (BSIZE - off mod BSIZE)) src) \<le> BSIZE" by simp
  then show ?case
    by (subst writei_loop.simps) (rule typed_base typed_bmap wf_put 1 refl | assumption)+
qed

lemma typed_writei: "fs_wf s \<Longrightarrow> ip < NINODE \<Longrightarrow> typed any (writei ip src off s)"
  unfolding writei_def console_write_def
  by (rule typed_base typed_writei_loop typed_iupdate | assumption | (simp; fail))+

lemma typed_read_dirent: "fs_wf s \<Longrightarrow> typed any (read_dirent msg dp off s)"
  unfolding read_dirent_def by (rule typed_base typed_readi | assumption)+

abbreviation inode_at :: "(nat \<times> 'a) option \<Rightarrow> bool" where
  "inode_at r \<equiv> \<forall>ip x. r = Some (ip, x) \<longrightarrow> ip < NINODE"

lemma typed_dirlookup_from: "fs_wf s \<Longrightarrow> typed inode_at (dirlookup_from dp name offs s)"
  by (induction offs arbitrary: s)
    (simp_all only: dirlookup_from.simps, (rule typed_base typed_read_dirent typed_bind_with [OF typed_iget] | assumption | (simp; fail))+)

lemma typed_dirlookup: "fs_wf s \<Longrightarrow> typed inode_at (dirlookup dp name s)"
  unfolding dirlookup_def by (rule typed_base typed_dirlookup_from | assumption)+

lemma typed_free_dirent: "fs_wf s \<Longrightarrow> typed any (free_dirent dp offs e s)"
  by (induction offs arbitrary: s e) (simp_all only: free_dirent.simps, (rule typed_base typed_read_dirent | assumption | (simp; fail))+)

lemma typed_dirlink: "fs_wf s \<Longrightarrow> dp < NINODE \<Longrightarrow> typed any (dirlink dp name i s)"
  unfolding dirlink_def
  by (rule typed_bind_with [OF typed_dirlookup] typed_base typed_free_dirent typed_writei typed_iput | assumption | (simp; fail))+

lemma typed_namex_loop: "fs_wf s \<Longrightarrow> ip < NINODE \<Longrightarrow> typed inode_at (namex_loop parent path name ip s)"
proof (induction parent path name ip s rule: namex_loop.induct)
  case (1 parent path name ip s)
  show ?case
    by (subst namex_loop.simps)
      (rule typed_bind_with [OF typed_dirlookup] typed_base typed_ilock typed_iput typed_iunlock typed_iunlockput 1
        | assumption | (use 1 in simp; fail))+
qed

lemma typed_namex_root: "fs_wf s \<Longrightarrow> typed inode_at (namex_root parent path s)"
  unfolding namex_root_def by (rule typed_bind_with [OF typed_iget] typed_namex_loop | assumption)+

lemma typed_myproc: "fs_wf s \<Longrightarrow> typed any (myproc s)"
  unfolding myproc_def
  by (rule typed_bind_with [OF typed_namex_root] typed_base | assumption | (simp add: fs_wf_def ino_def; fail))+

lemma typed_namex: "fs_wf s \<Longrightarrow> typed inode_at (namex parent path s)"
  unfolding namex_def
  by (rule typed_bind_with [OF typed_idup] typed_base typed_namex_root typed_namex_loop typed_myproc | assumption
      | (simp add: fs_wf_def; fail))+

lemma typed_namei: "fs_wf s \<Longrightarrow> typed (\<lambda>r. \<forall>ip. r = Some ip \<longrightarrow> ip < NINODE) (namei path s)"
  unfolding namei_def
  by (rule typed_bind_with [OF typed_namex] typed_base | assumption | (auto; fail))+

lemma typed_nameiparent: "fs_wf s \<Longrightarrow> typed inode_at (nameiparent path s)"
  unfolding nameiparent_def by (rule typed_namex)


subsection \<open>The operations other parts call\<close>

lemma typed_set_cwd: "fs_wf s \<Longrightarrow> ip < NINODE \<Longrightarrow> typed any (xv6fs_bridge_set_cwd ip s)"
  unfolding xv6fs_bridge_set_cwd_def
  by (rule typed_base typed_myproc typed_iput | assumption | (simp add: fs_wf_def ino_def; fail))+

lemma typed_read_file: "fs_wf s \<Longrightarrow> typed any (xv6fs_bridge_read_file path n s)"
  unfolding xv6fs_bridge_read_file_def
  by (rule typed_bind_with [OF typed_namei] typed_base typed_ilock typed_readi typed_iunlock typed_iput | assumption
      | (simp; fail))+

lemma typed_full_init: "fs_wf s \<Longrightarrow> typed any (xv6fs_full_init dev s)"
  unfolding xv6fs_full_init_def
  by (rule typed_xv6fs_iinit)
    (simp add: fs_wf_def cache_wf_def ino_def xv6fs_bridge_init_def devsw_init_def)

lemma typed_xv6fs_create: "fs_wf s \<Longrightarrow> typed (\<lambda>r. \<forall>ip. r = Some ip \<longrightarrow> ip < NINODE) (xv6fs_create path t ma mi s)"
  unfolding xv6fs_create_def
  by (rule typed_bind_with [OF typed_nameiparent] typed_bind_with [OF typed_dirlookup] typed_bind_with [OF typed_ialloc]
      typed_base typed_ilock typed_iunlockput typed_iupdate typed_dirlink | assumption | (simp; fail))+

lemma typed_dir_empty: "fs_wf s \<Longrightarrow> typed any (dir_empty ip offs s)"
  by (induction offs arbitrary: s)
    (simp_all only: dir_empty.simps, (rule typed_base typed_readi | assumption | (simp; fail))+)

lemma typed_xv6fs_unlink: "fs_wf s \<Longrightarrow> typed any (xv6fs_unlink path s)"
  unfolding xv6fs_unlink_def
  by (rule typed_bind_with [OF typed_nameiparent] typed_bind_with [OF typed_dirlookup]
      typed_base typed_ilock typed_iunlockput typed_iupdate typed_writei typed_dir_empty | assumption | (simp; fail))+

end
