(* ===== verification/FsLocks.thy ===== *)
theory FsLocks
  imports FsInv
begin

text \<open>
  The lock discipline of the file system.  The machine stops when a lock that is held is
  taken again, so an operation that forgets to release one stops the next that needs it.
\<close>

section \<open>Which locks are held\<close>

text \<open>The table lock is free and the inode locks held are those of \<open>L\<close>.\<close>

definition holding :: "bool list \<Rightarrow> fs \<Rightarrow> bool" where
  "holding L s \<longleftrightarrow> \<not> icache_lock s \<and> map i_lock (icache s) = L"

abbreviation yields :: "('a \<Rightarrow> 's \<Rightarrow> bool) \<Rightarrow> ('a, 's) outcome \<Rightarrow> bool" where
  "yields Q m \<equiv> ensures (\<lambda>_. True) Q m"

abbreviation keeps :: "bool list \<Rightarrow> ('a, fs) outcome \<Rightarrow> bool" where
  "keeps L m \<equiv> yields (\<lambda>_. holding L) m"

lemma keeps_bind:
  "keeps L m \<Longrightarrow> (\<And>x t. m = Ret x t \<Longrightarrow> holding L t \<Longrightarrow> yields Q (f x t)) \<Longrightarrow> yields Q (obind m f)"
  by (cases m) auto

lemma yields_bind:
  "yields R m \<Longrightarrow> (\<And>x t. m = Ret x t \<Longrightarrow> R x t \<Longrightarrow> yields Q (f x t)) \<Longrightarrow> yields Q (obind m f)"
  by (cases m) auto

lemma keeps_Ret: "holding L t \<Longrightarrow> keeps L (Ret x t)" by simp

lemma yields_Ret: "Q x t \<Longrightarrow> yields Q (Ret x t)" by simp

lemma yields_Halt: "yields Q (Halt msg t)" by simp

lemma yields_if: "(c \<Longrightarrow> yields Q x) \<Longrightarrow> (\<not> c \<Longrightarrow> yields Q y) \<Longrightarrow> yields Q (if c then x else y)" by simp

lemma yields_Let: "yields Q (f x) \<Longrightarrow> yields Q (Let x f)" by simp

lemma yields_option:
  "(v = None \<Longrightarrow> yields Q a) \<Longrightarrow> (\<And>x. v = Some x \<Longrightarrow> yields Q (f x)) \<Longrightarrow> yields Q (case v of None \<Rightarrow> a | Some x \<Rightarrow> f x)"
  by (cases v) auto

lemma yields_pair: "(\<And>a b. v = (a, b) \<Longrightarrow> yields Q (f a b)) \<Longrightarrow> yields Q (case v of (a, b) \<Rightarrow> f a b)"
  by (cases v) auto

lemma keeps_ofold:
  "(\<And>x t. holding L t \<Longrightarrow> keeps L (f x t)) \<Longrightarrow> holding L s \<Longrightarrow> keeps L (ofold f xs s)"
  using ensures_ofold [of "holding L" "\<lambda>_. True" f s xs] by simp

subsection \<open>Steps that touch no lock\<close>

lemma holding_bc [simp]: "holding L (s\<lparr>bc := c\<rparr>) = holding L s" "holding L (s\<lparr>cwd := d\<rparr>) = holding L s"
  "holding L (s\<lparr>kout := out\<rparr>) = holding L s" "holding L (s\<lparr>fake_proc_inited := q\<rparr>) = holding L s"
  by (simp_all add: holding_def)

lemma keeps_lift: "holding L s \<Longrightarrow> keeps L (lift_bc m s)"
  by (auto simp: lift_bc_def split: outcome.split)

lemma holding_set_bdata: "holding L s \<Longrightarrow> holding L (set_bdata bp d s)"
  by (simp add: set_bdata_def)

lemma holding_upd_ino: "holding L s \<Longrightarrow> (\<And>x. i_lock (f x) = i_lock x) \<Longrightarrow> holding L (upd_ino ip f s)"
  by (cases "ip < length (icache s)")
    (auto simp: holding_def upd_ino_def map_update list_update_same_conv list_update_beyond)

lemma holding_clear_addr: "holding L s \<Longrightarrow> holding L (clear_addr ip k s)"
  unfolding clear_addr_def by (rule holding_upd_ino) auto

subsection \<open>Steps on locks\<close>

lemma take_sleep:
  assumes "holding L s"
  shows "yields (\<lambda>_ t. holding (L[ip := True]) t \<and> (ip < length L \<longrightarrow> \<not> L ! ip)) (acquiresleep ip s)"
  using assms by (auto simp: acquiresleep_def holding_def upd_ino_def ino_def map_update)

lemma drop_sleep:
  assumes "holding L s"
  shows "yields (\<lambda>_. holding (L[ip := False])) (releasesleep ip s)"
  using assms by (auto simp: releasesleep_def holding_def upd_ino_def ino_def map_update)

lemma unlock_lock: "(ip < length L \<longrightarrow> \<not> L ! ip) \<Longrightarrow> L[ip := True, ip := False] = L"
  by (cases "ip < length L") (auto simp: list_update_same_conv list_update_beyond)

lemmas lock_base = keeps_bind [OF keeps_lift] keeps_lift keeps_bind keeps_Ret yields_Halt yields_if yields_Let
  yields_option yields_pair keeps_ofold holding_set_bdata holding_upd_ino holding_clear_addr

lemma keeps_bzero: "holding L s \<Longrightarrow> keeps L (bzero dev b s)"
  unfolding bzero_def by (rule lock_base | assumption)+

lemma keeps_balloc_from: "holding L s \<Longrightarrow> keeps L (balloc_from n dev b s)"
proof (induction n dev b s rule: balloc_from.induct)
  case (1 n dev b s)
  show ?case
    by (subst balloc_from.simps) (rule lock_base keeps_bind [OF keeps_bzero] 1 | assumption)+
qed

lemma keeps_balloc: "holding L s \<Longrightarrow> keeps L (balloc dev s)"
  unfolding balloc_def by (rule lock_base keeps_balloc_from | assumption)+

lemma keeps_bfree: "holding L s \<Longrightarrow> keeps L (bfree dev b s)"
  unfolding bfree_def by (rule lock_base | assumption)+

lemma keeps_iupdate: "holding L s \<Longrightarrow> keeps L (iupdate ip s)"
  unfolding iupdate_def by (rule lock_base | assumption)+

text \<open>The table lock is taken and released around one change of the table.\<close>

lemma free_again: "\<not> icache_lock t \<Longrightarrow> t\<lparr>icache_lock := False\<rparr> = t"
  by (cases t) simp

lemma acquire_free: "holding L s \<Longrightarrow> acquire s = Ret () (s\<lparr>icache_lock := True\<rparr>)"
  by (simp add: acquire_def holding_def)

lemma release_taken:
  assumes "holding L s" "\<And>x. i_lock (f x) = i_lock x"
  shows "keeps L (obind (release (upd_ino ip f (s\<lparr>icache_lock := True\<rparr>))) (\<lambda>_. Ret y))"
    "keeps L (release (upd_ino ip f (s\<lparr>icache_lock := True\<rparr>)))"
  using holding_upd_ino [OF assms, of ip] by (simp_all add: release_def upd_ino_def holding_def)

lemma keeps_iget: "holding L s \<Longrightarrow> keeps L (iget dev i s)"
  unfolding iget_def by (subst acquire_free, assumption, simp del: upd_ino_def)
    (rule yields_option yields_Halt release_taken | assumption | simp)+

lemma keeps_idup: "holding L s \<Longrightarrow> keeps L (idup ip s)"
  unfolding idup_def by (simp add: acquire_free release_taken)

lemma keeps_ialloc_from: "holding L s \<Longrightarrow> keeps L (ialloc_from n dev t i s)"
proof (induction n dev t i s rule: ialloc_from.induct)
  case (1 n dev t i s)
  show ?case
    by (subst ialloc_from.simps) (rule lock_base keeps_iget 1 | assumption)+
qed

lemma keeps_ialloc: "holding L s \<Longrightarrow> keeps L (ialloc dev t s)"
  unfolding ialloc_def by (rule lock_base keeps_ialloc_from | assumption)+

lemma lock_taken:
  assumes "holding L s"
  shows "yields (\<lambda>_ t. holding (L[ip := True]) t \<and> (ip < length L \<longrightarrow> \<not> L ! ip)) (ilock (Some ip) s)"
proof -
  have taken: "yields (\<lambda>_ t. holding (L[ip := True]) t \<and> (ip < length L \<longrightarrow> \<not> L ! ip))
     (obind (acquiresleep ip s) f)" if "\<And>t. holding (L[ip := True]) t \<Longrightarrow> keeps (L[ip := True]) (f () t)" for f
    by (rule yields_bind [OF take_sleep [OF assms]]) (use that in \<open>auto elim!: ensures_weaken\<close>)
  show ?thesis
    unfolding ilock_def option.case
    by (rule yields_if yields_Halt taken lock_base | assumption | simp)+
qed

lemma lock_dropped: "holding L s \<Longrightarrow> yields (\<lambda>_. holding (L[ip := False])) (iunlock (Some ip) s)"
  unfolding iunlock_def option.case by (rule yields_if yields_Halt drop_sleep | assumption)+

lemma keeps_free_entries: "holding L s \<Longrightarrow> keeps L (free_entries dev bp s)"
  unfolding free_entries_def by (rule lock_base keeps_bfree | assumption)+

lemma keeps_itrunc: "holding L s \<Longrightarrow> keeps L (itrunc ip s)"
  unfolding itrunc_def
  by (rule lock_base keeps_bfree keeps_free_entries keeps_iupdate | assumption | simp)+

lemma keeps_iput:
  assumes "holding L s"
  shows "keeps L (iput ip s)"
  unfolding iput_def
proof (rule yields_bind [OF take_sleep [OF assms]], elim conjE)
  fix x t
  let ?L = "L[ip := True]"
  assume t: "holding ?L t" and u: "ip < length L \<longrightarrow> \<not> L ! ip"
  have 1: "keeps ?L (if i_valid (ino ip t) \<and> i_nlink (ino ip t) = 0
        then obind (acquire t) (\<lambda>_ s.
          let r = i_ref (ino ip s) in
          obind (release s) (\<lambda>_ s.
          if r = 1
          then obind (itrunc ip s) (\<lambda>_ s.
            obind (iupdate ip (upd_ino ip (\<lambda>x. x\<lparr>i_type := 0\<rparr>) s)) (\<lambda>_ s.
            Ret () (upd_ino ip (\<lambda>x. x\<lparr>i_valid := False\<rparr>) s)))
          else Ret () s))
        else Ret () t)"
  proof -
    have at: "acquire t = Ret () (t\<lparr>icache_lock := True\<rparr>)" "release (t\<lparr>icache_lock := True\<rparr>) = Ret () t"
      "ino ip (t\<lparr>icache_lock := True\<rparr>) = ino ip t"
      using t acquire_free [OF t] free_again [of t] by (simp_all add: release_def holding_def ino_def)
    have fin: "keeps ?L (if i_ref (ino ip t) = 1 then obind (itrunc ip t) (\<lambda>_ s.
            obind (iupdate ip (upd_ino ip (\<lambda>x. x\<lparr>i_type := 0\<rparr>) s)) (\<lambda>_ s.
            Ret () (upd_ino ip (\<lambda>x. x\<lparr>i_valid := False\<rparr>) s))) else Ret () t)"
      using t by - (rule lock_base keeps_itrunc keeps_iupdate | assumption | (simp; fail))+
    show ?thesis
      unfolding at obind.simps Let_def by (rule yields_if keeps_Ret t fin)+
  qed
  show "keeps L (obind (if i_valid (ino ip t) \<and> i_nlink (ino ip t) = 0
        then obind (acquire t) (\<lambda>_ s.
          let r = i_ref (ino ip s) in
          obind (release s) (\<lambda>_ s.
          if r = 1
          then obind (itrunc ip s) (\<lambda>_ s.
            obind (iupdate ip (upd_ino ip (\<lambda>x. x\<lparr>i_type := 0\<rparr>) s)) (\<lambda>_ s.
            Ret () (upd_ino ip (\<lambda>x. x\<lparr>i_valid := False\<rparr>) s)))
          else Ret () s))
        else Ret () t) (\<lambda>_ s.
    obind (releasesleep ip s) (\<lambda>_ s.
    obind (acquire s) (\<lambda>_ s.
    release (upd_ino ip (\<lambda>x. x\<lparr>i_ref := i_ref x - 1\<rparr>) s)))))"
  proof (rule keeps_bind [OF 1], rule yields_bind [OF drop_sleep], assumption)
    fix y v
    assume "holding (?L[ip := False]) v"
    then have v: "holding L v" using unlock_lock [OF u] by simp
    then show "keeps L (obind (acquire v) (\<lambda>_ s. release (upd_ino ip (\<lambda>x. x\<lparr>i_ref := i_ref x - 1\<rparr>) s)))"
      using release_taken(2) [OF v] by (simp add: acquire_free)
  qed
qed


lemma lock_pair:
  assumes "holding (L[ip := True]) s" "ip < length L \<longrightarrow> \<not> L ! ip"
  shows "keeps L (iunlock (Some ip) s)"
  using lock_dropped [OF assms(1), of ip] unlock_lock [OF assms(2)] by simp

lemma unlock_put:
  assumes "holding (L[ip := True]) s" "ip < length L \<longrightarrow> \<not> L ! ip"
  shows "keeps L (iunlockput ip s)"
  unfolding iunlockput_def by (rule keeps_bind [OF lock_pair [OF assms]] keeps_iput | assumption)+

subsection \<open>Contents and directories\<close>

lemma keeps_addr_slot: "holding L s \<Longrightarrow> keeps L (addr_slot ip k s)"
  unfolding addr_slot_def by (rule lock_base keeps_balloc | assumption | simp)+

lemma keeps_entry_slot: "holding L s \<Longrightarrow> keeps L (entry_slot dev bp k s)"
  unfolding entry_slot_def by (rule lock_base keeps_balloc | assumption | simp)+

lemma keeps_bmap: "holding L s \<Longrightarrow> keeps L (bmap ip b s)"
  unfolding bmap_def by (rule lock_base keeps_addr_slot keeps_entry_slot | assumption)+

lemma keeps_readi_loop: "holding L s \<Longrightarrow> keeps L (readi_loop ip off n s)"
proof (induction ip off n s rule: readi_loop.induct)
  case (1 ip off n s)
  show ?case
    by (subst readi_loop.simps) (rule lock_base keeps_bmap 1 refl | assumption)+
qed

lemma keeps_readi: "holding L s \<Longrightarrow> keeps L (readi ip off n s)"
  unfolding readi_def by (rule lock_base keeps_readi_loop | assumption)+

lemma keeps_writei_loop: "holding L s \<Longrightarrow> keeps L (writei_loop ip off src s)"
proof (induction ip off src s rule: writei_loop.induct)
  case (1 ip off src s)
  show ?case
    by (subst writei_loop.simps) (rule lock_base keeps_bmap 1 refl | assumption)+
qed

lemma keeps_writei: "holding L s \<Longrightarrow> keeps L (writei ip src off s)"
  unfolding writei_def console_write_def
  by (rule lock_base keeps_writei_loop keeps_iupdate | assumption | (simp; fail))+

lemma keeps_read_dirent: "holding L s \<Longrightarrow> keeps L (read_dirent msg dp off s)"
  unfolding read_dirent_def by (rule lock_base keeps_readi | assumption)+

lemma keeps_dirlookup_from: "holding L s \<Longrightarrow> keeps L (dirlookup_from dp name offs s)"
  by (induction offs arbitrary: s)
    (simp_all only: dirlookup_from.simps, (rule lock_base keeps_read_dirent keeps_iget | assumption)+)

lemma keeps_dirlookup: "holding L s \<Longrightarrow> keeps L (dirlookup dp name s)"
  unfolding dirlookup_def by (rule lock_base keeps_dirlookup_from | assumption)+

lemma keeps_free_dirent: "holding L s \<Longrightarrow> keeps L (free_dirent dp offs e s)"
  by (induction offs arbitrary: s e)
    (simp_all only: free_dirent.simps, (rule lock_base keeps_read_dirent | assumption)+)

lemma keeps_dirlink: "holding L s \<Longrightarrow> keeps L (dirlink dp name i s)"
  unfolding dirlink_def
  by (rule lock_base keeps_dirlookup keeps_free_dirent keeps_writei keeps_iput | assumption)+

lemma keeps_namex_loop: "holding L s \<Longrightarrow> keeps L (namex_loop parent path name ip s)"
proof (induction parent path name ip s rule: namex_loop.induct)
  case (1 parent path name ip s)
  show ?case
    by (subst namex_loop.simps)
      (rule yields_option yields_pair yields_if keeps_Ret keeps_bind [OF keeps_iput] yields_bind [OF lock_taken]
        keeps_bind [OF lock_pair] keeps_bind [OF unlock_put] keeps_bind [OF keeps_dirlookup] 1
        | assumption | (erule conjunct1 conjunct2) | (use 1 in simp; fail))+
qed

lemma keeps_namex_root: "holding L s \<Longrightarrow> keeps L (namex_root parent path s)"
  unfolding namex_root_def by (rule keeps_bind [OF keeps_iget] keeps_namex_loop | assumption)+

lemma keeps_myproc: "holding L s \<Longrightarrow> keeps L (myproc s)"
  unfolding myproc_def by (rule lock_base keeps_namex_root | assumption | (simp; fail))+

lemma keeps_namex: "holding L s \<Longrightarrow> keeps L (namex parent path s)"
  unfolding namex_def
  by (rule lock_base keeps_namex_root keeps_myproc keeps_idup keeps_namex_loop | assumption)+

lemma keeps_namei: "holding L s \<Longrightarrow> keeps L (namei path s)"
  unfolding namei_def by (rule lock_base keeps_namex | assumption)+

lemma keeps_nameiparent: "holding L s \<Longrightarrow> keeps L (nameiparent path s)"
  unfolding nameiparent_def by (rule keeps_namex)

subsection \<open>The operations other parts call\<close>

lemma keeps_set_cwd: "holding L s \<Longrightarrow> keeps L (xv6fs_bridge_set_cwd ip s)"
  unfolding xv6fs_bridge_set_cwd_def by (rule lock_base keeps_myproc keeps_iput | assumption | (simp; fail))+

lemma keeps_read_file: "holding L s \<Longrightarrow> keeps L (xv6fs_bridge_read_file path n s)"
  unfolding xv6fs_bridge_read_file_def
  by (rule keeps_bind [OF keeps_namei] yields_option keeps_Ret yields_bind [OF lock_taken] keeps_bind [OF keeps_readi]
      keeps_bind [OF lock_pair] keeps_bind [OF keeps_iput] | assumption | (erule conjunct1 conjunct2) | (simp; fail))+


lemma lock_bind:
  assumes "holding L s"
    and "\<And>t. holding (L[ip := True]) t \<Longrightarrow> (ip < length L \<longrightarrow> \<not> L ! ip) \<Longrightarrow> yields Q (f () t)"
  shows "yields Q (obind (ilock (Some ip) s) f)"
  by (rule yields_bind [OF lock_taken [OF assms(1)]]) (use assms(2) in auto)

lemma unlock_bind:
  assumes "holding L s" and "\<And>t. holding (L[ip := False]) t \<Longrightarrow> yields Q (f () t)"
  shows "yields Q (obind (iunlockput ip s) f)"
  unfolding iunlockput_def obind_assoc
  by (rule yields_bind [OF lock_dropped [OF assms(1)]] keeps_bind [OF keeps_iput] | assumption | simp add: assms(2))+

text \<open>Locks \<open>a\<close> and then \<open>b\<close> taken, and released in either order.\<close>

lemma two_locks:
  assumes "a < length L \<longrightarrow> \<not> L ! a" "b < length (L[a := True]) \<longrightarrow> \<not> L[a := True] ! b"
  shows "L[a := True, b := True, a := False] = L[b := True]"
    "L[a := True, b := True, b := False, a := False] = L"
    "L[a := True, b := True, a := False, b := False] = L"
proof -
  have ne: "a \<noteq> b \<or> length L \<le> a" using assms(2) by (cases "a = b") auto
  show 1: "L[a := True, b := True, a := False] = L[b := True]"
    using ne unlock_lock [OF assms(1)] by (cases "a = b") (auto simp: list_update_swap list_update_beyond)
  show "L[a := True, b := True, b := False, a := False] = L"
    using unlock_lock [OF assms(2)] unlock_lock [OF assms(1)] by simp
  have "b < length L \<longrightarrow> \<not> L ! b" using assms(2) by (cases "a = b") (auto simp: nth_list_update)
  then show "L[a := True, b := True, a := False, b := False] = L" unfolding 1 by (rule unlock_lock)
qed

lemma creates:
  assumes "holding L s"
  shows "yields (\<lambda>r t. case r of None \<Rightarrow> holding L t | Some ip \<Rightarrow> holding (L[ip := True]) t) (xv6fs_create path ty ma mi s)"
proof -
  note ops = keeps_bind [OF keeps_nameiparent] keeps_bind [OF keeps_dirlookup] keeps_bind [OF keeps_ialloc]
    keeps_bind [OF keeps_iupdate] keeps_bind [OF keeps_dirlink]
  show ?thesis
    unfolding xv6fs_create_def
    by (rule keeps_bind [OF keeps_nameiparent [OF assms]] ops yields_option yields_pair yields_if yields_Ret lock_bind
        unlock_bind holding_upd_ino keeps_bind [OF yields_if]
       | assumption | (simp; fail) | simp only: option.case unlock_lock two_locks)+
qed

lemma keeps_dir_empty: "holding L s \<Longrightarrow> keeps L (dir_empty ip offs s)"
  by (induction offs arbitrary: s)
    (simp_all only: dir_empty.simps, (rule lock_base keeps_readi | assumption)+)

lemma unlinks:
  assumes "holding L s"
  shows "keeps L (xv6fs_unlink path s)"
proof -
  note ops = keeps_bind [OF keeps_dirlookup] keeps_bind [OF keeps_iupdate] keeps_bind [OF keeps_writei]
  have kind: "keeps M (if b then dir_empty ip offs t else Ret True t)"
    "keeps M (if b then iupdate dp (upd_ino dp (\<lambda>x. x\<lparr>i_nlink := i_nlink x - 1\<rparr>) t) else Ret () t)"
    if "holding M t" for M t b ip offs dp
    using that keeps_dir_empty keeps_iupdate holding_upd_ino [of M t "\<lambda>x. x\<lparr>i_nlink := i_nlink x - 1\<rparr>" dp] by auto
  show ?thesis
    unfolding xv6fs_unlink_def
    by (rule keeps_bind [OF keeps_nameiparent [OF assms]] ops keeps_bind [OF kind(1)] keeps_bind [OF kind(2)]
        yields_option yields_pair yields_if yields_Ret lock_bind unlock_bind holding_upd_ino
       | assumption | (simp; fail) | (simp only: two_locks(2,3); fail) | (simp only: unlock_lock; fail))+
qed


section \<open>Properties\<close>

lemma typed_state: "typed P m \<Longrightarrow> fs_wf (state_of m)"
  by (cases m) auto

text \<open>C35: every operation of the file system that is called from outside leaves the locks as it
  found them when it returns, on success and on every error path, with one exception: the
  inode that \<open>xv6fs_create\<close> returns is locked.\<close>

theorem file_system_releases_locks:
  assumes "holding L s"
  shows "(\<forall>r t. namei path s = Ret r t \<longrightarrow> holding L t) \<and>
    (\<forall>r t. xv6fs_unlink path s = Ret r t \<longrightarrow> holding L t) \<and>
    (\<forall>t. xv6fs_create path ty ma mi s = Ret None t \<longrightarrow> holding L t) \<and>
    (\<forall>ip t. xv6fs_create path ty ma mi s = Ret (Some ip) t \<longrightarrow> holding (L[ip := True]) t) \<and>
    (\<forall>r t. xv6fs_bridge_read_file path n s = Ret r t \<longrightarrow> holding L t) \<and>
    (\<forall>t. xv6fs_bridge_set_cwd ip s = Ret () t \<longrightarrow> holding L t) \<and>
    (\<forall>t. iput ip s = Ret () t \<longrightarrow> holding L t) \<and>
    (\<forall>r t. writei ip src off s = Ret r t \<longrightarrow> holding L t)"
  using keeps_namei [OF assms, of path] unlinks [OF assms, of path] creates [OF assms, of path ty ma mi]
    keeps_read_file [OF assms, of path n] keeps_set_cwd [OF assms, of ip] keeps_iput [OF assms, of ip]
    keeps_writei [OF assms, of ip src off]
  by (intro conjI allI impI) (simp_all add: ensures_def)

theorem file_system_releases_locks_witness:
  "\<exists>t. xv6fs_bridge_set_cwd 0 (small_fs\<lparr>cwd := Some 1, fake_proc_inited := True\<rparr>) = Ret () t \<and>
    holding (replicate 50 False) t"
proof -
  let ?s = "small_fs\<lparr>cwd := Some 1, fake_proc_inited := True\<rparr>"
  have h: "holding (replicate 50 False) ?s"
    by (simp add: holding_def small_fs_def no_inode_def)
  have "\<exists>t. xv6fs_bridge_set_cwd 0 ?s = Ret () t"
    by (simp add: xv6fs_bridge_set_cwd_def myproc_def iput_def acquiresleep_def releasesleep_def acquire_def release_def
        small_fs_def ino_def upd_ino_def no_inode_def)
  then obtain t where t: "xv6fs_bridge_set_cwd 0 ?s = Ret () t" by blast
  moreover have "holding (replicate 50 False) t"
    using file_system_releases_locks [OF h, of "[]" 0 0 0 0 0 "[]" 0] t by blast
  ultimately show ?thesis by blast
qed

text \<open>C36: no operation changes the shape of the file system's data, whether it returns or stops the
  machine: 64 buffers of 512 bytes, disk blocks of 512 bytes, 50 inodes with 14 block
  addresses each, and every inode handed out is one of the table.\<close>

theorem file_system_keeps_shapes:
  assumes "fs_wf s"
  shows "fs_wf (state_of (xv6fs_create path ty ma mi s)) \<and> fs_wf (state_of (xv6fs_unlink path s)) \<and>
    fs_wf (state_of (namei path s)) \<and> fs_wf (state_of (readi ip off n s)) \<and>
    (ip < NINODE \<longrightarrow> fs_wf (state_of (writei ip src off s)) \<and> fs_wf (state_of (iput ip s)) \<and>
      fs_wf (state_of (xv6fs_bridge_set_cwd ip s))) \<and>
    fs_wf (state_of (xv6fs_bridge_read_file path n s)) \<and> fs_wf (state_of (xv6fs_full_init dev s)) \<and>
    (\<forall>jp t. namei path s = Ret (Some jp) t \<or> xv6fs_create path ty ma mi s = Ret (Some jp) t \<longrightarrow> jp < NINODE)"
proof -
  have "jp < NINODE" if "namei path s = Ret (Some jp) t \<or> xv6fs_create path ty ma mi s = Ret (Some jp) t" for jp t
    using that typed_namei [OF assms, of path] typed_xv6fs_create [OF assms, of path ty ma mi] by auto
  then show ?thesis
    using typed_xv6fs_create [OF assms, of path ty ma mi, THEN typed_state] typed_xv6fs_unlink [OF assms, of path, THEN typed_state]
      typed_namei [OF assms, of path, THEN typed_state] typed_readi [OF assms, of ip off n, THEN typed_state]
      typed_writei [OF assms, of ip src off, THEN typed_state] typed_iput [OF assms, of ip, THEN typed_state]
      typed_set_cwd [OF assms, of ip, THEN typed_state] typed_read_file [OF assms, of path n, THEN typed_state]
      typed_full_init [OF assms, of dev, THEN typed_state]
    by blast
qed

theorem file_system_keeps_shapes_witness:
  "fs_wf (state_of (xv6fs_create [47, 97] 2 0 0 small_fs))"
proof -
  have "fs_wf small_fs"
    by (simp add: fs_wf_def cache_wf_def small_fs_def ino_def no_inode_def empty_cache_def XV6FS_NBUF_def BSIZE_def
        NINODE_def NDIRECT_def small_disk_def)
  from file_system_keeps_shapes [OF this, of "[47, 97]" 2 0 0] show ?thesis by blast
qed

end
