(* ===== verification/FsRefs.thy ===== *)
theory FsRefs
  imports FsLocks
begin

text \<open>
  Reference counts of the inode table: what each operation of the file system adds to them
  is exactly the references it hands to its caller.
\<close>

section \<open>Counts\<close>

definition cwd_ref :: "fs \<Rightarrow> nat option" where
  "cwd_ref s = (if fake_proc_inited s then cwd s else None)"

text \<open>The working directory is \<open>C\<close>, which nothing but two operations changes, and the counts are \<open>R\<close>.\<close>

definition refs :: "nat option \<Rightarrow> int list \<Rightarrow> fs \<Rightarrow> bool" where
  "refs C R s \<longleftrightarrow> cwd_ref s = C \<and> map i_ref (icache s) = R"

definition plus1 :: "nat \<Rightarrow> int list \<Rightarrow> int list" where
  "plus1 ip R = R[ip := R ! ip + 1]"

definition minus1 :: "nat \<Rightarrow> int list \<Rightarrow> int list" where
  "minus1 ip R = R[ip := R ! ip - 1]"

lemma minus1_plus1 [simp]: "minus1 ip (plus1 ip R) = R"
  by (cases "ip < length R") (auto simp: minus1_def plus1_def list_update_beyond)

lemma plus1_minus1 [simp]: "plus1 ip (minus1 ip R) = R"
  by (cases "ip < length R") (auto simp: minus1_def plus1_def list_update_beyond)

lemma nth_upd_any: "xs[i := v] ! j = (if i = j \<and> j < length xs then v else xs ! j)"
  by (cases "i < length xs") (auto simp: nth_list_update list_update_beyond)

lemma minus1_commute: "minus1 a (plus1 b R) = plus1 b (minus1 a R)"
  by (intro nth_equalityI) (auto simp: minus1_def plus1_def nth_upd_any)

lemma plus1_commute: "plus1 a (plus1 b R) = plus1 b (plus1 a R)"
  by (intro nth_equalityI) (auto simp: plus1_def nth_upd_any)

text \<open>Whatever else happens, a returning run ends with the counts \<open>R\<close>.\<close>

abbreviation counts :: "nat option \<Rightarrow> int list \<Rightarrow> ('a, fs) outcome \<Rightarrow> bool" where
  "counts C R m \<equiv> yields (\<lambda>_. refs C R) m"

lemma counts_bind:
  "counts C R m \<Longrightarrow> (\<And>x t. m = Ret x t \<Longrightarrow> refs C R t \<Longrightarrow> yields Q (f x t)) \<Longrightarrow> yields Q (obind m f)"
  by (cases m) auto

lemma counts_Ret: "refs C R t \<Longrightarrow> counts C R (Ret x t)" by simp

lemma counts_ofold:
  "(\<And>x t. refs C R t \<Longrightarrow> counts C R (f x t)) \<Longrightarrow> refs C R s \<Longrightarrow> counts C R (ofold f xs s)"
  using ensures_ofold [of "refs C R" "\<lambda>_. True" f s xs] by simp

lemma refs_other [simp]: "refs C R (s\<lparr>bc := c\<rparr>) = refs C R s" 
  "refs C R (s\<lparr>kout := out\<rparr>) = refs C R s"
  "refs C R (s\<lparr>icache_lock := l\<rparr>) = refs C R s"
  by (simp_all add: refs_def cwd_ref_def)

lemma counts_lift: "refs C R s \<Longrightarrow> counts C R (lift_bc m s)"
  by (auto simp: lift_bc_def split: outcome.split)

lemma refs_set_bdata: "refs C R s \<Longrightarrow> refs C R (set_bdata bp d s)"
  by (simp add: set_bdata_def)

lemma refs_upd_ino: "refs C R s \<Longrightarrow> (\<And>x. i_ref (f x) = i_ref x) \<Longrightarrow> refs C R (upd_ino ip f s)"
  by (cases "ip < length (icache s)")
    (auto simp: refs_def cwd_ref_def upd_ino_def map_update list_update_same_conv list_update_beyond)

lemma refs_clear_addr: "refs C R s \<Longrightarrow> refs C R (clear_addr ip k s)"
  unfolding clear_addr_def by (rule refs_upd_ino) auto

lemma refs_plus1: "refs C R s \<Longrightarrow> refs C (plus1 ip R) (upd_ino ip (\<lambda>x. x\<lparr>i_ref := i_ref x + 1\<rparr>) s)"
  by (cases "ip < length (icache s)")
    (auto simp: refs_def cwd_ref_def upd_ino_def plus1_def map_update list_update_beyond)

lemma refs_minus1: "refs C R s \<Longrightarrow> refs C (minus1 ip R) (upd_ino ip (\<lambda>x. x\<lparr>i_ref := i_ref x - 1\<rparr>) s)"
  by (cases "ip < length (icache s)")
    (auto simp: refs_def cwd_ref_def upd_ino_def minus1_def map_update list_update_beyond)

lemma counts_acquire: "refs C R s \<Longrightarrow> counts C R (acquire s)"
  by (simp add: acquire_def)

lemma counts_release: "refs C R s \<Longrightarrow> counts C R (release s)"
  by (simp add: release_def)

lemma counts_acquiresleep: "refs C R s \<Longrightarrow> counts C R (acquiresleep ip s)"
  by (auto simp: acquiresleep_def intro!: refs_upd_ino)

lemma counts_releasesleep: "refs C R s \<Longrightarrow> counts C R (releasesleep ip s)"
  by (auto simp: releasesleep_def intro!: refs_upd_ino)

lemmas ref_base = counts_bind [OF counts_lift] counts_lift counts_bind counts_Ret yields_Halt yields_if yields_Let
  yields_option yields_pair counts_ofold refs_set_bdata refs_clear_addr counts_acquire counts_release
  counts_acquiresleep counts_releasesleep

section \<open>Operations that keep every count\<close>

lemma counts_bzero: "refs C R s \<Longrightarrow> counts C R (bzero dev b s)"
  unfolding bzero_def by (rule ref_base | assumption)+

lemma counts_balloc_from: "refs C R s \<Longrightarrow> counts C R (balloc_from n dev b s)"
proof (induction n dev b s rule: balloc_from.induct)
  case (1 n dev b s)
  show ?case
    by (subst balloc_from.simps) (rule counts_bind [OF counts_bzero] 1 ref_base | assumption)+
qed

lemma counts_balloc: "refs C R s \<Longrightarrow> counts C R (balloc dev s)"
  unfolding balloc_def by (rule ref_base counts_balloc_from | assumption)+

lemma counts_bfree: "refs C R s \<Longrightarrow> counts C R (bfree dev b s)"
  unfolding bfree_def by (rule ref_base | assumption)+

lemma counts_iupdate: "refs C R s \<Longrightarrow> counts C R (iupdate ip s)"
  unfolding iupdate_def by (rule ref_base | assumption)+

lemma counts_ilock: "refs C R s \<Longrightarrow> counts C R (ilock p s)"
  unfolding ilock_def by (rule ref_base refs_upd_ino | assumption | (simp; fail))+

lemma counts_iunlock: "refs C R s \<Longrightarrow> counts C R (iunlock p s)"
  unfolding iunlock_def by (rule ref_base | assumption)+

lemma counts_free_entries: "refs C R s \<Longrightarrow> counts C R (free_entries dev bp s)"
  unfolding free_entries_def by (rule ref_base counts_bfree | assumption)+

lemma counts_itrunc: "refs C R s \<Longrightarrow> counts C R (itrunc ip s)"
  unfolding itrunc_def
  by (rule ref_base counts_bfree counts_free_entries counts_iupdate refs_upd_ino | assumption | (simp; fail))+

lemma counts_addr_slot: "refs C R s \<Longrightarrow> counts C R (addr_slot ip k s)"
  unfolding addr_slot_def by (rule ref_base counts_balloc refs_upd_ino | assumption | (simp; fail))+

lemma counts_entry_slot: "refs C R s \<Longrightarrow> counts C R (entry_slot dev bp k s)"
  unfolding entry_slot_def by (rule ref_base counts_balloc | assumption)+

lemma counts_bmap: "refs C R s \<Longrightarrow> counts C R (bmap ip b s)"
  unfolding bmap_def by (rule ref_base counts_addr_slot counts_entry_slot | assumption)+

lemma counts_readi_loop: "refs C R s \<Longrightarrow> counts C R (readi_loop ip off n s)"
proof (induction ip off n s rule: readi_loop.induct)
  case (1 ip off n s)
  show ?case
    by (subst readi_loop.simps) (rule ref_base counts_bmap 1 refl | assumption)+
qed

lemma counts_readi: "refs C R s \<Longrightarrow> counts C R (readi ip off n s)"
  unfolding readi_def by (rule ref_base counts_readi_loop | assumption)+

lemma counts_writei_loop: "refs C R s \<Longrightarrow> counts C R (writei_loop ip off src s)"
proof (induction ip off src s rule: writei_loop.induct)
  case (1 ip off src s)
  show ?case
    by (subst writei_loop.simps) (rule ref_base counts_bmap 1 refl | assumption)+
qed

lemma counts_writei: "refs C R s \<Longrightarrow> counts C R (writei ip src off s)"
  unfolding writei_def console_write_def
  by (rule ref_base counts_writei_loop counts_iupdate refs_upd_ino | assumption | (simp; fail))+

lemma counts_read_dirent: "refs C R s \<Longrightarrow> counts C R (read_dirent msg dp off s)"
  unfolding read_dirent_def by (rule ref_base counts_readi | assumption)+

lemma counts_free_dirent: "refs C R s \<Longrightarrow> counts C R (free_dirent dp offs e s)"
  by (induction offs arbitrary: s e)
    (simp_all only: free_dirent.simps, (rule ref_base counts_read_dirent | assumption)+)

lemma counts_dir_empty: "refs C R s \<Longrightarrow> counts C R (dir_empty ip offs s)"
  by (induction offs arbitrary: s)
    (simp_all only: dir_empty.simps, (rule ref_base counts_readi | assumption)+)

section \<open>Operations that take and drop references\<close>

lemma counts_iput: "refs C R s \<Longrightarrow> counts C (minus1 ip R) (iput ip s)"
  unfolding iput_def
  by (rule counts_bind [OF counts_acquiresleep] counts_bind [OF counts_acquire] counts_bind [OF counts_releasesleep]
      counts_bind [OF counts_release] counts_bind [OF counts_itrunc] counts_bind [OF counts_iupdate] counts_release
      refs_minus1 refs_upd_ino yields_Let counts_bind [OF yields_if] yields_if counts_Ret
    | assumption | (simp; fail))+

lemma counts_iunlockput: "refs C R s \<Longrightarrow> counts C (minus1 ip R) (iunlockput ip s)"
  unfolding iunlockput_def by (rule counts_bind [OF counts_iunlock] counts_iput | assumption)+

lemma takes_idup: "refs C R s \<Longrightarrow> yields (\<lambda>_. refs C (plus1 ip R)) (idup ip s)"
  unfolding idup_def
  by (rule counts_bind [OF counts_acquire] counts_bind [OF counts_release] refs_plus1 yields_Ret | assumption)+

lemma idup_gives: "refs C R s \<Longrightarrow> yields (\<lambda>ip. refs C (plus1 ip R)) (idup ip s)"
  unfolding idup_def
  by (rule counts_bind [OF counts_acquire] counts_bind [OF counts_release] refs_plus1 yields_Ret | assumption)+

text \<open>A fresh slot had the count 0 and gets 1.\<close>

lemma takes_iget: "refs C R s \<Longrightarrow> yields (\<lambda>ip. refs C (plus1 ip R)) (iget dev i s)"
proof -
  have fresh: "refs C (plus1 ip R) (upd_ino ip (\<lambda>x. x\<lparr>i_dev := dev, i_inum := i, i_ref := 1, i_valid := False\<rparr>) t)"
    if "refs C R t" "find (\<lambda>ip. i_ref (ino ip t) = 0) [0..<NINODE] = Some ip" for ip t
  proof -
    have z: "i_ref (icache t ! ip) = 0" using that(2) by (auto simp: find_Some_iff ino_def)
    show ?thesis
      using that(1) z by (cases "ip < length (icache t)")
        (auto simp: refs_def cwd_ref_def upd_ino_def plus1_def map_update list_update_beyond)
  qed
  show "refs C R s \<Longrightarrow> yields (\<lambda>ip. refs C (plus1 ip R)) (iget dev i s)"
    unfolding iget_def
    by (rule counts_bind [OF counts_acquire] counts_bind [OF counts_release] refs_plus1 fresh yields_Ret yields_option
        yields_Halt | assumption)+
qed

text \<open>The counts after an optional inode was handed out.\<close>

fun given :: "nat option \<Rightarrow> int list \<Rightarrow> int list" where
  "given None R = R"
| "given (Some ip) R = plus1 ip R"

abbreviation gives :: "nat option \<Rightarrow> int list \<Rightarrow> ((nat \<times> 'b) option, fs) outcome \<Rightarrow> bool" where
  "gives C R m \<equiv> yields (\<lambda>r. refs C (given (map_option fst r) R)) m"

lemma gives_bind:
  assumes "gives C R m"
    and "\<And>t. refs C R t \<Longrightarrow> yields Q (f None t)" "\<And>ip x t. m = Ret (Some (ip, x)) t \<Longrightarrow> refs C (plus1 ip R) t \<Longrightarrow> yields Q (f (Some (ip, x)) t)"
  shows "yields Q (obind m f)"
proof (cases m)
  case (Ret r t)
  then show ?thesis using assms by (cases r) auto
qed simp

lemma gives_None: "refs C R t \<Longrightarrow> gives C R (Ret None t)" by simp
lemma gives_Some: "refs C (plus1 ip R) t \<Longrightarrow> gives C R (Ret (Some (ip, x)) t)" by simp

lemma iget_bind:
  assumes "refs C R s" "\<And>ip t. iget dev i s = Ret ip t \<Longrightarrow> refs C (plus1 ip R) t \<Longrightarrow> yields Q (f ip t)"
  shows "yields Q (obind (iget dev i s) f)"
  by (rule yields_bind [OF takes_iget [OF assms(1)]]) (rule assms(2))

lemma gives_dirlookup_from: "refs C R s \<Longrightarrow> gives C R (dirlookup_from dp name offs s)"
proof (induction offs arbitrary: s)
  case Nil
  then show ?case by simp
next
  case (Cons off offs)
  show ?case unfolding dirlookup_from.simps
    by (rule counts_bind [OF counts_read_dirent] iget_bind gives_Some Cons yields_if | assumption)+
qed

lemma gives_dirlookup: "refs C R s \<Longrightarrow> gives C R (dirlookup dp name s)"
  unfolding dirlookup_def by (rule yields_if yields_Halt gives_dirlookup_from | assumption)+

lemma put_bind:
  assumes "refs C (plus1 ip R) s" "\<And>t. refs C R t \<Longrightarrow> yields Q (f () t)"
  shows "yields Q (obind (iput ip s) f)" "yields Q (obind (iunlockput ip s) f)"
proof -
  have 1: "counts C R (iput ip s)" "counts C R (iunlockput ip s)"
    using counts_iput [OF assms(1), of ip] counts_iunlockput [OF assms(1), of ip] by simp_all
  show "yields Q (obind (iput ip s) f)" by (rule counts_bind [OF 1(1)]) (use assms(2) in simp)
  show "yields Q (obind (iunlockput ip s) f)" by (rule counts_bind [OF 1(2)]) (use assms(2) in simp)
qed

lemma counts_dirlink: "refs C R s \<Longrightarrow> counts C R (dirlink dp name i s)"
  unfolding dirlink_def
  by (rule gives_bind [OF gives_dirlookup] | assumption
    | (simp only: option.case prod.case Let_def,
        (rule put_bind counts_bind [OF counts_free_dirent] counts_bind [OF counts_writei] counts_Ret yields_if yields_Halt | assumption)+))+


lemma gives_namex_loop: "refs C (plus1 ip R) s \<Longrightarrow> gives C R (namex_loop parent path name ip s)"
proof (induction parent path name ip s arbitrary: R rule: namex_loop.induct)
  case (1 parent path name ip s)
  show ?case
  proof (cases "skipelem path")
    case None
    then show ?thesis using 1(2)
      by (subst namex_loop.simps) (simp, intro conjI impI, rule put_bind, assumption, simp)
  next
    case (Some q)
    obtain nm rest where q: "q = (nm, rest)" by force
    have sk: "skipelem path = Some (nm, rest)" using Some q by simp
    note ih = 1(1) [OF sk refl]
    show ?thesis
      unfolding namex_loop.simps [of parent path] sk option.case prod.case
    proof (rule counts_bind [OF counts_ilock [OF 1(2)]])
      fix x t assume t: "ilock (Some ip) s = Ret x t" "refs C (plus1 ip R) t"
      show "gives C R (if i_type (ino ip t) \<noteq> T_DIR then obind (iunlockput ip t) (\<lambda>_ s. Ret None s)
         else if parent \<and> rest = [] then obind (iunlock (Some ip) t) (\<lambda>_ s. Ret (Some (ip, nm)) s)
         else obind (dirlookup ip nm t) (\<lambda>r s.
           case r of
             None \<Rightarrow> obind (iunlockput ip s) (\<lambda>_ s. Ret None s)
           | Some (next, _) \<Rightarrow> obind (iunlockput ip s) (\<lambda>_ s. namex_loop parent rest nm next s)))"
      proof (intro yields_if)
        show "gives C R (obind (iunlockput ip t) (\<lambda>_ s. Ret None s))"
          by (rule put_bind [OF t(2)]) simp
        show "gives C R (obind (iunlock (Some ip) t) (\<lambda>_ s. Ret (Some (ip, nm)) s))"
          by (rule counts_bind [OF counts_iunlock [OF t(2)]]) simp
        assume d: "\<not> i_type (ino ip t) \<noteq> T_DIR" "\<not> (parent \<and> rest = [])"
        show "gives C R (obind (dirlookup ip nm t) (\<lambda>r s.
           case r of
             None \<Rightarrow> obind (iunlockput ip s) (\<lambda>_ s. Ret None s)
           | Some (next, _) \<Rightarrow> obind (iunlockput ip s) (\<lambda>_ s. namex_loop parent rest nm next s)))"
        proof (rule gives_bind [OF gives_dirlookup [OF t(2)]])
          fix u assume "refs C (plus1 ip R) u"
          then show "gives C R (case None of None \<Rightarrow> obind (iunlockput ip u) (\<lambda>_ s. Ret None s)
             | Some (next, _) \<Rightarrow> obind (iunlockput ip u) (\<lambda>_ s. namex_loop parent rest nm next s))"
            unfolding option.case by (rule put_bind) simp
        next
          fix jp y u assume u: "dirlookup ip nm t = Ret (Some (jp, y)) u" "refs C (plus1 jp (plus1 ip R)) u"
          have "refs C (plus1 ip (plus1 jp R)) u" using u(2) by (simp add: plus1_commute)
          then have "counts C (plus1 jp R) (iunlockput ip u)" using counts_iunlockput [of C "plus1 ip (plus1 jp R)" u ip] by simp
          then have "gives C R (obind (iunlockput ip u) (\<lambda>_ s. namex_loop parent rest nm jp s))"
            by (rule counts_bind) (use ih [OF t(1) d u(1) refl refl] in blast)
          then show "gives C R (case Some (jp, y) of None \<Rightarrow> obind (iunlockput ip u) (\<lambda>_ s. Ret None s)
             | Some (next, _) \<Rightarrow> obind (iunlockput ip u) (\<lambda>_ s. namex_loop parent rest nm next s))"
            by simp
        qed
      qed
    qed
  qed
qed

section \<open>The working directory\<close>

text \<open>\<open>R\<close> counts the references that are neither lost nor held by the working directory.\<close>

definition owned :: "int list \<Rightarrow> fs \<Rightarrow> bool" where
  "owned R s \<longleftrightarrow> map i_ref (icache s) = given (cwd_ref s) R"

lemma owned_refs: "owned R s \<Longrightarrow> refs (cwd_ref s) (given (cwd_ref s) R) s"
  by (simp add: owned_def refs_def)

lemma refs_owned: "refs C (given C R) s \<Longrightarrow> owned R s"
  by (simp add: owned_def refs_def)

lemma given_plus1: "given C (plus1 ip R) = plus1 ip (given C R)"
  by (cases C) (simp_all add: plus1_commute)

lemma given_minus1: "given C (minus1 ip R) = minus1 ip (given C R)"
  by (cases C) (simp_all add: minus1_commute)

lemma given_given: "given C (given D R) = given D (given C R)"
  by (cases D) (simp_all add: given_plus1)

lemma yields_owned:
  assumes "owned R s" "\<And>C R. refs C R s \<Longrightarrow> yields (\<lambda>r. refs C (f r R)) m" "\<And>r C R. given C (f r R) = f r (given C R)"
  shows "yields (\<lambda>r. owned (f r R)) m"
proof (cases m)
  case (Ret r t)
  have "yields (\<lambda>r. refs (cwd_ref s) (f r (given (cwd_ref s) R))) m"
    by (rule assms(2)) (rule owned_refs [OF assms(1)])
  then have "refs (cwd_ref s) (given (cwd_ref s) (f r R)) t" using Ret by (simp add: assms(3))
  then show ?thesis using Ret by (simp add: refs_owned)
qed simp

lemmas counts_owned = yields_owned [where f = "\<lambda>_ R. R", simplified]

lemma gives_namex_root: "refs C R s \<Longrightarrow> gives C R (namex_root parent path s)"
  unfolding namex_root_def by (rule iget_bind) (assumption, rule gives_namex_loop)

text \<open>The first use of the working directory gives it a reference to the root.\<close>

lemma owned_myproc:
  assumes "owned R s"
  shows "yields (\<lambda>_ t. owned R t \<and> fake_proc_inited t) (myproc s)"
proof (cases "fake_proc_inited s")
  case True
  then show ?thesis using assms by (simp add: myproc_def)
next
  case False
  then have "cwd_ref s = None" by (simp add: cwd_ref_def)
  then have "refs None R s" using assms by (simp add: owned_def refs_def)
  then have "gives None R (namex_root False [slash] s)" by (rule gives_namex_root)
  then show ?thesis using False unfolding myproc_def if_False
    by (cases "namex_root False [slash] s")
      (auto simp: owned_def refs_def cwd_ref_def split: option.split)
qed

lemma owned_namex:
  assumes "owned R s"
  shows "yields (\<lambda>r. owned (given (map_option fst r) R)) (namex parent path s)"
proof (cases "path \<noteq> [] \<and> hd path = slash")
  case True
  show ?thesis unfolding namex_def if_P [OF True]
    by (rule yields_owned [OF assms]) (rule gives_namex_root, assumption, rule given_given)
next
  case False
  have step: "yields (\<lambda>r. owned (given (map_option fst r) R)) (obind (idup d t) (\<lambda>ip. namex_loop parent path [] ip))"
    if "owned R t" for d t
    by (rule yields_owned [OF that], rule yields_bind [OF idup_gives], assumption, rule gives_namex_loop, assumption,
        rule given_given)
  show ?thesis unfolding namex_def if_not_P [OF False]
    by (rule yields_bind [OF owned_myproc [OF assms]]) (rule yields_option yields_Halt step | (erule conjunct1))+
qed

lemma owned_namei:
  assumes "owned R s"
  shows "yields (\<lambda>r. owned (given r R)) (namei path s)"
  unfolding namei_def by (rule yields_bind [OF owned_namex [OF assms]]) simp

lemma owned_nameiparent:
  assumes "owned R s"
  shows "yields (\<lambda>r. owned (given (map_option fst r) R)) (nameiparent path s)"
  unfolding nameiparent_def by (rule owned_namex [OF assms])

text \<open>The reference handed over becomes the one of the working directory.\<close>

lemma owned_set_cwd:
  assumes "owned R s"
  shows "yields (\<lambda>_. owned (minus1 ip R)) (xv6fs_bridge_set_cwd ip s)"
  unfolding xv6fs_bridge_set_cwd_def
proof (rule yields_bind [OF owned_myproc [OF assms]])
  fix x t assume t: "owned R t \<and> fake_proc_inited t"
  show "yields (\<lambda>_. owned (minus1 ip R)) (obind (case cwd t of None \<Rightarrow> Ret () t | Some old \<Rightarrow> iput old t)
    (\<lambda>_ s. Ret () (s\<lparr>cwd := Some ip\<rparr>)))"
  proof (cases "cwd t")
    case None
    then show ?thesis using t by (simp add: owned_def cwd_ref_def)
  next
    case (Some old)
    have "refs (Some old) (plus1 old R) t" using t Some by (auto simp: owned_def refs_def cwd_ref_def)
    from counts_iput [OF this, of old] have "counts (Some old) R (iput old t)" by simp
    then show ?thesis unfolding Some option.case
      by (rule counts_bind) (auto simp: owned_def refs_def cwd_ref_def split: if_splits)
  qed
qed

section \<open>Creating, removing and reading\<close>

lemma takes_ialloc_from: "refs C R s \<Longrightarrow> yields (\<lambda>ip. refs C (plus1 ip R)) (ialloc_from n dev ty i s)"
proof (induction n dev ty i s rule: ialloc_from.induct)
  case (1 n dev ty i s)
  show ?case
    by (subst ialloc_from.simps)
      (rule counts_bind [OF counts_lift] yields_if yields_Halt takes_iget refs_set_bdata 1 | assumption)+
qed

lemma takes_ialloc: "refs C R s \<Longrightarrow> yields (\<lambda>ip. refs C (plus1 ip R)) (ialloc dev ty s)"
  unfolding ialloc_def by (rule yields_if yields_Halt takes_ialloc_from | assumption)+

lemma ialloc_bind:
  assumes "refs C R s" "\<And>ip t. refs C (plus1 ip R) t \<Longrightarrow> yields Q (f ip t)"
  shows "yields Q (obind (ialloc dev ty s) f)"
  by (rule yields_bind [OF takes_ialloc [OF assms(1)]]) (rule assms(2))

lemma put2_bind:
  assumes "refs C (plus1 ip (plus1 jp R)) s" "\<And>t. refs C (plus1 ip R) t \<Longrightarrow> yields Q (f () t)"
  shows "yields Q (obind (iunlockput jp s) f)"
  by (rule put_bind(2) [of C jp "plus1 ip R"]) (use assms plus1_commute in \<open>simp_all\<close>)

lemma parent_bind:
  assumes "owned R s" "\<And>t. owned R t \<Longrightarrow> yields (\<lambda>r. owned (f r R)) (a t)"
    and "\<And>dp (x :: u8 list) C R t. refs C (plus1 dp R) t \<Longrightarrow> yields (\<lambda>r. refs C (f r R)) (g dp x t)"
    and "\<And>r C R. given C (f r R) = f r (given C R)"
  shows "yields (\<lambda>r. owned (f r R)) (obind (nameiparent path s) (\<lambda>r s. case r of None \<Rightarrow> a s | Some (dp, x) \<Rightarrow> g dp x s))"
proof (rule yields_bind [OF owned_nameiparent [OF assms(1)]])
  fix r :: "(nat \<times> u8 list) option" and t assume r: "owned (given (map_option fst r) R) t"
  show "yields (\<lambda>r. owned (f r R)) (case r of None \<Rightarrow> a t | Some (dp, x) \<Rightarrow> g dp x t)"
  proof (cases r)
    case None
    then show ?thesis using r assms(2) by simp
  next
    case (Some q)
    obtain dp x where q: "q = (dp, x)" by force
    let ?C = "cwd_ref t"
    have "refs ?C (plus1 dp (given ?C R)) t" using r by (simp add: Some q owned_def refs_def given_plus1)
    from assms(3) [OF this, of x] have "yields (\<lambda>r. refs ?C (given ?C (f r R))) (g dp x t)" by (simp add: assms(4))
    then show ?thesis unfolding Some q option.case prod.case
      by (cases "g dp x t") (auto intro: refs_owned)
  qed
qed

lemma lookup_bind:
  assumes "refs C R s" "\<And>t. refs C R t \<Longrightarrow> yields Q (a t)" "\<And>ip x t. refs C (plus1 ip R) t \<Longrightarrow> yields Q (g ip x t)"
  shows "yields Q (obind (dirlookup dp name s) (\<lambda>r s. case r of None \<Rightarrow> a s | Some (ip, x) \<Rightarrow> g ip x s))"
  by (rule gives_bind [OF gives_dirlookup [OF assms(1)]]) (simp_all add: assms(2,3))

lemmas ref_steps = counts_bind [OF counts_lift] counts_bind [OF counts_ilock] counts_bind [OF counts_iunlock]
  counts_bind [OF counts_iupdate] counts_bind [OF counts_writei] counts_bind [OF counts_readi]
  counts_bind [OF counts_dirlink] lookup_bind ialloc_bind yields_if

lemma refs_given: "refs C R t \<Longrightarrow> yields (\<lambda>r. refs C (given r R)) (Ret None t)"
  "refs C (plus1 ip R) t \<Longrightarrow> yields (\<lambda>r. refs C (given r R)) (Ret (Some ip) t)"
  by simp_all

lemma owned_create:
  assumes "owned R s"
  shows "yields (\<lambda>r. owned (given r R)) (xv6fs_create path ty ma mi s)"
proof -
  have dirs: "counts C S (if b
      then obind (iupdate dp (upd_ino dp (\<lambda>x. x\<lparr>i_nlink := i_nlink x + 1\<rparr>) s)) (\<lambda>_ s.
        obind (dirlink ip [46] (i_inum (ino ip s)) s) (\<lambda>r s.
        if r < 0 then Ret False s
        else obind (dirlink ip [46, 46] (i_inum (ino dp s)) s) (\<lambda>r s. Ret (\<not> r < 0) s)))
      else Ret True s)" if "refs C S s" for C S s b ip dp
    using that by - (rule ref_steps counts_Ret refs_upd_ino | assumption | (simp; fail))+
  show ?thesis
    unfolding xv6fs_create_def
    by (rule parent_bind [where f = given, OF assms] counts_bind [OF dirs] ref_steps put2_bind refs_given refs_upd_ino
        put_bind(2) given_given | assumption | (simp; fail))+
qed

lemma owned_unlink:
  assumes "owned R s"
  shows "yields (\<lambda>_. owned R) (xv6fs_unlink path s)"
proof -
  have kind: "counts C S (if b then dir_empty ip offs t else Ret True t)"
    "counts C S (if b then iupdate dp (upd_ino dp (\<lambda>x. x\<lparr>i_nlink := i_nlink x - 1\<rparr>) t) else Ret () t)"
    if "refs C S t" for C S t b ip offs dp
    using that counts_dir_empty counts_iupdate refs_upd_ino [of C S t "\<lambda>x. x\<lparr>i_nlink := i_nlink x - 1\<rparr>" dp] by auto
  show ?thesis
    unfolding xv6fs_unlink_def
    by (rule parent_bind [where f = "\<lambda>_ R. R", OF assms] counts_bind [OF kind(1)] counts_bind [OF kind(2)] ref_steps
        put2_bind refs_upd_ino put_bind(2) counts_Ret | assumption | (simp; fail))+
qed

lemma owned_read_file:
  assumes "owned R s"
  shows "yields (\<lambda>_. owned R) (xv6fs_bridge_read_file path n s)"
  unfolding xv6fs_bridge_read_file_def
proof (rule yields_bind [OF owned_namei [OF assms]])
  fix r t assume r: "owned (given r R) t"
  show "yields (\<lambda>_. owned R) (case r of
      None \<Rightarrow> Ret None (t\<lparr>kout := kout t @ ''[xv6fsbridge] file not found or u real stupid: '' @
          bytes_string path @ [char_of (10 :: nat)]\<rparr>)
    | Some ip \<Rightarrow> obind (ilock (Some ip) t) (\<lambda>_ s. obind (readi ip 0 n s) (\<lambda>n s. obind (iunlock (Some ip) s) (\<lambda>_ s.
          obind (iput ip s) (\<lambda>_ s. Ret n s)))))"
  proof (cases r)
    case None
    then show ?thesis using r by (simp add: owned_def cwd_ref_def)
  next
    case (Some ip)
    have 1: "counts C S (obind (ilock (Some ip) t) (\<lambda>_ s. obind (readi ip 0 n s) (\<lambda>n s. obind (iunlock (Some ip) s) (\<lambda>_ s.
          obind (iput ip s) (\<lambda>_ s. Ret n s)))))" if "refs C (plus1 ip S) t" for C S
      using that by - (rule ref_steps put_bind(1) counts_Ret | assumption)+
    have "refs (cwd_ref t) (plus1 ip (given (cwd_ref t) R)) t" using r Some by (simp add: owned_def refs_def given_plus1)
    from 1 [OF this] Some show ?thesis
      by (cases "obind (ilock (Some ip) t) (\<lambda>_ s. obind (readi ip 0 n s) (\<lambda>n s. obind (iunlock (Some ip) s) (\<lambda>_ s.
          obind (iput ip s) (\<lambda>_ s. Ret n s))))") (auto intro: refs_owned)
  qed
qed

lemma owned_iput: "owned R s \<Longrightarrow> yields (\<lambda>_. owned (minus1 ip R)) (iput ip s)"
  by (rule yields_owned [where f = "\<lambda>_. minus1 ip"]) (assumption, rule counts_iput, assumption, rule given_minus1)

lemma owned_iunlockput: "owned R s \<Longrightarrow> yields (\<lambda>_. owned (minus1 ip R)) (iunlockput ip s)"
  by (rule yields_owned [where f = "\<lambda>_. minus1 ip"]) (assumption, rule counts_iunlockput, assumption, rule given_minus1)

lemma owned_idup: "owned R s \<Longrightarrow> yields (\<lambda>_. owned (plus1 ip R)) (idup ip s)"
  by (rule yields_owned [where f = "\<lambda>_. plus1 ip"]) (assumption, rule takes_idup, assumption, rule given_plus1)

lemma owned_keeps:
  "owned R s \<Longrightarrow> yields (\<lambda>_. owned R) (ilock p s)" "owned R s \<Longrightarrow> yields (\<lambda>_. owned R) (iunlock p s)"
  "owned R s \<Longrightarrow> yields (\<lambda>_. owned R) (iupdate ip s)" "owned R s \<Longrightarrow> yields (\<lambda>_. owned R) (readi ip off n s)"
  "owned R s \<Longrightarrow> yields (\<lambda>_. owned R) (writei ip src off s)"
  by (rule counts_owned, assumption, rule counts_ilock counts_iunlock counts_iupdate counts_readi counts_writei, assumption)+

lemma owned_upd_ino:
  assumes "owned R s" "\<And>x. i_ref (f x) = i_ref x"
  shows "owned R (upd_ino ip f s)"
  by (rule refs_owned, rule refs_upd_ino, rule owned_refs [OF assms(1)], rule assms(2))

section \<open>Properties\<close>

text \<open>C2: every operation of the file system that returns has added to the reference counts of the
  inode table exactly the references it hands to its caller, on success and on every error
  path: one for the inode of \<open>namei\<close> and \<open>xv6fs_create\<close>, none for \<open>xv6fs_unlink\<close> and
  for reading and writing; \<open>idup\<close> adds one, \<open>iput\<close> takes one back, and
  \<open>xv6fs_bridge_set_cwd\<close> passes the caller's reference on to the working directory,
  whose old reference it drops.\<close>

theorem references_balanced:
  assumes "owned R s"
  shows "(\<forall>r t. namei path s = Ret r t \<longrightarrow> owned (given r R) t) \<and>
    (\<forall>r t. xv6fs_create path ty ma mi s = Ret r t \<longrightarrow> owned (given r R) t) \<and>
    (\<forall>r t. xv6fs_unlink path s = Ret r t \<longrightarrow> owned R t) \<and>
    (\<forall>r t. xv6fs_bridge_read_file path n s = Ret r t \<longrightarrow> owned R t) \<and>
    (\<forall>r t. readi ip off n s = Ret r t \<longrightarrow> owned R t) \<and>
    (\<forall>r t. writei ip src off s = Ret r t \<longrightarrow> owned R t) \<and>
    (\<forall>t. idup ip s = Ret ip t \<longrightarrow> owned (plus1 ip R) t) \<and>
    (\<forall>t. iput ip s = Ret () t \<longrightarrow> owned (minus1 ip R) t) \<and>
    (\<forall>t. xv6fs_bridge_set_cwd ip s = Ret () t \<longrightarrow> owned (minus1 ip R) t)"
  using owned_namei [OF assms, of path] owned_create [OF assms, of path ty ma mi] owned_unlink [OF assms, of path]
    owned_read_file [OF assms, of path n] owned_keeps(4) [OF assms, of ip off n] owned_keeps(5) [OF assms, of ip src off]
    owned_idup [OF assms, of ip] owned_iput [OF assms, of ip] owned_set_cwd [OF assms, of ip]
  by (intro conjI allI impI) (simp_all add: ensures_def)

text \<open>Directory 0 is referenced once and becomes the working directory instead of 1.\<close>

theorem references_balanced_witness:
  "\<exists>t. xv6fs_bridge_set_cwd 0 (small_fs\<lparr>cwd := Some 1, fake_proc_inited := True,
      icache := (replicate 50 no_inode)[0 := no_inode\<lparr>i_ref := 1\<rparr>, 1 := no_inode\<lparr>i_ref := 1\<rparr>]\<rparr>) = Ret () t \<and>
    owned (replicate 50 0) t"
proof -
  let ?s = "small_fs\<lparr>cwd := Some 1, fake_proc_inited := True,
      icache := (replicate 50 no_inode)[0 := no_inode\<lparr>i_ref := 1\<rparr>, 1 := no_inode\<lparr>i_ref := 1\<rparr>]\<rparr>"
  have h: "owned ((replicate 50 0)[0 := 1]) ?s"
    by (simp add: owned_def cwd_ref_def plus1_def small_fs_def no_inode_def map_update)
  have "\<exists>t. xv6fs_bridge_set_cwd 0 ?s = Ret () t"
    by (simp add: xv6fs_bridge_set_cwd_def myproc_def iput_def acquiresleep_def releasesleep_def acquire_def release_def
        small_fs_def ino_def upd_ino_def no_inode_def)
  then obtain t where t: "xv6fs_bridge_set_cwd 0 ?s = Ret () t" by blast
  moreover have "owned (minus1 0 ((replicate 50 0)[0 := 1])) t"
    using references_balanced [OF h, of "[]" 0 0 0 0 0 0 "[]"] t by blast
  moreover have "minus1 0 ((replicate 50 0)[0 := 1]) = replicate 50 0" by (simp add: minus1_def numeral_eq_Suc)
  ultimately show ?thesis by auto
qed

end
