(* ===== verification/Syscall.thy ===== *)
theory Syscall
  imports Scheduler Keyboard Console Elf FsOps
begin

text \<open>
  The system calls, \<open>kernel/syscall.c\<close>: one definition per case of
  \<open>syscall_handler\<close>, over the whole kernel state.  User memory is reached through the
  page tables in CR3; an access that no page maps ends in \<open>page_fault_handler\<close>, which
  stops the machine.  The handler gets and returns the saved registers as a function of
  the index in \<open>regs\<close>.  Addresses that the linker chooses, and the glyph table, are the
  argument \<open>img\<close>.  The serial log is not modelled.
\<close>

record static_addrs =
  kernel_stacks :: u64
  user_stacks :: u64
  argv_scratch :: u64
  argv_ptrs :: u64
  glyphs :: font

record kern =
  sc :: sched
  fsys :: fs
  kb :: kbd
  con :: console
  ram :: ramfs
  fb_addr :: u32
  elf_load_buffer :: "u8 list"

definition MAX_ELF_SIZE :: u32 where "MAX_ELF_SIZE = 256 * 1024"
definition MAX_ARGV :: u64 where "MAX_ARGV = 16"
definition ARGV_SCRATCH_SIZE :: nat where "ARGV_SCRATCH_SIZE = 4096"
definition PAGE_ALIGN_UP :: "u64 \<Rightarrow> u64" where "PAGE_ALIGN_UP x = (x + PAGE_BYTES - 1) AND NOT (PAGE_BYTES - 1)"
definition VMM_USER_FLAGS :: u64 where "VMM_USER_FLAGS = 7"
definition O_WRONLY :: u32 where "O_WRONLY = 1"
definition O_RDWR :: u32 where "O_RDWR = 2"
definition O_CREAT :: u32 where "O_CREAT = 0x40"
definition O_TRUNC :: u32 where "O_TRUNC = 0x200"
definition O_APPEND :: u32 where "O_APPEND = 0x400"
definition SEEK_SET :: int where "SEEK_SET = 0"
definition SEEK_CUR :: int where "SEEK_CUR = 1"
definition SEEK_END :: int where "SEEK_END = 2"

section \<open>The kernel state\<close>

definition on_fs :: "(fs \<Rightarrow> ('a, fs) outcome) \<Rightarrow> kern \<Rightarrow> ('a, kern) outcome" where
  "on_fs f k = (case f (fsys k) of Ret x s \<Rightarrow> Ret x (k\<lparr>fsys := s\<rparr>) | Halt e s \<Rightarrow> Halt e (k\<lparr>fsys := s\<rparr>))"

definition cur :: "kern \<Rightarrow> process" where
  "cur k = processes (sc k) ! get_current_process (sc k)"

definition upd_cur :: "(process \<Rightarrow> process) \<Rightarrow> kern \<Rightarrow> kern" where
  "upd_cur f k = k\<lparr>sc := upd_proc (get_current_process (sc k)) f (sc k)\<rparr>"

definition open_file :: "nat \<Rightarrow> kern \<Rightarrow> ofile" where
  "open_file fd k = p_ofiles (cur k) ! fd"

definition set_file :: "nat \<Rightarrow> ofile \<Rightarrow> kern \<Rightarrow> kern" where
  "set_file fd f = upd_cur (\<lambda>p. p\<lparr>p_ofiles := (p_ofiles p)[fd := f]\<rparr>)"

text \<open>User memory.  The byte at physical address 0 is the one address the walk cannot name.\<close>

definition uaddr :: "kern \<Rightarrow> u64 \<Rightarrow> u64 option" where
  "uaddr k a =
    (let v = vm (sc k); p = vmm_virt_to_phys (cr3 v) a v in if p = 0 then None else Some p)"

definition uread :: "kern \<Rightarrow> u64 \<Rightarrow> u8 option" where
  "uread k a = map_option (pmem (vm (sc k))) (uaddr k a)"

definition set_pmem :: "(mem \<Rightarrow> mem) \<Rightarrow> kern \<Rightarrow> kern" where
  "set_pmem f k = k\<lparr>sc := (sc k)\<lparr>vm := (vm (sc k))\<lparr>pmem := f (pmem (vm (sc k)))\<rparr>\<rparr>\<rparr>"

fun ureads :: "kern \<Rightarrow> u64 \<Rightarrow> nat \<Rightarrow> u8 list option" where
  "ureads k a 0 = Some []"
| "ureads k a (Suc n) = (case uread k a of None \<Rightarrow> None | Some c \<Rightarrow> map_option ((#) c) (ureads k (a + 1) n))"

fun uwrites :: "u64 \<Rightarrow> u8 list \<Rightarrow> kern \<Rightarrow> (unit, kern) outcome" where
  "uwrites a [] k = Ret () k"
| "uwrites a (c # cs) k =
    (case uaddr k a of
       None \<Rightarrow> Halt ''System halted: Page Fault!'' k
     | Some p \<Rightarrow> uwrites (a + 1) cs (set_pmem (\<lambda>m. m(p := c)) k))"

text \<open>The bytes of the C string at an address, unless it runs off the mapped memory.\<close>

function ustring :: "kern \<Rightarrow> u64 \<Rightarrow> u8 list option" where
  "ustring k a =
    (case uread k a of
       None \<Rightarrow> None
     | Some c \<Rightarrow> if c = 0 then Some [] else if a = - 1 then None else map_option ((#) c) (ustring k (a + 1)))"
  by auto
termination
proof (relation "measure (\<lambda>(k, a). unat (- 1 - a))")
  fix k a c assume "(a :: u64) \<noteq> - 1"
  then have "- 1 - a \<noteq> 0" by auto
  then have "unat (- 1 - a - 1) < unat (- 1 - a)"
    using unat_minus_1 [of "- 1 - a"] by (simp add: unat_gt_0)
  then show "((k, a + 1), k, a) \<in> measure (\<lambda>(k, a). unat (- 1 - a))" by (simp add: algebra_simps)
qed simp

declare ustring.simps [simp del]

definition page_fault :: "kern \<Rightarrow> ('a, kern) outcome" where
  "page_fault k = Halt ''System halted: Page Fault!'' k"

definition to_fd :: "u64 \<Rightarrow> int" where
  "to_fd a = sint (ucast a :: u32)"

text \<open>\<open>(uint64_t)r\<close> of an \<open>int\<close>.\<close>

definition ret_int :: "int \<Rightarrow> u64" where
  "ret_int r = word_of_int r"

section \<open>Files\<close>

definition sys_read :: "u64 \<Rightarrow> u64 \<Rightarrow> u64 \<Rightarrow> kern \<Rightarrow> (u64, kern) outcome" where
  "sys_read arg1 buf count k =
    (let fd = to_fd arg1 in
     if buf = 0 \<or> count = 0 then Ret (- 1) k
     else if fd = 0 \<and> of_ip (open_file 0 k) = None
     then let (c, kb') = kgetc (kb k); k = k\<lparr>kb := kb'\<rparr> in
       if c = 0 then Ret 0 k else obind (uwrites buf [c] k) (\<lambda>_ k. Ret 1 k)
     else if fd = 0 \<or> 3 \<le> fd \<and> fd < 16
     then case of_ip (open_file (nat fd) k) of
         None \<Rightarrow> Ret (- 1) k
       | Some ip \<Rightarrow>
           obind (on_fs (ilock (Some ip)) k) (\<lambda>_ k.
           obind (on_fs (readi ip (of_offset (open_file (nat fd) k)) (ucast count)) k) (\<lambda>r k.
           obind (case r of None \<Rightarrow> Ret () k | Some bs \<Rightarrow> uwrites buf bs k) (\<lambda>_ k.
           obind (on_fs (iunlock (Some ip)) k) (\<lambda>_ k.
           let n = (case r of None \<Rightarrow> - 1 | Some bs \<Rightarrow> sint (of_nat (length bs) :: u32));
               f = open_file (nat fd) k;
               k = (if n > 0 then set_file (nat fd) (f\<lparr>of_offset := of_offset f + word_of_int n\<rparr>) k else k)
           in Ret (ret_int n) k))))
     else Ret (- 1) k)"

text \<open>Whether \<open>writei\<close> returns -1 before it looks at the buffer.\<close>

definition writei_refuses :: "nat \<Rightarrow> u32 \<Rightarrow> u32 \<Rightarrow> fs \<Rightarrow> bool" where
  "writei_refuses ip n off s =
    (case writei ip (replicate (unat n) 0) off s of Ret None _ \<Rightarrow> True | _ \<Rightarrow> False)"

definition write_user :: "nat \<Rightarrow> u64 \<Rightarrow> u32 \<Rightarrow> u32 \<Rightarrow> kern \<Rightarrow> (u32 option, kern) outcome" where
  "write_user ip buf n off k =
    (if writei_refuses ip n off (fsys k) then Ret None k
     else case ureads k buf (unat n) of
       None \<Rightarrow> page_fault k
     | Some bs \<Rightarrow> on_fs (writei ip bs off) k)"

definition sys_write :: "static_addrs \<Rightarrow> u64 \<Rightarrow> u64 \<Rightarrow> u64 \<Rightarrow> kern \<Rightarrow> (u64, kern) outcome" where
  "sys_write img arg1 buf count k =
    (let fd = to_fd arg1 in
     if (fd = 1 \<or> fd = 2) \<and> of_ip (open_file (nat fd) k) = None
     then if buf = 0 then Ret (- 1) k
       else case ureads k buf (unat count) of
           None \<Rightarrow> page_fault k
         | Some bs \<Rightarrow> Ret count (k\<lparr>con := kprintn (glyphs img) bs 0 (con k)\<rparr>)
     else if fd = 1 \<or> fd = 2 \<or> 3 \<le> fd \<and> fd < 16
     then case of_ip (open_file (nat fd) k) of
         None \<Rightarrow> Ret (- 1) k
       | Some ip \<Rightarrow>
           let flags = of_flags (open_file (nat fd) k) in
           if flags AND O_WRONLY = 0 \<and> flags AND O_RDWR = 0 then Ret (- 1) k
           else
           obind (on_fs (ilock (Some ip)) k) (\<lambda>_ k.
           let write_off = (if flags AND O_APPEND \<noteq> 0 then i_size (ino ip (fsys k)) else of_offset (open_file (nat fd) k)) in
           obind (write_user ip buf (ucast count) write_off k) (\<lambda>r k.
           obind (on_fs (iupdate ip) k) (\<lambda>_ k.
           obind (on_fs (iunlock (Some ip)) k) (\<lambda>_ k.
           let n = (case r of None \<Rightarrow> - 1 | Some m \<Rightarrow> sint m);
               f = open_file (nat fd) k;
               k = (if n > 0 then set_file (nat fd) (f\<lparr>of_offset := write_off + word_of_int n\<rparr>) k else k)
           in Ret (ret_int n) k))))
     else Ret (- 1) k)"

text \<open>The first free descriptor from 3 on.\<close>

definition free_fd :: "kern \<Rightarrow> nat option" where
  "free_fd k = find (\<lambda>i. of_ip (open_file i k) = None) [3..<16]"

definition set_size_0 :: "nat \<Rightarrow> fs \<Rightarrow> (unit, fs) outcome" where
  "set_size_0 ip s = iupdate ip (upd_ino ip (\<lambda>x. x\<lparr>i_size := 0\<rparr>) s)"

text \<open>The inode to open, locked when it comes from \<open>xv6fs_create\<close>.\<close>

definition open_inode :: "u8 list \<Rightarrow> u32 \<Rightarrow> fs \<Rightarrow> (nat option, fs) outcome" where
  "open_inode path flags s =
    (if flags AND O_CREAT \<noteq> 0
     then obind (xv6fs_create path T_FILE 0 0 s) (\<lambda>r s.
       case r of
         None \<Rightarrow> Ret None s
       | Some ip \<Rightarrow> if flags AND O_TRUNC \<noteq> 0 then obind (set_size_0 ip s) (\<lambda>_ s. Ret (Some ip) s) else Ret (Some ip) s)
     else obind (namei path s) (\<lambda>r s.
       case r of
         None \<Rightarrow> Ret None s
       | Some ip \<Rightarrow>
           if flags AND O_TRUNC \<noteq> 0
           then obind (ilock (Some ip) s) (\<lambda>_ s. obind (set_size_0 ip s) (\<lambda>_ s.
             obind (iunlock (Some ip) s) (\<lambda>_ s. Ret (Some ip) s)))
           else Ret (Some ip) s))"

definition unlock_created :: "u32 \<Rightarrow> nat \<Rightarrow> fs \<Rightarrow> (unit, fs) outcome" where
  "unlock_created flags ip s = (if flags AND O_CREAT \<noteq> 0 then iunlock (Some ip) s else Ret () s)"

definition sys_open :: "u64 \<Rightarrow> u64 \<Rightarrow> kern \<Rightarrow> (u64, kern) outcome" where
  "sys_open path arg2 k =
    (let flags = ucast arg2 in
     if path = 0 then Ret (- 1) k
     else case ustring k path of None \<Rightarrow> page_fault k | Some name \<Rightarrow>
       obind (on_fs (open_inode name flags) k) (\<lambda>r k.
       case r of None \<Rightarrow> Ret (- 1) k | Some ip \<Rightarrow>
         (case free_fd k of
            None \<Rightarrow>
              obind (on_fs (unlock_created flags ip) k) (\<lambda>_ k.
              obind (on_fs (iput ip) k) (\<lambda>_ k. Ret (- 1) k))
          | Some fd \<Rightarrow>
              let k = set_file fd \<lparr>of_ip = Some ip, of_offset = 0, of_flags = flags\<rparr> k in
              obind (on_fs (unlock_created flags ip) k) (\<lambda>_ k. Ret (of_nat fd) k))))"

definition sys_close :: "u64 \<Rightarrow> kern \<Rightarrow> (u64, kern) outcome" where
  "sys_close arg1 k =
    (let fd = to_fd arg1 in
     if 0 \<le> fd \<and> fd < 16
     then case of_ip (open_file (nat fd) k) of
         None \<Rightarrow> Ret (- 1) k
       | Some ip \<Rightarrow>
           obind (on_fs (iput ip) k) (\<lambda>_ k.
           Ret 0 (set_file (nat fd) (no_file (open_file (nat fd) k)) k))
     else Ret (- 1) k)"

definition sys_lseek :: "u64 \<Rightarrow> u64 \<Rightarrow> u64 \<Rightarrow> kern \<Rightarrow> (u64, kern) outcome" where
  "sys_lseek arg1 offset arg3 k =
    (let fd = to_fd arg1; whence = to_fd arg3 in
     if 3 \<le> fd \<and> fd < 16
     then case of_ip (open_file (nat fd) k) of
         None \<Rightarrow> Ret (- 1) k
       | Some ip \<Rightarrow>
           obind (on_fs (ilock (Some ip)) k) (\<lambda>_ k.
           let new_offset = (if whence = SEEK_SET then offset
                 else if whence = SEEK_CUR then ucast (of_offset (open_file (nat fd) k)) + offset
                 else if whence = SEEK_END then ucast (i_size (ino ip (fsys k))) + offset
                 else - 1) in
           obind (on_fs (iunlock (Some ip)) k) (\<lambda>_ k.
           if sint new_offset < 0 then Ret (- 1) k
           else Ret new_offset (set_file (nat fd) ((open_file (nat fd) k)\<lparr>of_offset := ucast new_offset\<rparr>) k)))
     else Ret (- 1) k)"

text \<open>\<open>newfd\<close> becomes a copy of \<open>oldfd\<close>, with a reference of its own.\<close>

definition copy_fd :: "nat \<Rightarrow> nat \<Rightarrow> kern \<Rightarrow> (u64, kern) outcome" where
  "copy_fd oldfd newfd k =
    (let k = set_file newfd (open_file oldfd k) k in
     obind (case of_ip (open_file newfd k) of None \<Rightarrow> Halt ''null inode'' k | Some ip \<Rightarrow> on_fs (idup ip) k) (\<lambda>_ k.
     Ret (of_nat newfd) k))"

definition sys_dup :: "u64 \<Rightarrow> kern \<Rightarrow> (u64, kern) outcome" where
  "sys_dup arg1 k =
    (let oldfd = to_fd arg1 in
     if 3 \<le> oldfd \<and> oldfd < 16 \<and> of_ip (open_file (nat oldfd) k) \<noteq> None
     then case free_fd k of None \<Rightarrow> Ret (- 1) k | Some newfd \<Rightarrow> copy_fd (nat oldfd) newfd k
     else Ret (- 1) k)"

definition sys_dup2 :: "u64 \<Rightarrow> u64 \<Rightarrow> kern \<Rightarrow> (u64, kern) outcome" where
  "sys_dup2 arg1 arg2 k =
    (let oldfd = to_fd arg1; newfd = to_fd arg2 in
     if oldfd < 0 \<or> oldfd \<ge> 16 \<or> newfd < 0 \<or> newfd \<ge> 16 \<or> of_ip (open_file (nat oldfd) k) = None then Ret (- 1) k
     else if oldfd = newfd then Ret (ret_int newfd) k
     else obind (case of_ip (open_file (nat newfd) k) of None \<Rightarrow> Ret () k | Some ip \<Rightarrow> on_fs (iput ip) k) (\<lambda>_ k.
       copy_fd (nat oldfd) (nat newfd) k))"

definition sys_chdir :: "u64 \<Rightarrow> kern \<Rightarrow> (u64, kern) outcome" where
  "sys_chdir path k =
    (if path = 0 then Ret (- 1) k
     else case ustring k path of None \<Rightarrow> page_fault k | Some name \<Rightarrow>
       obind (on_fs (namei name) k) (\<lambda>r k.
       case r of None \<Rightarrow> Ret (- 1) k | Some ip \<Rightarrow>
       obind (on_fs (ilock (Some ip)) k) (\<lambda>_ k.
       if i_type (ino ip (fsys k)) \<noteq> T_DIR
       then obind (on_fs (iunlockput ip) k) (\<lambda>_ k. Ret (- 1) k)
       else obind (on_fs (iunlock (Some ip)) k) (\<lambda>_ k.
         obind (on_fs (xv6fs_bridge_set_cwd ip) k) (\<lambda>_ k. Ret 0 k)))))"

definition sys_mkdir :: "u64 \<Rightarrow> kern \<Rightarrow> (u64, kern) outcome" where
  "sys_mkdir path k =
    (if path = 0 then Ret (- 1) k
     else case ustring k path of None \<Rightarrow> page_fault k | Some name \<Rightarrow>
       obind (on_fs (xv6fs_create name T_DIR 0 0) k) (\<lambda>r k.
       case r of
         None \<Rightarrow> Ret (- 1) k
       | Some ip \<Rightarrow> obind (on_fs (iunlockput ip) k) (\<lambda>_ k. Ret 0 k)))"

definition sys_unlink :: "u64 \<Rightarrow> kern \<Rightarrow> (u64, kern) outcome" where
  "sys_unlink path k =
    (if path = 0 then Ret (- 1) k
     else case ustring k path of None \<Rightarrow> page_fault k | Some name \<Rightarrow>
       obind (on_fs (xv6fs_unlink name) k) (\<lambda>r k. Ret (ret_int r) k))"

section \<open>The heap\<close>

text \<open>\<open>n\<close> pages from \<open>page\<close> on get a fresh frame, or lose theirs.\<close>

fun brk_grow :: "u64 \<Rightarrow> u64 \<Rightarrow> nat \<Rightarrow> vm_state \<Rightarrow> bool \<times> vm_state" where
  "brk_grow pml4 page 0 v = (True, v)"
| "brk_grow pml4 page (Suc n) v =
    (let (phys, fr) = pmm_alloc_page (frames v); v = v\<lparr>frames := fr\<rparr> in
     if phys = 0 then (False, v)
     else brk_grow pml4 (page + PAGE_BYTES) n (vmm_map_page pml4 page phys VMM_USER_FLAGS v))"

fun brk_shrink :: "u64 \<Rightarrow> u64 \<Rightarrow> nat \<Rightarrow> vm_state \<Rightarrow> vm_state" where
  "brk_shrink pml4 page 0 v = v"
| "brk_shrink pml4 page (Suc n) v = brk_shrink pml4 (page + PAGE_BYTES) n (vmm_unmap_page pml4 page v)"

definition brk_start :: "process \<Rightarrow> process" where
  "brk_start p = (if p_heap_start p = 0 then p\<lparr>p_heap_start := 0x700000000000, p_heap_end := 0x700000000000\<rparr> else p)"

definition sys_brk :: "u64 \<Rightarrow> kern \<Rightarrow> u64 \<times> kern" where
  "sys_brk new_brk k =
    (let k = upd_cur brk_start k; p = cur k in
     if new_brk = 0 \<or> new_brk = p_heap_end p then (p_heap_end p, k)
     else if new_brk < p_heap_start p then (p_heap_end p, k)
     else
       let current_page_end = PAGE_ALIGN_UP (p_heap_end p); new_page_end = PAGE_ALIGN_UP new_brk;
           (ok, v) = (if new_page_end > current_page_end
              then brk_grow (p_pml4 p) current_page_end (unat ((new_page_end - current_page_end) div PAGE_BYTES)) (vm (sc k))
              else (True, brk_shrink (p_pml4 p) new_page_end (unat ((current_page_end - new_page_end) div PAGE_BYTES)) (vm (sc k))));
           k = k\<lparr>sc := (sc k)\<lparr>vm := v\<rparr>\<rparr>
       in if \<not> ok then (p_heap_end p, k)
          else (new_brk, upd_cur (\<lambda>p. p\<lparr>p_heap_end := new_brk\<rparr>) k))"

end
