(* ===== verification/SyscallHandler.thy ===== *)
theory SyscallHandler
  imports Syscall
begin

text \<open>
  Starting programs, waiting for them, drawing, and the dispatcher
  \<open>syscall_handler\<close> of \<open>kernel/syscall.c\<close>.
\<close>

section \<open>Starting a program\<close>

text \<open>The length of the argument at \<open>src\<close>, at most \<open>room\<close>; the byte is read before the bound is checked.\<close>

fun arg_len :: "kern \<Rightarrow> u64 \<Rightarrow> nat \<Rightarrow> nat option" where
  "arg_len k src 0 = map_option (\<lambda>_. 0) (uread k src)"
| "arg_len k src (Suc room) =
    (case uread k src of
       None \<Rightarrow> None
     | Some c \<Rightarrow> if c = 0 then Some 0 else map_option Suc (arg_len k (src + 1) room))"

text \<open>Byte by byte into kernel memory, from user memory as it is at that moment.\<close>

fun copy_arg :: "u64 \<Rightarrow> u64 \<Rightarrow> nat \<Rightarrow> kern \<Rightarrow> (unit, kern) outcome" where
  "copy_arg dst src 0 k = Ret () (set_pmem (\<lambda>m. m(dst := 0)) k)"
| "copy_arg dst src (Suc n) k =
    (case uread k src of
       None \<Rightarrow> page_fault k
     | Some c \<Rightarrow> copy_arg (dst + 1) (src + 1) n (set_pmem (\<lambda>m. m(dst := c)) k))"

text \<open>The loop over \<open>argv\<close>: \<open>used\<close> bytes of the scratch buffer hold \<open>copied\<close> arguments.\<close>

fun copy_args :: "static_addrs \<Rightarrow> u64 \<Rightarrow> nat \<Rightarrow> nat \<Rightarrow> nat \<Rightarrow> kern \<Rightarrow> (nat, kern) outcome" where
  "copy_args img argv 0 used copied k = Ret copied k"
| "copy_args img argv (Suc left) used copied k =
    (case ureads k argv 8 of
       None \<Rightarrow> page_fault k
     | Some bs \<Rightarrow>
         let src = get64 0 bs in
         if src = 0 then Ret copied k
         else case arg_len k src (ARGV_SCRATCH_SIZE - used) of
             None \<Rightarrow> page_fault k
           | Some len \<Rightarrow>
               if used + len + 1 \<ge> ARGV_SCRATCH_SIZE then Ret copied k
               else obind (copy_arg (argv_scratch img + of_nat used) src len k) (\<lambda>_ k.
                 copy_args img (argv + 8) left (used + len + 1) (copied + 1)
                   (set_pmem (\<lambda>m. wr64 m (argv_ptrs img + 8 * of_nat copied) (argv_scratch img + of_nat used)) k)))"

definition install_argv :: "static_addrs \<Rightarrow> nat \<Rightarrow> u64 \<Rightarrow> u64 \<Rightarrow> kern \<Rightarrow> (unit, kern) outcome" where
  "install_argv img child caller_argv argc k =
    (if caller_argv \<noteq> 0 \<and> argc > 0 \<and> argc < MAX_ARGV
     then obind (copy_args img caller_argv (unat argc) 0 0 k) (\<lambda>copied k.
       let k = set_pmem (\<lambda>m. wr64 m (argv_ptrs img + 8 * of_nat copied) 0) k
       in Ret () (k\<lparr>sc := set_process_argv child (of_nat copied) (argv_ptrs img) (sc k)\<rparr>))
     else Ret () k)"

text \<open>Descriptors 0, 1 and 2 of the caller that are open files are shared with the child.\<close>

fun inherit_files :: "nat \<Rightarrow> nat list \<Rightarrow> kern \<Rightarrow> (unit, kern) outcome" where
  "inherit_files child [] k = Ret () k"
| "inherit_files child (fd # fds) k =
    (case of_ip (open_file fd k) of
       None \<Rightarrow> inherit_files child fds k
     | Some ip \<Rightarrow>
         let f = open_file fd k;
             k = k\<lparr>sc := upd_proc child (\<lambda>p. p\<lparr>p_ofiles := (p_ofiles p)[fd := f]\<rparr>) (sc k)\<rparr>
         in obind (on_fs (idup ip) k) (\<lambda>_. inherit_files child fds))"

text \<open>The checks of the header that come before the process is made.\<close>

definition exec_header_ok :: "u8 list \<Rightarrow> bool" where
  "exec_header_ok buf \<longleftrightarrow> take 4 buf = [0x7F, 0x45, 0x4C, 0x46] \<and> buf ! 4 = 2 \<and> get16 18 buf = 62"

text \<open>Reading the file into \<open>elf_load_buffer\<close>; the bytes beyond it are from earlier files.\<close>

definition exec_read :: "u8 list \<Rightarrow> kern \<Rightarrow> (u32 option, kern) outcome" where
  "exec_read path k =
    obind (on_fs (namei path) k) (\<lambda>r k.
    case r of None \<Rightarrow> Ret None k | Some ip \<Rightarrow>
    obind (on_fs (ilock (Some ip)) k) (\<lambda>_ k.
    let n = i_size (ino ip (fsys k)) in
    if n = 0 then obind (on_fs (iunlockput ip) k) (\<lambda>_ k. Ret None k)
    else if n > MAX_ELF_SIZE then obind (on_fs (iunlockput ip) k) (\<lambda>_ k. Ret None k)
    else obind (on_fs (readi ip 0 n) k) (\<lambda>bs k.
      let k = (case bs of None \<Rightarrow> k | Some d \<Rightarrow> k\<lparr>elf_load_buffer := d @ drop (length d) (elf_load_buffer k)\<rparr>) in
      obind (on_fs (iunlockput ip) k) (\<lambda>_ k.
      if map_option length bs \<noteq> Some (unat n) then Ret None k else Ret (Some n) k))))"

definition spawn_from_xv6fs :: "static_addrs \<Rightarrow> u8 list \<Rightarrow> u64 \<Rightarrow> u64 \<Rightarrow> kern \<Rightarrow> (int, kern) outcome" where
  "spawn_from_xv6fs img path caller_argv argc k =
    obind (exec_read path k) (\<lambda>r k.
    case r of None \<Rightarrow> Ret (- 1) k | Some n \<Rightarrow>
    if \<not> exec_header_ok (elf_load_buffer k) then Ret (- 1) k
    else let (pid, s) = create_process (kernel_stacks img) (user_stacks img) 0 (sc k); k = k\<lparr>sc := s\<rparr> in
      if pid < 0 then Ret (- 1) k
      else case get_process_by_pid (word_of_int pid) (sc k) of None \<Rightarrow> Ret (- 1) k | Some child \<Rightarrow>
        obind (inherit_files child [0..<3] k) (\<lambda>_ k.
        let (res, s) = load_elf_into_process (Some child) (Some (elf_load_buffer k)) (ucast n) (sc k) in
        if res < 0 then Ret (- 1) (k\<lparr>sc := upd_proc child (\<lambda>p. p\<lparr>p_state := TERMINATED\<rparr>) s\<rparr>)
        else let k = k\<lparr>sc := set_process_entry child (e_entry (dec_ehdr (elf_load_buffer k))) s\<rparr> in
          obind (install_argv img child caller_argv argc k) (\<lambda>_ k. Ret pid k)))"

definition sys_execve :: "static_addrs \<Rightarrow> u64 \<Rightarrow> u64 \<Rightarrow> u64 \<Rightarrow> kern \<Rightarrow> (u64, kern) outcome" where
  "sys_execve img filename argv argc k =
    (if filename = 0 then Ret (- 1) k
     else case ustring k filename of None \<Rightarrow> page_fault k | Some name \<Rightarrow>
       obind (spawn_from_xv6fs img name argv argc k) (\<lambda>res k.
       let (res, k) = (if res < 0
             then let (r, s, c) = spawn_from_ramfs (glyphs img) (kernel_stacks img) (user_stacks img) name (ram k) (sc k) (con k)
               in (r, k\<lparr>sc := s, con := c\<rparr>)
             else (res, k));
           k = (if res \<ge> 0 then k\<lparr>kb := kflush (kb k)\<rparr> else k)
       in Ret (ret_int res) k))"

section \<open>The other calls\<close>

definition sys_exit :: "u64 \<Rightarrow> kern \<Rightarrow> (u64, kern) outcome" where
  "sys_exit code k =
    (case exit_current_process (ucast code) (sc k) of
       Ret _ s \<Rightarrow> Ret 0 (k\<lparr>sc := s\<rparr>) | Halt e s \<Rightarrow> Halt e (k\<lparr>sc := s\<rparr>))"

definition sys_wait4 :: "u64 \<Rightarrow> kern \<Rightarrow> (u64, kern) outcome" where
  "sys_wait4 status_ptr k =
    (case fst (wait_reap (sc k)) of
       None \<Rightarrow> Ret (- 1) k
     | Some (child_pid, code) \<Rightarrow>
         obind (if status_ptr \<noteq> 0 then uwrites status_ptr (le32 code) k else Ret () k) (\<lambda>_ k.
         Ret (ucast child_pid) (k\<lparr>sc := snd (wait_reap (sc k))\<rparr>)))"

definition sys_getpid :: "kern \<Rightarrow> (u64, kern) outcome" where
  "sys_getpid k = Ret (ucast (p_pid (cur k))) k"

text \<open>Pixel \<open>i\<close> of the user's buffer goes to pixel \<open>i\<close> of the framebuffer.\<close>

fun blit :: "u64 \<Rightarrow> nat \<Rightarrow> nat \<Rightarrow> kern \<Rightarrow> (unit, kern) outcome" where
  "blit src i 0 k = Ret () k"
| "blit src i (Suc n) k =
    (case ureads k (src + 4 * of_nat i) 4 of
       None \<Rightarrow> page_fault k
     | Some bs \<Rightarrow> blit src (i + 1) n (k\<lparr>con := (con k)\<lparr>fb := (fb (con k))(int i := get32 0 bs)\<rparr>\<rparr>))"

definition sys_blit :: "u64 \<Rightarrow> u64 \<Rightarrow> u64 \<Rightarrow> kern \<Rightarrow> (u64, kern) outcome" where
  "sys_blit user_buf arg2 arg3 k =
    (let width = (ucast arg2 :: u32); height = (ucast arg3 :: u32) in
     if user_buf \<noteq> 0 \<and> width \<le> 800 \<and> height \<le> 600 \<and> fb_addr k \<noteq> 0
     then obind (blit user_buf 0 (unat (width * height)) k) (\<lambda>_ k. Ret 0 k)
     else Ret 0 k)"

definition syscall_result :: "static_addrs \<Rightarrow> u64 \<Rightarrow> u64 \<Rightarrow> u64 \<Rightarrow> u64 \<Rightarrow> kern \<Rightarrow> (u64, kern) outcome" where
  "syscall_result img num arg1 arg2 arg3 k =
    (if num = 0 then sys_read arg1 arg2 arg3 k
     else if num = 1 then sys_write img arg1 arg2 arg3 k
     else if num = 2 then sys_open arg1 arg2 k
     else if num = 3 then sys_close arg1 k
     else if num = 8 then sys_lseek arg1 arg2 arg3 k
     else if num = 12 then (case sys_brk arg1 k of (r, k) \<Rightarrow> Ret r k)
     else if num = 32 then sys_dup arg1 k
     else if num = 33 then sys_dup2 arg1 arg2 k
     else if num = 39 then sys_getpid k
     else if num = 57 then Ret (- 1) k
     else if num = 59 then sys_execve img arg1 arg2 arg3 k
     else if num = 60 then sys_exit arg1 k
     else if num = 61 then sys_wait4 arg2 k
     else if num = 80 then sys_chdir arg1 k
     else if num = 83 then sys_mkdir arg1 k
     else if num = 87 then sys_unlink arg1 k
     else if num = 222 then sys_blit arg1 arg2 arg3 k
     else Ret (- 1) k)"

definition syscall_handler :: "static_addrs \<Rightarrow> (nat \<Rightarrow> u64) \<Rightarrow> kern \<Rightarrow> (nat \<Rightarrow> u64, kern) outcome" where
  "syscall_handler img regs k =
    obind (syscall_result img (regs 14) (regs 9) (regs 10) (regs 11) k) (\<lambda>r k. Ret (regs(14 := r)) k)"

end
