(* ===== verification/KernelState.thy ===== *)
theory KernelState
  imports FsRefs SyscallHandler
begin

text \<open>
  The state of the whole kernel between two steps of a system call: what each call into the
  file system does to its locks and reference counts, which descriptors the processes hold,
  and the rules that carry both through the code of a call.
\<close>

section \<open>File system contracts\<close>

definition nolocks :: "bool list" where "nolocks = replicate NINODE False"

definition sound :: "bool list \<Rightarrow> int list \<Rightarrow> fs \<Rightarrow> bool" where
  "sound L R s \<longleftrightarrow> holding L s \<and> owned R s \<and> fs_wf s"

lemma nolocks_facts [simp]: "length nolocks = NINODE" "nolocks[ip := True, ip := False] = nolocks"
  "nolocks[ip := False] = nolocks"
proof -
  have "(replicate n x)[i := x] = replicate n x" for n i and x :: bool
    by (cases "i < n") (simp_all add: list_update_same_conv list_update_beyond)
  then show "nolocks[ip := True, ip := False] = nolocks" "nolocks[ip := False] = nolocks"
    by (simp_all add: nolocks_def)
qed (simp add: nolocks_def)

lemma sound_length:
  assumes "sound L R s"
  shows "length R = NINODE"
proof -
  have "length (given C R) = length R" for C by (cases C) (simp_all add: plus1_def)
  moreover have "length (map i_ref (icache s)) = NINODE" using assms by (simp add: sound_def fs_wf_def)
  ultimately show ?thesis using assms by (metis sound_def owned_def)
qed

lemma plus1_nth: "ip < length R \<Longrightarrow> plus1 jp R ! ip = R ! ip + of_bool (jp = ip)"
  by (auto simp: plus1_def nth_list_update)

lemma minus1_nth: "ip < length R \<Longrightarrow> minus1 jp R ! ip = R ! ip - of_bool (jp = ip)"
  by (auto simp: minus1_def nth_list_update)

lemma sound_yields:
  "yields (\<lambda>x. holding (L' x)) m \<Longrightarrow> yields (\<lambda>x. owned (R' x)) m \<Longrightarrow> FsInv.typed P m \<Longrightarrow>
    yields (\<lambda>x t. sound (L' x) (R' x) t \<and> P x) m"
  by (cases m) (simp_all add: sound_def)

lemma sound_namei:
  assumes "sound L R s"
  shows "yields (\<lambda>r t. sound L (given r R) t \<and> (\<forall>ip. r = Some ip \<longrightarrow> ip < NINODE)) (namei path s)"
  using assms unfolding sound_def [of L R s]
  by (intro sound_yields keeps_namei owned_namei typed_namei) simp_all

lemma sound_create:
  assumes "sound L R s"
  shows "yields (\<lambda>r t. sound (case r of None \<Rightarrow> L | Some ip \<Rightarrow> L[ip := True]) (given r R) t \<and> (\<forall>ip. r = Some ip \<longrightarrow> ip < NINODE))
    (xv6fs_create path ty ma mi s)"
proof -
  have s: "holding L s" "owned R s" "fs_wf s" using assms by (simp_all add: sound_def)
  have "yields (\<lambda>r. holding (case r of None \<Rightarrow> L | Some ip \<Rightarrow> L[ip := True])) (xv6fs_create path ty ma mi s)"
    using creates [OF s(1), of path ty ma mi] by (rule ensures_weaken) (simp split: option.splits)
  then show ?thesis by (rule sound_yields) (intro owned_create typed_xv6fs_create s)+
qed

lemma sound_unlink:
  assumes "sound L R s"
  shows "yields (\<lambda>r t. sound L R t \<and> True) (xv6fs_unlink path s)"
  using assms unfolding sound_def [of L R s]
  by (intro sound_yields unlinks owned_unlink typed_xv6fs_unlink) simp_all

lemma sound_ilock:
  assumes "sound L R s"
  shows "yields (\<lambda>r t. sound (L[ip := True]) R t \<and> True) (ilock (Some ip) s)"
proof -
  have s: "holding L s" "owned R s" "fs_wf s" using assms by (simp_all add: sound_def)
  have "yields (\<lambda>_. holding (L[ip := True])) (ilock (Some ip) s)"
    by (rule ensures_weaken [OF lock_taken [OF s(1)]]) simp
  then show ?thesis by (rule sound_yields) (intro owned_keeps typed_ilock s)+
qed

lemma sound_iunlock:
  assumes "sound L R s"
  shows "yields (\<lambda>r t. sound (L[ip := False]) R t \<and> True) (iunlock (Some ip) s)"
  using assms unfolding sound_def [of L R s]
  by (intro sound_yields lock_dropped owned_keeps typed_iunlock) simp_all

lemma sound_iput:
  assumes "sound L R s" "ip < NINODE"
  shows "yields (\<lambda>r t. sound L (minus1 ip R) t \<and> True) (iput ip s)"
  using assms unfolding sound_def [of L R s]
  by (intro sound_yields keeps_iput owned_iput typed_iput) simp_all

lemma sound_iunlockput:
  assumes "sound L R s" "ip < NINODE"
  shows "yields (\<lambda>r t. sound (L[ip := False]) (minus1 ip R) t \<and> True) (iunlockput ip s)"
  unfolding iunlockput_def
  by (rule yields_bind [OF sound_iunlock [OF assms(1)]]) (use sound_iput assms(2) in blast)

lemma sound_readi:
  assumes "sound L R s"
  shows "yields (\<lambda>r t. sound L R t \<and> True) (readi ip off n s)"
  using assms unfolding sound_def [of L R s]
  by (intro sound_yields keeps_readi owned_keeps typed_readi) simp_all

lemma sound_writei:
  assumes "sound L R s" "ip < NINODE"
  shows "yields (\<lambda>r t. sound L R t \<and> True) (writei ip src off s)"
  using assms unfolding sound_def [of L R s]
  by (intro sound_yields keeps_writei owned_keeps typed_writei) simp_all

lemma sound_iupdate:
  assumes "sound L R s" "ip < NINODE"
  shows "yields (\<lambda>r t. sound L R t \<and> True) (iupdate ip s)"
  using assms unfolding sound_def [of L R s]
  by (intro sound_yields keeps_iupdate owned_keeps typed_iupdate) simp_all

lemma sound_idup:
  assumes "sound L R s" "ip < NINODE"
  shows "yields (\<lambda>r t. sound L (plus1 ip R) t \<and> r < NINODE) (idup ip s)"
  using assms unfolding sound_def [of L R s]
  by (intro sound_yields keeps_idup owned_idup typed_idup) simp_all

lemma sound_set_cwd:
  assumes "sound L R s" "ip < NINODE"
  shows "yields (\<lambda>r t. sound L (minus1 ip R) t \<and> True) (xv6fs_bridge_set_cwd ip s)"
  using assms unfolding sound_def [of L R s]
  by (intro sound_yields keeps_set_cwd owned_set_cwd typed_set_cwd) simp_all

lemma sound_upd_ino:
  assumes "sound L R s" "\<And>x. i_ref (f x) = i_ref x" "\<And>x. i_lock (f x) = i_lock x"
    "\<And>x. length (i_addrs (f x)) = length (i_addrs x)"
  shows "sound L R (upd_ino ip f s)"
  using assms unfolding sound_def by (simp add: holding_upd_ino owned_upd_ino wf_upd_ino)

lemma sound_set_size_0:
  assumes "sound L R s" "ip < NINODE"
  shows "yields (\<lambda>r t. sound L R t \<and> True) (set_size_0 ip s)"
  unfolding set_size_0_def by (intro sound_iupdate sound_upd_ino assms) simp_all

section \<open>Descriptor tables\<close>

definition fd_count :: "process \<Rightarrow> nat \<Rightarrow> int" where
  "fd_count p ip = (\<Sum>f\<leftarrow>p_ofiles p. of_bool (of_ip f = Some ip))"

text \<open>The number of descriptors of all processes that refer to an inode.\<close>

definition held :: "sched \<Rightarrow> nat \<Rightarrow> int" where
  "held s ip = (\<Sum>p\<leftarrow>processes s. fd_count p ip)"

definition ofiles_wf :: "ofile list \<Rightarrow> bool" where
  "ofiles_wf fs \<longleftrightarrow> length fs = 16 \<and> (\<forall>f \<in> set fs. \<forall>ip. of_ip f = Some ip \<longrightarrow> ip < NINODE)"

definition files_ok :: "int list \<Rightarrow> sched \<Rightarrow> bool" where
  "files_ok R s \<longleftrightarrow> (\<forall>p \<in> set (processes s). ofiles_wf (p_ofiles p)) \<and> (\<forall>ip < NINODE. held s ip \<le> R ! ip)"

lemma sum_list_upd: "i < length xs \<Longrightarrow> sum_list (xs[i := x]) = sum_list xs + x - (xs ! i :: int)"
  by (induction xs arbitrary: i) (auto split: nat.split)

lemma held_upd:
  "i < length (processes s) \<Longrightarrow>
    held (upd_proc i f s) ip = held s ip + fd_count (f (processes s ! i)) ip - fd_count (processes s ! i) ip"
  by (simp add: held_def upd_proc_def map_update sum_list_upd)

lemma files_ok_upd:
  assumes "files_ok R s" "i < length (processes s)" "ofiles_wf (p_ofiles (f (processes s ! i)))"
    and "\<And>ip. ip < NINODE \<Longrightarrow> R ! ip + fd_count (f (processes s ! i)) ip - fd_count (processes s ! i) ip \<le> R' ! ip"
  shows "files_ok R' (upd_proc i f s)"
proof -
  have "held (upd_proc i f s) ip \<le> R' ! ip" if "ip < NINODE" for ip
  proof -
    have "held s ip \<le> R ! ip" using assms(1) that by (simp add: files_ok_def)
    then show ?thesis using held_upd [OF assms(2), of f ip] assms(4) [OF that] by linarith
  qed
  moreover have "\<forall>p \<in> set (processes (upd_proc i f s)). ofiles_wf (p_ofiles p)"
    using assms(1,3) set_update_subset_insert [of "processes s" i] by (auto simp: files_ok_def upd_proc_def)
  ultimately show ?thesis by (simp add: files_ok_def)
qed

lemma files_ok_same:
  assumes "files_ok R s" "i < length (processes s)" "p_ofiles (f (processes s ! i)) = p_ofiles (processes s ! i)"
  shows "files_ok R (upd_proc i f s)"
  by (rule files_ok_upd [OF assms(1,2)]) (use assms in \<open>simp_all add: fd_count_def files_ok_def\<close>)

lemma files_ok_vm [simp]: "files_ok R (s\<lparr>vm := v\<rparr>) = files_ok R s" "files_ok R (s\<lparr>next_pid := n\<rparr>) = files_ok R s"
  "files_ok R (s\<lparr>current_process_idx := i\<rparr>) = files_ok R s" "files_ok R (s\<lparr>tss_rsp0 := t\<rparr>) = files_ok R s"
  by (simp_all add: files_ok_def held_def)

lemma ofiles_wf_upd:
  assumes "ofiles_wf fs" "\<And>ip. of_ip f = Some ip \<Longrightarrow> ip < NINODE"
  shows "ofiles_wf (fs[i := f])"
  using assms set_update_subset_insert [of fs i f] by (auto simp: ofiles_wf_def)

lemma fd_count_upd:
  assumes "ofiles_wf (p_ofiles p)" "fd < 16"
  shows "fd_count (p\<lparr>p_ofiles := (p_ofiles p)[fd := f]\<rparr>) ip =
    fd_count p ip + of_bool (of_ip f = Some ip) - of_bool (of_ip (p_ofiles p ! fd) = Some ip)"
  using assms by (simp add: fd_count_def ofiles_wf_def map_update sum_list_upd)

text \<open>Descriptor \<open>fd\<close> of process \<open>i\<close> changes.\<close>

lemma files_ok_set:
  assumes "files_ok R s" "i < length (processes s)" "fd < 16" "\<And>ip. of_ip f = Some ip \<Longrightarrow> ip < NINODE"
    and "\<And>ip. ip < NINODE \<Longrightarrow>
      R ! ip + of_bool (of_ip f = Some ip) - of_bool (of_ip (p_ofiles (processes s ! i) ! fd) = Some ip) \<le> R' ! ip"
  shows "files_ok R' (upd_proc i (\<lambda>p. p\<lparr>p_ofiles := (p_ofiles p)[fd := f]\<rparr>) s)"
proof -
  have w: "ofiles_wf (p_ofiles (processes s ! i))" using assms(1,2) by (simp add: files_ok_def)
  show ?thesis
    by (rule files_ok_upd [OF assms(1,2)])
      (use assms(5) in \<open>simp_all add: fd_count_upd [OF w assms(3)] ofiles_wf_upd [OF w assms(4)] algebra_simps\<close>)
qed

lemma clear_ofiles_none:
  assumes "length fs = 16"
  shows "length (clear_ofiles fs) = 16" "f \<in> set (clear_ofiles fs) \<Longrightarrow> of_ip f = None"
proof -
  have "length (fold (\<lambda>j fs. fs[j := no_file (fs ! j)]) [0..<n] fs) = 16 \<and>
      (\<forall>j < n. of_ip (fold (\<lambda>j fs. fs[j := no_file (fs ! j)]) [0..<n] fs ! j) = None)" if "n \<le> 16" for n
    using that assms by (induction n) (auto simp: nth_list_update no_file_def less_Suc_eq)
  from this [of 16] show "length (clear_ofiles fs) = 16" "f \<in> set (clear_ofiles fs) \<Longrightarrow> of_ip f = None"
    unfolding clear_ofiles_def by (auto simp: in_set_conv_nth)
qed

lemma count_none: "(\<And>f. f \<in> set fs \<Longrightarrow> of_ip f = None) \<Longrightarrow> (\<Sum>f\<leftarrow>fs. of_bool (of_ip f = Some ip)) = (0 :: int)"
  by (induction fs) auto

lemma count_nonneg: "(0 :: int) \<le> (\<Sum>f\<leftarrow>fs. of_bool (of_ip f = Some ip))"
  by (induction fs) auto

text \<open>A new process starts without open files.\<close>

lemma files_ok_create:
  assumes "files_ok R s" "table_ok s" "create_process ks us e s = (r, s')"
  shows "files_ok R s' \<and> table_ok s'"
  using assms(2,3)
proof (cases rule: create_process_cases)
  case (fail v)
  then show ?thesis using assms by (simp add: table_ok_def)
next
  case (ok idx root v kst)
  have i: "idx < length (processes s)" using free_slotD [OF ok(1)] assms(2) by (simp add: table_ok_def)
  then have w: "length (p_ofiles (proc s idx)) = 16" using assms(1) by (simp add: files_ok_def ofiles_wf_def proc_def)
  note c = clear_ofiles_none [OF w]
  have "files_ok R (upd_proc idx (\<lambda>_. new_process root kst esp idx s) s)" for esp
    by (rule files_ok_upd [OF assms(1) i])
      (use c in \<open>simp_all add: fd_count_def new_process_def count_none count_nonneg ofiles_wf_def proc_def\<close>)
  then show ?thesis using assms(2) unfolding ok(5) by (simp add: table_ok_def)
qed

section \<open>The state of the kernel\<close>

text \<open>The locks \<open>L\<close> are held, \<open>R\<close> counts the references and \<open>S\<close> those that back descriptors.\<close>

definition kst :: "bool list \<Rightarrow> int list \<Rightarrow> int list \<Rightarrow> kern \<Rightarrow> bool" where
  "kst L R S k \<longleftrightarrow> sound L R (fsys k) \<and> files_ok S (sc k) \<and> sched_inv (sc k) \<and> kb_ok (kb k) \<and> cursor_ok (con k)"

definition kernel_ok :: "kern \<Rightarrow> bool" where
  "kernel_ok k \<longleftrightarrow> (\<exists>R. kst nolocks R R k)"

abbreviation fine :: "('a, kern) outcome \<Rightarrow> bool" where
  "fine m \<equiv> yields (\<lambda>_. kernel_ok) m"

lemma fine_Ret: "kst nolocks R R k \<Longrightarrow> fine (Ret x k)"
  by (auto simp: kernel_ok_def)

lemma kst_length: "kst L R S k \<Longrightarrow> length R = NINODE"
  by (auto simp: kst_def dest: sound_length)

lemma kst_table: "kst L R S k \<Longrightarrow> table_ok (sc k)"
  by (simp add: kst_def sched_inv_def one_running_def)

lemma kst_cur: "kst L R S k \<Longrightarrow> current_process_idx (sc k) < length (processes (sc k))"
  by (drule kst_table) (simp add: table_ok_def)

lemma open_file_valid:
  assumes "kst L R S k" "of_ip (open_file fd k) = Some ip" "fd < 16"
  shows "ip < NINODE"
proof -
  have "ofiles_wf (p_ofiles (cur k))" using assms(1) kst_cur [OF assms(1)]
    by (simp add: kst_def files_ok_def cur_def get_current_process_def)
  then show ?thesis using assms(2,3) nth_mem [of fd "p_ofiles (cur k)"] by (auto simp: ofiles_wf_def open_file_def)
qed

text \<open>A call into the file system.\<close>

lemma k_fs:
  assumes "kst L R S k" "\<And>s. sound L R s \<Longrightarrow> yields (\<lambda>x t. sound (L' x) (R' x) t \<and> P x) (f s)"
    and "\<And>x k'. kst (L' x) (R' x) S k' \<Longrightarrow> P x \<Longrightarrow> sc k' = sc k \<Longrightarrow> yields Q (g x k')"
  shows "yields Q (obind (on_fs f k) g)"
proof -
  have "yields (\<lambda>x t. sound (L' x) (R' x) t \<and> P x) (f (fsys k))"
    by (rule assms(2)) (use assms(1) in \<open>simp add: kst_def\<close>)
  then show ?thesis using assms(1,3) by (cases "f (fsys k)") (auto simp: on_fs_def kst_def)
qed

lemma k_iput:
  assumes "kst L R S k" "ip < NINODE" "\<And>k'. kst L (minus1 ip R) S k' \<Longrightarrow> sc k' = sc k \<Longrightarrow> yields Q (g () k')"
  shows "yields Q (obind (on_fs (iput ip) k) g)"
  by (rule k_fs [OF assms(1) sound_iput], assumption, rule assms(2), simp, rule assms(3))

lemma k_iunlockput:
  assumes "kst (nolocks[ip := True]) R S k" "ip < NINODE"
    "\<And>k'. kst nolocks (minus1 ip R) S k' \<Longrightarrow> sc k' = sc k \<Longrightarrow> yields Q (g () k')"
  shows "yields Q (obind (on_fs (iunlockput ip) k) g)"
  by (rule k_fs [OF assms(1) sound_iunlockput], assumption, rule assms(2), simp, rule assms(3), assumption+)

lemma k_ilock:
  assumes "kst nolocks R S k" "\<And>k'. kst (nolocks[ip := True]) R S k' \<Longrightarrow> sc k' = sc k \<Longrightarrow> yields Q (g () k')"
  shows "yields Q (obind (on_fs (ilock (Some ip)) k) g)"
  by (rule k_fs [OF assms(1) sound_ilock], assumption, simp, rule assms(2))

lemma k_iunlock:
  assumes "kst (nolocks[ip := True]) R S k" "\<And>k'. kst nolocks R S k' \<Longrightarrow> sc k' = sc k \<Longrightarrow> yields Q (g () k')"
  shows "yields Q (obind (on_fs (iunlock (Some ip)) k) g)"
  by (rule k_fs [OF assms(1) sound_iunlock], assumption, simp, rule assms(2), assumption+)

lemma k_readi:
  assumes "kst L R S k" "\<And>x k'. kst L R S k' \<Longrightarrow> sc k' = sc k \<Longrightarrow> yields Q (g x k')"
  shows "yields Q (obind (on_fs (readi ip off n) k) g)"
  by (rule k_fs [OF assms(1) sound_readi], assumption, rule assms(2))

lemma k_writei:
  assumes "kst L R S k" "ip < NINODE" "\<And>x k'. kst L R S k' \<Longrightarrow> sc k' = sc k \<Longrightarrow> yields Q (g x k')"
  shows "yields Q (obind (on_fs (writei ip src off) k) g)"
  by (rule k_fs [OF assms(1) sound_writei], assumption, rule assms(2), rule assms(3))

lemma k_iupdate:
  assumes "kst L R S k" "ip < NINODE" "\<And>k'. kst L R S k' \<Longrightarrow> sc k' = sc k \<Longrightarrow> yields Q (g () k')"
  shows "yields Q (obind (on_fs (iupdate ip) k) g)"
  by (rule k_fs [OF assms(1) sound_iupdate], assumption, rule assms(2), simp, rule assms(3))

lemma k_idup:
  assumes "kst L R S k" "ip < NINODE" "\<And>x k'. kst L (plus1 ip R) S k' \<Longrightarrow> sc k' = sc k \<Longrightarrow> yields Q (g x k')"
  shows "yields Q (obind (on_fs (idup ip) k) g)"
  by (rule k_fs [OF assms(1) sound_idup], assumption, rule assms(2), rule assms(3))

lemma k_namei:
  assumes "kst L R S k" "\<And>k'. kst L R S k' \<Longrightarrow> sc k' = sc k \<Longrightarrow> yields Q (a k')"
    "\<And>ip k'. kst L (plus1 ip R) S k' \<Longrightarrow> ip < NINODE \<Longrightarrow> sc k' = sc k \<Longrightarrow> yields Q (g ip k')"
  shows "yields Q (obind (on_fs (namei path) k) (\<lambda>r k. case r of None \<Rightarrow> a k | Some ip \<Rightarrow> g ip k))"
proof (rule k_fs [OF assms(1) sound_namei], assumption)
  fix r k' assume "kst L (given r R) S k'" "\<forall>ip. r = Some ip \<longrightarrow> ip < NINODE" "sc k' = sc k"
  then show "yields Q (case r of None \<Rightarrow> a k' | Some ip \<Rightarrow> g ip k')" using assms(2,3) by (cases r) simp_all
qed

lemma k_create:
  assumes "kst nolocks R S k" "\<And>k'. kst nolocks R S k' \<Longrightarrow> sc k' = sc k \<Longrightarrow> yields Q (a k')"
    "\<And>ip k'. kst (nolocks[ip := True]) (plus1 ip R) S k' \<Longrightarrow> ip < NINODE \<Longrightarrow> sc k' = sc k \<Longrightarrow> yields Q (g ip k')"
  shows "yields Q (obind (on_fs (xv6fs_create path ty ma mi) k) (\<lambda>r k. case r of None \<Rightarrow> a k | Some ip \<Rightarrow> g ip k))"
proof (rule k_fs [OF assms(1) sound_create], assumption)
  fix r k' assume "kst (case r of None \<Rightarrow> nolocks | Some ip \<Rightarrow> nolocks[ip := True]) (given r R) S k'"
    "\<forall>ip. r = Some ip \<longrightarrow> ip < NINODE" "sc k' = sc k"
  then show "yields Q (case r of None \<Rightarrow> a k' | Some ip \<Rightarrow> g ip k')" using assms(2,3) by (cases r) simp_all
qed

text \<open>A reference taken before goes back.\<close>

lemma k_put_back:
  assumes "ip < NINODE" "\<And>k'. kst nolocks R S k' \<Longrightarrow> sc k' = sc k \<Longrightarrow> yields Q (g () k')"
  shows "kst nolocks (plus1 ip R) S k \<Longrightarrow> yields Q (obind (on_fs (iput ip) k) g)"
    "kst (nolocks[ip := True]) (plus1 ip R) S k \<Longrightarrow> yields Q (obind (on_fs (iunlockput ip) k) g)"
  using k_iput [of nolocks "plus1 ip R" S k ip Q g] k_iunlockput [of ip "plus1 ip R" S k Q g] assms by simp_all

lemma k_unlink:
  assumes "kst L R S k" "\<And>x k'. kst L R S k' \<Longrightarrow> sc k' = sc k \<Longrightarrow> yields Q (g x k')"
  shows "yields Q (obind (on_fs (xv6fs_unlink path) k) g)"
  by (rule k_fs [OF assms(1) sound_unlink], assumption, rule assms(2))

lemma k_set_cwd:
  assumes "kst L (plus1 ip R) S k" "ip < NINODE" "\<And>k'. kst L R S k' \<Longrightarrow> sc k' = sc k \<Longrightarrow> yields Q (g () k')"
  shows "yields Q (obind (on_fs (xv6fs_bridge_set_cwd ip) k) g)"
  by (rule k_fs [OF assms(1) sound_set_cwd], assumption, rule assms(2), simp, rule assms(3))

section \<open>User memory and descriptors\<close>

lemma kst_pmem [simp]: "kst L R S (set_pmem f k) = kst L R S k"
  by (simp add: kst_def set_pmem_def vm_only_inv)

lemma kst_vm [simp]: "kst L R S (k\<lparr>sc := (sc k)\<lparr>vm := v\<rparr>\<rparr>) = kst L R S k"
  by (simp add: kst_def vm_only_inv)

lemma kst_kb: "kst L R S k \<Longrightarrow> kb_ok b \<Longrightarrow> kst L R S (k\<lparr>kb := b\<rparr>)"
  by (simp add: kst_def)

lemma k_uwrites:
  assumes "kst L R S k" "\<And>k'. kst L R S k' \<Longrightarrow> yields Q (g () k')"
  shows "yields Q (obind (uwrites a bs k) g)"
  using assms(1) by (induction a bs k rule: uwrites.induct) (auto simp: assms(2) split: option.split)

lemma sched_inv_same:
  assumes "sched_inv s" "i < length (processes s)" "\<And>p. p_state (f p) = p_state p" "\<And>p. p_pid (f p) = p_pid p"
  shows "sched_inv (upd_proc i f s)"
proof (rule sched_inv_keep [OF assms(1)])
  show "table_ok (upd_proc i f s)" using assms(1) by (simp add: sched_inv_def one_running_def)
  show "j = current_process_idx (upd_proc i f s)"
    if "j < MAX_PROCESSES" "p_state (proc (upd_proc i f s) j) = RUNNING" for j
    using that assms by (auto simp: proc_upd_proc sched_inv_def one_running_def split: if_splits)
  show "live s j \<and> p_pid (proc (upd_proc i f s) j) = p_pid (proc s j)" if "live (upd_proc i f s) j" for j
    using that assms(2,3,4) by (auto simp: proc_upd_proc live_def split: if_splits)
qed simp

lemma kst_set:
  assumes "kst L R S k" "fd < 16" "\<And>ip. of_ip f = Some ip \<Longrightarrow> ip < NINODE"
    and "\<And>ip. ip < NINODE \<Longrightarrow> S ! ip + of_bool (of_ip f = Some ip) - of_bool (of_ip (open_file fd k) = Some ip) \<le> S' ! ip"
  shows "kst L R S' (set_file fd f k)"
proof -
  have "files_ok S' (upd_proc (current_process_idx (sc k)) (\<lambda>p. p\<lparr>p_ofiles := (p_ofiles p)[fd := f]\<rparr>) (sc k))"
  proof (rule files_ok_set [where R = S])
    show "files_ok S (sc k)" using assms(1) by (simp add: kst_def)
    show "S ! ip + of_bool (of_ip f = Some ip) -
        of_bool (of_ip (p_ofiles (processes (sc k) ! current_process_idx (sc k)) ! fd) = Some ip) \<le> S' ! ip" if "ip < NINODE" for ip
      using assms(4) [OF that] by (simp only: open_file_def cur_def get_current_process_def)
  qed (rule kst_cur [OF assms(1)] assms(2,3) | assumption)+
  then have "files_ok S' (sc (set_file fd f k))"
    by (simp add: set_file_def upd_cur_def get_current_process_def)
  moreover have "sched_inv (sc (set_file fd f k))"
    unfolding set_file_def upd_cur_def get_current_process_def
    by simp (rule sched_inv_same, use assms(1) kst_cur [OF assms(1)] in \<open>simp_all add: kst_def\<close>)
  ultimately show ?thesis using assms(1) by (simp add: kst_def set_file_def upd_cur_def)
qed

text \<open>The descriptor changes in a way that keeps its inode.\<close>

lemma kst_set_same:
  assumes "kst L R S k" "fd < 16" "of_ip f = of_ip (open_file fd k)"
  shows "kst L R S (set_file fd f k)"
  by (rule kst_set [OF assms(1,2)]) (use assms open_file_valid in \<open>simp_all\<close>)

lemma kst_upd_cur_same:
  assumes "kst L R S k" "\<And>p. p_ofiles (f p) = p_ofiles p" "\<And>p. p_state (f p) = p_state p" "\<And>p. p_pid (f p) = p_pid p"
  shows "kst L R S (upd_cur f k)"
  using assms(1) kst_cur [OF assms(1)]
  by (auto simp: kst_def upd_cur_def get_current_process_def assms intro!: files_ok_same sched_inv_same)

end
