(* ===== verification/KernelInv.thy ===== *)
theory KernelInv
  imports KernelState
begin

text \<open>
  What every system call keeps true of the whole kernel: all locks of the file system are
  free, every open descriptor of every process is backed by a reference to its inode, and the
  process table, the keyboard queue and the cursor are well formed.
\<close>

section \<open>The system calls\<close>

lemma kgetc_ok: "kb_ok b \<Longrightarrow> kb_ok (snd (kgetc b))"
  using kgetc_contents [of b] by (auto split: list.splits)

lemma k_uwrites_option:
  assumes "kst L R S k" "\<And>k'. kst L R S k' \<Longrightarrow> yields Q (g () k')"
  shows "yields Q (obind (case r of None \<Rightarrow> Ret () k | Some bs \<Rightarrow> uwrites a bs k) g)"
  by (cases r) (use assms in \<open>auto intro: k_uwrites\<close>)

lemma kst_if: "(c \<Longrightarrow> kst L R S a) \<Longrightarrow> (\<not> c \<Longrightarrow> kst L R S b) \<Longrightarrow> kst L R S (if c then a else b)"
  by simp

lemma k_kgetc:
  assumes "kst L R S k" "\<And>c k'. kst L R S k' \<Longrightarrow> yields Q (g c k')"
  shows "yields Q (case kgetc (kb k) of (c, b) \<Rightarrow> g c (k\<lparr>kb := b\<rparr>))"
  using assms kgetc_ok [of "kb k"] by (auto simp: kst_def split: prod.split)

lemmas k_steps = yields_if yields_Let yields_option yields_Halt fine_Ret k_ilock k_iunlock k_readi
  k_uwrites_option k_uwrites kst_if kst_set_same

lemma fd_bound: "fd = 1 \<or> fd = 2 \<or> 3 \<le> fd \<and> fd < 16 \<Longrightarrow> nat fd < 16" "fd = 0 \<or> 3 \<le> fd \<and> fd < 16 \<Longrightarrow> nat fd < 16"
  "0 \<le> fd \<and> fd < 16 \<Longrightarrow> nat fd < 16" "3 \<le> fd \<and> fd < 16 \<Longrightarrow> nat fd < 16"
  by auto

lemma fine_page_fault: "fine (page_fault k)"
  by (simp add: page_fault_def)

lemma fine_read:
  assumes "kst nolocks R R k"
  shows "fine (sys_read a1 a2 a3 k)"
  unfolding sys_read_def
  by (rule fine_Ret [OF assms] k_ilock [OF assms] k_kgetc [OF assms] k_steps | assumption | (erule fd_bound; fail) | (simp; fail))+

lemma kprintn_cursor: "cursor_ok c \<Longrightarrow> cursor_ok (kprintn fnt bs color c)"
  unfolding kprintn_def by (induction bs arbitrary: c) (simp_all add: kprint_char_bounds)

lemma k_write_user:
  assumes "kst L R S k" "ip < NINODE" "\<And>x k'. kst L R S k' \<Longrightarrow> sc k' = sc k \<Longrightarrow> yields Q (g x k')"
  shows "yields Q (obind (write_user ip buf n off k) g)"
proof (cases "writei_refuses ip n off (fsys k)")
  case True
  then show ?thesis using assms by (simp add: write_user_def)
next
  case False
  then show ?thesis
    by (cases "ureads k buf (unat n)") (auto simp: write_user_def page_fault_def intro: k_writei assms)
qed

lemma fine_write:
  assumes "kst nolocks R R k"
  shows "fine (sys_write img a1 a2 a3 k)"
proof -
  have valid: "of_ip (open_file (nat fd) k) = Some ip \<Longrightarrow> fd = 1 \<or> fd = 2 \<or> 3 \<le> fd \<and> fd < 16 \<Longrightarrow> ip < NINODE" for fd ip
    by (rule open_file_valid [OF assms]) auto
  have print: "kst nolocks R R (k\<lparr>con := kprintn g bs c (con k)\<rparr>)" for g bs c
    using assms by (simp add: kst_def kprintn_cursor)
  show ?thesis
    unfolding sys_write_def
    by (rule fine_Ret [OF assms] fine_Ret [OF print] k_ilock [OF assms] k_write_user k_iupdate fine_page_fault k_steps
      | assumption | (rule valid, assumption, assumption) | (erule fd_bound; fail) | (simp; fail))+
qed

lemma fine_close:
  assumes "kst nolocks R R k"
  shows "fine (sys_close a1 k)"
proof -
  have put: "fine (obind (on_fs (iput ip) k) (\<lambda>_ k. Ret 0 (set_file fd (no_file (open_file fd k)) k)))"
    if "of_ip (open_file fd k) = Some ip" "fd < 16" for fd ip
  proof -
    have ip: "ip < NINODE" by (rule open_file_valid [OF assms that])
    show ?thesis
    proof (rule k_iput [OF assms ip], rule fine_Ret)
      fix k' assume k': "kst nolocks (minus1 ip R) R k'" "sc k' = sc k"
      then have "of_ip (open_file fd k') = Some ip" using that by (simp add: open_file_def cur_def)
      then show "kst nolocks (minus1 ip R) (minus1 ip R) (set_file fd (no_file (open_file fd k')) k')"
        by - (rule kst_set [OF k'(1) that(2)],
          use kst_length [OF assms] in \<open>auto simp: no_file_def minus1_nth\<close>)
    qed
  qed
  show ?thesis
    unfolding sys_close_def
    by (rule fine_Ret [OF assms] put yields_if yields_Let yields_option | assumption | (erule fd_bound; fail) | (simp; fail))+
qed

lemma fine_lseek:
  assumes "kst nolocks R R k"
  shows "fine (sys_lseek a1 a2 a3 k)"
  unfolding sys_lseek_def
  by (rule fine_Ret [OF assms] k_ilock [OF assms] k_steps | assumption | (erule fd_bound; fail) | (simp; fail))+

text \<open>A free descriptor gets a copy of another, or of a reference just taken.\<close>

lemma free_fd_spec: "free_fd k = Some fd \<Longrightarrow> 3 \<le> fd \<and> fd < 16 \<and> of_ip (open_file fd k) = None"
  unfolding free_fd_def by (simp only: find_first)

lemma open_file_set:
  assumes "kst L R S k" "fd < 16"
  shows "open_file fd (set_file fd f k) = f"
proof -
  have "length (p_ofiles (cur k)) = 16" using assms(1) kst_cur [OF assms(1)]
    by (simp add: kst_def files_ok_def ofiles_wf_def cur_def get_current_process_def)
  then show ?thesis using assms(2) kst_cur [OF assms(1)]
    by (simp add: open_file_def set_file_def upd_cur_def cur_def get_current_process_def nth_upd_proc)
qed

lemma fine_copy_fd:
  assumes "kst nolocks R S k" "old < 16" "new < 16"
    and "\<And>ip. ip < NINODE \<Longrightarrow> S ! ip - of_bool (of_ip (open_file new k) = Some ip) \<le> R ! ip"
  shows "fine (copy_fd old new k)"
proof -
  let ?k = "set_file new (open_file old k) k"
  have f: "of_ip (open_file new ?k) = of_ip (open_file old k)"
    by (simp add: open_file_set [OF assms(1,3)])
  show ?thesis
  proof (cases "of_ip (open_file old k)")
    case None
    then show ?thesis by (simp add: copy_fd_def Let_def f)
  next
    case (Some ip)
    have ip: "ip < NINODE" by (rule open_file_valid [OF assms(1) Some assms(2)])
    have "kst nolocks R (plus1 ip R) ?k"
      by (rule kst_set [OF assms(1,3)]) (use assms(4) ip Some kst_length [OF assms(1)] in \<open>auto simp: plus1_nth\<close>)
    then show ?thesis unfolding copy_fd_def Let_def f Some option.case
      by (rule k_idup [OF _ ip]) (rule fine_Ret)
  qed
qed

lemma fine_dup:
  assumes "kst nolocks R R k"
  shows "fine (sys_dup a1 k)"
proof -
  have copy: "fine (copy_fd (nat fd) new k)" if "3 \<le> fd \<and> fd < 16 \<and> X" "free_fd k = Some new" for fd new X
    by (rule fine_copy_fd [OF assms]) (use that free_fd_spec in auto)
  show ?thesis unfolding sys_dup_def
    by (rule fine_Ret [OF assms] copy yields_if yields_Let yields_option | assumption)+
qed

lemma fine_dup2:
  assumes "kst nolocks R R k"
  shows "fine (sys_dup2 a1 a2 k)"
proof -
  have copy: "fine (obind (case of_ip (open_file new k) of None \<Rightarrow> Ret () k | Some ip \<Rightarrow> on_fs (iput ip) k)
      (\<lambda>_ k. copy_fd old new k))" if "old < 16" "new < 16" for old new
  proof (cases "of_ip (open_file new k)")
    case None
    then show ?thesis using fine_copy_fd [OF assms that] by simp
  next
    case (Some ip)
    show ?thesis unfolding Some option.case
    proof (rule k_iput [OF assms open_file_valid [OF assms Some that(2)]], rule fine_copy_fd [OF _ that], assumption)
      fix k' :: kern and ip' assume "sc k' = sc k" "ip' < NINODE"
      then show "R ! ip' - of_bool (of_ip (open_file new k') = Some ip') \<le> minus1 ip R ! ip'"
        using kst_length [OF assms] Some by (simp add: open_file_def cur_def minus1_nth)
    qed
  qed
  show ?thesis unfolding sys_dup2_def
    by (rule fine_Ret [OF assms] copy yields_if yields_Let | (auto; fail))+
qed

lemma sound_bind:
  assumes "yields (\<lambda>r t. sound L R t \<and> P r) m" "\<And>x t. sound L R t \<Longrightarrow> yields Q (f x t)"
  shows "yields Q (obind m f)"
  using assms by (cases m) auto

lemma sound_open_inode:
  assumes "sound nolocks R s"
  shows "yields (\<lambda>r t. sound (case r of Some ip \<Rightarrow> if flags AND O_CREAT \<noteq> 0 then nolocks[ip := True] else nolocks | None \<Rightarrow> nolocks)
      (given r R) t \<and> (\<forall>ip. r = Some ip \<longrightarrow> ip < NINODE)) (open_inode path flags s)"
    (is "yields ?Q _")
proof -
  define Q where "Q = ?Q"
  have "yields Q (open_inode path flags s)"
  proof (cases "flags AND O_CREAT = 0")
    case True
    then have c: "\<not> flags AND O_CREAT \<noteq> 0" by simp
    show ?thesis unfolding open_inode_def if_not_P [OF c]
    proof (rule yields_bind [OF sound_namei [OF assms]], elim conjE)
      fix r t assume r: "sound nolocks (given r R) t" "\<forall>ip. r = Some ip \<longrightarrow> ip < NINODE"
      have trunc: "yields Q (obind (ilock (Some ip) t) (\<lambda>_ s. obind (set_size_0 ip s) (\<lambda>_ s.
          obind (iunlock (Some ip) s) (\<lambda>_ s. Ret (Some ip) s))))" if ip: "r = Some ip" for ip
      proof -
        have n: "ip < NINODE" using ip r(2) by simp
        show ?thesis
          by (rule sound_bind [OF sound_ilock [OF r(1)]], rule sound_bind [OF sound_set_size_0 [OF _ n]], assumption,
              rule sound_bind [OF sound_iunlock], assumption) (use ip n True in \<open>simp add: Q_def\<close>)
      qed
      show "yields Q (case r of None \<Rightarrow> Ret None t | Some ip \<Rightarrow>
          if flags AND O_TRUNC \<noteq> 0
          then obind (ilock (Some ip) t) (\<lambda>_ s. obind (set_size_0 ip s) (\<lambda>_ s. obind (iunlock (Some ip) s) (\<lambda>_ s. Ret (Some ip) s)))
          else Ret (Some ip) t)"
        using r trunc True by (cases r) (simp_all add: Q_def)
    qed
  next
    case False
    show ?thesis unfolding open_inode_def if_P [OF False]
    proof (rule yields_bind [OF sound_create [OF assms]], elim conjE)
      fix r t assume r: "sound (case r of None \<Rightarrow> nolocks | Some ip \<Rightarrow> nolocks[ip := True]) (given r R) t"
        "\<forall>ip. r = Some ip \<longrightarrow> ip < NINODE"
      show "yields Q (case r of None \<Rightarrow> Ret None t | Some ip \<Rightarrow>
          if flags AND O_TRUNC \<noteq> 0 then obind (set_size_0 ip t) (\<lambda>_ s. Ret (Some ip) s) else Ret (Some ip) t)"
      proof (cases r)
        case (Some ip)
        then have "yields Q (obind (set_size_0 ip t) (\<lambda>_ s. Ret (Some ip) s))"
          by (intro yields_bind [OF sound_set_size_0 [of "nolocks[ip := True]" "plus1 ip R"]]) (use r False in \<open>simp_all add: Q_def\<close>)
        then show ?thesis using r Some False by (simp add: Q_def)
      qed (use r in \<open>simp add: Q_def\<close>)
    qed
  qed
  then show ?thesis by (simp only: Q_def)
qed

lemma fine_open:
  assumes "kst nolocks R R k"
  shows "fine (sys_open a1 a2 k)"
proof -
  let ?flags = "ucast a2 :: u32"
  have opened: "fine (case free_fd k of
            None \<Rightarrow> obind (on_fs (unlock_created ?flags ip) k) (\<lambda>_ k. obind (on_fs (iput ip) k) (\<lambda>_ k. Ret (- 1) k))
          | Some fd \<Rightarrow>
              let k = set_file fd \<lparr>of_ip = Some ip, of_offset = 0, of_flags = ?flags\<rparr> k in
              obind (on_fs (unlock_created ?flags ip) k) (\<lambda>_ k. Ret (of_nat fd) k))"
    if k: "kst (if ?flags AND O_CREAT \<noteq> 0 then nolocks[ip := True] else nolocks) (plus1 ip R) R k" and ip: "ip < NINODE" for ip k
  proof -
    have unlock: "yields Q (obind (on_fs (unlock_created ?flags ip) k) g)"
      if "kst (if ?flags AND O_CREAT \<noteq> 0 then nolocks[ip := True] else nolocks) (plus1 ip R) S k"
        "\<And>k'. kst nolocks (plus1 ip R) S k' \<Longrightarrow> yields Q (g () k')" for Q g S k
      using that k_iunlock [of ip "plus1 ip R" S k Q g]
      by (cases "?flags AND O_CREAT = 0") (simp_all add: unlock_created_def on_fs_def)
    show ?thesis
    proof (cases "free_fd k")
      case None
      show ?thesis unfolding None option.case
        by (rule unlock [OF k], rule k_put_back(1) [OF ip _], rule fine_Ret)
    next
      case (Some fd)
      note fd = free_fd_spec [OF Some]
      have "kst (if ?flags AND O_CREAT \<noteq> 0 then nolocks[ip := True] else nolocks) (plus1 ip R) (plus1 ip R)
          (set_file fd \<lparr>of_ip = Some ip, of_offset = 0, of_flags = ?flags\<rparr> k)"
        by (rule kst_set [OF k]) (use fd ip kst_length [OF assms] in \<open>auto simp: plus1_nth\<close>)
      then show ?thesis unfolding Some option.case Let_def by (rule unlock) (rule fine_Ret)
    qed
  qed
  show ?thesis
    unfolding sys_open_def Let_def [of ?flags]
  proof (intro yields_if yields_option fine_Ret [OF assms] fine_page_fault)
    fix name
    show "fine (obind (on_fs (open_inode name ?flags) k) (\<lambda>r k.
       case r of None \<Rightarrow> Ret (- 1) k | Some ip \<Rightarrow>
         (case free_fd k of
            None \<Rightarrow> obind (on_fs (unlock_created ?flags ip) k) (\<lambda>_ k. obind (on_fs (iput ip) k) (\<lambda>_ k. Ret (- 1) k))
          | Some fd \<Rightarrow>
              let k = set_file fd \<lparr>of_ip = Some ip, of_offset = 0, of_flags = ?flags\<rparr> k in
              obind (on_fs (unlock_created ?flags ip) k) (\<lambda>_ k. Ret (of_nat fd) k))))"
      by (rule k_fs [OF assms sound_open_inode], assumption, rule yields_option)
        (rule fine_Ret, simp, rule opened, simp_all)
  qed
qed

lemma fine_chdir:
  assumes "kst nolocks R R k"
  shows "fine (sys_chdir a1 k)"
  unfolding sys_chdir_def
  by (rule fine_Ret [OF assms] fine_page_fault k_namei [OF assms] k_set_cwd k_put_back k_steps | assumption)+

lemma fine_mkdir:
  assumes "kst nolocks R R k"
  shows "fine (sys_mkdir a1 k)"
  unfolding sys_mkdir_def
  by (rule fine_Ret [OF assms] fine_page_fault k_create [OF assms] k_put_back k_steps | assumption)+

lemma fine_unlink:
  assumes "kst nolocks R R k"
  shows "fine (sys_unlink a1 k)"
  unfolding sys_unlink_def
  by (rule fine_Ret [OF assms] fine_page_fault k_unlink [OF assms] k_steps | assumption)+

lemma kernel_okE:
  assumes "kernel_ok k"
  obtains R where "kst nolocks R R k"
  using assms by (auto simp: kernel_ok_def)

lemma kernel_ok_vm [simp]: "kernel_ok (k\<lparr>sc := (sc k)\<lparr>vm := v\<rparr>\<rparr>) = kernel_ok k" "kernel_ok (set_pmem f k) = kernel_ok k"
  by (simp_all add: kernel_ok_def)

lemma kernel_ok_upd_cur:
  assumes "kernel_ok k" "\<And>p. p_ofiles (f p) = p_ofiles p" "\<And>p. p_state (f p) = p_state p" "\<And>p. p_pid (f p) = p_pid p"
  shows "kernel_ok (upd_cur f k)"
  using assms(1) by (rule kernel_okE) (auto simp: kernel_ok_def intro: kst_upd_cur_same assms(2-4))

lemma kernel_ok_brk:
  assumes "kernel_ok k"
  shows "kernel_ok (snd (sys_brk b k))"
proof -
  have start: "kernel_ok (upd_cur brk_start k)"
    by (rule kernel_ok_upd_cur [OF assms]) (simp_all add: brk_start_def)
  have heap: "kernel_ok (upd_cur (\<lambda>p. p\<lparr>p_heap_end := b\<rparr>) k')" if "kernel_ok k'" for k'
    by (rule kernel_ok_upd_cur [OF that]) simp_all
  show ?thesis unfolding sys_brk_def Let_def
    by (simp add: start heap split: prod.split)
qed

lemma kernel_ok_wait4:
  assumes "kernel_ok k"
  shows "fine (sys_wait4 p k)"
proof -
  have reap: "kernel_ok (k'\<lparr>sc := snd (wait_reap (sc k'))\<rparr>)" if k': "kernel_ok k'" for k'
  proof (rule kernel_okE [OF k'])
    fix R assume k: "kst nolocks R R k'"
    obtain r s where w: "wait_reap (sc k') = (r, s)" by fastforce
    then have "files_ok R s"
    proof (cases rule: wait_reap_cases)
      case (found i)
      then show ?thesis using k kst_table [OF k] by (auto simp: kst_def table_ok_def intro: files_ok_same)
    qed (use k in \<open>simp add: kst_def\<close>)
    then show ?thesis using k w wait_reap_inv [of "sc k'"] by (auto simp: kernel_ok_def kst_def)
  qed
  obtain R where R: "kst nolocks R R k" using assms by (rule kernel_okE)
  have store: "fine (obind (uwrites p bs k) (\<lambda>_ k. Ret x (k\<lparr>sc := snd (wait_reap (sc k))\<rparr>)))" for bs x
    by (rule k_uwrites [OF R], simp, rule reap) (auto simp: kernel_ok_def)
  have "fine (obind (if p \<noteq> 0 then uwrites p bs k else Ret () k) (\<lambda>_ k. Ret x (k\<lparr>sc := snd (wait_reap (sc k))\<rparr>)))" for bs x
    by (cases "p = 0") (simp_all add: store reap assms)
  then show ?thesis unfolding sys_wait4_def using assms
    by (cases "fst (wait_reap (sc k))") (simp_all only: option.case prod.case_eq_if ensures_simps)
qed

lemma kernel_ok_blit: "kernel_ok k \<Longrightarrow> fine (blit src i n k)"
proof (induction n arbitrary: i k)
  case (Suc n)
  have "kernel_ok (k\<lparr>con := (con k)\<lparr>fb := f\<rparr>\<rparr>)" for f
    using Suc.prems by (auto simp: kernel_ok_def kst_def cursor_ok_def)
  then show ?case using Suc.IH by (auto simp: page_fault_def split: option.split)
qed simp

section \<open>Starting programs\<close>

text \<open>The pid counter is \<open>n\<close>.\<close>

definition ok_at :: "u64 \<Rightarrow> kern \<Rightarrow> bool" where
  "ok_at n k \<longleftrightarrow> kernel_ok k \<and> next_pid (sc k) = n"

abbreviation stays :: "u64 \<Rightarrow> ('a, kern) outcome \<Rightarrow> bool" where
  "stays n m \<equiv> yields (\<lambda>_. ok_at n) m"

lemma stays_bind:
  "stays n m \<Longrightarrow> (\<And>x k. m = Ret x k \<Longrightarrow> ok_at n k \<Longrightarrow> yields Q (f x k)) \<Longrightarrow> yields Q (obind m f)"
  by (cases m) auto

lemma ok_at_pmem [simp]: "ok_at n (set_pmem f k) = ok_at n k"
  by (simp add: ok_at_def) (simp add: set_pmem_def)

lemma stays_exec_read:
  assumes "ok_at n k"
  shows "stays n (exec_read path k)"
proof -
  obtain R where R: "kst nolocks R R k" and n: "next_pid (sc k) = n"
    using assms by (auto simp: ok_at_def kernel_ok_def)
  have out: "stays n (Ret x k')" if "kst nolocks R R k'" "sc k' = sc k" for x k'
    using that n by (auto simp: ok_at_def kernel_ok_def)
  have load: "stays n (let k = (case bs of None \<Rightarrow> k' | Some d \<Rightarrow> k'\<lparr>elf_load_buffer := d @ drop (length d) (elf_load_buffer k')\<rparr>) in
      obind (on_fs (iunlockput ip) k) (\<lambda>_ k.
      if map_option length bs \<noteq> Some m then Ret None k else Ret (Some l) k))"
    if "kst (nolocks[ip := True]) (plus1 ip R) R k'" "ip < NINODE" "sc k' = sc k" for k' ip m l bs
  proof -
    define k1 where "k1 = (case bs of None \<Rightarrow> k' | Some d \<Rightarrow> k'\<lparr>elf_load_buffer := d @ drop (length d) (elf_load_buffer k')\<rparr>)"
    have k1: "kst (nolocks[ip := True]) (plus1 ip R) R k1" "sc k1 = sc k"
      using that by (simp_all add: k1_def kst_def split: option.split)
    show ?thesis unfolding k1_def [symmetric] Let_def
      by (rule k_put_back(2) [OF that(2)] yields_if out k1(1) | assumption | (simp add: k1(2); fail))+
  qed
  show ?thesis
    unfolding exec_read_def
    by (rule k_namei [OF R] out k_ilock k_put_back k_readi yields_if yields_Let load | assumption | (simp; fail))+
qed

lemma stays_inherit:
  assumes "ok_at n k" "child < MAX_PROCESSES" "\<forall>fd \<in> set fds. fd < 16"
  shows "stays n (inherit_files child fds k)"
  using assms(1,3)
proof (induction fds arbitrary: k)
  case (Cons fd fds)
  show ?case
  proof (cases "of_ip (open_file fd k)")
    case (Some ip)
    obtain R where R: "kst nolocks R R k" and n: "next_pid (sc k) = n"
      using Cons.prems(1) by (auto simp: ok_at_def kernel_ok_def)
    let ?f = "open_file fd k"
    let ?k = "k\<lparr>sc := upd_proc child (\<lambda>p. p\<lparr>p_ofiles := (p_ofiles p)[fd := ?f]\<rparr>) (sc k)\<rparr>"
    have ip: "ip < NINODE" by (rule open_file_valid [OF R Some]) (use Cons.prems(2) in simp)
    have c: "child < length (processes (sc k))" using kst_table [OF R] assms(2) by (simp add: table_ok_def)
    have "files_ok (plus1 ip R) (upd_proc child (\<lambda>p. p\<lparr>p_ofiles := (p_ofiles p)[fd := ?f]\<rparr>) (sc k))"
      by (rule files_ok_set [where R = R])
        (use R c ip Some Cons.prems(2) kst_length [OF R] in \<open>auto simp: kst_def plus1_nth\<close>)
    moreover have "sched_inv (upd_proc child (\<lambda>p. p\<lparr>p_ofiles := (p_ofiles p)[fd := ?f]\<rparr>) (sc k))"
      by (rule sched_inv_same) (use R c in \<open>simp_all add: kst_def\<close>)
    ultimately have k: "kst nolocks R (plus1 ip R) ?k" using R by (simp add: kst_def)
    show ?thesis unfolding inherit_files.simps Some option.case Let_def
    proof (rule k_idup [OF k ip])
      fix x k' assume "kst nolocks (plus1 ip R) (plus1 ip R) k'" "sc k' = sc ?k"
      then have "ok_at n k'" using n by (auto simp: ok_at_def kernel_ok_def)
      then show "stays n (inherit_files child fds k')" using Cons.IH Cons.prems(2) by simp
    qed
  qed (use Cons in simp)
qed simp

lemma load_elf_vm: "\<exists>v. snd (load_elf_into_process target f n s) = s\<lparr>vm := v\<rparr>"
proof -
  have "\<exists>v. s = s\<lparr>vm := v\<rparr>" by (rule exI [of _ "vm s"]) simp
  then show ?thesis
    by (auto simp: load_elf_into_process_def Let_def split: option.split prod.split)
qed

lemma ok_at_sc_vm: "ok_at n (k\<lparr>sc := (sc k)\<lparr>vm := v\<rparr>\<rparr>) = ok_at n k"
  by (simp add: ok_at_def)

lemma entry_vm: "\<exists>v. set_process_entry i e s = s\<lparr>vm := v\<rparr>" "\<exists>v. set_process_argv i c a s = s\<lparr>vm := v\<rparr>"
proof -
  have "\<exists>v. s = s\<lparr>vm := v\<rparr>" by (rule exI [of _ "vm s"]) simp
  then show "\<exists>v. set_process_entry i e s = s\<lparr>vm := v\<rparr>" "\<exists>v. set_process_argv i c a s = s\<lparr>vm := v\<rparr>"
    by (auto simp: set_process_entry_def set_process_argv_def Let_def)
qed

lemma ok_at_created:
  assumes "ok_at n k" "unat n < 2 ^ 32" "create_process ks us e (sc k) = (pid, s)"
  shows "ok_at n (k\<lparr>sc := s\<rparr>) \<or> ok_at (n + 1) (k\<lparr>sc := s\<rparr>)"
proof -
  obtain R where R: "kst nolocks R R k" and n: "next_pid (sc k) = n"
    using assms(1) by (auto simp: ok_at_def kernel_ok_def)
  have "sched_inv s" using create_process_inv [OF _ _ assms(3)] R assms(2) n by (simp add: kst_def)
  moreover have "files_ok R s" using files_ok_create [OF _ kst_table [OF R] assms(3)] R by (simp add: kst_def)
  ultimately have "kernel_ok (k\<lparr>sc := s\<rparr>)" using R by (auto simp: kernel_ok_def kst_def)
  moreover have "next_pid s = n \<or> next_pid s = n + 1"
    using kst_table [OF R] assms(3) by (cases rule: create_process_cases) (use n in auto)
  ultimately show ?thesis by (auto simp: ok_at_def)
qed

lemma ok_at_abandon:
  assumes "ok_at n k" "i < MAX_PROCESSES"
  shows "ok_at n (k\<lparr>sc := upd_proc i (\<lambda>p. p\<lparr>p_state := TERMINATED\<rparr>) (sc k)\<rparr>)"
proof -
  obtain R where R: "kst nolocks R R k" and n: "next_pid (sc k) = n"
    using assms(1) by (auto simp: ok_at_def kernel_ok_def)
  have i: "i < length (processes (sc k))" using kst_table [OF R] assms(2) by (simp add: table_ok_def)
  have "sched_inv (upd_proc i (\<lambda>p. p\<lparr>p_state := TERMINATED\<rparr>) (sc k))"
    by (rule sched_inv_upd) (use R assms(2) in \<open>simp_all add: kst_def\<close>)
  moreover have "files_ok R (upd_proc i (\<lambda>p. p\<lparr>p_state := TERMINATED\<rparr>) (sc k))"
    by (rule files_ok_same) (use R i in \<open>simp_all add: kst_def\<close>)
  ultimately show ?thesis using R n by (auto simp: ok_at_def kernel_ok_def kst_def)
qed

lemma stays_copy_arg: "ok_at n k \<Longrightarrow> stays n (copy_arg dst src m k)"
  by (induction dst src m k rule: copy_arg.induct) (auto simp: page_fault_def split: option.split)

lemma stays_copy_args: "ok_at n k \<Longrightarrow> stays n (copy_args img argv left pos copied k)"
proof (induction img argv left pos copied k rule: copy_args.induct)
  case (2 img argv left pos copied k)
  show ?case unfolding copy_args.simps
    by (rule yields_option yields_if yields_Let stays_bind [OF stays_copy_arg] 2(1) yields_Ret refl
        | rule 2(2) | assumption | (simp add: page_fault_def; fail))+
qed simp

lemma stays_install_argv:
  assumes "ok_at n k"
  shows "stays n (install_argv img child argv argc k)"
proof -
  have argv: "ok_at n (k'\<lparr>sc := set_process_argv i c a (sc k')\<rparr>)" if "ok_at n k'" for k' i c a
    using entry_vm(2) [of i c a "sc k'"] that by (auto simp: ok_at_sc_vm)
  show ?thesis unfolding install_argv_def
    by (rule yields_if stays_bind [OF stays_copy_args] yields_Let yields_Ret argv | rule assms | (simp; fail))+
qed

lemma stays_spawn:
  assumes "ok_at n k" "unat n < 2 ^ 32"
  shows "yields (\<lambda>_ k'. ok_at n k' \<or> ok_at (n + 1) k') (spawn_from_xv6fs img path argv argc k)"
proof -
  have load: "stays m (let (res, s) = load_elf_into_process (Some child) f sz (sc k) in
        if res < 0 then Ret (- 1) (k\<lparr>sc := upd_proc child (\<lambda>p. p\<lparr>p_state := TERMINATED\<rparr>) s\<rparr>)
        else let k = k\<lparr>sc := set_process_entry child e s\<rparr> in
          obind (install_argv img child argv argc k) (\<lambda>_ k. Ret pid k))"
    if k: "ok_at m k" and c: "child < MAX_PROCESSES" for m k child f sz e pid
  proof -
    obtain v where v: "snd (load_elf_into_process (Some child) f sz (sc k)) = (sc k)\<lparr>vm := v\<rparr>"
      using load_elf_vm by blast
    let ?k = "k\<lparr>sc := (sc k)\<lparr>vm := v\<rparr>\<rparr>"
    have k': "ok_at m ?k" using k by (simp add: ok_at_sc_vm)
    obtain w where w: "set_process_entry child e ((sc k)\<lparr>vm := v\<rparr>) = (sc k)\<lparr>vm := w\<rparr>"
      using entry_vm(1) [of child e "(sc k)\<lparr>vm := v\<rparr>"] by auto
    have e: "ok_at m (k\<lparr>sc := set_process_entry child e ((sc k)\<lparr>vm := v\<rparr>)\<rparr>)"
      unfolding w using k by (simp add: ok_at_sc_vm)
    have "ok_at m (k\<lparr>sc := upd_proc child (\<lambda>p. p\<lparr>p_state := TERMINATED\<rparr>) ((sc k)\<lparr>vm := v\<rparr>)\<rparr>)"
      using ok_at_abandon [OF k' c] by simp
    moreover have "stays m (obind (install_argv img child argv argc
        (k\<lparr>sc := set_process_entry child e ((sc k)\<lparr>vm := v\<rparr>)\<rparr>)) (\<lambda>_ k. Ret pid k))"
      by (rule stays_bind [OF stays_install_argv [OF e]]) simp
    ultimately show ?thesis by (simp add: case_prod_beta v Let_def)
  qed
  have child: "child < MAX_PROCESSES" if "get_process_by_pid p s = Some child" for p s child
    using that unfolding get_process_by_pid_def by (simp add: find_first)
  have made: "stays m (if pid < 0 then Ret (- 1) k
      else case get_process_by_pid (word_of_int pid) (sc k) of None \<Rightarrow> Ret (- 1) k | Some child \<Rightarrow>
        obind (inherit_files child [0..<3] k) (\<lambda>_ k.
        let (res, s) = load_elf_into_process (Some child) (Some (elf_load_buffer k)) (ucast sz) (sc k) in
        if res < 0 then Ret (- 1) (k\<lparr>sc := upd_proc child (\<lambda>p. p\<lparr>p_state := TERMINATED\<rparr>) s\<rparr>)
        else let k = k\<lparr>sc := set_process_entry child (e_entry (dec_ehdr (elf_load_buffer k))) s\<rparr> in
          obind (install_argv img child argv argc k) (\<lambda>_ k. Ret pid k)))" if "ok_at m k" for m k pid sz
    by (rule yields_if yields_option yields_Ret that stays_bind [OF stays_inherit [OF that child]] load child | assumption
      | (simp; fail))+
  have either: "yields (\<lambda>_ k'. ok_at n k' \<or> ok_at (n + 1) k') m"
    if "stays n m \<or> stays (n + 1) m" for m :: "('b, kern) outcome"
    using that by (cases m) auto
  show ?thesis unfolding spawn_from_xv6fs_def
  proof (rule stays_bind [OF stays_exec_read [OF assms(1)]])
    fix r k assume k: "ok_at n k"
    show "yields (\<lambda>_ k'. ok_at n k' \<or> ok_at (n + 1) k') (case r of None \<Rightarrow> Ret (- 1) k | Some sz \<Rightarrow>
      if \<not> exec_header_ok (elf_load_buffer k) then Ret (- 1) k
      else let (pid, s) = create_process (kernel_stacks img) (user_stacks img) 0 (sc k); k = k\<lparr>sc := s\<rparr> in
      if pid < 0 then Ret (- 1) k
      else case get_process_by_pid (word_of_int pid) (sc k) of None \<Rightarrow> Ret (- 1) k | Some child \<Rightarrow>
        obind (inherit_files child [0..<3] k) (\<lambda>_ k.
        let (res, s) = load_elf_into_process (Some child) (Some (elf_load_buffer k)) (ucast sz) (sc k) in
        if res < 0 then Ret (- 1) (k\<lparr>sc := upd_proc child (\<lambda>p. p\<lparr>p_state := TERMINATED\<rparr>) s\<rparr>)
        else let k = k\<lparr>sc := set_process_entry child (e_entry (dec_ehdr (elf_load_buffer k))) s\<rparr> in
          obind (install_argv img child argv argc k) (\<lambda>_ k. Ret pid k)))"
    proof (intro yields_option yields_if yields_Ret disjI1 k)
      fix sz assume r: "r = Some sz"
      obtain pid t where c: "create_process (kernel_stacks img) (user_stacks img) 0 (sc k) = (pid, t)" by force
      from ok_at_created [OF k assms(2) c]
      obtain m where m: "ok_at m (k\<lparr>sc := t\<rparr>)" "m = n \<or> m = n + 1" by blast
      show "yields (\<lambda>_ k'. ok_at n k' \<or> ok_at (n + 1) k')
       (let (pid, s) = create_process (kernel_stacks img) (user_stacks img) 0 (sc k); k = k\<lparr>sc := s\<rparr> in
        if pid < 0 then Ret (- 1) k
        else case get_process_by_pid (word_of_int pid) (sc k) of None \<Rightarrow> Ret (- 1) k | Some child \<Rightarrow>
        obind (inherit_files child [0..<3] k) (\<lambda>_ k.
        let (res, s) = load_elf_into_process (Some child) (Some (elf_load_buffer k)) (ucast sz) (sc k) in
        if res < 0 then Ret (- 1) (k\<lparr>sc := upd_proc child (\<lambda>p. p\<lparr>p_state := TERMINATED\<rparr>) s\<rparr>)
        else let k = k\<lparr>sc := set_process_entry child (e_entry (dec_ehdr (elf_load_buffer k))) s\<rparr> in
          obind (install_argv img child argv argc k) (\<lambda>_ k. Ret pid k)))"
        unfolding c Let_def [of "(pid, t)"] prod.case Let_def [of "k\<lparr>sc := t\<rparr>"]
        using made [OF m(1), of pid sz] m(2) by (intro either) auto
    qed
  qed
qed

lemma ram_message_cursor: "cursor_ok c \<Longrightarrow> cursor_ok (ram_message g t f col c)"
proof -
  have "cursor_ok c \<Longrightarrow> cursor_ok (kprint g bs col c)" for bs c
    by (induction g bs col c rule: kprint.induct) (simp_all add: kprint_char_bounds)
  then show "cursor_ok c \<Longrightarrow> cursor_ok (ram_message g t f col c)" by (simp add: ram_message_def del: kprint.simps)
qed

lemma ramfs_ok:
  assumes "ok_at n k" "unat n < 2 ^ 32" "spawn_from_ramfs g ks us name r (sc k) (con k) = (res, s, c)"
  shows "kernel_ok (k\<lparr>sc := s, con := c\<rparr>)"
proof -
  have con: "kernel_ok (k\<lparr>sc := t, con := ram_message g m f col (con k)\<rparr>) \<and> kernel_ok (k\<lparr>sc := t, con := con k\<rparr>)"
    if "kernel_ok (k\<lparr>sc := t\<rparr>)" for t m f col
    using that by (auto simp: kernel_ok_def kst_def ram_message_cursor)
  have vm: "kernel_ok (k\<lparr>sc := t\<lparr>vm := v\<rparr>\<rparr>) = kernel_ok (k\<lparr>sc := t\<rparr>)" for t v
    by (simp add: kernel_ok_def kst_def vm_only_inv)
  have old: "kernel_ok (k\<lparr>sc := sc k\<rparr>)" using assms(1) by (simp add: ok_at_def)
  obtain pid t where c: "create_process ks us 0 (sc k) = (pid, t)" by force
  then have new: "kernel_ok (k\<lparr>sc := t\<rparr>)"
    using ok_at_created [OF assms(1,2) c] by (auto simp: ok_at_def)
  have load: "kernel_ok (k\<lparr>sc := snd (load_elf_into_process i f n t)\<rparr>)" for i f n
    using load_elf_vm [of i f n t] new vm by auto
  have entry: "kernel_ok (k\<lparr>sc := set_process_entry j e (snd (load_elf_into_process i f n t))\<rparr>)" for i f n j e
    using entry_vm(1) [of j e "snd (load_elf_into_process i f n t)"] load vm by metis
  show ?thesis
    using assms(3) con [OF old] con [OF new] con [OF load] con [OF entry]
    by (auto simp: spawn_from_ramfs_def Let_def c case_prod_beta split: if_splits option.splits)
qed

lemma fine_execve:
  assumes "kernel_ok k" "unat (next_pid (sc k)) < 2 ^ 32 - 1"
  shows "fine (sys_execve img f argv argc k)"
proof -
  let ?n = "next_pid (sc k)"
  have k: "ok_at ?n k" using assms(1) by (simp add: ok_at_def)
  have n: "unat ?n < 2 ^ 32" "unat (?n + 1) < 2 ^ 32" using assms(2) by (simp_all add: unat_word_ariths)
  have flush: "kernel_ok (k'\<lparr>kb := kflush (kb k')\<rparr>)" if "kernel_ok k'" for k'
    using that kflush_contents [of "kb k'"] by (auto simp: kernel_ok_def kst_def)
  have retry: "fine (let (res, k) = (if res < 0
             then let (r, s, c) = spawn_from_ramfs (glyphs img) (kernel_stacks img) (user_stacks img) name (ram k') (sc k') (con k')
               in (r, k'\<lparr>sc := s, con := c\<rparr>)
             else (res, k'));
           k = (if res \<ge> 0 then k\<lparr>kb := kflush (kb k)\<rparr> else k)
       in Ret (ret_int res) k)" if "ok_at ?n k' \<or> ok_at (?n + 1) k'" for k' res name
  proof -
    obtain r s c where sp: "spawn_from_ramfs (glyphs img) (kernel_stacks img) (user_stacks img) name (ram k') (sc k') (con k') = (r, s, c)"
      by (rule prod_cases3)
    have "kernel_ok (k'\<lparr>sc := s, con := c\<rparr>)"
      using that ramfs_ok [OF _ n(1) sp] ramfs_ok [OF _ n(2) sp] by blast
    moreover have "kernel_ok k'" using that by (auto simp: ok_at_def)
    ultimately show ?thesis using flush [of k'] flush [of "k'\<lparr>sc := s, con := c\<rparr>"] by (simp add: sp)
  qed
  show ?thesis
    unfolding sys_execve_def
    by (rule yields_if yields_option yields_Ret assms fine_page_fault yields_bind [OF stays_spawn [OF k n(1)]] retry | assumption)+
qed

section \<open>Steps of the kernel\<close>

lemma fine_result:
  assumes "kernel_ok k" "unat (next_pid (sc k)) < 2 ^ 32 - 1"
  shows "fine (syscall_result img num a1 a2 a3 k)"
proof -
  obtain R where R: "kst nolocks R R k" using assms(1) by (rule kernel_okE)
  note calls = fine_read fine_write fine_open fine_close fine_lseek fine_dup fine_dup2 fine_chdir fine_mkdir fine_unlink
  have simple: "fine (sys_getpid k)" "fine (sys_exit c k)" "fine (case sys_brk b k of (r, k) \<Rightarrow> Ret r k)" for c b
    using assms(1) kernel_ok_brk [OF assms(1), of b]
    by (simp_all add: sys_getpid_def sys_exit_def exit_current_process_def case_prod_beta)
  have "fine (sys_blit u w h k)" for u w h
    unfolding sys_blit_def Let_def
    by (intro yields_if yields_bind [OF kernel_ok_blit [OF assms(1)]] yields_Ret assms(1))
  then show ?thesis
    unfolding syscall_result_def
    by (intro yields_if calls [OF R] simple fine_execve [OF assms] kernel_ok_wait4 [OF assms(1)] yields_Ret assms(1))
qed

text \<open>
  The gates of the interrupt table are interrupt gates, which keep further interrupts out: a
  system call, the timer and the keyboard are steps that do not overlap.  A call comes from
  the process that runs; the one of \<open>exit\<close> ends in the idle loop.  Pids are counted up to \<open>2 ^ 32\<close>.
\<close>

inductive kstep :: "static_addrs \<Rightarrow> kern \<Rightarrow> kern \<Rightarrow> bool" for img where
  step_call: "p_state (cur k) = RUNNING \<Longrightarrow> unat (next_pid (sc k)) < 2 ^ 32 - 1 \<Longrightarrow>
    syscall_handler img regs k = Ret regs' k' \<Longrightarrow> kstep img k k'"
| step_quit: "p_state (cur k) = RUNNING \<Longrightarrow> regs 14 = 60 \<Longrightarrow>
    syscall_handler img regs k = Halt msg k' \<Longrightarrow> kstep img k k'"
| step_tick: "schedule esp (sc k) = Ret esp' s \<Longrightarrow> kstep img k (k\<lparr>sc := s\<rparr>)"
| step_irq: "kstep img k (k\<lparr>kb := irqhandler irq code (kb k)\<rparr>)"

lemma kernel_ok_schedule:
  assumes "kernel_ok k"
  shows "kernel_ok (k\<lparr>sc := state_of (schedule e (sc k))\<rparr>)"
proof -
  obtain R where R: "kst nolocks R R k" using assms by (rule kernel_okE)
  have t: "table_ok (sc k)" by (rule kst_table [OF R])
  have same: "files_ok R (upd_proc i f s)" if "files_ok R s" "i < length (processes s)" "\<And>p. p_ofiles (f p) = p_ofiles p" for s i f
    by (rule files_ok_same [OF that(1,2)]) (simp add: that(3))
  have "files_ok R (state_of (schedule e (sc k)))"
  proof (cases "next_ready (sc k)")
    case (Some j)
    have j: "j < MAX_PROCESSES" using next_ready_SomeD [OF Some t] by metis
    have "files_ok R (save_current e (sc k)) \<and> length (processes (save_current e (sc k))) = MAX_PROCESSES"
      using R t by (auto simp: save_current_def table_ok_def kst_def intro: same)
    then have "files_ok R (activate_process j (save_current e (sc k)))"
      using j by (auto simp: activate_process_def Let_def set_kernel_stack_def intro: same)
    then show ?thesis by (simp add: schedule_switch [OF t Some])
  next
    case None
    show ?thesis unfolding schedule_stay [OF t None]
      by (cases "p_state (proc (sc k) (current_process_idx (sc k)))")
        (use R kst_cur [OF R] in \<open>simp_all add: kst_def same\<close>)
  qed
  then show ?thesis using R schedule_inv [of "sc k" e] by (auto simp: kernel_ok_def kst_def)
qed

lemma kernel_ok_step:
  assumes "kernel_ok k" "kstep img k k'"
  shows "kernel_ok k'"
  using assms(2)
proof (cases rule: kstep.cases)
  case (step_call regs regs')
  then show ?thesis using fine_result [OF assms(1) step_call(2), of img "regs 14" "regs 9" "regs 10" "regs 11"]
    by (auto simp: syscall_handler_def obind_Ret_iff)
next
  case (step_quit regs msg)
  obtain R where R: "kst nolocks R R k" using assms(1) by (rule kernel_okE)
  let ?f = "\<lambda>p. p\<lparr>p_exit_code := ucast (regs 9), p_state := ZOMBIE\<rparr>"
  have k': "k' = k\<lparr>sc := upd_proc (current_process_idx (sc k)) ?f (sc k)\<rparr>"
    using step_quit by (simp add: syscall_handler_def syscall_result_def sys_exit_def exit_current_process_def)
  have "sched_inv (upd_proc (current_process_idx (sc k)) ?f (sc k))"
    by (rule sched_inv_upd) (use R step_quit(1) kst_table [OF R] in \<open>simp_all add: kst_def table_ok_def cur_def proc_def get_current_process_def\<close>)
  moreover have "files_ok R (upd_proc (current_process_idx (sc k)) ?f (sc k))"
    by (rule files_ok_same) (use R kst_cur [OF R] in \<open>simp_all add: kst_def\<close>)
  ultimately show ?thesis using R unfolding k' by (auto simp: kernel_ok_def kst_def)
next
  case (step_tick esp esp' s)
  then show ?thesis using kernel_ok_schedule [OF assms(1), of esp] by simp
next
  case (step_irq irq code)
  have "kb_ok (irqhandler irq code b)" if b: "kb_ok b" for b
  proof (cases "irq = 33")
    case True
    then show ?thesis using kb_scancode_step [OF b] by blast
  next
    case False
    then show ?thesis using b by (simp add: irqhandler_def kb_ok_def kb_contents_def kb_len_def)
  qed
  then show ?thesis using assms(1) step_irq by (auto simp: kernel_ok_def kst_def)
qed

interpretation kernel: invariant_system kernel_ok "kstep img" kernel_ok for img
  by unfold_locales (auto intro: kernel_ok_step)

lemma held_member:
  assumes "i < length (processes s)" "fd < length (p_ofiles (processes s ! i))" "of_ip (p_ofiles (processes s ! i) ! fd) = Some ip"
  shows "1 \<le> held s ip"
proof -
  have pos: "0 \<le> fd_count p ip" for p by (simp add: fd_count_def count_nonneg)
  have in_list: "f x \<le> sum_list (map f xs)" if "x \<in> set xs" "\<And>y. (0 :: int) \<le> f y" for f and x :: 'b and xs
  proof -
    have nn: "0 \<le> sum_list (map f ys)" for ys by (induction ys) (simp_all add: that(2))
    show ?thesis using that(1)
    proof (induction xs)
      case (Cons a xs)
      then show ?case using nn [of xs] that(2) [of a] by (cases "x = a") auto
    qed simp
  qed
  have "of_bool (of_ip (p_ofiles (processes s ! i) ! fd) = Some ip) \<le> fd_count (processes s ! i) ip"
    unfolding fd_count_def by (rule in_list [of _ _ "\<lambda>f. of_bool (of_ip f = Some ip)"]) (use assms in simp_all)
  moreover have "fd_count (processes s ! i) ip \<le> held s ip"
    unfolding held_def by (rule in_list [of _ _ "\<lambda>p. fd_count p ip"]) (use assms pos in simp_all)
  ultimately show ?thesis using assms(3) by simp
qed

lemma kernel_ok_facts:
  assumes "kernel_ok k"
  shows "holding nolocks (fsys k)" "sched_inv (sc k)"
    "ip < NINODE \<Longrightarrow> held (sc k) ip + of_bool (cwd_ref (fsys k) = Some ip) \<le> i_ref (ino ip (fsys k))"
    "\<And>i fd ip. i < MAX_PROCESSES \<Longrightarrow> fd < 16 \<Longrightarrow> of_ip (p_ofiles (proc (sc k) i) ! fd) = Some ip \<Longrightarrow>
      ip < NINODE \<and> 1 \<le> i_ref (ino ip (fsys k))"
proof -
  obtain R where R: "kst nolocks R R k" using assms by (rule kernel_okE)
  show "holding nolocks (fsys k)" "sched_inv (sc k)" using R by (simp_all add: kst_def sound_def)
  have own: "held (sc k) ip + of_bool (cwd_ref (fsys k) = Some ip) \<le> i_ref (ino ip (fsys k))" if "ip < NINODE" for ip
  proof -
    have "map i_ref (icache (fsys k)) ! ip = given (cwd_ref (fsys k)) R ! ip"
      using R by (simp add: kst_def sound_def owned_def)
    moreover have "ip < length (icache (fsys k))" using R that by (simp add: kst_def sound_def fs_wf_def)
    moreover have "given C R ! ip = R ! ip + of_bool (C = Some ip)" for C
      using kst_length [OF R] that by (cases C) (auto simp: plus1_nth)
    moreover have "held (sc k) ip \<le> R ! ip" using R that by (simp add: kst_def files_ok_def)
    ultimately show ?thesis by (simp add: ino_def)
  qed
  then show "ip < NINODE \<Longrightarrow> held (sc k) ip + of_bool (cwd_ref (fsys k) = Some ip) \<le> i_ref (ino ip (fsys k))" .
  fix i fd ip assume i: "i < MAX_PROCESSES" "fd < 16" "of_ip (p_ofiles (proc (sc k) i) ! fd) = Some ip"
  have l: "i < length (processes (sc k))" using i kst_table [OF R] by (simp add: table_ok_def)
  then have w: "ofiles_wf (p_ofiles (proc (sc k) i))" using R by (simp add: kst_def files_ok_def proc_def)
  then have ip: "ip < NINODE" using i nth_mem [of fd "p_ofiles (proc (sc k) i)"] by (auto simp: ofiles_wf_def)
  have "1 \<le> held (sc k) ip"
    by (rule held_member [OF l]) (use w i in \<open>simp_all add: proc_def ofiles_wf_def\<close>)
  then show "ip < NINODE \<and> 1 \<le> i_ref (ino ip (fsys k))" using own [OF ip] ip by (cases "cwd_ref (fsys k) = Some ip") auto
qed

section \<open>Properties\<close>

text \<open>A machine with two processes, the running one with the descriptor 3 for inode 0.\<close>

definition boot_addrs :: static_addrs where
  "boot_addrs = \<lparr>kernel_stacks = 0x200000, user_stacks = 0x210000, argv_scratch = 0x220000, argv_ptrs = 0x221000,
    glyphs = (\<lambda>_ _. 0)\<rparr>"

definition demo_kern :: kern where
  "demo_kern = \<lparr>sc = upd_proc 1 (\<lambda>p. p\<lparr>p_ofiles := (p_ofiles p)[3 := \<lparr>of_ip = Some 0, of_offset = 0, of_flags = 0\<rparr>]\<rparr>) two_sched,
    fsys = small_fs\<lparr>icache := (replicate 50 no_inode)[0 := no_inode\<lparr>i_ref := 1\<rparr>]\<rparr>, kb = boot_kbd, con = boot_console,
    ram = \<lparr>ramdisk = None, ram_magic = 0, ram_file_count = 0\<rparr>, fb_addr = 0xFD000000, elf_load_buffer = []\<rparr>"


lemma demo_kern_ok: "kernel_ok demo_kern"
proof -
  let ?R = "(replicate 50 0)[0 := (1 :: int)]"
  have "holding nolocks (fsys demo_kern)"
    by (simp add: demo_kern_def holding_def nolocks_def NINODE_def small_fs_def no_inode_def map_update list_update_same_conv)
  moreover have "owned ?R (fsys demo_kern)"
    by (simp add: demo_kern_def owned_def cwd_ref_def small_fs_def no_inode_def map_update)
  moreover have "fs_wf (fsys demo_kern)"
    by (simp add: demo_kern_def fs_wf_def cache_wf_def small_fs_def ino_def no_inode_def empty_cache_def XV6FS_NBUF_def BSIZE_def
        NINODE_def NDIRECT_def small_disk_def nth_list_update)
  ultimately have 1: "sound nolocks ?R (fsys demo_kern)" by (simp add: sound_def)
  let ?f = "\<lambda>p. p\<lparr>p_ofiles := (p_ofiles p)[3 := \<lparr>of_ip = Some 0, of_offset = 0, of_flags = 0\<rparr>]\<rparr>"
  have "files_ok (replicate 50 0) two_sched"
    by (simp add: files_ok_def two_sched_def no_process_def ofiles_wf_def held_def fd_count_def NINODE_def
        sum_list_replicate)
  then have 2: "files_ok ?R (sc demo_kern)"
    unfolding demo_kern_def kern.simps
    by (rule files_ok_set) (auto simp: two_sched_def nth_list_update NINODE_def no_process_def)
  have 3: "sched_inv (sc demo_kern)"
    unfolding demo_kern_def kern.simps by (rule sched_inv_same [OF two_sched_inv]) (simp_all add: two_sched_def)
  have "kb_ok (kb demo_kern)" "cursor_ok (con demo_kern)"
    by (simp_all add: demo_kern_def boot_kbd_ok boot_console_def cinit_ok)
  with 1 2 3 show ?thesis by (auto simp: kernel_ok_def kst_def)
qed


end
