(* ===== verification/Desc.thy ===== *)
theory Desc
  imports Prelude
begin

text \<open>
  The descriptor tables and the number formatting of the boot code: \<open>kernel/gdt.c\<close>,
  \<open>kernel/idt.c\<close>, \<open>syscall_init\<close> of \<open>kernel/syscall.c\<close>, and the hexadecimal output of
  \<open>kernel/onion.c\<close>.  The addresses of the assembly stubs are arguments.
\<close>

section \<open>Segment descriptors\<close>

record gdt_entry =
  limit_low :: u16
  base_low :: u16
  base_middle :: u8
  access :: u8
  granularity :: u8
  base_high :: u8

record tss_entry =
  tss_reserved0 :: u32
  rsp0 :: u64
  rsp1 :: u64
  rsp2 :: u64
  tss_reserved1 :: u64
  ists :: "u64 list"
  tss_reserved2 :: u64
  tss_reserved3 :: u16
  iomap_base :: u16

definition sizeof_tss :: nat where "sizeof_tss = 104"

record gdt_state =
  gdt :: "nat \<Rightarrow> gdt_entry"
  gp_limit :: u16
  gp_base :: u64
  tss :: tss_entry

definition gate :: "nat \<Rightarrow> u32 \<Rightarrow> u32 \<Rightarrow> u8 \<Rightarrow> u8 \<Rightarrow> gdt_state \<Rightarrow> gdt_state" where
  "gate num base limit acc gran s = s\<lparr>gdt :=
    (gdt s)(num := \<lparr>limit_low = ucast (limit AND 0xFFFF), base_low = ucast (base AND 0xFFFF),
      base_middle = ucast (drop_bit 16 base AND 0xFF), access = acc,
      granularity = ucast (drop_bit 16 limit AND 0x0F) OR (gran AND 0xF0), base_high = ucast (drop_bit 24 base AND 0xFF)\<rparr>)\<rparr>"

text \<open>The eight bytes of the next slot hold the upper half of the base and a zero word.\<close>

definition upper_half :: "u32 \<Rightarrow> gdt_entry" where
  "upper_half w = \<lparr>limit_low = ucast w, base_low = ucast (drop_bit 16 w), base_middle = 0, access = 0,
    granularity = 0, base_high = 0\<rparr>"

definition tss_gate :: "nat \<Rightarrow> u64 \<Rightarrow> u32 \<Rightarrow> gdt_state \<Rightarrow> gdt_state" where
  "tss_gate num base limit s = s\<lparr>gdt :=
    (gdt s)(num := \<lparr>limit_low = ucast (limit AND 0xFFFF), base_low = ucast (base AND 0xFFFF),
      base_middle = ucast (drop_bit 16 base AND 0xFF), access = 0x89,
      granularity = ucast (drop_bit 16 limit AND 0x0F), base_high = ucast (drop_bit 24 base AND 0xFF)\<rparr>,
      num + 1 := upper_half (ucast (drop_bit 32 base)))\<rparr>"

text \<open>
  \<open>init\<close> of \<open>gdt.c\<close>, with the addresses of the table and of the task state segment; loading
  the two registers at its end is outside the model.
\<close>

definition clear_tss :: tss_entry where
  "clear_tss = \<lparr>tss_reserved0 = 0, rsp0 = 0, rsp1 = 0, rsp2 = 0, tss_reserved1 = 0, ists = replicate 7 0,
    tss_reserved2 = 0, tss_reserved3 = 0, iomap_base = 0\<rparr>"

definition gdt_init :: "u64 \<Rightarrow> u64 \<Rightarrow> gdt_state \<Rightarrow> gdt_state" where
  "gdt_init gdt_addr tss_addr s =
    (let s = s\<lparr>gp_limit := 8 * 7 - 1, gp_base := gdt_addr\<rparr>;
         s = gate 4 0 0 0xF2 0x00 (gate 3 0 0 0xFA 0x20 (gate 2 0 0 0x92 0x00 (gate 1 0 0 0x9A 0x20 (gate 0 0 0 0 0 s))));
         s = s\<lparr>tss := clear_tss\<lparr>rsp0 := 0x90000, iomap_base := of_nat sizeof_tss\<rparr>\<rparr>
     in tss_gate 5 tss_addr (of_nat sizeof_tss - 1) s)"

section \<open>Interrupt descriptors\<close>

record idt_entry =
  i_base_low :: u16
  i_sel :: u16
  i_ist :: u8
  i_flags :: u8
  i_base_mid :: u16
  i_base_high :: u32
  i_reserved :: u32

record idt_state =
  idt :: "nat \<Rightarrow> idt_entry"
  ip_limit :: u16
  ip_base :: u64

definition iset :: "nat \<Rightarrow> u64 \<Rightarrow> u16 \<Rightarrow> u8 \<Rightarrow> idt_state \<Rightarrow> idt_state" where
  "iset num base sel flags t = t\<lparr>idt :=
    (idt t)(num := \<lparr>i_base_low = ucast (base AND 0xFFFF), i_sel = sel, i_ist = 0, i_flags = flags,
      i_base_mid = ucast (drop_bit 16 base AND 0xFFFF), i_base_high = ucast (drop_bit 32 base AND 0xFFFFFFFF),
      i_reserved = 0\<rparr>)\<rparr>"

text \<open>\<open>isr0\<close> to \<open>isr31\<close>, \<open>timer_handler_asm\<close> and \<open>irq1\<close> to \<open>irq15\<close> are \<open>stubs 0\<close> to \<open>stubs 47\<close>.\<close>

definition iinit :: "u64 \<Rightarrow> (nat \<Rightarrow> u64) \<Rightarrow> idt_state \<Rightarrow> idt_state" where
  "iinit idt_addr stubs t =
    fold (\<lambda>n. iset n (stubs n) 0x08 0x8E) [0..<48] (t\<lparr>ip_limit := 16 * 256 - 1, ip_base := idt_addr\<rparr>)"

definition syscall_init :: "u64 \<Rightarrow> idt_state \<Rightarrow> idt_state" where
  "syscall_init stub t = iset 0x80 stub 0x08 0xEE t"

text \<open>What the processor reads from an entry.\<close>

definition gate_target :: "idt_entry \<Rightarrow> u64" where
  "gate_target e = ucast (i_base_low e) OR push_bit 16 (ucast (i_base_mid e)) OR push_bit 32 (ucast (i_base_high e))"

definition gate_present :: "idt_entry \<Rightarrow> bool" where "gate_present e \<longleftrightarrow> bit (i_flags e) 7"
definition gate_dpl :: "idt_entry \<Rightarrow> u8" where "gate_dpl e = drop_bit 5 (i_flags e) AND 3"

definition segment_base :: "gdt_entry \<Rightarrow> gdt_entry \<Rightarrow> u64" where
  "segment_base e up = ucast (base_low e) OR push_bit 16 (ucast (base_middle e)) OR push_bit 24 (ucast (base_high e))
    OR push_bit 32 (ucast (limit_low up)) OR push_bit 48 (ucast (base_low up))"

section \<open>Hexadecimal numbers\<close>

definition hex_digit :: "u64 \<Rightarrow> char" where
  "hex_digit n = ''0123456789ABCDEF'' ! unat n"

definition serwrite_hex64 :: "u64 \<Rightarrow> string" where
  "serwrite_hex64 value = ''0x'' @ map (\<lambda>i. hex_digit (drop_bit (60 - i * 4) value AND 0xF)) [0..<16]"

definition serwrite_hex32 :: "u32 \<Rightarrow> string" where
  "serwrite_hex32 value = ''0x'' @ map (\<lambda>i. hex_digit (ucast (drop_bit (28 - i * 4) value) AND 0xF)) [0..<8]"

text \<open>The lines \<open>page_fault_handler\<close> writes before it stops the machine.\<close>

definition page_fault_report :: "u64 \<Rightarrow> u64 \<Rightarrow> string" where
  "page_fault_report faulting_address error_code =
    char_of (10 :: nat) # ''[EXCEPTION] PAGE FAULT (#PF): 0x'' @
    map (\<lambda>shift. let nibble = unat (drop_bit shift faulting_address AND 0xF) in
      (if nibble < 10 then char_of (48 + nibble) else char_of (65 + nibble - 10))) (rev (map ((*) 4) [0..<16])) @
    [char_of (10 :: nat)] @
    (if error_code AND 1 \<noteq> 0 then ''Reason: Page-level protection violation'' else ''Reason: Page not present'') @
    [char_of (10 :: nat)] @
    (if error_code AND 2 \<noteq> 0 then ''Operation: Write'' else ''Operation: Read'') @ [char_of (10 :: nat)] @
    (if error_code AND 4 \<noteq> 0 then ''Mode: Ring 3'' else ''Mode: Ring 0'') @ [char_of (10 :: nat)]"

definition page_fault_handler :: "u64 \<Rightarrow> u64 \<Rightarrow> string \<Rightarrow> (unit, string) outcome" where
  "page_fault_handler cr2 error_code serial =
    Halt ''System halted: Page Fault!'' (serial @ page_fault_report cr2 error_code)"

section \<open>Properties\<close>

lemma bit_low_masks:
  "bit (0xFFFF :: int) n \<longleftrightarrow> n < 16" "bit (0xFFFFFFFF :: int) n \<longleftrightarrow> n < 32" "bit (0xFF :: int) n \<longleftrightarrow> n < 8"
proof -
  have "(0xFFFF :: int) = mask 16" "(0xFFFFFFFF :: int) = mask 32" "(0xFF :: int) = mask 8"
    by (simp_all add: mask_eq_exp_minus_1)
  then show "bit (0xFFFF :: int) n \<longleftrightarrow> n < 16" "bit (0xFFFFFFFF :: int) n \<longleftrightarrow> n < 32" "bit (0xFF :: int) n \<longleftrightarrow> n < 8"
    by (simp_all only: bit_mask_iff) auto
qed

lemmas bit_simps_desc = bit_or_iff bit_push_bit_iff bit_ucast_iff bit_drop_bit_eq bit_and_iff bit_low_masks

lemma gate_target_iset: "gate_target (idt (iset n base sel fl t) n) = base"
proof (rule bit_word_eqI)
  fix j assume "j < LENGTH(64)"
  then consider "j < 16" | "16 \<le> j" "j < 32" | "32 \<le> j" "j < 64" by fastforce
  then show "bit (gate_target (idt (iset n base sel fl t) n)) j = bit base j"
    by cases (auto simp: gate_target_def iset_def bit_simps_desc)
qed

lemma iinit_apply:
  "idt (iinit a stubs t) n = (if n < 48 then idt (iset n (stubs n) 0x08 0x8E t) n else idt t n)"
  "ip_limit (iinit a stubs t) = 0xFFF" "ip_base (iinit a stubs t) = a"
proof -
  let ?f = "\<lambda>m. fold (\<lambda>n. iset n (stubs n) 0x08 0x8E) [0..<m] (t\<lparr>ip_limit := 16 * 256 - 1, ip_base := a\<rparr>)"
  have "idt (?f m) n = (if n < m then idt (iset n (stubs n) 0x08 0x8E t) n else idt t n)"
    and "ip_limit (?f m) = 0xFFF" and "ip_base (?f m) = a" for m
    by (induction m) (auto simp: iset_def less_Suc_eq)
  then show "idt (iinit a stubs t) n = (if n < 48 then idt (iset n (stubs n) 0x08 0x8E t) n else idt t n)"
    and "ip_limit (iinit a stubs t) = 0xFFF" and "ip_base (iinit a stubs t) = a"
    by (simp_all only: iinit_def)
qed

definition no_gate :: idt_entry where
  "no_gate = \<lparr>i_base_low = 0, i_sel = 0, i_ist = 0, i_flags = 0, i_base_mid = 0, i_base_high = 0, i_reserved = 0\<rparr>"

text \<open>C40: after boot the exceptions, the timer and the 15 hardware interrupts go to their own stubs,
  system calls to theirs, and no other vector is open; interrupt 0x80 is the only one that
  code outside ring 0 may raise with an \<open>int\<close> instruction.\<close>

theorem interrupt_table:
  "let i = syscall_init stub (iinit table stubs \<lparr>idt = (\<lambda>_. no_gate), ip_limit = 0, ip_base = 0\<rparr>); t = idt i in
    (\<forall>n < 48. gate_present (t n) \<and> gate_target (t n) = stubs n \<and> i_sel (t n) = 8) \<and>
    gate_target (t 0x80) = stub \<and>
    {n. gate_present (t n)} = {..<48} \<union> {0x80} \<and>
    {n. gate_present (t n) \<and> gate_dpl (t n) = 3} = {0x80} \<and>
    ip_base i = table \<and> ip_limit i = 256 * 16 - 1"
proof -
  let ?z = "\<lparr>idt = (\<lambda>_. no_gate), ip_limit = 0, ip_base = 0\<rparr>"
  let ?i = "iinit table stubs ?z"
  have e: "bit (0xEE :: u8) 7" "bit (0x8E :: u8) 7" "drop_bit 5 (0xEE :: u8) AND 3 = 3" "drop_bit 5 (0x8E :: u8) AND 3 \<noteq> 3"
    by (simp_all add: bit_iff_odd_drop_bit)
  have fl: "i_flags (idt (syscall_init stub ?i) n) = (if n = 0x80 then 0xEE else if n < 48 then 0x8E else 0)" for n
    by (simp add: syscall_init_def iset_def iinit_apply no_gate_def)
  have p: "gate_present (idt (syscall_init stub ?i) n) \<longleftrightarrow> n = 0x80 \<or> n < 48" for n
    by (simp add: gate_present_def fl e)
  have d: "gate_dpl (idt (syscall_init stub ?i) n) = 3 \<longleftrightarrow> n = 0x80" for n
    using e by (simp add: gate_dpl_def fl)
  have "gate_target (idt (syscall_init stub ?i) n) = stubs n \<and> i_sel (idt (syscall_init stub ?i) n) = 8" if "n < 48" for n
    using gate_target_iset [of n "stubs n" 8 "0x8E" ?z] that
    by (simp add: syscall_init_def iinit_apply iset_def)
  moreover have "gate_target (idt (syscall_init stub ?i) 0x80) = stub"
    by (simp add: syscall_init_def gate_target_iset)
  moreover have "ip_base (syscall_init stub ?i) = table" "ip_limit (syscall_init stub ?i) = 256 * 16 - 1"
    by (simp_all add: syscall_init_def iset_def iinit_apply)
  ultimately show ?thesis unfolding Let_def using p d by auto
qed

theorem interrupt_table_witness:
  "gate_target (idt (syscall_init 0x5000 (iinit 0x1000 (\<lambda>n. 0x2000 + of_nat n)
    \<lparr>idt = (\<lambda>_. no_gate), ip_limit = 0, ip_base = 0\<rparr>)) 14) = 0x200E"
  using interrupt_table [of "0x5000" "0x1000" "\<lambda>n. 0x2000 + of_nat n"] by (simp add: Let_def)

text \<open>the descriptor pair \<open>tss_gate\<close> writes holds the full 64-bit base of the segment.\<close>

theorem tss_descriptor_base:
  "let g = gdt (gdt_init table tss_addr s) in
    segment_base (g 5) (g 6) = tss_addr \<and> access (g 5) = 0x89 \<and> limit_low (g 5) = of_nat (sizeof_tss - 1)"
proof -
  let ?g = "gdt (gdt_init table tss_addr s)"
  have "segment_base (?g 5) (?g 6) = tss_addr"
  proof (rule bit_word_eqI)
    fix j assume "j < LENGTH(64)"
    then consider "j < 16" | "16 \<le> j" "j < 24" | "24 \<le> j" "j < 32" | "32 \<le> j" "j < 48" | "48 \<le> j" "j < 64"
      by fastforce
    then show "bit (segment_base (?g 5) (?g 6)) j = bit tss_addr j"
      by cases (auto simp: segment_base_def gdt_init_def tss_gate_def upper_half_def bit_simps_desc Let_def)
  qed
  then show ?thesis by (simp add: gdt_init_def tss_gate_def Let_def sizeof_tss_def)
qed

text \<open>The number a string of hexadecimal digits denotes.\<close>

definition digit_value :: "char \<Rightarrow> nat" where
  "digit_value c = (if of_char c \<le> (57 :: nat) then of_char c - 48 else of_char c - 55)"

definition hex_value :: "string \<Rightarrow> nat" where
  "hex_value s = foldl (\<lambda>v c. 16 * v + digit_value c) 0 s"

lemma digit_value_hex: "n < 16 \<Longrightarrow> digit_value (''0123456789ABCDEF'' ! n) = n"
  by (simp add: numeral_eq_Suc less_Suc_eq, elim disjE) (simp_all add: digit_value_def)

lemma unat_nibble: "unat (drop_bit k (v :: u64) AND 0xF) = unat v div 2 ^ k mod 16"
proof -
  have "(0xF :: u64) = mask 4" by (simp add: mask_eq_exp_minus_1)
  then have "drop_bit k v AND 0xF = take_bit 4 (drop_bit k v)" by (simp only: take_bit_eq_mask)
  then have "unat (drop_bit k v AND 0xF) = take_bit 4 (drop_bit k (unat v))"
  proof -
    have "take_bit 64 (unat v) = unat v" using unsigned_less [of v] by (intro take_bit_nat_eq_self) simp
    then have "unat (drop_bit k v) = drop_bit k (unat v)" by (simp only: unsigned_drop_bit_eq) simp
    then show ?thesis using \<open>drop_bit k v AND 0xF = take_bit 4 (drop_bit k v)\<close> by (simp only: unsigned_take_bit_eq)
  qed
  then show ?thesis by (simp only: take_bit_eq_mod drop_bit_eq_div) simp
qed

lemma hex_value_digits:
  assumes "4 * n \<le> m"
  shows "hex_value (map (\<lambda>i. hex_digit (drop_bit (m - 4 - i * 4) v AND 0xF)) [0..<n]) = unat v div 2 ^ (m - 4 * n) mod 2 ^ (4 * n)"
  using assms
proof (induction n)
  case (Suc n)
  let ?q = "2 ^ (m - 4 - n * 4) :: nat"
  have d: "digit_value (hex_digit (drop_bit (m - 4 - n * 4) v AND 0xF)) = unat v div ?q mod 16"
    unfolding hex_digit_def unat_nibble by (rule digit_value_hex) simp
  have e: "2 ^ (m - 4 * n) = ?q * 16"
  proof -
    have "m - 4 * n = (m - 4 - n * 4) + 4" using Suc.prems by simp
    then show ?thesis by (simp only: power_add) simp
  qed
  have "hex_value (map (\<lambda>i. hex_digit (drop_bit (m - 4 - i * 4) v AND 0xF)) [0..<Suc n]) =
      16 * (unat v div (?q * 16) mod 2 ^ (4 * n)) + unat v div ?q mod 16"
    using Suc d e by (simp add: hex_value_def)
  also have "\<dots> = unat v div ?q mod (16 * 2 ^ (4 * n))"
    by (simp add: div_mult2_eq mod_mult2_eq)
  finally show ?case by (simp add: algebra_simps power_add numeral_eq_Suc)
qed (simp add: hex_value_def)

text \<open>the hexadecimal output of the kernel is the number written, in 16 digits or 8 after the prefix.\<close>

theorem hex_output_value:
  "hex_value (drop 2 (serwrite_hex64 v)) = unat v \<and> length (serwrite_hex64 v) = 18 \<and>
    hex_value (drop 2 (serwrite_hex32 w)) = unat w \<and> length (serwrite_hex32 w) = 10"
proof -
  have "unat v < 2 ^ 64" "unat w < 2 ^ 32" using unsigned_less [of v] unsigned_less [of w] by simp_all
  moreover have "ucast (drop_bit k w) AND 0xF = drop_bit k (ucast w :: u64) AND 0xF" for k
    by (rule bit_word_eqI) (auto simp: bit_simps dest: bit_imp_le_length)
  ultimately show ?thesis
    using hex_value_digits [of 16 64 v] hex_value_digits [of 8 32 "ucast w"]
    by (simp add: serwrite_hex64_def serwrite_hex32_def unsigned_ucast_eq take_bit_nat_eq_self)
qed

end
