(* ===== verification/Boot.thy ===== *)
theory Boot
  imports KernelInv VmmBoot Desc
begin

text \<open>
  Starting the machine: \<open>kernel\<close> of \<open>kernel/onion.c\<close> with the code it calls to find the
  graphics adapter (\<open>kernel/pci.c\<close>, \<open>kernel/IGPU/gpupci.c\<close>, \<open>kernel/vbe.c\<close>) and to set
  up the interrupt controllers (\<open>kernel/pic.c\<close>) and the timer.  The configuration space of the
  PCI bus is an argument, writes to ports are a log.  What \<open>ahci_init\<close> finds, the link-time
  addresses and the picture of \<open>kernel/logo.h\<close> are arguments as well; control register 0 and
  the serial port are outside the model.
\<close>

section \<open>The machine\<close>

text \<open>What the data port of the bus reads once an address is written to the address port.\<close>

type_synonym pci_space = "u32 \<Rightarrow> u32"

record boot_args =
  img :: static_addrs
  kernel_end :: u64
  pml4_table :: u64
  pdp_table :: u64
  pd_tables :: "nat \<Rightarrow> u64"
  idt_addr :: u64
  stubs :: "nat \<Rightarrow> u64"
  syscall_stub :: u64
  pci :: pci_space
  ahci_disks :: int
  ahci_device :: bool
  image_width :: nat
  image_height :: nat
  image_data :: "nat \<Rightarrow> u32"

record machine =
  krn :: kern
  idts :: idt_state
  gpu_mmio_base :: u64
  ports :: "(u16 \<times> u32) list"

definition upd_krn :: "(kern \<Rightarrow> kern) \<Rightarrow> machine \<Rightarrow> machine" where
  "upd_krn f k = k\<lparr>krn := f (krn k)\<rparr>"

definition on_vm :: "(vm_state \<Rightarrow> vm_state) \<Rightarrow> machine \<Rightarrow> machine" where
  "on_vm f = upd_krn (\<lambda>k. k\<lparr>sc := (sc k)\<lparr>vm := f (vm (sc k))\<rparr>\<rparr>)"

definition on_kfs :: "(fs \<Rightarrow> ('a, fs) outcome) \<Rightarrow> machine \<Rightarrow> ('a, machine) outcome" where
  "on_kfs f k = (case on_fs f (krn k) of Ret x s \<Rightarrow> Ret x (k\<lparr>krn := s\<rparr>) | Halt e s \<Rightarrow> Halt e (k\<lparr>krn := s\<rparr>))"

definition outp :: "u16 \<Rightarrow> u32 \<Rightarrow> machine \<Rightarrow> machine" where
  "outp port v k = k\<lparr>ports := ports k @ [(port, v)]\<rparr>"

definition bytes_of :: "string \<Rightarrow> u8 list" where "bytes_of s = map of_char s"

text \<open>\<open>kprint\<close> of bytes, and of a line of text.\<close>

definition say :: "boot_args \<Rightarrow> u8 list \<Rightarrow> u32 \<Rightarrow> machine \<Rightarrow> machine" where
  "say a s color = upd_krn (\<lambda>k. k\<lparr>con := kprint (glyphs (img a)) s color (con k)\<rparr>)"

definition say_line :: "boot_args \<Rightarrow> string \<Rightarrow> u32 \<Rightarrow> machine \<Rightarrow> machine" where
  "say_line a s = say a (bytes_of s @ [10])"

text \<open>
  Before \<open>vbemode\<close> has found the framebuffer its address is 0, so \<open>kprint\<close> draws into physical
  memory from address 0 on.
\<close>

definition mem_pixels :: "mem \<Rightarrow> framebuffer" where
  "mem_pixels m = (\<lambda>j. ucast (le_val (rd_bytes m (4 * word_of_int j) 4)))"

definition pixels_mem :: "framebuffer \<Rightarrow> mem" where
  "pixels_mem f = (\<lambda>a. ucast (drop_bit (8 * (unat a mod 4)) (f (int (unat a div 4)))))"

definition say_line_early :: "boot_args \<Rightarrow> string \<Rightarrow> u32 \<Rightarrow> machine \<Rightarrow> machine" where
  "say_line_early a s color k =
    (let c = con (krn k);
         c = kprint (glyphs (img a)) (bytes_of s @ [10]) color (c\<lparr>fb := mem_pixels (pmem (vm (sc (krn k))))\<rparr>);
         k = upd_krn (\<lambda>q. q\<lparr>con := c\<lparr>fb := fb (con q)\<rparr>\<rparr>) k
     in on_vm (\<lambda>v. v\<lparr>pmem := pixels_mem (fb c)\<rparr>) k)"

section \<open>The graphics adapter\<close>

definition pci_address :: "u8 \<Rightarrow> u8 \<Rightarrow> u8 \<Rightarrow> u8 \<Rightarrow> u32" where
  "pci_address bus slot func offset = push_bit 31 1 OR push_bit 16 (ucast bus) OR push_bit 11 (ucast slot) OR
     push_bit 8 (ucast func) OR (ucast offset AND 0xFC)"

definition pciread :: "pci_space \<Rightarrow> u8 \<Rightarrow> u8 \<Rightarrow> u8 \<Rightarrow> u8 \<Rightarrow> u32" where
  "pciread p bus slot func offset = p (pci_address bus slot func offset)"

definition pcibar0 :: "pci_space \<Rightarrow> u32" where
  "pcibar0 p =
    (case find (\<lambda>slot. pciread p 0 (of_nat slot) 0 0 AND 0xFFFF \<noteq> 0xFFFF \<and>
        drop_bit 24 (pciread p 0 (of_nat slot) 0 8) AND 0xFF = 3) [0..<32] of
       None \<Rightarrow> 0
     | Some slot \<Rightarrow> pciread p 0 (of_nat slot) 0 0x10 AND 0xFFFFFFF0)"

definition vbewrite :: "u16 \<Rightarrow> u16 \<Rightarrow> machine \<Rightarrow> machine" where
  "vbewrite index v k = outp 0x1CF (ucast v) (outp 0x1CE (ucast index) k)"

definition vbemode :: "pci_space \<Rightarrow> u16 \<Rightarrow> u16 \<Rightarrow> u16 \<Rightarrow> machine \<Rightarrow> machine" where
  "vbemode p width height bpp k =
    (let k = vbewrite 4 0 k; k = vbewrite 1 width k; k = vbewrite 2 height k; k = vbewrite 3 bpp k;
         k = vbewrite 4 (0x01 OR 0x40) k
     in upd_krn (\<lambda>q. q\<lparr>fb_addr := pcibar0 p\<rparr>) k)"

definition kprint_hex64 :: "boot_args \<Rightarrow> u64 \<Rightarrow> u32 \<Rightarrow> machine \<Rightarrow> machine" where
  "kprint_hex64 a v color =
    say a (bytes_of (''0x'' @ map (\<lambda>i. hex_digit (drop_bit (4 * (15 - i)) v AND 0xF)) [0..<16])) color"

text \<open>The functions of the bus in the order of the three loops.\<close>

definition pci_functions :: "(u8 \<times> u8 \<times> u8) list" where
  "pci_functions = concat (map (\<lambda>bus. concat (map (\<lambda>dev. map (\<lambda>func. (of_nat bus, of_nat dev, of_nat func)) [0..<8]) [0..<32])) [0..<256])"

definition intel_display :: "pci_space \<Rightarrow> u8 \<times> u8 \<times> u8 \<Rightarrow> bool" where
  "intel_display p = (\<lambda>(bus, dev, func). ucast (pciread p bus dev func 0) = (0x8086 :: u16) \<and>
    drop_bit 24 (pciread p bus dev func 8) AND 0xFF = 3)"

definition igpu_pci_init :: "boot_args \<Rightarrow> machine \<Rightarrow> int \<times> machine" where
  "igpu_pci_init a k =
    (case find (intel_display (pci a)) pci_functions of
       None \<Rightarrow> (0, say_line a ''[GPU] Intel iGPU not found'' 0xFF0000 (k\<lparr>gpu_mmio_base := 0\<rparr>))
     | Some (bus, dev, func) \<Rightarrow>
         let bar0 = pciread (pci a) bus dev func 0x10;
             phys_addr = (ucast bar0 :: u64) AND NOT 0xF;
             phys_addr = (if bar0 AND 6 = 4
               then phys_addr OR push_bit 32 (ucast (pciread (pci a) bus dev func 0x14)) else phys_addr);
             k = k\<lparr>gpu_mmio_base := phys_addr\<rparr>;
             k = say a (bytes_of ''[GPU] Intel iGPU BAR0 MMIO: '') 0xFFFFFF k
         in (1, say a [10] 0xFFFFFF (kprint_hex64 a phys_addr 0x00FF00 k)))"

section \<open>Interrupt controllers and timer\<close>

definition out_wait :: "u16 \<Rightarrow> u32 \<Rightarrow> machine \<Rightarrow> machine" where
  "out_wait port v k = outp 0x80 0 (outp port v k)"

definition picremap :: "machine \<Rightarrow> machine" where
  "picremap = fold (\<lambda>(port, v). out_wait port v)
    [(0x20, 0x11), (0xA0, 0x11), (0x21, 0x20), (0xA1, 0x28), (0x21, 4), (0xA1, 2), (0x21, 1), (0xA1, 1)]"

definition init_timer :: "u32 \<Rightarrow> machine \<Rightarrow> machine" where
  "init_timer freq k =
    (if freq = 0 then k
     else let divisor = 1193180 div freq in
       outp 0x40 (drop_bit 8 divisor AND 0xFF) (outp 0x40 (divisor AND 0xFF) (outp 0x43 0x36 k)))"

section \<open>The boot sequence\<close>

definition rd32 :: "mem \<Rightarrow> u64 \<Rightarrow> u32" where
  "rd32 m a = ucast (le_val (rd_bytes m a 4))"

text \<open>The loop over the modules: each one that is not empty is reserved.\<close>

definition reserve_modules :: "mem \<Rightarrow> u64 \<Rightarrow> u32 \<Rightarrow> bitmap \<Rightarrow> bitmap" where
  "reserve_modules m mods mods_count b =
    fold (\<lambda>i b. let start = ucast (rd32 m (mods + of_nat (16 * i))); stop = ucast (rd32 m (mods + of_nat (16 * i + 4)))
       in if stop > start then pmm_reserve_region b start stop else b) [0..<unat mods_count] b"

definition reserve_boot :: "boot_args \<Rightarrow> u64 \<Rightarrow> u64 \<Rightarrow> u32 \<Rightarrow> vm_state \<Rightarrow> vm_state" where
  "reserve_boot a mb mods mods_count v =
    (let b = pmm_init (frames v) (ucast ((kernel_end a + 4095) div 4096));
         b = pmm_reserve_region b mb (mb + 28);
         b = (if mods \<noteq> 0 \<and> mods_count > 0
           then reserve_modules (pmem v) mods mods_count (pmm_reserve_region b mods (mods + ucast mods_count * 16)) else b)
     in v\<lparr>frames := b\<rparr>)"

definition create_default_dirs :: "fs \<Rightarrow> (unit, fs) outcome" where
  "create_default_dirs = ofold (\<lambda>path s. obind (xv6fs_create (bytes_of path) T_DIR 0 0 s) (\<lambda>r s.
    case r of None \<Rightarrow> Ret () s | Some ip \<Rightarrow> iunlockput ip s)) [''/etc'', ''/bin'', ''/root'']"

definition mount_disk :: "boot_args \<Rightarrow> machine \<Rightarrow> (unit, machine) outcome" where
  "mount_disk a k =
    (if ahci_disks a \<le> 0 then Ret () (say_line a ''AHCI: No SATA disks found!'' 0x00FF0000 k)
     else let k = say_line a ''AHCI: Disk found, mounting xv6fs...'' 0 k in
       if \<not> ahci_device a then Ret () k
       else obind (on_kfs (xv6fs_full_init True) k) (\<lambda>r k.
         if r < 0 then Ret () (say_line a
           ''xv6fs: disk found, but it is not a notux/xv6fs filesystem (bad magic) -- leaving it untouched'' 0x00FF0000 k)
         else obind (on_kfs create_default_dirs k) (\<lambda>_ k.
           obind (on_kfs (xv6fs_bridge_read_file (bytes_of ''/README'') 511) k) (\<lambda>r k.
             case r of
               None \<Rightarrow> Ret () (say_line a ''xv6fs: Failed to read /README from disk'' 0x00FF0000 k)
             | Some bs \<Rightarrow> Ret () (say a [10] 0 (say a bs 0 (say_line a ''xv6fs: /README content:'' 0 k)))))))"

definition kprint_logo :: "boot_args \<Rightarrow> machine \<Rightarrow> machine" where
  "kprint_logo a k =
    (let k = (if console_get_col (con (krn k)) \<noteq> 0 then say a [10] 0 k else k);
         start_x = console_get_col (con (krn k)) * CHAR_W; start_y = console_get_row (con (krn k)) * CHAR_H;
         draw = fold (\<lambda>y. fold (\<lambda>x. putpixel (start_x + int x) (start_y + int y) (image_data a (y * image_width a + x)))
           [0..<image_width a]) [0..<image_height a];
         row = console_get_row (con (krn k))
     in upd_krn (\<lambda>q. q\<lparr>con := console_set_pos 0 (row + 3) ((con q)\<lparr>fb := draw (fb (con q))\<rparr>)\<rparr>) k)"

text \<open>
  The module is read once, when the loader gets it: its pages are reserved, so the frames the
  loader takes do not overlap it.
\<close>

definition enter_init :: "boot_args \<Rightarrow> nat \<Rightarrow> u64 \<Rightarrow> machine \<Rightarrow> machine" where
  "enter_init a init entry_point k =
    (let k = upd_krn (\<lambda>q. q\<lparr>sc := set_process_entry init entry_point (sc q)\<rparr>) k;
         k = say_line a ''ELF loaded'' 0 k;
         k = say_line a ''Process created'' 0 k;
         k = upd_krn (\<lambda>q. q\<lparr>sc := (sc q)\<lparr>vm := vmm_switch_pml4 (p_pml4 (processes (sc q) ! init)) (vm (sc q))\<rparr>\<rparr>) k
     in upd_krn (\<lambda>q. q\<lparr>sc := set_kernel_stack (p_kernel_stack (processes (sc q) ! init)) (sc q)\<rparr>) k)"

definition load_init :: "boot_args \<Rightarrow> nat \<Rightarrow> u64 \<Rightarrow> u64 \<Rightarrow> machine \<Rightarrow> (unit, machine) outcome" where
  "load_init a init module_start module_size k =
    (let elf = (if module_start = 0 then None
           else Some (rd_bytes (pmem (vm (sc (krn k)))) module_start (unat module_size)));
         (r, s) = load_elf_into_process (Some init) elf module_size (sc (krn k));
         k = upd_krn (\<lambda>q. q\<lparr>sc := s\<rparr>) k
     in if r < 0 then Halt ''Cannot load init ELF'' k
        else let entry_point = rd64 (pmem (vm (sc (krn k)))) (module_start + 24) in Ret () (enter_init a init entry_point k))"

definition start_init :: "boot_args \<Rightarrow> u64 \<Rightarrow> u64 \<Rightarrow> machine \<Rightarrow> (unit, machine) outcome" where
  "start_init a module_start module_size k =
    (let k = upd_krn (\<lambda>q. q\<lparr>sc := scheduler_init (sc q)\<rparr>) k;
         k = say_line a ''Scheduler initialized'' 0 k;
         (init_pid, s) = create_process (kernel_stacks (img a)) (user_stacks (img a)) 0 (sc (krn k));
         k = upd_krn (\<lambda>q. q\<lparr>sc := s\<rparr>) k
     in if init_pid < 0 then Halt ''Cannot create init process'' k
        else case get_process_by_pid (word_of_int init_pid) (sc (krn k)) of
          None \<Rightarrow> Halt ''Cannot find init process'' k
        | Some init \<Rightarrow> load_init a init module_start module_size k)"

text \<open>The lines of \<open>kernel\<close> up to the first line of text, and those after the disk.\<close>

definition boot_hardware :: "boot_args \<Rightarrow> u64 \<Rightarrow> u64 \<Rightarrow> u32 \<Rightarrow> machine \<Rightarrow> machine" where
  "boot_hardware a mb_info mods mods_count k =
    (let k = on_vm (reserve_boot a mb_info mods mods_count) k;
         k = on_vm (paging_init (pml4_table a) (pdp_table a) (pd_tables a)) k;
         k = say_line_early a ''initialized: 4GB FU'' 0 k;
         k = on_vm vmm_init k;
         k = k\<lparr>idts := iinit (idt_addr a) (stubs a) (idts k)\<rparr>;
         k = picremap k;
         k = k\<lparr>idts := syscall_init (syscall_stub a) (idts k)\<rparr>;
         k = vbemode (pci a) 800 600 32 k;
         k = upd_krn (\<lambda>q. q\<lparr>con := (con q)\<lparr>fb := vbefill 0x00FFFFFF (fb (con q))\<rparr>\<rparr>) k;
         k = upd_krn (\<lambda>q. q\<lparr>con := cinit (con q)\<rparr>) k;
         (_, k) = igpu_pci_init a k
     in say_line a ''64-bit Kernel'' 0 k)"

definition boot_module :: "boot_args \<Rightarrow> u64 \<Rightarrow> u32 \<Rightarrow> machine \<Rightarrow> (unit, machine) outcome" where
  "boot_module a mods mods_count k =
    (if mods = 0 \<or> mods_count = 0 then Halt ''No init ELF module found!'' k
     else let m = pmem (vm (sc (krn k))); module_start = ucast (rd32 m mods); module_end = ucast (rd32 m (mods + 4)) in
       if module_end \<le> module_start then Halt ''Invalid init ELF module range'' k
       else let k = say_line a ''Found binary module'' 0 k in
         obind (start_init a module_start (module_end - module_start) k) (\<lambda>_ k.
           let k = init_timer 100 k;
               k = say_line a ''Timer initialized'' 0 k;
               k = kprint_logo a k
           in Ret () (say_line a ''sti done :)'' 0 k)))"

definition kernel :: "boot_args \<Rightarrow> u64 \<Rightarrow> u64 \<Rightarrow> machine \<Rightarrow> (unit, machine) outcome" where
  "kernel a boot_magic mb_info k =
    (if boot_magic \<noteq> 0x2BADB002 then Halt ''Invalid Multiboot magic number!'' k
     else if mb_info = 0 then Halt ''Multiboot info is NULL'' k
     else
       let m = pmem (vm (sc (krn k)));
           given_mods = bit (rd32 m mb_info) 3 \<and> rd32 m (mb_info + 20) > 0;
           mods_count = (if given_mods then rd32 m (mb_info + 20) else 0);
           mods = (if given_mods then ucast (rd32 m (mb_info + 24)) else 0);
           k = boot_hardware a mb_info mods mods_count k
       in obind (mount_disk a k) (\<lambda>_ k. boot_module a mods mods_count k))"

end
