(* ===== verification/BootInv.thy ===== *)
theory BootInv
  imports Boot ElfLoad
begin

text \<open>
  What the boot sequence of \<open>kernel/onion.c\<close> establishes: from static data that is zero it
  brings the kernel into the state that every system call keeps, and it ends with the first
  program loaded, ready, and started by the first timer tick.
\<close>

section \<open>The console and the devices\<close>

lemma kprint_cursor: "cursor_ok c \<Longrightarrow> cursor_ok (kprint g bs col c)"
  by (induction g bs col c rule: kprint.induct) (simp_all add: kprint_char_bounds)

lemma scroll_down_cursor:
  assumes "0 \<le> cursor_x c" "cursor_x c < COLS" "0 \<le> cursor_y c" shows "cursor_ok (scroll_down c)"
  using assms by (induction c rule: scroll_down.induct) (auto simp: scroll_down.simps cursor_ok_def)

lemma set_pos_cursor: "0 \<le> x \<Longrightarrow> x < COLS \<Longrightarrow> 0 \<le> y \<Longrightarrow> cursor_ok (console_set_pos x y c)"
  unfolding console_set_pos_def by (rule scroll_down_cursor) simp_all

text \<open>Steps of the boot sequence that touch neither the file system, nor the processes, nor the keyboard.\<close>

definition draws_only :: "machine \<Rightarrow> machine \<Rightarrow> bool" where
  "draws_only k k' \<longleftrightarrow> sc (krn k') = sc (krn k) \<and> fsys (krn k') = fsys (krn k) \<and> kb (krn k') = kb (krn k) \<and>
    (cursor_ok (con (krn k)) \<longrightarrow> cursor_ok (con (krn k')))"

lemma draws_only_refl: "draws_only k k" by (simp add: draws_only_def)

lemma draws_only_trans: "draws_only k l \<Longrightarrow> draws_only l m \<Longrightarrow> draws_only k m" by (simp add: draws_only_def)

lemma draws_say: "draws_only k (say a s c k)" "draws_only k (say_line a t c k)"
  by (simp_all add: draws_only_def say_def say_line_def upd_krn_def kprint_cursor)

lemma draws_ports: "draws_only k (outp p v k)" "draws_only k (k\<lparr>idts := d\<rparr>)" "draws_only k (k\<lparr>gpu_mmio_base := b\<rparr>)"
  "draws_only k (vbemode q w h bpp k)" "draws_only k (init_timer f k)"
  by (simp_all add: draws_only_def outp_def vbemode_def vbewrite_def upd_krn_def init_timer_def Let_def)

lemma draws_picremap: "draws_only k (picremap k)"
proof -
  have "draws_only k (fold (\<lambda>(p, v). out_wait p v) ps k)" for ps
  proof (induction ps arbitrary: k)
    case (Cons x ps)
    have "draws_only k (case x of (p, v) \<Rightarrow> out_wait p v k)"
      by (cases x) (simp add: draws_only_def out_wait_def outp_def)
    from draws_only_trans [OF this Cons] show ?case by (simp add: case_prod_unfold)
  qed (simp add: draws_only_refl)
  then show ?thesis unfolding picremap_def .
qed

lemma draws_igpu: "igpu_pci_init a k = (r, k') \<Longrightarrow> draws_only k k'"
proof -
  have "draws_only k (say_line a t c (k\<lparr>gpu_mmio_base := b\<rparr>))"
    "draws_only k (say a w f (kprint_hex64 a b e (say a u d (k\<lparr>gpu_mmio_base := b\<rparr>))))" for t u w b c d e f
    by (simp_all add: draws_only_def say_def say_line_def upd_krn_def kprint_cursor kprint_hex64_def del: kprint.simps)
  then show "igpu_pci_init a k = (r, k') \<Longrightarrow> draws_only k k'"
    unfolding igpu_pci_init_def Let_def by (cases "find (intel_display (pci a)) pci_functions") (auto simp del: One_nat_def)
qed

lemma draws_logo: "draws_only k (kprint_logo a k)"
proof -
  let ?k = "if console_get_col (con (krn k)) \<noteq> 0 then say a [10] 0 k else k"
  have 1: "draws_only k ?k" by (simp add: draws_say draws_only_refl)
  have 2: "draws_only l (upd_krn (\<lambda>q. q\<lparr>con := console_set_pos 0 (console_get_row (con (krn l)) + 3) ((con q)\<lparr>fb := f q\<rparr>)\<rparr>) l)" for l f
  proof -
    have "cursor_ok (console_set_pos 0 (cursor_y c + 3) d)" if "cursor_ok c" for c d
      by (rule set_pos_cursor) (use that in \<open>simp_all add: cursor_ok_def\<close>)
    then show ?thesis by (simp add: draws_only_def upd_krn_def console_get_row_def)
  qed
  show ?thesis unfolding kprint_logo_def Let_def by (rule draws_only_trans [OF 1 2])
qed

section \<open>The file system\<close>

text \<open>The static data of the file system, as the loader of the kernel leaves it: no inode is in use.\<close>

definition no_refs :: "int list" where "no_refs = replicate NINODE 0"

definition files_zero :: "fs \<Rightarrow> bool" where
  "files_zero s \<longleftrightarrow> fs_wf s \<and> icache_lock s = False \<and> (\<forall>x \<in> set (icache s). i_ref x = 0 \<and> \<not> i_lock x) \<and>
    \<not> fake_proc_inited s"

lemma files_zero_sound: assumes "files_zero s" shows "sound nolocks no_refs s"
proof -
  have l: "length (icache s) = NINODE" using assms by (simp add: files_zero_def fs_wf_def)
  have "map i_ref (icache s) = replicate (length (icache s)) 0" "map i_lock (icache s) = replicate (length (icache s)) False"
    by (rule replicate_eqI; use assms in \<open>auto simp: files_zero_def\<close>)+
  then show ?thesis using assms l
    by (simp add: sound_def holding_def owned_def cwd_ref_def nolocks_def no_refs_def files_zero_def)
qed

lemma sound_full_init:
  assumes "sound nolocks R s"
  shows "yields (\<lambda>r t. sound nolocks R t \<and> True) (xv6fs_full_init dev s)"
proof (rule sound_yields)
  let ?t = "(devsw_init (xv6fs_bridge_init dev s))\<lparr>icache_lock := False,
    icache := map (\<lambda>x. x\<lparr>i_lock := False\<rparr>) (icache (devsw_init (xv6fs_bridge_init dev s)))\<rparr>"
  have s: "holding nolocks s" "owned R s" "fs_wf s" using assms by (simp_all add: sound_def)
  have h: "holding nolocks ?t" and o: "owned R ?t"
    using s by (simp_all add: holding_def owned_def cwd_ref_def xv6fs_bridge_init_def devsw_init_def nolocks_def
        fs_wf_def map_replicate_const comp_def)
  have other: "holding L (t\<lparr>sb := b\<rparr>) = holding L t" "holding L (t\<lparr>xv6fs_mounted := q\<rparr>) = holding L t"
    "owned S (t\<lparr>sb := b\<rparr>) = owned S t" "owned S (t\<lparr>xv6fs_mounted := q\<rparr>) = owned S t" "owned S (t\<lparr>kout := out\<rparr>) = owned S t"
    for L t b q S out by (simp_all add: holding_def owned_def cwd_ref_def)
  have "yields (\<lambda>_ t. holding nolocks t \<and> owned R t) (lift_bc m ?t)" for m :: "bcache \<Rightarrow> (nat, bcache) outcome"
    using h o by (auto simp: lift_bc_def holding_def owned_def cwd_ref_def split: outcome.split)
  then have both: "yields (\<lambda>_ t. holding nolocks t \<and> owned R t) (xv6fs_full_init dev s)"
    unfolding xv6fs_full_init_def xv6fs_iinit_def readsb_def Let_def obind_assoc
    by (rule yields_bind) (simp add: other)
  show "yields (\<lambda>_. holding nolocks) (xv6fs_full_init dev s)" using both by (rule ensures_weaken) simp
  show "yields (\<lambda>_. owned R) (xv6fs_full_init dev s)" using both by (rule ensures_weaken) simp
  show "FsInv.typed any (xv6fs_full_init dev s)" by (rule typed_full_init [OF s(3)])
qed

lemma sound_default_dirs:
  assumes "sound nolocks R s" shows "yields (\<lambda>_ t. sound nolocks R t) (create_default_dirs s)"
proof -
  have "yields (\<lambda>_ t. sound nolocks R t) (obind (xv6fs_create path T_DIR 0 0 t) (\<lambda>r t. case r of None \<Rightarrow> Ret () t | Some ip \<Rightarrow> iunlockput ip t))"
    if "sound nolocks R t" for path t
  proof (rule yields_bind [OF sound_create [OF that]])
    fix r u assume u: "sound (case r of None \<Rightarrow> nolocks | Some ip \<Rightarrow> nolocks[ip := True]) (given r R) u \<and> (\<forall>ip. r = Some ip \<longrightarrow> ip < NINODE)"
    show "yields (\<lambda>_. sound nolocks R) (case r of None \<Rightarrow> Ret () u | Some ip \<Rightarrow> iunlockput ip u)"
    proof (cases r)
      case (Some ip)
      then have "sound (nolocks[ip := True]) (plus1 ip R) u" "ip < NINODE" using u by simp_all
      from sound_iunlockput [OF this] show ?thesis by (simp add: Some)
    qed (use u in simp)
  qed
  then show ?thesis
    unfolding create_default_dirs_def
    by (intro ensures_ofold [where I = "sound nolocks R" and E = "\<lambda>_. True"] assms)
qed

lemma sound_read_file:
  assumes "sound nolocks R s" shows "yields (\<lambda>r t. sound nolocks R t \<and> True) (xv6fs_bridge_read_file path n s)"
  using assms unfolding sound_def [of nolocks R s]
  by (intro sound_yields keeps_read_file owned_read_file typed_read_file) simp_all

text \<open>What is true between the steps of \<open>kernel\<close> before the scheduler starts.\<close>

definition boot_ok :: "machine \<Rightarrow> bool" where
  "boot_ok k \<longleftrightarrow> sound nolocks no_refs (fsys (krn k)) \<and> kb_ok (kb (krn k)) \<and> cursor_ok (con (krn k))"

lemma boot_ok_draws: "boot_ok k \<Longrightarrow> draws_only k k' \<Longrightarrow> boot_ok k'"
  by (simp add: boot_ok_def draws_only_def)

lemma on_kfs_bind:
  assumes "boot_ok k" "\<And>s. sound nolocks no_refs s \<Longrightarrow> yields (\<lambda>_ t. sound nolocks no_refs t) (f s)"
    and "\<And>x k'. boot_ok k' \<Longrightarrow> sc (krn k') = sc (krn k) \<Longrightarrow> yields Q (g x k')"
  shows "yields Q (obind (on_kfs f k) g)"
proof -
  have "yields (\<lambda>_ t. sound nolocks no_refs t) (f (fsys (krn k)))" using assms(1) by (intro assms(2)) (simp add: boot_ok_def)
  then show ?thesis using assms(1,3)
    by (cases "f (fsys (krn k))") (simp_all add: on_kfs_def on_fs_def boot_ok_def)
qed

lemma mount_disk_ok:
  assumes "boot_ok k" shows "yields (\<lambda>_ k'. boot_ok k' \<and> sc (krn k') = sc (krn k)) (mount_disk a k)"
proof -
  have say: "boot_ok (say a s c l) \<and> sc (krn (say a s c l)) = sc (krn l)" "boot_ok (say_line a t c l) \<and> sc (krn (say_line a t c l)) = sc (krn l)"
    if "boot_ok l" for s t c l
    using that boot_ok_draws draws_say by (simp_all add: draws_only_def boot_ok_def)
  have init: "yields (\<lambda>_ t. sound nolocks no_refs t) (xv6fs_full_init d s)" "yields (\<lambda>_ t. sound nolocks no_refs t) (xv6fs_bridge_read_file f n s)"
    if "sound nolocks no_refs s" for d f n s
    using sound_full_init [OF that] sound_read_file [OF that] by simp_all
  show ?thesis
    unfolding mount_disk_def Let_def
    by (rule yields_if on_kfs_bind init sound_default_dirs yields_option | simp add: say assms; fail | (drule say, assumption))+
qed

section \<open>The first process\<close>

text \<open>The static data of the kernel before its first instruction.\<close>

definition powered_on :: "machine \<Rightarrow> bool" where
  "powered_on k \<longleftrightarrow> files_zero (fsys (krn k)) \<and> kb_ok (kb (krn k)) \<and> bitmap_ok (frames (vm (sc (krn k)))) \<and>
    cursor_x (con (krn k)) = 0 \<and> cursor_y (con (krn k)) = 0 \<and>
    length (processes (sc (krn k))) = MAX_PROCESSES \<and> (\<forall>p \<in> set (processes (sc (krn k))). length (p_ofiles p) = 16)"

definition table_shape :: "sched \<Rightarrow> bool" where
  "table_shape s \<longleftrightarrow> length (processes s) = MAX_PROCESSES \<and> (\<forall>p \<in> set (processes s). length (p_ofiles p) = 16)"

lemma table_shape_vm [simp]: "table_shape (s\<lparr>vm := v\<rparr>) = table_shape s"
  by (simp add: table_shape_def)

lemma scheduler_init_files:
  assumes "table_shape s" shows "files_ok no_refs (scheduler_init s)"
proof -
  let ?s = "scheduler_init s"
  have l: "length (processes s) = MAX_PROCESSES" using assms by (simp add: table_shape_def)
  let ?f = "\<lambda>p. p\<lparr>p_pid := 0, p_ppid := 0, p_exit_code := 0, p_esp := 0, p_kernel_stack := 0, p_state := TERMINATED,
      p_pml4 := 0, p_heap_start := 0, p_heap_end := 0, p_ofiles := clear_ofiles (p_ofiles p)\<rparr>"
  note f = fold_upd_proc [OF l order_refl, of ?f]
  have files: "p_ofiles p = clear_ofiles (p_ofiles q) \<and> q \<in> set (processes s)"
    if "p = processes ?s ! i" "i < MAX_PROCESSES" "q = processes s ! i" for p q i
    using that f l unfolding scheduler_init_def proc_def by simp
  have all: "ofiles_wf (p_ofiles p) \<and> (\<forall>x \<in> set (p_ofiles p). of_ip x = None)" if p: "p \<in> set (processes ?s)" for p
  proof -
    obtain i where i: "p = processes ?s ! i" "i < MAX_PROCESSES"
      using p scheduler_init_facts(1) [OF l] unfolding in_set_conv_nth table_ok_def by auto
    from files [OF i refl] obtain q where q: "p_ofiles p = clear_ofiles (p_ofiles q)" "q \<in> set (processes s)" by blast
    then have "length (p_ofiles q) = 16" using assms by (simp add: table_shape_def)
    from clear_ofiles_none [OF this] show ?thesis by (simp add: q(1) ofiles_wf_def)
  qed
  moreover have "held ?s ip = 0" for ip
  proof -
    have "fd_count p ip = 0" if "p \<in> set (processes ?s)" for p
      using all [OF that] by (simp add: fd_count_def count_none)
    moreover have "(\<And>p. p \<in> set ps \<Longrightarrow> fd_count p ip = 0) \<Longrightarrow> (\<Sum>p\<leftarrow>ps. fd_count p ip) = 0" for ps
      by (induction ps) auto
    ultimately show ?thesis by (simp add: held_def)
  qed
  ultimately show ?thesis by (simp add: files_ok_def no_refs_def)
qed

lemma scheduler_started:
  assumes "boot_ok k" "table_shape (sc (krn k))"
  shows "ok_at 1 ((krn k)\<lparr>sc := scheduler_init (sc (krn k))\<rparr>)"
proof -
  have l: "length (processes (sc (krn k))) = MAX_PROCESSES" using assms(2) by (simp add: table_shape_def)
  have "kst nolocks no_refs no_refs ((krn k)\<lparr>sc := scheduler_init (sc (krn k))\<rparr>)"
    using assms scheduler_init_files scheduler_init_inv [OF l] by (simp add: kst_def boot_ok_def)
  then show ?thesis using scheduler_init_facts(3) [OF l] by (auto simp: ok_at_def kernel_ok_def)
qed

lemma kernel_ok_con: "kernel_ok q \<Longrightarrow> cursor_ok c \<Longrightarrow> kernel_ok (q\<lparr>con := c\<rparr>)"
  by (auto simp: kernel_ok_def kst_def)

lemma kernel_ok_draws: "kernel_ok (krn k) \<Longrightarrow> draws_only k k' \<Longrightarrow> kernel_ok (krn k')"
  by (auto simp: kernel_ok_def kst_def draws_only_def)

lemma kernel_ok_sc: "kernel_ok (q\<lparr>sc := s\<rparr>) \<Longrightarrow> kernel_ok (q\<lparr>sc := s\<lparr>vm := v\<rparr>\<rparr>)" "kernel_ok (q\<lparr>sc := s\<rparr>) \<Longrightarrow> kernel_ok (q\<lparr>sc := s\<lparr>tss_rsp0 := t\<rparr>\<rparr>)"
  by (auto simp: kernel_ok_def kst_def vm_only_inv sched_inv_def one_running_def pids_ok_def proc_def table_ok_def live_def)

lemma enter_init_ok:
  assumes "kernel_ok (krn k)" shows "kernel_ok (krn (enter_init a i e k))"
proof -
  let ?k3 = "say_line a ''Process created'' 0 (say_line a ''ELF loaded'' 0 (upd_krn (\<lambda>q. q\<lparr>sc := set_process_entry i e (sc q)\<rparr>) k))"
  obtain w where w: "set_process_entry i e (sc (krn k)) = (sc (krn k))\<lparr>vm := w\<rparr>" using entry_vm(1) by blast
  have "kernel_ok (krn (upd_krn (\<lambda>q. q\<lparr>sc := set_process_entry i e (sc q)\<rparr>) k))" using assms by (simp add: upd_krn_def w)
  then have "kernel_ok (krn ?k3)" by (rule kernel_ok_draws) (rule draws_only_trans [OF draws_say(2) draws_say(2)])
  then have "kernel_ok ((krn ?k3)\<lparr>sc := sc (krn ?k3)\<rparr>)" by simp
  from kernel_ok_sc(2) [OF kernel_ok_sc(1) [OF this]] show ?thesis
    by (simp add: enter_init_def upd_krn_def set_kernel_stack_def Let_def)
qed

lemma load_init_ok:
  assumes "kernel_ok (krn k)" shows "yields (\<lambda>_ k'. kernel_ok (krn k')) (load_init a i st n k)"
proof -
  let ?f = "if st = 0 then None else Some (rd_bytes (pmem (vm (sc (krn k)))) st (unat n))"
  obtain r t where t: "load_elf_into_process (Some i) ?f n (sc (krn k)) = (r, t)" by force
  obtain v where "t = (sc (krn k))\<lparr>vm := v\<rparr>" using load_elf_vm [of "Some i" ?f n "sc (krn k)"] unfolding t by auto
  then have "kernel_ok (krn (upd_krn (\<lambda>q. q\<lparr>sc := t\<rparr>) k))" using assms by (simp add: upd_krn_def)
  then show ?thesis unfolding load_init_def Let_def t by (simp add: enter_init_ok)
qed

lemma start_init_ok:
  assumes "boot_ok k" "table_shape (sc (krn k))"
  shows "yields (\<lambda>_ k'. kernel_ok (krn k')) (start_init a st n k)"
proof -
  let ?k1 = "upd_krn (\<lambda>q. q\<lparr>sc := scheduler_init (sc q)\<rparr>) k"
  let ?k2 = "say_line a ''Scheduler initialized'' 0 ?k1"
  have "ok_at 1 (krn ?k1)" using scheduler_started [OF assms] by (simp add: upd_krn_def)
  moreover have "draws_only ?k1 ?k2" by (rule draws_say)
  ultimately have k2: "ok_at 1 (krn ?k2)" using kernel_ok_draws by (auto simp: ok_at_def draws_only_def)
  obtain pid t where c: "create_process (kernel_stacks (img a)) (user_stacks (img a)) 0 (sc (krn ?k2)) = (pid, t)" by force
  have "kernel_ok ((krn ?k2)\<lparr>sc := t\<rparr>)" using ok_at_created [OF k2 _ c] by (auto simp: ok_at_def)
  then have "kernel_ok (krn (upd_krn (\<lambda>q. q\<lparr>sc := t\<rparr>) ?k2))" by (simp add: upd_krn_def)
  then show ?thesis unfolding start_init_def Let_def c by (simp add: load_init_ok split: option.split)
qed

lemma boot_module_ok:
  assumes "boot_ok k" "table_shape (sc (krn k))"
  shows "yields (\<lambda>_ k'. kernel_ok (krn k')) (boot_module a mods n k)"
proof -
  let ?k = "say_line a ''Found binary module'' 0 k"
  have d: "draws_only k ?k" by (rule draws_say)
  have k: "boot_ok ?k" "table_shape (sc (krn ?k))" using boot_ok_draws [OF assms(1) d] assms(2) d by (simp_all add: draws_only_def)
  have "kernel_ok (krn (say_line a t3 c3 (kprint_logo a (say_line a t2 c2 (init_timer 100 l)))))" if "kernel_ok (krn l)" for l t2 c2 t3 c3
    using that draws_only_trans [OF draws_ports(5) draws_only_trans [OF draws_say(2) draws_only_trans [OF draws_logo draws_say(2)]]]
    by (rule kernel_ok_draws)
  then show ?thesis unfolding boot_module_def Let_def
    by (intro yields_if yields_Halt yields_bind [OF start_init_ok [OF k]] yields_Ret)
qed

section \<open>The whole sequence\<close>

lemma boot_hardware_ok:
  assumes "powered_on k" shows "boot_ok (boot_hardware a mb mods n k) \<and> table_shape (sc (krn (boot_hardware a mb mods n k)))"
proof -
  let ?early = "\<lambda>l. fsys (krn l) = fsys (krn k) \<and> kb (krn l) = kb (krn k) \<and> table_shape (sc (krn l))"
  let ?vid = "\<lambda>l. upd_krn (\<lambda>q. q\<lparr>con := cinit (con q)\<rparr>) (upd_krn (\<lambda>q. q\<lparr>con := (con q)\<lparr>fb := vbefill 0x00FFFFFF (fb (con q))\<rparr>\<rparr>) l)"
  have k: "?early k" using assms by (simp add: powered_on_def table_shape_def)
  have early: "?early l \<Longrightarrow> ?early (on_vm f l)" "?early l \<Longrightarrow> ?early (say_line_early a t c l)" "?early l \<Longrightarrow> ?early (l\<lparr>idts := d\<rparr>)"
    "?early l \<Longrightarrow> ?early (picremap l)" "?early l \<Longrightarrow> ?early (vbemode p w h b l)" for l f t c d p w h b
    using draws_picremap [of l] draws_ports(4) [of l p w h b]
    by (simp_all add: on_vm_def upd_krn_def say_line_early_def Let_def draws_only_def)
  have vid: "boot_ok (?vid l) \<and> table_shape (sc (krn (?vid l)))" if "?early l" for l
    using that assms files_zero_sound by (simp add: upd_krn_def boot_ok_def powered_on_def cinit_ok)
  have last: "boot_ok (say_line a t c l') \<and> table_shape (sc (krn (say_line a t c l')))"
    if "boot_ok l \<and> table_shape (sc (krn l))" "igpu_pci_init a l = (r, l')" for l l' r t c
  proof -
    have "draws_only l (say_line a t c l')" by (rule draws_only_trans [OF draws_igpu [OF that(2)] draws_say(2)])
    then show ?thesis using that(1) boot_ok_draws by (auto simp: draws_only_def)
  qed
  show ?thesis
    unfolding boot_hardware_def Let_def
    by (split prod.split, intro allI impI, erule last [rotated]) (intro vid early k)
qed

lemma kernel_boots_ok:
  assumes "powered_on k" shows "yields (\<lambda>_ k'. kernel_ok (krn k')) (kernel a boot_magic mb k)"
proof -
  have "yields (\<lambda>_ k'. kernel_ok (krn k')) (obind (mount_disk a (boot_hardware a mb mods n k)) (\<lambda>_ k. boot_module a mods n k))" for mods n
  proof (rule yields_bind [OF mount_disk_ok])
    show "boot_ok (boot_hardware a mb mods n k)" using boot_hardware_ok [OF assms] by blast
    fix l :: machine assume "boot_ok l \<and> sc (krn l) = sc (krn (boot_hardware a mb mods n k))"
    then show "yields (\<lambda>_ k'. kernel_ok (krn k')) (boot_module a mods n l)"
      using boot_hardware_ok [OF assms] by (intro boot_module_ok) simp_all
  qed
  then show ?thesis unfolding kernel_def Let_def by (intro yields_if yields_Halt)
qed

end
