(* ===== verification/BootInit.thy ===== *)
theory BootInit
  imports BootInv
begin

text \<open>
  Booting to the first program: the memory layout under which \<open>kernel\<close> of
  \<open>kernel/onion.c\<close> returns, and what the first timer tick then starts.
\<close>

section \<open>Text before there is a screen\<close>

lemma rd_bytes_nth: "i < n \<Longrightarrow> rd_bytes m a n ! i = m (a + of_nat i)"
  by (simp add: rd_bytes_def)

lemma mem_pixels_inverse: "pixels_mem (mem_pixels m) = m"
proof
  fix a :: u64
  let ?d = "unat a div 4" and ?r = "unat a mod 4"
  have base: "4 * word_of_int (int ?d) + of_nat ?r = a"
  proof -
    have "(of_nat (4 * ?d + ?r) :: u64) = 4 * of_nat ?d + of_nat ?r" by (simp only: of_nat_add of_nat_mult of_nat_numeral)
    moreover have "word_of_int (int ?d) = (of_nat ?d :: u64)" by simp
    moreover have "(of_nat (4 * ?d + ?r) :: u64) = a" by (simp only: mult_div_mod_eq) simp
    ultimately show ?thesis by metis
  qed
  have "bit (ucast (drop_bit (8 * ?r) (ucast (le_val (rd_bytes m (4 * word_of_int (int ?d)) 4)) :: u32)) :: u8) i = bit (m a) i" if "i < 8" for i
  proof -
    have k: "8 * ?r + i < 32" "(8 * ?r + i) div 8 = ?r" "(8 * ?r + i) mod 8 = i" using that by auto
    have r: "?r < 4" by simp
    have "rd_bytes m (4 * word_of_int (int ?d)) 4 ! ?r = m (4 * word_of_int (int ?d) + of_nat ?r)"
      by (rule rd_bytes_nth [OF r])
    then have "rd_bytes m (4 * word_of_int (int ?d)) 4 ! ?r = m a" by (simp only: base)
    moreover have "8 * ?r + i < 64" using k(1) by linarith
    moreover have "rd_bytes m z 4 ! ?r = m a \<Longrightarrow> length (rd_bytes m z 4) = 4 \<and> rd_bytes m z 4 ! ?r = m a" for z by (simp add: rd_bytes_def)
    ultimately have "bit (le_val (rd_bytes m (4 * word_of_int (int ?d)) 4)) (8 * ?r + i) = bit (m a) i"
      unfolding bit_le_val k(2,3) using r by simp
    then show ?thesis using that \<open>8 * ?r + i < 64\<close> k(1) by (simp only: bit_ucast_iff bit_drop_bit_eq comp_def) simp
  qed
  then show "pixels_mem (mem_pixels m) a = m a"
    unfolding pixels_mem_def mem_pixels_def by (intro bit_word_eqI) simp
qed

lemma pixels_mem_cong: "f (int (unat a div 4)) = mem_pixels m (int (unat a div 4)) \<Longrightarrow> pixels_mem f a = m a"
  using fun_cong [OF mem_pixels_inverse, of m a] by (simp add: pixels_mem_def)

text \<open>A line that fits on the top row changes the first 6400 pixels only.\<close>

lemma draw_rows_below:
  assumes "x \<le> 792" "(y + int n) * 800 \<le> j" "0 \<le> y"
  shows "draw_rows font index x y color n f j = f j"
  using assms(2)
proof (induction n)
  case (Suc n)
  have "draw_rows font index x y color (Suc n) f j =
      (let dx = j - ((y + int n) * 800 + x) in
       if 0 \<le> dx \<and> dx < 8 \<and> bit (font index n) (7 - nat dx) then color else draw_rows font index x y color n f j)"
    using draw_row [of 8 "font index n" x "y + int n" color "draw_rows font index x y color n f" j]
    by (simp add: draw_rows_def Let_def)
  moreover have "\<not> j - ((y + int n) * 800 + x) < 8" using Suc.prems assms(1) by (simp add: algebra_simps)
  ultimately show ?case using Suc by (simp add: Let_def algebra_simps)
qed (simp add: draw_rows_def)

lemma kprint_top_row:
  assumes "cursor_y c = 0" "0 \<le> cursor_x c" "cursor_x c + int (length s) < 100" "10 \<notin> set s" "6400 \<le> j"
  shows "fb (kprint g (s @ [10]) col c) j = fb c j"
  using assms
proof (induction s arbitrary: c)
  case Nil
  then show ?case by (simp add: kprint_char_def newline_def Let_def)
next
  case (Cons b s)
  let ?c = "c\<lparr>fb := drawchar g (cursor_x c * CHAR_W) (cursor_y c * CHAR_H) b col (fb c), cursor_x := cursor_x c + 1\<rparr>"
  have step: "kprint_char g col b c = ?c" using Cons.prems by (simp add: kprint_char_def Let_def)
  have "fb ?c j = fb c j"
    unfolding drawchar_rows by (simp, rule draw_rows_below) (use Cons.prems in simp_all)
  moreover have "fb (kprint g (s @ [10]) col ?c) j = fb ?c j" by (rule Cons.IH) (use Cons.prems in simp_all)
  ultimately show ?case by (simp only: append_Cons kprint.simps step split: if_split) simp
qed

lemma early_line_memory:
  fixes k a
  defines "k' \<equiv> say_line_early a ''initialized: 4GB FU'' 0 k"
  assumes "cursor_x (con (krn k)) = 0" "cursor_y (con (krn k)) = 0"
  shows "vm (sc (krn k')) = (vm (sc (krn k)))\<lparr>pmem := pmem (vm (sc (krn k')))\<rparr>"
    and "0x7000 \<le> unat x \<Longrightarrow> pmem (vm (sc (krn k'))) x = pmem (vm (sc (krn k))) x"
    and "\<exists>v. sc (krn k') = (sc (krn k))\<lparr>vm := v\<rparr>"
proof -
  show "vm (sc (krn k')) = (vm (sc (krn k)))\<lparr>pmem := pmem (vm (sc (krn k')))\<rparr>" "\<exists>v. sc (krn k') = (sc (krn k))\<lparr>vm := v\<rparr>"
    by (auto simp: k'_def say_line_early_def Let_def on_vm_def upd_krn_def)
  assume x: "0x7000 \<le> unat x"
  let ?c = "(con (krn k))\<lparr>fb := mem_pixels (pmem (vm (sc (krn k))))\<rparr>"
  have "fb (kprint (glyphs (img a)) (bytes_of ''initialized: 4GB FU'' @ [10]) 0 ?c) (int (unat x div 4)) = fb ?c (int (unat x div 4))"
    by (rule kprint_top_row) (use assms x in \<open>simp_all add: bytes_of_def\<close>)
  then show "pmem (vm (sc (krn k'))) x = pmem (vm (sc (krn k))) x"
    unfolding k'_def say_line_early_def Let_def
    by (simp add: on_vm_def upd_krn_def pixels_mem_cong del: kprint.simps)
qed

section \<open>The layout of memory\<close>

definition boot_table_list :: "boot_args \<Rightarrow> u64 list" where
  "boot_table_list a = pml4_table a # pdp_table a # map (pd_tables a) [0..<4]"

text \<open>
  The page tables and the kernel stacks lie in the image of the kernel, above the first line of
  text and apart from each other.
\<close>

definition boot_layout :: "boot_args \<Rightarrow> bool" where
  "boot_layout a \<longleftrightarrow> distinct (boot_table_list a) \<and> unat (kernel_end a) \<le> 2 ^ 27 \<and>
    (\<forall>t \<in> set (boot_table_list a). page_aligned t \<and> 0x7000 \<le> unat t \<and> unat t + 4096 \<le> unat (kernel_end a) \<and>
      (unat t + 4096 \<le> unat (kernel_stacks (img a)) \<or> unat (kernel_stacks (img a)) + 0x10000 \<le> unat t)) \<and>
    aligned8 (kernel_stacks (img a)) \<and> unat (kernel_stacks (img a)) + 0x10000 \<le> unat (kernel_end a)"

definition table_pages :: "boot_args \<Rightarrow> nat set" where
  "table_pages a = frame_of ` set (boot_table_list a)"

lemma frame_of_bounds: "frame_of x = n \<longleftrightarrow> 4096 * n \<le> unat x \<and> unat x < 4096 * n + 4096"
  by (auto simp: frame_of_def)

lemma page_aligned_frame: "page_aligned t \<Longrightarrow> 4096 * frame_of t = unat t"
  by (simp add: frame_of_def page_aligned_def dvd_mult_div_cancel dvd_eq_mod_eq_0)

lemma page_aligned_bounds: "page_aligned t \<Longrightarrow> frame_of x = frame_of t \<longleftrightarrow> unat t \<le> unat x \<and> unat x < unat t + 4096"
  unfolding frame_of_bounds [of x "frame_of t"] by (simp add: page_aligned_frame)

text \<open>What the boot reservations leave.\<close>

lemma reserve_shrinks:
  "bitmap_ok b \<Longrightarrow> unat e \<le> 2 ^ 64 - 4096 \<Longrightarrow> free_pages (pmm_reserve_region b s e) \<subseteq> free_pages b"
  by (auto simp: free_pages_reserve)

lemma unat_ucast_u32: "unat (ucast (v :: u32) :: u64) = unat v" "unat (v :: u32) < 2 ^ 32"
proof -
  show v: "unat v < 2 ^ 32" using unsigned_less [of v] by simp
  then show "unat (ucast v :: u64) = unat v" by (simp add: unsigned_ucast_eq take_bit_nat_eq_self)
qed

lemma reserve_modules_frames:
  assumes "bitmap_ok b"
  shows "bitmap_ok (reserve_modules m mods n b) \<and> free_pages (reserve_modules m mods n b) \<subseteq> free_pages b \<and>
    (0 < n \<longrightarrow> (let s = ucast (rd32 m mods) :: u64; e = ucast (rd32 m (mods + 4)) in
      \<forall>x. s \<le> x \<and> x < e \<longrightarrow> frame_of x \<notin> free_pages (reserve_modules m mods n b)))"
proof -
  define step where "step = (\<lambda>i b. let start = ucast (rd32 m (mods + of_nat (16 * i))) :: u64; stop = ucast (rd32 m (mods + of_nat (16 * i + 4)))
       in if stop > start then pmm_reserve_region b start stop else b)"
  have u32: "unat (ucast (v :: u32) :: u64) \<le> 2 ^ 64 - 4096" for v
    using unat_ucast_u32 [of v] by simp
  have one: "bitmap_ok (step i b)" "free_pages (step i b) \<subseteq> free_pages b" if "bitmap_ok b" for i b
    using that u32 by (auto simp: step_def Let_def free_pages_reserve)
  have all: "bitmap_ok (fold step is b) \<and> free_pages (fold step is b) \<subseteq> free_pages b" if "bitmap_ok b" for "is" b
    using that
  proof (induction "is" arbitrary: b)
    case (Cons i "is")
    then show ?case using one [of b i] Cons.IH [of "step i b"] by auto
  qed simp
  have eq: "reserve_modules m mods n b = fold step [0..<unat n] b" by (simp add: reserve_modules_def step_def)
  have "let s = ucast (rd32 m mods) :: u64; e = ucast (rd32 m (mods + 4)) in
      \<forall>x. s \<le> x \<and> x < e \<longrightarrow> frame_of x \<notin> free_pages (reserve_modules m mods n b)" if "0 < n"
  proof -
    have "0 < unat n" using that by (simp add: word_less_nat_alt)
    then have "[0..<unat n] = 0 # [1..<unat n]" by (simp add: upt_conv_Cons)
    then have r: "reserve_modules m mods n b = fold step [1..<unat n] (step 0 b)" by (simp add: eq)
    have sub: "free_pages (reserve_modules m mods n b) \<subseteq> free_pages (step 0 b)" using all [OF one(1) [OF assms]] by (simp add: r)
    have "frame_of x \<notin> free_pages (step 0 b)" if "ucast (rd32 m mods) \<le> x" "x < ucast (rd32 m (mods + 4))" for x
      using that u32 [of "rd32 m (mods + 4)"] assms
      by (auto simp: step_def Let_def free_pages_reserve frame_of_def word_le_nat_alt word_less_nat_alt)
    then show ?thesis using sub by (auto simp: Let_def)
  qed
  then show ?thesis using all [OF assms] by (simp add: eq)
qed

lemma boot_table_list_eq: "boot_table_list a = [pml4_table a, pdp_table a, pd_tables a 0, pd_tables a 1, pd_tables a 2, pd_tables a 3]"
  by (simp add: boot_table_list_def upt_rec numeral_2_eq_2 numeral_3_eq_3)

lemma paging_init_frame:
  assumes "boot_layout a" "frame_of x \<notin> table_pages a"
  shows "pmem (paging_init (pml4_table a) (pdp_table a) (pd_tables a) v) x = pmem v x"
proof -
  have t: "page_aligned t \<and> frame_of x \<noteq> frame_of t" if "t \<in> set (boot_table_list a)" for t
    using assms that by (auto simp: boot_layout_def table_pages_def)
  have up: "[0..<4] = [0, 1, 2, 3 :: nat]" by (simp add: upt_rec)
  have al: "page_aligned (pml4_table a)" "frame_of x \<noteq> frame_of (pml4_table a)" "page_aligned (pdp_table a)" "frame_of x \<noteq> frame_of (pdp_table a)"
    using t [of "pml4_table a"] t [of "pdp_table a"] by (simp_all add: boot_table_list_eq)
  have pd: "page_aligned (pd_tables a i) \<and> frame_of x \<noteq> frame_of (pd_tables a i)" if "i \<in> {0, 1, 2, 3}" for i
    using t [of "pd_tables a i"] that by (auto simp: boot_table_list_eq)
  have init: "init_pd (pd_tables a i) i m x = m x" if "i \<in> {0, 1, 2, 3}" for i m
    unfolding init_pd_def by (rule wr64s_frame) (use pd [OF that] in auto)
  have wr: "wr64 m (entry (pml4_table a) i) w x = m x" "wr64 m (entry (pdp_table a) i) w x = m x" if "i < 512" for m i w
    using al that by (simp_all add: wr64_frame)
  have zero: "fold (\<lambda>i m. wr64 (wr64 m (entry (pml4_table a) i) 0) (entry (pdp_table a) i) 0) is m x = m x"
    if "\<forall>i \<in> set is. i < 512" for "is" m
    using that by (induction "is" arbitrary: m) (simp_all add: wr)
  show ?thesis unfolding paging_init_def Let_def up by (simp add: init wr zero)
qed

lemma boot_tables_layout:
  assumes "boot_layout a" "\<And>n. n \<in> free_pages fr \<Longrightarrow> unat (kernel_end a) \<le> 4096 * n"
  shows "boot_tables fr (pml4_table a) (pdp_table a) (pd_tables a)"
proof -
  have "page_aligned t \<and> t \<noteq> 0 \<and> unat t div 4096 \<notin> free_pages fr" if "t \<in> set (boot_table_list a)" for t
  proof -
    have t: "page_aligned t" "0x7000 \<le> unat t" "unat t < unat (kernel_end a)" using assms(1) that by (auto simp: boot_layout_def)
    have "unat t div 4096 \<notin> free_pages fr"
    proof
      assume "unat t div 4096 \<in> free_pages fr"
      from assms(2) [OF this] t(3) show False by simp
    qed
    with t(1,2) show ?thesis by auto
  qed
  then show ?thesis using assms(1) unfolding boot_tables_def boot_layout_def Let_def boot_table_list_def by blast
qed

lemma boot_table_frames:
  assumes "boot_tables fr (pml4_table a) (pdp_table a) (pd_tables a)"
  shows "table_frames (pmem (paging_init (pml4_table a) (pdp_table a) (pd_tables a) v)) (pml4_table a) \<subseteq> table_pages a"
proof -
  have "t \<in> set (boot_table_list a)" if "valid_path p" "table_at (pmem (paging_init (pml4_table a) (pdp_table a) (pd_tables a) v)) (pml4_table a) p = Some t" for p t
    using that(2) paging_init_tree [OF assms refl that(1)] by (auto simp: boot_table_list_def split: list.splits if_splits)
  then show ?thesis by (auto simp: table_frames_def table_pages_def)
qed

text \<open>What the boot loader hands over: the modules, the first of them a file \<open>f\<close>.\<close>

definition init_given :: "boot_args \<Rightarrow> u64 \<Rightarrow> mem \<Rightarrow> u64 \<Rightarrow> u32 \<Rightarrow> u64 \<Rightarrow> u8 list \<Rightarrow> bool" where
  "init_given a mb m mods n start f \<longleftrightarrow> mb \<noteq> 0 \<and> unat mb < 2 ^ 32 \<and> bit (rd32 m mb) 3 \<and>
    n = rd32 m (mb + 20) \<and> 0 < n \<and> mods = ucast (rd32 m (mb + 24)) \<and> 0x7000 \<le> unat mods \<and>
    (\<forall>t \<in> set (boot_table_list a). unat mods + 8 \<le> unat t \<or> unat t + 4096 \<le> unat mods) \<and>
    start = ucast (rd32 m mods) \<and> kernel_end a \<le> start \<and> f \<noteq> [] \<and>
    ucast (rd32 m (mods + 4)) = start + of_nat (length f) \<and> unat start + length f < 2 ^ 32 \<and> f = rd_bytes m start (length f)"

lemma reserve_boot_frames:
  assumes lay: "boot_layout a" and bm: "bitmap_ok (frames v)" and mb: "unat mb < 2 ^ 32"
    and mods: "unat mods < 2 ^ 32" "mods \<noteq> 0" "0 < n"
  defines "fr \<equiv> frames (reserve_boot a mb mods n v)"
  shows "pmm_ok fr" and "\<And>k. k \<in> free_pages fr \<Longrightarrow> unat (kernel_end a) \<le> 4096 * k"
    and "ucast (rd32 (pmem v) mods) \<le> x \<Longrightarrow> x < ucast (rd32 (pmem v) (mods + 4)) \<Longrightarrow> frame_of x \<notin> free_pages fr"
proof -
  let ?r = "ucast ((kernel_end a + 4095) div 4096) :: u32"
  have ke: "unat (kernel_end a) \<le> 2 ^ 27" "0 < unat (kernel_end a)" using lay by (auto simp: boot_layout_def)
  have sum: "unat (kernel_end a + 4095) = unat (kernel_end a) + 4095" using ke by (simp add: unat_word_ariths)
  then have q: "unat ((kernel_end a + 4095) div 4096) = (unat (kernel_end a) + 4095) div 4096" by (simp add: unat_div)
  have "(unat (kernel_end a) + 4095) div 4096 < 2 ^ 32" using ke by simp
  then have r: "unat ?r = (unat (kernel_end a) + 4095) div 4096" unfolding unsigned_ucast_eq q by (simp add: take_bit_nat_eq_self)
  let ?b0 = "pmm_init (frames v) ?r"
  let ?b1 = "pmm_reserve_region ?b0 mb (mb + 28)"
  let ?b2 = "pmm_reserve_region ?b1 mods (mods + ucast n * 16)"
  have e: "unat (mb + 28) \<le> 2 ^ 64 - 4096" using mb by (simp add: unat_word_ariths)
  have n: "unat (ucast n :: u64) < 2 ^ 32" using unat_ucast_u32 [of n] by simp
  have e2: "unat (mods + ucast n * 16) \<le> 2 ^ 64 - 4096"
  proof -
    have "unat (ucast n * 16 :: u64) = unat (ucast n :: u64) * 16" using n by (simp add: unat_word_ariths)
    moreover have "unat (ucast n :: u64) * 16 < 2 ^ 36" using n by simp
    ultimately have "unat (mods + ucast n * 16) = unat mods + unat (ucast n :: u64) * 16" using mods(1) by (simp add: unat_word_ariths)
    then show ?thesis using \<open>unat (ucast n :: u64) * 16 < 2 ^ 36\<close> mods(1) by simp
  qed
  have fr: "fr = reserve_modules (pmem v) mods n ?b2" using mods by (simp add: fr_def reserve_boot_def Let_def)
  note init = free_pages_pmm_init [OF bm, of ?r]
  have ok: "bitmap_ok ?b2" using init by simp
  have "free_pages ?b2 \<subseteq> free_pages ?b0"
    using reserve_shrinks [of ?b1, OF _ e2] reserve_shrinks [of ?b0, OF _ e] init by auto
  then have sub: "free_pages fr \<subseteq> free_pages ?b0" using reserve_modules_frames [OF ok, of "pmem v" mods n] by (auto simp: fr)
  have "0 < unat ?r" using ke by (simp add: r)
  then have "0 \<notin> free_pages fr" using sub init by auto
  then show "pmm_ok fr" using reserve_modules_frames [OF ok, of "pmem v" mods n] by (simp add: fr pmm_ok_def free_pages_def MAX_PAGES_eq)
  show "unat (kernel_end a) \<le> 4096 * k" if "k \<in> free_pages fr" for k
  proof -
    have "unat ?r \<le> k" using that sub init by auto
    then show ?thesis unfolding r by linarith
  qed
  show "frame_of x \<notin> free_pages fr" if "ucast (rd32 (pmem v) mods) \<le> x" "x < ucast (rd32 (pmem v) (mods + 4))"
    using reserve_modules_frames [OF ok, of "pmem v" mods n] mods(3) that by (auto simp: fr Let_def)
qed

section \<open>The first process\<close>

lemma copy_pds_card:
  "pmm_ok (frames s) \<Longrightarrow> copy_pds kp up ixs s = (ok, s') \<Longrightarrow>
    pmm_ok (frames s') \<and> card (free_pages (frames s)) \<le> length ixs + card (free_pages (frames s'))"
proof (induction ixs arbitrary: s)
  case (Cons i ixs)
  obtain n fr where a: "pmm_alloc_page (frames s) = (n, fr)" by force
  note A = alloc_card [OF Cons.prems(1) a]
  show ?case
  proof (cases "rd64 (pmem s) (entry kp i) AND PAGE_PRESENT = 0 \<or> page_base (rd64 (pmem s) (entry kp i)) = 0")
    case True
    then have "copy_pds kp up ixs s = (ok, s')" using Cons.prems(2) by (auto simp: Let_def split: if_splits)
    then show ?thesis using Cons.IH [of s] Cons.prems(1) by simp
  next
    case False
    show ?thesis
    proof (cases "n = 0")
      case True
      then show ?thesis using False Cons.prems(2) A a by (auto simp: Let_def)
    next
      case nz: False
      let ?s = "s\<lparr>frames := fr, pmem := copy_table n (page_base (rd64 (pmem s) (entry kp i))) [0..<512]
        (wr64 (zero_table n (pmem s)) (entry up i) (n OR PAGE_PRESENT OR PAGE_WRITE OR PAGE_USER))\<rparr>"
      have "copy_pds kp up ixs ?s = (ok, s')" using False nz Cons.prems(2) a by (simp add: Let_def)
      then show ?thesis using Cons.IH [of ?s] A by simp
    qed
  qed
qed simp

lemma create_user_pml4_card:
  assumes "pmm_ok (frames s)" "create_user_pml4 s = (root, s')"
  shows "card (free_pages (frames s)) \<le> 6 + card (free_pages (frames s'))"
proof -
  obtain n fr where a: "pmm_alloc_page (frames s) = (n, fr)" by force
  obtain u fr2 where b: "pmm_alloc_page fr = (u, fr2)" by force
  note A = alloc_card [OF assms(1) a]
  note B = alloc_card [OF conjunct2 [OF A] b]
  have C: "card (free_pages fr2) \<le> 4 + card (free_pages (frames t'))" if "copy_pds kp up [0..<4] t = (ok, t')" "frames t = fr2" for kp up t ok t'
    using copy_pds_card [OF _ that(1)] that(2) B by simp
  show ?thesis
  proof (cases "frames s' = fr \<or> frames s' = fr2")
    case True
    then show ?thesis using A B by auto
  next
    case False
    then have "\<exists>t kp ok t'. copy_pds kp u [0..<4] t = (ok, t') \<and> frames t = fr2 \<and> frames s' = frames t'"
      using assms(2) by (auto simp: create_user_pml4_def a b Let_def split: if_splits prod.splits; force)
    then show ?thesis using A B C by fastforce
  qed
qed

text \<open>Pushing words writes only below the top of the stack.\<close>

lemma near_word: "unat ((x :: u64) - y) < d \<Longrightarrow> unat y + d \<le> 2 ^ 64 \<Longrightarrow> unat y \<le> unat x \<and> unat x < unat y + d"
  by (auto simp: unat_sub_if_size word_le_nat_alt word_size split: if_splits)

lemma push_words_bytes:
  "8 * length vs \<le> unat stk \<Longrightarrow> unat x < unat stk - 8 * length vs \<or> unat stk \<le> unat x \<Longrightarrow> snd (fold push_word vs (stk, m)) x = m x"
proof (induction vs arbitrary: stk m)
  case (Cons v vs)
  have u: "unat (stk - 8) = unat stk - 8" using Cons.prems(1) by (simp add: unat_sub_if_size word_le_nat_alt word_size)
  have "unat stk < 2 ^ 64" using unsigned_less [of stk] by simp
  then have "\<not> unat (x - (stk - 8)) < 8" using near_word [of x "stk - 8" 8] u Cons.prems by simp linarith
  then have "wr64 m (stk - 8) v x = m x" by (simp add: wr64_apply)
  moreover have "snd (fold push_word vs (stk - 8, wr64 m (stk - 8) v)) x = wr64 m (stk - 8) v x"
    by (rule Cons.IH) (use u Cons.prems in auto)
  ultimately show ?case by simp
qed simp

text \<open>
  The state of memory once the boot map is on: the frames are those the reservations leave, and
  above the first line of text and outside the page tables the bytes are those of \<open>m\<close>.
\<close>

definition memory_booted :: "boot_args \<Rightarrow> mem \<Rightarrow> bitmap \<Rightarrow> vm_state \<Rightarrow> bool" where
  "memory_booted a m fr v \<longleftrightarrow> kernel_tree (pml4_table a) v \<and> frames v = fr \<and>
    (\<forall>x. 0x7000 \<le> unat x \<and> frame_of x \<notin> table_pages a \<longrightarrow> pmem v x = m x)"

lemma boot_hardware_vm:
  fixes a mb mods n
  assumes "powered_on k"
  defines "p \<equiv> paging_init (pml4_table a) (pdp_table a) (pd_tables a) (reserve_boot a mb mods n (vm (sc (krn k))))"
  obtains m v where "sc (krn (boot_hardware a mb mods n k)) = (sc (krn k))\<lparr>vm := v\<rparr>" "v = vmm_init (p\<lparr>pmem := m\<rparr>)"
    "\<And>x. 0x7000 \<le> unat x \<Longrightarrow> m x = pmem p x"
proof -
  let ?k2 = "on_vm (paging_init (pml4_table a) (pdp_table a) (pd_tables a)) (on_vm (reserve_boot a mb mods n) k)"
  let ?k3 = "say_line_early a ''initialized: 4GB FU'' 0 ?k2"
  have c: "cursor_x (con (krn ?k2)) = 0" "cursor_y (con (krn ?k2)) = 0"
    using assms(1) by (simp_all add: powered_on_def on_vm_def upd_krn_def)
  have v2: "sc (krn ?k2) = (sc (krn k))\<lparr>vm := p\<rparr>" by (simp add: on_vm_def upd_krn_def p_def)
  note E = early_line_memory [where a = a, OF c]
  obtain w where w: "sc (krn ?k3) = (sc (krn ?k2))\<lparr>vm := w\<rparr>" using E(3) by blast
  obtain q where q: "q = pmem (vm (sc (krn ?k3)))" by simp
  have wp: "w = p\<lparr>pmem := q\<rparr>" using E(1) unfolding q by (simp add: w v2)
  have on: "sc (krn (on_vm f l)) = (sc (krn l))\<lparr>vm := f (vm (sc (krn l)))\<rparr>" for f l by (simp add: on_vm_def upd_krn_def)
  have "sc (krn (say_line a t col (snd (igpu_pci_init a l)))) = sc (krn l)" for t col l
    using draws_only_trans [OF draws_igpu [of a l] draws_say(2)] by (cases "igpu_pci_init a l") (simp add: draws_only_def)
  then have "sc (krn (boot_hardware a mb mods n k)) = sc (krn (on_vm vmm_init ?k3))"
    unfolding boot_hardware_def Let_def case_prod_unfold
    using draws_ports(4) draws_picremap by (simp add: upd_krn_def draws_only_def)
  also have "\<dots> = (sc (krn k))\<lparr>vm := vmm_init (p\<lparr>pmem := q\<rparr>)\<rparr>"
    unfolding on w v2 wp by simp
  finally show thesis by (rule that [OF _ refl]) (use E(2) q in \<open>simp add: v2\<close>)
qed

lemma frame_high: "frame_of x = frame_of t \<Longrightarrow> page_aligned t \<Longrightarrow> 0x7000 \<le> unat t \<Longrightarrow> 0x7000 \<le> unat x"
  using page_aligned_bounds by force

lemma boot_memory:
  assumes pow: "powered_on k" and lay: "boot_layout a" and g: "init_given a mb (pmem (vm (sc (krn k)))) mods n start f"
  defines "m \<equiv> pmem (vm (sc (krn k)))" and "fr \<equiv> frames (reserve_boot a mb mods n (vm (sc (krn k))))"
  obtains v where "sc (krn (boot_hardware a mb mods n k)) = (sc (krn k))\<lparr>vm := v\<rparr>" "memory_booted a m fr v"
proof -
  let ?v1 = "reserve_boot a mb mods n (vm (sc (krn k)))"
  let ?p = "paging_init (pml4_table a) (pdp_table a) (pd_tables a) ?v1"
  obtain q v where v: "sc (krn (boot_hardware a mb mods n k)) = (sc (krn k))\<lparr>vm := v\<rparr>" "v = vmm_init (?p\<lparr>pmem := q\<rparr>)"
    "\<And>x. 0x7000 \<le> unat x \<Longrightarrow> q x = pmem ?p x" using boot_hardware_vm [OF pow, of a mb mods n] by blast
  have m1: "pmem ?v1 = m" by (simp add: reserve_boot_def Let_def m_def)
  have "unat mods < 2 ^ 32" using g unat_ucast_u32 by (auto simp: init_given_def)
  moreover have "mods \<noteq> 0" using g by (auto simp: init_given_def)
  moreover have "bitmap_ok (frames (vm (sc (krn k))))" using pow by (simp add: powered_on_def)
  ultimately have F: "pmm_ok fr" "\<And>k. k \<in> free_pages fr \<Longrightarrow> unat (kernel_end a) \<le> 4096 * k"
    unfolding fr_def using reserve_boot_frames(1,2) [OF lay _ _ _ _] g by (auto simp: init_given_def)
  have bt: "boot_tables (frames ?v1) (pml4_table a) (pdp_table a) (pd_tables a)"
    using boot_tables_layout [OF lay F(2)] by (simp add: fr_def)
  have "kernel_tree (pml4_table a) (vmm_init ?p)" using kernel_tree_boot [OF bt] F(1) by (simp add: fr_def)
  then have "kernel_tree (pml4_table a) v"
  proof (rule kernel_tree_kept)
    show "pmm_ok (frames v)" "free_pages (frames v) \<subseteq> free_pages (frames (vmm_init ?p))" "kernel_pml4 v = kernel_pml4 (vmm_init ?p)"
      using F(1) by (simp_all add: v(2) vmm_init_def paging_init_def Let_def fr_def)
    fix x assume "frame_of x \<in> table_frames (pmem (vmm_init ?p)) (pml4_table a)"
    then have "frame_of x \<in> table_pages a" using boot_table_frames [OF bt] by (auto simp: vmm_init_def)
    then obtain t where "t \<in> set (boot_table_list a)" "frame_of x = frame_of t" by (auto simp: table_pages_def)
    then have "0x7000 \<le> unat x" using lay frame_high by (auto simp: boot_layout_def)
    then show "pmem v x = pmem (vmm_init ?p) x" using v(3) by (simp add: v(2) vmm_init_def)
  qed
  moreover have "pmem v x = m x" if "0x7000 \<le> unat x" "frame_of x \<notin> table_pages a" for x
    using v(3) [OF that(1)] paging_init_frame [OF lay that(2)] m1 by (simp add: v(2) vmm_init_def)
  moreover have "frames v = fr" by (simp add: v(2) vmm_init_def paging_init_def Let_def fr_def)
  ultimately show thesis using that v(1) by (simp add: memory_booted_def)
qed

definition in_stacks :: "boot_args \<Rightarrow> u64 \<Rightarrow> bool" where
  "in_stacks a x \<longleftrightarrow> unat (kernel_stacks (img a)) \<le> unat x \<and> unat x < unat (kernel_stacks (img a)) + 0x10000"

definition above_kernel :: "boot_args \<Rightarrow> bitmap \<Rightarrow> bool" where
  "above_kernel a fr \<longleftrightarrow> (\<forall>k \<in> free_pages fr. unat (kernel_end a) \<le> 4096 * k)"

lemma free_not_stack: "boot_layout a \<Longrightarrow> above_kernel a fr \<Longrightarrow> frame_of x \<in> free_pages fr \<Longrightarrow> \<not> in_stacks a x"
proof
  assume a: "boot_layout a" "above_kernel a fr" "frame_of x \<in> free_pages fr" "in_stacks a x"
  have "4096 * frame_of x \<le> unat x" by (simp add: frame_of_def)
  moreover have "unat (kernel_end a) \<le> 4096 * frame_of x" using a(2,3) by (simp add: above_kernel_def)
  ultimately show False using a(1,4) by (simp add: boot_layout_def in_stacks_def)
qed

text \<open>The process table with one process, in slot 0.\<close>

definition only_init :: "boot_args \<Rightarrow> u64 \<Rightarrow> u64 \<Rightarrow> sched \<Rightarrow> bool" where
  "only_init a root entry_point t \<longleftrightarrow> table_ok t \<and> current_process_idx t = 0 \<and> p_state (proc t 0) = READY \<and> p_pid (proc t 0) = 1 \<and>
    p_pml4 (proc t 0) = root \<and> p_kernel_stack (proc t 0) = kernel_stacks (img a) + KERNEL_STACK_SIZE \<and>
    p_esp (proc t 0) = kernel_stacks (img a) + KERNEL_STACK_SIZE - 160 \<and>
    frame_words t 0 = replicate 15 0 @ [entry_point, 0x23, 0x202, user_stacks (img a) + USER_STACK_SIZE, 0x1B] \<and>
    (\<forall>j < MAX_PROCESSES. j \<noteq> 0 \<longrightarrow> p_state (proc t j) = TERMINATED)"

lemma stack_top:
  assumes "boot_layout a"
  shows "unat (kernel_stacks (img a) + KERNEL_STACK_SIZE) = unat (kernel_stacks (img a)) + 8192"
    "unat (kernel_stacks (img a) + KERNEL_STACK_SIZE - 160) = unat (kernel_stacks (img a)) + 8032"
    "aligned8 (kernel_stacks (img a) + KERNEL_STACK_SIZE - 160)"
proof -
  have s: "unat (kernel_stacks (img a)) + 0x10000 \<le> 2 ^ 27" "aligned8 (kernel_stacks (img a))" using assms by (auto simp: boot_layout_def)
  then show u: "unat (kernel_stacks (img a) + KERNEL_STACK_SIZE) = unat (kernel_stacks (img a)) + 8192"
    by (simp add: KERNEL_STACK_SIZE_def unat_word_ariths)
  then show v: "unat (kernel_stacks (img a) + KERNEL_STACK_SIZE - 160) = unat (kernel_stacks (img a)) + 8032"
    by (simp add: unat_sub_if_size word_le_nat_alt word_size)
  show "aligned8 (kernel_stacks (img a) + KERNEL_STACK_SIZE - 160)" using s(2) unfolding aligned8_def v by presburger
qed

lemma first_process:
  assumes lay: "boot_layout a" and sh: "table_shape s" and mem: "memory_booted a m fr (vm s)" and ab: "above_kernel a fr"
    and enough: "6 + c \<le> card (free_pages fr)"
  obtains root t where "create_process (kernel_stacks (img a)) (user_stacks (img a)) 0 (scheduler_init s) = (1, t)"
    "get_process_by_pid 1 t = Some 0" "only_init a root 0 t" "space_ready root c (vm t)"
    "table_frames (pmem (vm t)) root \<subseteq> free_pages fr" "free_pages (frames (vm t)) \<subseteq> free_pages fr"
    "\<And>x. frame_of x \<notin> free_pages fr \<Longrightarrow> \<not> in_stacks a x \<Longrightarrow> pmem (vm t) x = pmem (vm s) x"
proof -
  let ?s = "scheduler_init s" and ?ks = "kernel_stacks (img a)" and ?us = "user_stacks (img a)"
  have l: "length (processes s) = MAX_PROCESSES" using sh by (simp add: table_shape_def)
  note S = scheduler_init_facts [OF l]
  have kt: "kernel_tree (pml4_table a) (vm ?s)" and fr: "frames (vm ?s) = fr" using mem S(4) by (simp_all add: memory_booted_def)
  then have ok: "pmm_ok (frames (vm ?s))" by (simp add: kernel_tree_def vm_ok_def)
  have slot: "free_slot ?s = Some 0" unfolding free_slot_def find_first using S(5) [of 0] by (simp add: MAX_PROCESSES_def)
  obtain r t where c: "create_process ?ks ?us 0 ?s = (r, t)" by force
  obtain root v where u: "create_user_pml4 (vm ?s) = (root, v)" by force
  note U = create_user_pml4_effect [OF kt u]
  have "6 \<le> card (free_pages (frames (vm ?s)))" using enough by (simp add: fr)
  then have "root \<noteq> 0" using U by blast
  note U' = this U
  have kend: "unat (?ks) + 0x10000 \<le> 2 ^ 27" "aligned8 ?ks" using lay by (auto simp: boot_layout_def)
  obtain esp where t: "t = (upd_proc 0 (\<lambda>_. new_process root (?ks + KERNEL_STACK_SIZE) esp 0 ?s) ?s)
      \<lparr>vm := v\<lparr>pmem := snd (fold push_word (init_frame (?us + USER_STACK_SIZE) 0) (?ks + KERNEL_STACK_SIZE, pmem v))\<rparr>, next_pid := next_pid ?s + 1\<rparr>"
    and r: "r = sint (ucast (next_pid ?s) :: u32)"
    using S(1) c
  proof (cases rule: create_process_cases)
    case (fail w)
    then show ?thesis using slot u U'(1) by simp
  next
    case (ok idx root' v' kst)
    then have "idx = 0" "root' = root" "v' = v" using slot u by simp_all
    with ok that show ?thesis by simp
  qed
  have r1: "r = 1" unfolding r S(3) by simp
  have b: "unat (next_pid ?s) < 2 ^ 31" by (simp add: S(3))
  have P: "get_process_by_pid 1 t = Some 0 \<and> sched_inv t \<and> p_esp (proc t 0) = ?ks + KERNEL_STACK_SIZE - 160 \<and>
      frame_words t 0 = replicate 15 0 @ [0, 0x23, 0x202, ?us + USER_STACK_SIZE, 0x1B] \<and> (\<forall>j. j \<noteq> 0 \<longrightarrow> proc t j = proc ?s j)"
    by (rule create_process_result [OF scheduler_init_inv [OF l] b kend(2) c]) (use r1 slot in \<open>simp_all add: S(3)\<close>)
  have p0: "proc t 0 = new_process root (?ks + KERNEL_STACK_SIZE) esp 0 ?s"
    unfolding t by (subst proc_new) (use S(1) in \<open>simp_all add: table_ok_def MAX_PROCESSES_def\<close>)
  have init: "only_init a root 0 t" unfolding only_init_def
  proof (intro conjI allI impI)
    show "table_ok t" using P by (simp add: sched_inv_def one_running_def)
    show "current_process_idx t = 0" by (simp add: t S(2))
    show "p_pid (proc t 0) = 1" by (simp add: p0 S(3))
    show "p_state (proc t j) = TERMINATED" if "j < MAX_PROCESSES" "j \<noteq> 0" for j using P that S(5) by simp
  qed (use P in \<open>simp_all add: p0\<close>)
  have mt: "pmem (vm t) x = pmem v x" if "\<not> in_stacks a x" for x
    unfolding t using that stack_top(1) [OF lay]
    by (simp, intro push_words_bytes) (auto simp: in_stacks_def init_frame_def)
  have ft: "frames (vm t) = frames v" by (simp add: t)
  have sub: "free_pages (frames v) \<subseteq> free_pages fr" using U by (simp add: fr)
  have tf: "table_frames (pmem v) root \<subseteq> free_pages fr" using U U'(1) by (simp add: fr)
  have keep: "pmem (vm t) x = pmem v x" if "frame_of x \<in> table_frames (pmem v) root" for x
    using mt free_not_stack [OF lay ab] tf that by blast
  have vok: "vm_ok root v" "plain_top (pmem v) root" using U U'(1) by simp_all
  note T = space_untouched [OF vok(1) _ _ keep]
  have pok: "pmm_ok (frames (vm t))" using U by (simp add: ft)
  have "card (free_pages fr) \<le> 6 + card (free_pages (frames v))" using create_user_pml4_card [OF ok u] by (simp add: fr)
  then have ready: "space_ready root c (vm t)" using T(1,4) vok pok enough by (simp add: space_ready_def ft)
  have mem': "pmem (vm t) x = pmem (vm s) x" if "frame_of x \<notin> free_pages fr" "\<not> in_stacks a x" for x
    using mt [OF that(2)] U that(1) fr by (simp add: S(4))
  show thesis by (rule that [of t root]) (use c r1 P init ready T(3) pok tf sub mem' in \<open>simp_all add: ft\<close>)
qed

section \<open>Loading the program\<close>

lemma frame_words_kept:
  assumes "boot_layout a" "p_esp (proc t 0) = kernel_stacks (img a) + KERNEL_STACK_SIZE - 160"
    and "\<And>x. in_stacks a x \<Longrightarrow> pmem v x = pmem (vm t) x"
  shows "frame_words (t\<lparr>vm := v\<rparr>) 0 = frame_words t 0"
proof (rule nth_equalityI)
  fix k assume "k < length (frame_words (t\<lparr>vm := v\<rparr>) 0)"
  then have k: "k < 20" by simp
  have "unat (8 * of_nat k :: u64) = 8 * k" using k by (simp add: unat_word_ariths unat_of_nat_u64)
  then have a: "unat (p_esp (proc t 0) + 8 * of_nat k) = unat (kernel_stacks (img a)) + 8032 + 8 * k"
    using stack_top(2) [OF assms(1)] assms(1) k by (simp add: assms(2) unat_word_ariths boot_layout_def)
  have "rd64 (pmem v) (p_esp (proc t 0) + 8 * of_nat k) = rd64 (pmem (vm t)) (p_esp (proc t 0) + 8 * of_nat k)"
  proof (rule rd64_cong)
    fix x assume "unat (x - (p_esp (proc t 0) + 8 * of_nat k)) < 8"
    from near_word [OF this] have "in_stacks a x" using a k assms(1) by (simp add: in_stacks_def boot_layout_def)
    then show "pmem v x = pmem (vm t) x" by (rule assms(3))
  qed
  then show "frame_words (t\<lparr>vm := v\<rparr>) 0 ! k = frame_words t 0 ! k" using k by (simp add: proc_def)
qed simp

lemma only_init_entry:
  assumes lay: "boot_layout a" and init: "only_init a root e t"
  shows "only_init a root e' (set_process_entry 0 e' t)"
    and "\<exists>m. set_process_entry 0 e' t = t\<lparr>vm := (vm t)\<lparr>pmem := m\<rparr>\<rparr> \<and> (\<forall>x. \<not> in_stacks a x \<longrightarrow> m x = pmem (vm t) x)"
proof -
  let ?esp = "kernel_stacks (img a) + KERNEL_STACK_SIZE - 160"
  have esp: "p_esp (proc t 0) = ?esp" using init by (simp add: only_init_def)
  have nz: "p_esp (proc t 0) \<noteq> 0"
  proof
    assume "p_esp (proc t 0) = 0"
    then have "unat ?esp = 0" unfolding esp by simp
    then show False using stack_top(2) [OF lay] by simp
  qed
  have al: "aligned8 (p_esp (proc t 0))" unfolding esp by (rule stack_top(3) [OF lay])
  note F = set_process_entry_frame [OF al nz, of e']
  have eq: "set_process_entry 0 e' t = t\<lparr>vm := (vm t)\<lparr>pmem := wr64 (pmem (vm t)) (?esp + 8 * 15) e'\<rparr>\<rparr>"
    using nz by (simp add: set_process_entry_def Let_def proc_def [symmetric] esp)
  have "frame_words (set_process_entry 0 e' t) 0 = replicate 15 0 @ [e', 0x23, 0x202, user_stacks (img a) + USER_STACK_SIZE, 0x1B]"
    unfolding F(1) using init by (simp add: only_init_def list_update_append)
  then show "only_init a root e' (set_process_entry 0 e' t)"
    using init F(2) by (simp add: only_init_def eq table_ok_def)
  have "wr64 (pmem (vm t)) (?esp + 8 * 15) e' x = pmem (vm t) x" if "\<not> in_stacks a x" for x
  proof -
    have plus: "unat (w + 8 * 15) = unat w + 120" if "unat w < 2 ^ 28" for w :: u64 using that by (simp add: unat_word_ariths)
    have "unat (?esp + 8 * 15) = unat (kernel_stacks (img a)) + 8152"
      using plus [of ?esp] lay unfolding stack_top(2) [OF lay] by (simp add: boot_layout_def)
    then have "\<not> unat (x - (?esp + 8 * 15)) < 8"
      using near_word [of x "?esp + 8 * 15" 8] that lay by (simp add: in_stacks_def boot_layout_def del: diff_add_eq) linarith
    then show ?thesis unfolding wr64_apply by (rule if_not_P)
  qed
  then show "\<exists>m. set_process_entry 0 e' t = t\<lparr>vm := (vm t)\<lparr>pmem := m\<rparr>\<rparr> \<and> (\<forall>x. \<not> in_stacks a x \<longrightarrow> m x = pmem (vm t) x)"
    unfolding eq by blast
qed

lemma get32_le_val: "ucast (get32 k f) = le_val [f ! k, f ! (k + 1), f ! (k + 2), f ! (k + 3)]"
proof (rule bit_word_eqI)
  fix n assume "n < LENGTH(64)"
  have b: "bit (x :: u8) i \<Longrightarrow> i < 8" for x i using bit_imp_le_length [of x i] by simp
  have "bit (get32 k f) n \<longleftrightarrow> bit (f ! k) n \<or> 8 \<le> n \<and> bit (f ! (k + 1)) (n - 8) \<or> 16 \<le> n \<and> bit (f ! (k + 2)) (n - 16) \<or>
      24 \<le> n \<and> bit (f ! (k + 3)) (n - 24)"
    unfolding get32_def bit_or_iff bit_push_bit_iff bit_ucast_iff by (auto dest: b)
  then show "bit (ucast (get32 k f) :: u64) n = bit (le_val [f ! k, f ! (k + 1), f ! (k + 2), f ! (k + 3)]) n"
    using \<open>n < LENGTH(64)\<close> by (auto simp: bit_ucast_iff bit_or_iff bit_push_bit_iff push_bit_or dest: b)
qed

lemma get64_le_val: "get64 k f = le_val (map (\<lambda>i. f ! (k + i)) [0..<8])"
proof -
  have up: "[0..<8] = [0, 1, 2, 3, 4, 5, 6, 7 :: nat]" by (simp add: upt_rec)
  show ?thesis unfolding get64_def get32_le_val up by (simp add: push_bit_or or.assoc add.assoc add.commute [of 5 k] add.commute [of 6 k])
qed

lemma rd64_file:
  assumes "k + 8 \<le> n" shows "rd64 m (s + of_nat k) = get64 k (rd_bytes m s n)"
proof -
  have "rd_bytes m (s + of_nat k) 8 = map (\<lambda>i. rd_bytes m s n ! (k + i)) [0..<8]"
    by (rule nth_equalityI) (use assms in \<open>simp_all add: rd_bytes_def add.assoc\<close>)
  then show ?thesis by (simp add: rd64_def get64_le_val)
qed

text \<open>A file the loader accepts: its loadable segments \<open>L\<close> fit and do not share pages.\<close>

definition program_ok :: "u8 list \<Rightarrow> elf64_phdr list \<Rightarrow> bool" where
  "program_ok f L \<longleftrightarrow> ehdr_ok f (of_nat (length f)) \<and> L \<noteq> [] \<and>
    L = prog_segments f (e_phoff (dec_ehdr f)) [0..<unat (e_phnum (dec_ehdr f))] \<and>
    (\<forall>ph \<in> set L. seg_fits (of_nat (length f)) ph) \<and> distinct (concat (map seg_page_list L))"

lemma seg_shown_same_tables:
  assumes "seg_shown F root f v ph" "vm_ok root v" "frames v' = frames v" "table_frames (pmem v) root \<subseteq> F"
    and "\<And>x. frame_of x \<in> F \<Longrightarrow> pmem v' x = pmem v x"
  shows "seg_shown F root f v' ph" "vm_ok root v'"
proof -
  have same: "pmem v' x = pmem v x" if "frame_of x \<in> table_frames (pmem v) root" for x using assms(4,5) that by blast
  have ok: "pmm_ok (frames v')" "free_pages (frames v') \<subseteq> free_pages (frames v)" using assms(2,3) by (simp_all add: vm_ok_def)
  note U = space_untouched [OF assms(2) ok same]
  show "vm_ok root v'" by (rule U(1))
  have "shows_byte F root v' a b" if "shows_byte F root v a b" for a b
    using that U(2) [of a] U(3) assms(3,5) unfolding shows_byte_def Let_def by simp
  then show "seg_shown F root f v' ph" using assms(1) by (simp add: seg_shown_def)
qed

text \<open>The machine on which only the first process remains to be started.\<close>

definition init_ready :: "boot_args \<Rightarrow> u64 \<Rightarrow> u8 list \<Rightarrow> elf64_phdr list \<Rightarrow> nat set \<Rightarrow> sched \<Rightarrow> bool" where
  "init_ready a root f L F t \<longleftrightarrow> only_init a root (e_entry (dec_ehdr f)) t \<and> cr3 (vm t) = root \<and>
    tss_rsp0 t = kernel_stacks (img a) + KERNEL_STACK_SIZE \<and> vm_ok root (vm t) \<and> (\<forall>ph \<in> set L. seg_shown F root f (vm t) ph)"

lemma load_init_ready:
  assumes lay: "boot_layout a" and ab: "above_kernel a fr" and init: "only_init a root 0 (sc (krn k))"
    and ready: "space_ready root (4 * (\<Sum>ph\<leftarrow>L. seg_pages ph)) (vm (sc (krn k)))"
    and tf: "table_frames (pmem (vm (sc (krn k)))) root \<subseteq> free_pages fr" and sub: "free_pages (frames (vm (sc (krn k)))) \<subseteq> free_pages fr"
    and f: "f = rd_bytes (pmem (vm (sc (krn k)))) start (length f)" "length f < 2 ^ 32" "start \<noteq> 0"
    and used: "\<And>i. i < length f \<Longrightarrow> frame_of (start + of_nat i) \<notin> free_pages fr" and prog: "program_ok f L"
  shows "\<exists>k'. load_init a 0 start (of_nat (length f)) k = Ret () k' \<and> init_ready a root f L (free_pages fr) (sc (krn k'))"
proof -
  let ?t = "sc (krn k)" and ?F = "free_pages fr" and ?n = "of_nat (length f) :: u64" and ?e = "e_entry (dec_ehdr f)"
  have n: "unat ?n = length f" using f(2) by (simp add: unat_of_nat_u64)
  have p: "p_pml4 (processes ?t ! 0) = root" using init by (simp add: only_init_def proc_def)
  have Ls: "L = prog_segments f (e_phoff (dec_ehdr f)) [0..<unat (e_phnum (dec_ehdr f))]" "L \<noteq> []" "ehdr_ok f ?n"
    "\<forall>ph \<in> set L. seg_fits ?n ph" "distinct (concat (map seg_page_list L))" using prog unfolding program_ok_def by blast+
  have ready0: "space_ready root (0 + 4 * (\<Sum>ph\<leftarrow>L. seg_pages ph)) (vm ?t)" using ready by simp
  obtain v where v: "load_elf_into_process (Some 0) (Some f) ?n ?t = (0, ?t\<lparr>vm := v\<rparr>)" "space_ready root 0 v"
      "kept_off root (concat (map seg_page_list L)) (vm ?t) v" "\<forall>ph \<in> set L. seg_shown ?F root f v ph"
    using load_elf_effect [OF Ls p ready0 sub] by blast
  have wi: "writes_in root (vm ?t) v" using v(3) by (simp add: kept_off_def)
  have same: "pmem v x = pmem (vm ?t) x" if "frame_of x \<notin> ?F" for x
    using wi tf sub that unfolding writes_in_def by blast
  have tfv: "table_frames (pmem v) root \<subseteq> ?F" using wi tf sub unfolding writes_in_def by blast
  have "64 \<le> length f" using Ls(3) n by (auto simp: ehdr_ok_def sizeof_ehdr_def word_less_nat_alt)
  moreover have "rd_bytes (pmem v) start (length f) = f"
    by (subst f(1), rule nth_equalityI) (use same used in \<open>simp_all add: rd_bytes_def\<close>)
  ultimately have e: "rd64 (pmem v) (start + 24) = ?e" using rd64_file [of 24 "length f" "pmem v" start] by (simp add: dec_ehdr_def)
  let ?t1 = "?t\<lparr>vm := v\<rparr>" and ?k1 = "upd_krn (\<lambda>q. q\<lparr>sc := ?t\<lparr>vm := v\<rparr>\<rparr>) k"
  have "frame_words ?t1 0 = frame_words ?t 0"
    by (rule frame_words_kept [OF lay]) (use init same free_not_stack [OF lay ab] in \<open>auto simp: only_init_def\<close>)
  then have init1: "only_init a root 0 ?t1" using init by (simp add: only_init_def proc_def table_ok_def)
  obtain m where m: "set_process_entry 0 ?e ?t1 = ?t1\<lparr>vm := v\<lparr>pmem := m\<rparr>\<rparr>" "\<And>x. \<not> in_stacks a x \<Longrightarrow> m x = pmem v x"
    using only_init_entry(2) [OF lay init1, of ?e] by auto
  let ?t2 = "set_process_entry 0 ?e ?t1"
  have init2: "only_init a root ?e ?t2" by (rule only_init_entry(1) [OF lay init1])
  have vok: "vm_ok root v" using v(2) by (simp add: space_ready_def)
  have keep: "pmem (v\<lparr>pmem := m\<rparr>) x = pmem v x" if "frame_of x \<in> ?F" for x
    using m(2) free_not_stack [OF lay ab that] by simp
  have K: "seg_shown ?F root f (v\<lparr>pmem := m\<rparr>) ph \<and> vm_ok root (v\<lparr>pmem := m\<rparr>)" if "ph \<in> set L" for ph
    using seg_shown_same_tables [OF _ vok _ tfv keep, simplified] v(4) that by blast
  obtain ph where "ph \<in> set L" using Ls(2) by (cases L) auto
  then have vok2: "vm_ok root (v\<lparr>pmem := m\<rparr>)" and shown: "\<forall>ph \<in> set L. seg_shown ?F root f (v\<lparr>pmem := m\<rparr>) ph"
    using K by blast+
  have root: "root \<noteq> 0" using ready root_nonzero by (auto simp: space_ready_def)
  let ?t3 = "?t2\<lparr>vm := (vm ?t2)\<lparr>cr3 := root\<rparr>, tss_rsp0 := kernel_stacks (img a) + KERNEL_STACK_SIZE\<rparr>"
  have p2: "p_pml4 (processes ?t2 ! 0) = root" "p_kernel_stack (processes ?t2 ! 0) = kernel_stacks (img a) + KERNEL_STACK_SIZE"
    using init2 by (simp_all add: only_init_def proc_def)
  have "sc (krn (enter_init a 0 ?e ?k1)) = ?t3"
    using p2 root by (simp add: enter_init_def Let_def upd_krn_def say_line_def say_def vmm_switch_pml4_def set_kernel_stack_def del: kprint.simps)
  moreover have "frame_words ?t3 0 = frame_words ?t2 0" by (simp add: frame_words_def proc_def)
  moreover have "seg_shown ?F root f (v\<lparr>pmem := m, cr3 := root\<rparr>) ph = seg_shown ?F root f (v\<lparr>pmem := m\<rparr>) ph" for ph
    by (simp add: seg_shown_def shows_byte_def)
  ultimately have "init_ready a root f L ?F (sc (krn (enter_init a 0 ?e ?k1)))"
    using init2 shown vok2 by (simp add: init_ready_def only_init_def m(1) proc_def table_ok_def vm_ok_def)
  moreover have "load_init a 0 start ?n k = Ret () (enter_init a 0 ?e ?k1)"
    unfolding load_init_def Let_def n f(1) [symmetric] using v(1) f(3) e by (simp add: upd_krn_def)
  ultimately show ?thesis by blast
qed

section \<open>From power on to the first tick\<close>

lemma first_tick:
  assumes "init_ready a root f L F t"
  shows "\<exists>s. schedule e t = Ret (kernel_stacks (img a) + KERNEL_STACK_SIZE - 160) s \<and> vm s = vm t \<and> tss_rsp0 s = tss_rsp0 t \<and>
    current_process_idx s = 0 \<and> proc s 0 = (proc t 0)\<lparr>p_state := RUNNING\<rparr> \<and> frame_words s 0 = frame_words t 0"
proof -
  have t: "table_ok t" "current_process_idx t = 0" "p_state (proc t 0) = READY" "p_esp (proc t 0) = kernel_stacks (img a) + KERNEL_STACK_SIZE - 160"
    "\<And>j. j < MAX_PROCESSES \<Longrightarrow> j \<noteq> 0 \<Longrightarrow> p_state (proc t j) = TERMINATED"
    using assms by (simp_all add: init_ready_def only_init_def)
  have n: "next_ready t = None" unfolding next_ready_None [OF t(1)] using t(2,5) by auto
  let ?s = "upd_proc 0 (\<lambda>p. p\<lparr>p_state := RUNNING\<rparr>) t"
  have "0 < length (processes t)" using t(1) by (simp add: table_ok_def MAX_PROCESSES_def)
  then have p: "proc ?s 0 = (proc t 0)\<lparr>p_state := RUNNING\<rparr>" by (simp add: proc_upd_proc)
  have "schedule e t = Ret (kernel_stacks (img a) + KERNEL_STACK_SIZE - 160) ?s" using schedule_stay [OF t(1) n, of e] t(2,3,4) by simp
  then show ?thesis using p t(2) by (intro exI [of _ ?s]) (simp add: frame_words_def)
qed

lemma boot_module_ready:
  assumes lay: "boot_layout a" and sh: "table_shape (sc (krn l))" and mem: "memory_booted a m fr (vm (sc (krn l)))" and ab: "above_kernel a fr"
    and g: "init_given a mb m mods n start f" and used: "\<And>i. i < length f \<Longrightarrow> frame_of (start + of_nat i) \<notin> free_pages fr"
    and prog: "program_ok f L" and enough: "6 + 4 * (\<Sum>ph\<leftarrow>L. seg_pages ph) \<le> card (free_pages fr)"
  shows "\<exists>k' root. boot_module a mods n l = Ret () k' \<and> init_ready a root f L (free_pages fr) (sc (krn k'))"
proof -
  have G: "0 < n" "0x7000 \<le> unat mods" "start = ucast (rd32 m mods)" "kernel_end a \<le> start" "f \<noteq> []"
      "ucast (rd32 m (mods + 4)) = start + of_nat (length f)" "unat start + length f < 2 ^ 32" "f = rd_bytes m start (length f)"
      "unat mods < 2 ^ 32" "\<And>t. t \<in> set (boot_table_list a) \<Longrightarrow> unat mods + 8 \<le> unat t \<or> unat t + 4096 \<le> unat mods"
    using g unat_ucast_u32 by (auto simp: init_given_def)
  have high: "pmem (vm (sc (krn l))) x = m x" if "0x7000 \<le> unat x" "frame_of x \<notin> table_pages a" for x
    using mem that by (simp add: memory_booted_def)
  have list: "pmem (vm (sc (krn l))) (mods + of_nat i) = m (mods + of_nat i)" if "i < 8" for i
  proof (rule high)
    have u: "unat (mods + of_nat i) = unat mods + i" using that G(9) by (simp add: unat_word_ariths unat_of_nat_u64)
    then show "0x7000 \<le> unat (mods + of_nat i)" using G(2) by simp
    have "frame_of (mods + of_nat i) \<noteq> frame_of t" if "t \<in> set (boot_table_list a)" for t
      using G(10) [OF that] lay that \<open>i < 8\<close> page_aligned_bounds [of t "mods + of_nat i"] u by (auto simp: boot_layout_def)
    then show "frame_of (mods + of_nat i) \<notin> table_pages a" by (auto simp: table_pages_def)
  qed
  have rd: "rd32 (pmem (vm (sc (krn l)))) mods = rd32 m mods" "rd32 (pmem (vm (sc (krn l)))) (mods + 4) = rd32 m (mods + 4)"
  proof -
    have "rd_bytes (pmem (vm (sc (krn l)))) (mods + of_nat k) 4 = rd_bytes m (mods + of_nat k) 4" if "k \<le> 4" for k
      using list [of "k + _"] that by (auto simp: rd_bytes_def add.assoc)
    from this [of 0] this [of 4] show "rd32 (pmem (vm (sc (krn l)))) mods = rd32 m mods" "rd32 (pmem (vm (sc (krn l)))) (mods + 4) = rd32 m (mods + 4)"
      by (simp_all add: rd32_def)
  qed
  have "pml4_table a \<in> set (boot_table_list a)" by (simp add: boot_table_list_def)
  then have k0: "0x7000 \<le> unat (kernel_end a)" using lay unfolding boot_layout_def by force
  have ke: "unat (kernel_end a) \<le> unat start" using G(4) by (simp add: word_le_nat_alt)
  have off: "unat (start + of_nat i) = unat start + i" if "i < length f" for i
    using that G(7) by (simp add: unat_word_ariths unat_of_nat_u64)
  have bytes: "pmem (vm (sc (krn l))) (start + of_nat i) = m (start + of_nat i) \<and> \<not> in_stacks a (start + of_nat i)" if "i < length f" for i
  proof -
    have A: "0x7000 \<le> unat (start + of_nat i)" using off [OF that] ke k0 by linarith
    have "frame_of (start + of_nat i) \<noteq> frame_of t" if "t \<in> set (boot_table_list a)" for t
    proof -
      have "page_aligned t" "unat t + 4096 \<le> unat (kernel_end a)" using lay that by (auto simp: boot_layout_def)
      then show ?thesis using off [OF \<open>i < length f\<close>] ke page_aligned_bounds [of t "start + of_nat i"] by auto
    qed
    then have B: "frame_of (start + of_nat i) \<notin> table_pages a" by (auto simp: table_pages_def)
    show ?thesis using high [OF A B] off [OF that] ke lay by (simp add: in_stacks_def boot_layout_def)
  qed
  obtain root t where c: "create_process (kernel_stacks (img a)) (user_stacks (img a)) 0 (scheduler_init (sc (krn l))) = (1, t)"
    "get_process_by_pid 1 t = Some 0" "only_init a root 0 t" "space_ready root (4 * (\<Sum>ph\<leftarrow>L. seg_pages ph)) (vm t)"
    "table_frames (pmem (vm t)) root \<subseteq> free_pages fr" "free_pages (frames (vm t)) \<subseteq> free_pages fr"
    "\<And>x. frame_of x \<notin> free_pages fr \<Longrightarrow> \<not> in_stacks a x \<Longrightarrow> pmem (vm t) x = pmem (vm (sc (krn l))) x"
    by (rule first_process [OF lay sh mem ab enough], rule that)
  have start: "start \<noteq> 0" using ke lay by (auto simp: boot_layout_def)
  let ?l1 = "say_line a ''Found binary module'' 0 l"
  let ?l2 = "say_line a ''Scheduler initialized'' 0 (upd_krn (\<lambda>q. q\<lparr>sc := scheduler_init (sc q)\<rparr>) ?l1)"
  define l3 where "l3 = upd_krn (\<lambda>q. q\<lparr>sc := t\<rparr>) ?l2"
  have s2: "sc (krn ?l2) = scheduler_init (sc (krn l))"
    by (simp add: say_line_def say_def upd_krn_def del: kprint.simps)
  have s3: "sc (krn l3) = t" by (simp add: l3_def upd_krn_def)
  have f3: "f = rd_bytes (pmem (vm t)) start (length f)"
    by (subst G(8), rule nth_equalityI) (use c(7) used bytes in \<open>simp_all add: rd_bytes_def\<close>)
  have len: "length f < 2 ^ 32" using G(7) by simp
  have "\<exists>k'. load_init a 0 start (of_nat (length f)) l3 = Ret () k' \<and> init_ready a root f L (free_pages fr) (sc (krn k'))"
    by (rule load_init_ready [where k = l3, unfolded s3, OF lay ab c(3-6) f3 len start used prog])
  then obtain k' where k': "load_init a 0 start (of_nat (length f)) l3 = Ret () k'" "init_ready a root f L (free_pages fr) (sc (krn k'))" by blast
  have si: "start_init a start (of_nat (length f)) ?l1 = Ret () k'"
    unfolding start_init_def Let_def s2 c(1) prod.case l3_def [symmetric] using k'(1) c(2) s3 by simp
  have "start < start + of_nat (length f)" using G(5,7) by (simp add: word_less_nat_alt unat_word_ariths unat_of_nat_u64)
  then have "boot_module a mods n l = Ret () (say_line a ''sti done :)'' 0 (kprint_logo a (say_line a ''Timer initialized'' 0 (init_timer 100 k'))))"
    using G(1,2) si by (auto simp: boot_module_def Let_def rd G(3) [symmetric] G(6))
  moreover have "draws_only k' (say_line a ''sti done :)'' 0 (kprint_logo a (say_line a ''Timer initialized'' 0 (init_timer 100 k'))))"
    by (rule draws_only_trans [OF draws_ports(5) draws_only_trans [OF draws_say(2) draws_only_trans [OF draws_logo draws_say(2)]]])
  ultimately show ?thesis using k'(2) by (auto simp: draws_only_def)
qed

lemma boot_returns:
  assumes "powered_on k" and "boot_layout a" and "init_given a mb (pmem (vm (sc (krn k)))) mods n start f"
    and "program_ok f L" and "6 + 4 * (\<Sum>ph\<leftarrow>L. seg_pages ph) \<le> card (free_pages (frames (reserve_boot a mb mods n (vm (sc (krn k))))))"
    and "mount_disk a (boot_hardware a mb mods n k) = Ret () l"
  shows "\<exists>k' root F. kernel a 0x2BADB002 mb k = Ret () k' \<and> init_ready a root f L F (sc (krn k'))"
proof -
  let ?m = "pmem (vm (sc (krn k)))" and ?v1 = "reserve_boot a mb mods n (vm (sc (krn k)))"
  let ?fr = "frames ?v1"
  have g: "mb \<noteq> 0" "unat mb < 2 ^ 32" "bit (rd32 ?m mb) 3" "n = rd32 ?m (mb + 20)" "0 < n" "mods = ucast (rd32 ?m (mb + 24))" "mods \<noteq> 0"
    "start = ucast (rd32 ?m mods)" "kernel_end a \<le> start" "ucast (rd32 ?m (mods + 4)) = start + of_nat (length f)" "unat start + length f < 2 ^ 32"
    "unat mods < 2 ^ 32" using assms(3) unat_ucast_u32 by (auto simp: init_given_def)
  obtain v where v: "sc (krn (boot_hardware a mb mods n k)) = (sc (krn k))\<lparr>vm := v\<rparr>" "memory_booted a ?m ?fr v"
    using boot_memory [OF assms(1-3)] by blast
  have bm: "bitmap_ok (frames (vm (sc (krn k))))" using assms(1) by (simp add: powered_on_def)
  note F = reserve_boot_frames [OF assms(2) bm g(2) g(12,7,5)]
  have ab: "above_kernel a ?fr" using F(2) by (simp add: above_kernel_def)
  have used: "frame_of (start + of_nat i) \<notin> free_pages ?fr" if "i < length f" for i
    by (rule F(3)) (use that g(11) in \<open>simp_all add: g(8) [symmetric] g(10) word_le_nat_alt word_less_nat_alt unat_word_ariths unat_of_nat_u64\<close>)
  have "boot_ok (boot_hardware a mb mods n k)" and sh: "table_shape (sc (krn (boot_hardware a mb mods n k)))"
    using boot_hardware_ok [OF assms(1)] by blast+
  from mount_disk_ok [OF this(1), of a] have sl: "sc (krn l) = (sc (krn k))\<lparr>vm := v\<rparr>" using v(1) by (simp add: assms(6))
  have "table_shape (sc (krn l))" "memory_booted a ?m ?fr (vm (sc (krn l)))" using sh v by (simp_all add: sl)
  from boot_module_ready [OF assms(2) this ab assms(3) used assms(4,5)] obtain k' root where
    k': "boot_module a mods n l = Ret () k'" "init_ready a root f L (free_pages ?fr) (sc (krn k'))" by blast
  have "kernel a 0x2BADB002 mb k = Ret () k'"
    using g(1,3,5) assms(6) k'(1) unfolding g(4,6) by (simp add: kernel_def Let_def)
  with k'(2) show ?thesis by blast
qed

section \<open>Properties\<close>


text \<open>A machine with a boot loader's tables at \<open>0x8000\<close> and the program at 2 MiB.\<close>

definition demo_args :: boot_args where
  "demo_args = \<lparr>img = boot_addrs\<lparr>kernel_stacks := 0x110000, user_stacks := 0x120000\<rparr>, kernel_end = 0x130000,
    pml4_table = 0x100000, pdp_table = 0x101000, pd_tables = (\<lambda>i. 0x102000 + of_nat i * 0x1000), idt_addr = 0x106000,
    stubs = (\<lambda>i. 0x107000 + of_nat i * 16), syscall_stub = 0x108000, pci = (\<lambda>_. 0xFFFFFFFF), ahci_disks = 0, ahci_device = False,
    image_width = 0, image_height = 0, image_data = (\<lambda>_. 0)\<rparr>"

definition demo_info :: "u8 list" where
  "demo_info = [8, 0, 0, 0] @ replicate 16 0 @ [1, 0, 0, 0, 0x20, 0x80, 0, 0] @ replicate 4 0 @ [0, 0, 0x20, 0, 0x7C, 0, 0x20, 0]"

definition demo_memory :: mem where
  "demo_memory = wr_bytes (wr_bytes (\<lambda>_. 0) 0x8000 demo_info) 0x200000 demo_elf"

definition demo_machine :: machine where
  "demo_machine = \<lparr>krn = \<lparr>sc = \<lparr>vm = \<lparr>pmem = demo_memory, frames = replicate 4096 0, kernel_pml4 = 0, cr3 = 0, invlpg_log = []\<rparr>,
      processes = replicate 8 no_process, current_process_idx = 0, next_pid = 0, tss_rsp0 = 0\<rparr>,
    fsys = small_fs\<lparr>icache := replicate 50 no_inode\<rparr>, kb = boot_kbd, con = \<lparr>fb = (\<lambda>_. 0), cursor_x = 0, cursor_y = 0\<rparr>,
    ram = \<lparr>ramdisk = None, ram_magic = 0, ram_file_count = 0\<rparr>, fb_addr = 0, elf_load_buffer = []\<rparr>,
    idts = \<lparr>idt = (\<lambda>_. \<lparr>i_base_low = 0, i_sel = 0, i_ist = 0, i_flags = 0, i_base_mid = 0, i_base_high = 0, i_reserved = 0\<rparr>),
      ip_limit = 0, ip_base = 0\<rparr>, gpu_mmio_base = 0, ports = []\<rparr>"

lemma demo_powered_on: "powered_on demo_machine"
  by (simp add: powered_on_def demo_machine_def files_zero_def fs_wf_def cache_wf_def small_fs_def ino_def no_inode_def empty_cache_def
      XV6FS_NBUF_def BSIZE_def NINODE_def NDIRECT_def small_disk_def boot_kbd_ok bitmap_ok_def MAX_PAGES_eq MAX_PROCESSES_def no_process_def)

lemma demo_layout: "boot_layout demo_args"
  by (simp add: boot_layout_def boot_table_list_eq demo_args_def boot_addrs_def page_aligned_def aligned8_def)

lemma demo_word:
  assumes "k + 4 \<le> 40" shows "rd32 demo_memory (0x8000 + of_nat k) = ucast (le_val (take 4 (drop k demo_info)))"
proof -
  have l: "length demo_elf = 124" "length demo_info = 40" by (simp_all add: demo_elf_def demo_info_def)
  have u: "unat (0x8000 + of_nat (k + i) :: u64) = 0x8000 + k + i" if "i < 4" for i
    using assms that by (simp add: unat_word_ariths unat_of_nat_u64 del: of_nat_add)
  have "demo_memory (0x8000 + of_nat (k + i)) = demo_info ! (k + i)" if "i < 4" for i
  proof -
    have "\<not> unat ((0x8000 + of_nat (k + i)) - 0x200000 :: u64) < 124"
      using near_word [of "0x8000 + of_nat (k + i)" "0x200000" 124] u [OF that] assms that by (auto simp del: of_nat_add)
    moreover have "unat ((0x8000 + of_nat (k + i)) - 0x8000 :: u64) = k + i"
      using assms that by (simp add: unat_of_nat_u64 del: of_nat_add)
    ultimately show ?thesis using assms that unfolding demo_memory_def by (simp add: wr_bytes_apply l del: of_nat_add)
  qed
  then have "rd_bytes demo_memory (0x8000 + of_nat k) 4 = take 4 (drop k demo_info)"
    by (intro nth_equalityI) (use assms l in \<open>simp_all add: rd_bytes_def add.assoc\<close>)
  then show ?thesis by (simp add: rd32_def)
qed

lemma demo_words:
  "rd32 demo_memory 0x8000 = 8" "rd32 demo_memory 0x8014 = 1" "rd32 demo_memory 0x8018 = 0x8020"
  "rd32 demo_memory 0x8020 = 0x200000" "rd32 demo_memory 0x8024 = 0x20007C"
  using demo_word [of 0] demo_word [of 20] demo_word [of 24] demo_word [of 32] demo_word [of 36]
  by (simp_all add: demo_info_def)

lemma demo_file: "rd_bytes demo_memory 0x200000 124 = demo_elf"
proof -
  have "length demo_elf = 124" by (simp add: demo_elf_def)
  then show ?thesis using rd_wr_bytes_same [of demo_elf "wr_bytes (\<lambda>_. 0) 0x8000 demo_info" "0x200000"] by (simp add: demo_memory_def)
qed

lemma demo_given: "init_given demo_args 0x8000 (pmem (vm (sc (krn demo_machine)))) 0x8020 1 0x200000 demo_elf"
proof -
  have m: "pmem (vm (sc (krn demo_machine))) = demo_memory" by (simp add: demo_machine_def)
  have l: "length demo_elf = 124" by (simp add: demo_elf_def)
  show ?thesis unfolding m init_given_def boot_table_list_eq
    by (simp add: demo_words l demo_file demo_args_def) (simp add: demo_elf_def)
qed

lemma demo_frames: "{0x300..<0x310} \<subseteq> free_pages (frames (reserve_boot demo_args 0x8000 0x8020 1 (vm (sc (krn demo_machine)))))"
proof -
  let ?b0 = "pmm_init (replicate 4096 0) 0x130"
  let ?b1 = "pmm_reserve_region ?b0 0x8000 0x801C"
  let ?b2 = "pmm_reserve_region ?b1 0x8020 0x8030"
  let ?b3 = "pmm_reserve_region ?b2 0x200000 0x20007C"
  have b: "bitmap_ok (replicate 4096 0)" by (simp add: bitmap_ok_def MAX_PAGES_eq)
  have "reserve_modules demo_memory 0x8020 1 ?b2 = ?b3" by (simp add: reserve_modules_def Let_def demo_words)
  then have "frames (reserve_boot demo_args 0x8000 0x8020 1 (vm (sc (krn demo_machine)))) = ?b3"
    by (simp add: reserve_boot_def Let_def demo_machine_def demo_args_def)
  moreover have "n \<in> free_pages ?b3" if "n \<in> {0x300..<0x310}" for n
  proof -
    have keep: "n \<in> free_pages (pmm_reserve_region b s e)" if "bitmap_ok b" "n \<in> free_pages b" "unat e \<le> 0x200080" for b s e
      using that \<open>n \<in> {0x300..<0x310}\<close> by (simp add: free_pages_reserve)
    have "n \<in> free_pages ?b0" using free_pages_pmm_init [OF b, of "0x130"] that by (simp add: MAX_PAGES_eq)
    moreover have "bitmap_ok ?b0" using free_pages_pmm_init [OF b, of "0x130"] by simp
    ultimately show ?thesis by (intro keep) simp_all
  qed
  ultimately show ?thesis by auto
qed

lemma demo_program: "program_ok demo_elf [\<lparr>ph_type = 1, ph_flags = 5, ph_offset = 120, ph_vaddr = 0x400FFE, ph_filesz = 4, ph_memsz = 8\<rparr>]"
proof -
  have l: "length demo_elf = 124" by (simp add: demo_elf_def)
  show ?thesis
    by (simp add: program_ok_def l demo_elf_facts demo_elf_segments [simplified] seg_fits_def segment_ok_def seg_page_list_def)
qed

lemma demo_boot:
  obtains l where "mount_disk demo_args (boot_hardware demo_args 0x8000 0x8020 1 demo_machine) = Ret () l"
    "6 + 4 * (\<Sum>ph\<leftarrow>[\<lparr>ph_type = 1, ph_flags = 5, ph_offset = 120, ph_vaddr = 0x400FFE, ph_filesz = 4, ph_memsz = 8\<rparr>]. seg_pages ph)
      \<le> card (free_pages (frames (reserve_boot demo_args 0x8000 0x8020 1 (vm (sc (krn demo_machine))))))"
proof -
  have "\<exists>l. mount_disk demo_args k = Ret () l" for k by (simp add: mount_disk_def demo_args_def)
  moreover have "16 \<le> card (free_pages (frames (reserve_boot demo_args 0x8000 0x8020 1 (vm (sc (krn demo_machine))))))"
    using card_mono [OF finite_free_pages demo_frames] by simp
  ultimately show thesis using that by (auto simp: seg_pages_def seg_first_def)
qed




end
