(* ===== verification/FsContent.thy ===== *)
theory FsContent
  imports FsBlocks
begin

text \<open>
  The contents of a file.  The blocks of a file form a tree of depth three below the 14
  addresses of its inode; \<open>bpath n\<close> is the path of block \<open>n\<close> and \<open>node\<close> follows a path on the disk.
  What \<open>readi\<close> of \<open>kernel/xv6fs/fs.c\<close> returns is stated over the bytes the tree holds.
\<close>

section \<open>The tree of blocks\<close>

definition bpath :: "nat \<Rightarrow> nat list" where
  "bpath n = (if n < NDIRECT then [n] else if n < NDIRECT + NINDIRECT then [NDIRECT, n - NDIRECT]
    else [NDIRECT + 1, (n - NDIRECT - NINDIRECT) div NINDIRECT, (n - NDIRECT - NINDIRECT) mod NINDIRECT])"

primrec walk :: "(u32 \<Rightarrow> u8 list) \<Rightarrow> u32 \<Rightarrow> nat list \<Rightarrow> u32" where
  "walk d b [] = b"
| "walk d b (k # ks) = walk d (get32 (4 * k) (d b)) ks"

fun node :: "(u32 \<Rightarrow> u8 list) \<Rightarrow> u32 list \<Rightarrow> nat list \<Rightarrow> u32" where
  "node d addrs [] = 0"
| "node d addrs (i # ks) = walk d (addrs ! i) ks"

lemma walk_snoc: "walk d b (ks @ [k]) = get32 (4 * k) (d (walk d b ks))"
  by (induction ks arbitrary: b) simp_all

lemma node_snoc: "p \<noteq> [] \<Longrightarrow> node d addrs (p @ [k]) = get32 (4 * k) (d (node d addrs p))"
  by (cases p) (simp_all add: walk_snoc)

text \<open>Block \<open>n\<close> of the file exists: no address on its path is 0.\<close>

definition mapped :: "(u32 \<Rightarrow> u8 list) \<Rightarrow> u32 list \<Rightarrow> nat \<Rightarrow> bool" where
  "mapped d addrs n \<longleftrightarrow> n < MAXFILE \<and> (\<forall>p. p \<noteq> [] \<and> prefix p (bpath n) \<longrightarrow> node d addrs p \<noteq> 0)"

definition file_byte :: "(u32 \<Rightarrow> u8 list) \<Rightarrow> u32 list \<Rightarrow> nat \<Rightarrow> u8" where
  "file_byte d addrs k = d (node d addrs (bpath (k div BSIZE))) ! (k mod BSIZE)"

definition file_bytes :: "(u32 \<Rightarrow> u8 list) \<Rightarrow> u32 list \<Rightarrow> nat \<Rightarrow> u8 list" where
  "file_bytes d addrs sz = map (file_byte d addrs) [0..<sz]"

section \<open>Reading\<close>

lemma mapped_prefix: "mapped d addrs n \<Longrightarrow> p \<noteq> [] \<Longrightarrow> prefix p (bpath n) \<Longrightarrow> node d addrs p \<noteq> 0"
  by (simp add: mapped_def)

lemma bmap_mapped:
  assumes s: "fs_ok s" and dev: "i_dev (ino ip s) = 0" and m: "mapped (dsk s) (i_addrs (ino ip s)) (unat bno)"
  obtains t where "bmap ip bno s = Ret (node (dsk s) (i_addrs (ino ip s)) (bpath (unat bno))) t" "to_disk s t (dsk s)"
proof -
  let ?n = "unat bno" and ?a = "i_addrs (ino ip s)"
  have n: "?n < MAXFILE" using m by (simp add: mapped_def)
  have slot: "addr_slot ip k s = Ret (?a ! k) s" if "prefix [k] (bpath ?n)" for k
    using mapped_prefix [OF m _ that] by (simp add: addr_slot_def)
  have entry: "entry_slot 0 i k t = Ret (get32 (4 * k) (dsk s b)) t"
    if "bdata i t = dsk s b" "get32 (4 * k) (dsk s b) \<noteq> 0" for i k b t
    using that by (simp add: entry_slot_def)
  consider (dir) "?n < NDIRECT" | (ind) "NDIRECT \<le> ?n" "?n - NDIRECT < NINDIRECT"
    | (dbl) "NDIRECT \<le> ?n" "NINDIRECT \<le> ?n - NDIRECT" "?n - NDIRECT - NINDIRECT < NDINDIRECT"
    using n unfolding MAXFILE_def by linarith
  then show thesis
  proof cases
    case dir
    then show thesis using that [of s] slot [of ?n] to_disk_refl [OF s] by (simp add: bmap_def bpath_def Let_def)
  next
    case ind
    then have p: "bpath ?n = [NDIRECT, ?n - NDIRECT]" by (auto simp: bpath_def)
    obtain i t where t: "fs_bread 0 (?a ! NDIRECT) s = Ret i t" "to_disk s t (dsk s)" "bdata i t = dsk s (?a ! NDIRECT)"
      using fs_bread_ok [OF s] by metis
    have "get32 (4 * (?n - NDIRECT)) (dsk s (?a ! NDIRECT)) \<noteq> 0" using mapped_prefix [OF m, of "bpath ?n"] by (simp add: p)
    with ind t entry [OF t(3)] show thesis
      using that [of t] slot [of NDIRECT] dev by (simp add: bmap_def p Let_def to_disk_sel(5) [OF t(2)])
  next
    case dbl
    let ?m = "?n - NDIRECT - NINDIRECT"
    have p: "bpath ?n = [NDIRECT + 1, ?m div NINDIRECT, ?m mod NINDIRECT]" using dbl by (auto simp: bpath_def)
    obtain i t where t: "fs_bread 0 (?a ! (NDIRECT + 1)) s = Ret i t" "to_disk s t (dsk s)"
        "bdata i t = dsk s (?a ! (NDIRECT + 1))" using fs_bread_ok [OF s] by metis
    let ?b = "get32 (4 * (?m div NINDIRECT)) (dsk s (?a ! (NDIRECT + 1)))"
    have st: "fs_ok t" "dsk t = dsk s" using to_disk_sel [OF t(2)] by simp_all
    obtain j u where u: "fs_bread 0 ?b t = Ret j u" "to_disk t u (dsk s)" "bdata j u = dsk s ?b"
      using fs_bread_ok [OF st(1)] st(2) by metis
    have "?b \<noteq> 0" using mapped_prefix [OF m, of "[NDIRECT + 1, ?m div NINDIRECT]"] by (simp add: p)
    moreover have "get32 (4 * (?m mod NINDIRECT)) (dsk s ?b) \<noteq> 0" using mapped_prefix [OF m, of "bpath ?n"] by (simp add: p)
    ultimately show thesis
      using that [of u] dbl t u slot [of "NDIRECT + 1"] entry [OF t(3)] entry [OF u(3)] dev to_disk_trans [OF t(2) u(2)]
      by (simp add: bmap_def p Let_def to_disk_sel(5) [OF t(2)] to_disk_sel(5) [OF u(2)])
  qed
qed

lemma same_block:
  assumes "off mod BSIZE + i < BSIZE"
  shows "(off + i) div BSIZE = off div BSIZE" "(off + i) mod BSIZE = off mod BSIZE + i"
proof -
  have e: "off + i = (off mod BSIZE + i) + off div BSIZE * BSIZE" by simp
  have "(r + q * b) div b = q \<and> (r + q * b) mod b = r" if "r < b" for r q b :: nat using that by simp
  from this [OF assms, of "off div BSIZE"]
  show "(off + i) div BSIZE = off div BSIZE" "(off + i) mod BSIZE = off mod BSIZE + i"
    unfolding e [symmetric] by blast+
qed

lemma file_bytes_block:
  assumes "length (d (node d addrs (bpath (off div BSIZE)))) = BSIZE" "m \<le> BSIZE - off mod BSIZE"
  shows "get_bytes (off mod BSIZE) m (d (node d addrs (bpath (off div BSIZE)))) = map (file_byte d addrs) [off..<off + m]"
proof (rule nth_equalityI)
  show "length (get_bytes (off mod BSIZE) m (d (node d addrs (bpath (off div BSIZE))))) = length (map (file_byte d addrs) [off..<off + m])"
    using assms by (simp add: get_bytes_def BSIZE_def)
  fix i assume "i < length (get_bytes (off mod BSIZE) m (d (node d addrs (bpath (off div BSIZE)))))"
  then have i: "i < m" "off mod BSIZE + i < BSIZE" using assms by (simp_all add: get_bytes_def)
  then show "get_bytes (off mod BSIZE) m (d (node d addrs (bpath (off div BSIZE)))) ! i = map (file_byte d addrs) [off..<off + m] ! i"
    using assms by (simp add: get_bytes_def file_byte_def same_block)
qed

lemma readi_loop_content:
  assumes "fs_ok s" "i_dev (ino ip s) = 0" "\<And>j. j < n \<Longrightarrow> mapped (dsk s) (i_addrs (ino ip s)) ((off + j) div BSIZE)"
  shows "\<exists>t. readi_loop ip off n s = Ret (map (file_byte (dsk s) (i_addrs (ino ip s))) [off..<off + n]) t \<and> to_disk s t (dsk s)"
  using assms
proof (induction n arbitrary: off s rule: less_induct)
  case (less n)
  let ?a = "i_addrs (ino ip s)" and ?d = "dsk s"
  define m where "m = min n (BSIZE - off mod BSIZE)"
  show ?case
  proof (cases "n = 0")
    case True
    then show ?thesis using to_disk_refl [OF less.prems(1)] by (simp add: readi_loop.simps)
  next
    case False
    have m0: "0 < m" "m \<le> n" "m \<le> BSIZE - off mod BSIZE" using False by (simp_all add: m_def BSIZE_def)
    have mp: "mapped ?d ?a (off div BSIZE)" using less.prems(3) [of 0] False by simp
    then have un: "unat (of_nat (off div BSIZE) :: u32) = off div BSIZE"
      by (intro unat_of_nat_u32) (simp add: mapped_def layout_defs)
    obtain t where t: "bmap ip (of_nat (off div BSIZE)) s = Ret (node ?d ?a (bpath (off div BSIZE))) t" "to_disk s t ?d"
      using bmap_mapped [OF less.prems(1,2), of "of_nat (off div BSIZE)"] mp un by metis
    have st: "fs_ok t" "dsk t = ?d" "ino ip t = ino ip s" using to_disk_sel [OF t(2)] by simp_all
    obtain i u where u: "fs_bread 0 (node ?d ?a (bpath (off div BSIZE))) t = Ret i u" "to_disk t u ?d"
        "bdata i u = ?d (node ?d ?a (bpath (off div BSIZE)))" using fs_bread_ok [OF st(1)] st(2) by metis
    have su: "fs_ok u" "dsk u = ?d" "ino ip u = ino ip s" using to_disk_sel [OF u(2)] st by simp_all
    have "\<exists>w. readi_loop ip (off + m) (n - m) u = Ret (map (file_byte ?d ?a) [off + m..<off + m + (n - m)]) w \<and> to_disk u w ?d"
      unfolding su(2,3) [symmetric]
    proof (rule less.IH)
      show "mapped (dsk u) (i_addrs (ino ip u)) ((off + m + j) div BSIZE)" if "j < n - m" for j
        using less.prems(3) [of "m + j"] that by (simp add: su add.assoc)
    qed (use su m0 less.prems(2) False in simp_all)
    then obtain w where w: "readi_loop ip (off + m) (n - m) u = Ret (map (file_byte ?d ?a) [off + m..<off + n]) w" "to_disk u w ?d"
      using m0 by auto
    have "get_bytes (off mod BSIZE) m (bdata i u) = map (file_byte ?d ?a) [off..<off + m]"
      unfolding u(3) by (rule file_bytes_block) (use dsk_length [OF less.prems(1)] m0 in simp_all)
    moreover have "[off..<off + m] @ [off + m..<off + n] = [off..<off + n]"
      using upt_add_eq_append [of off "off + m" "n - m"] m0 by simp
    ultimately show ?thesis
      using False t u w less.prems(2) to_disk_trans [OF t(2) to_disk_trans [OF u(2) w(2)]]
      by (subst readi_loop.simps) (simp add: st(3) Let_def m_def [symmetric] map_append [symmetric] del: map_append)
  qed
qed

text \<open>An inode of the table that is a file or a directory, all its blocks present.\<close>

definition readable :: "fs \<Rightarrow> nat \<Rightarrow> bool" where
  "readable s ip \<longleftrightarrow> fs_ok s \<and> i_dev (ino ip s) = 0 \<and> i_type (ino ip s) \<noteq> T_DEV \<and>
    (\<forall>k < unat (i_size (ino ip s)). mapped (dsk s) (i_addrs (ino ip s)) (k div BSIZE))"

abbreviation contents :: "fs \<Rightarrow> nat \<Rightarrow> u8 list" where
  "contents s ip \<equiv> file_bytes (dsk s) (i_addrs (ino ip s)) (unat (i_size (ino ip s)))"

lemma readi_ok:
  assumes "readable s ip" "unat off \<le> unat (i_size (ino ip s))" "unat off + unat n < 2 ^ 32"
  obtains t where "readi ip off n s = Ret (Some (take (unat n) (drop (unat off) (contents s ip)))) t" "to_disk s t (dsk s)"
proof -
  let ?sz = "i_size (ino ip s)"
  let ?n = "if off + n > ?sz then ?sz - off else n"
  have o: "\<not> off > ?sz" "\<not> off + n < off" "unat (off + n) = unat off + unat n"
    using assms(2,3) by (simp_all add: word_less_nat_alt unat_plus_simple unat_add_lem [THEN iffD1])
  have n: "unat ?n = min (unat n) (unat ?sz - unat off)"
    using assms(2) o(3) by (auto simp: word_less_nat_alt unat_sub word_le_nat_alt)
  have bd: "\<And>j. j < unat ?n \<Longrightarrow> mapped (dsk s) (i_addrs (ino ip s)) ((unat off + j) div BSIZE)"
    using assms(1) unfolding n readable_def by (simp add: less_diff_conv)
  obtain t where t: "readi_loop ip (unat off) (unat ?n) s =
      Ret (map (file_byte (dsk s) (i_addrs (ino ip s))) [unat off..<unat off + unat ?n]) t" "to_disk s t (dsk s)"
    using readi_loop_content [OF _ _ bd] assms(1) by (auto simp: readable_def)
  have "map (file_byte (dsk s) (i_addrs (ino ip s))) [unat off..<unat off + unat ?n] = take (unat n) (drop (unat off) (contents s ip))"
    unfolding n using assms(2) by (intro nth_equalityI) (simp_all add: file_bytes_def less_diff_conv add.commute)
  with t show thesis
    using that [of t] o(1,2) assms(1) by (simp add: readi_def Let_def readable_def)
qed

section \<open>Properties\<close>

text \<open>C13: 
  \<open>readi\<close> returns the bytes of the file: for an offset inside it or at its end the bytes from there on,
  at most \<open>n\<close> of them, across direct, indirect and doubly indirect blocks; for an offset past the
  end, or when \<open>off + n\<close> wraps around, it fails.  The disk and the inode stay as they are.
\<close>

theorem readi_returns_contents:
  assumes "readable s ip"
  shows "\<exists>t. readi ip off n s =
      Ret (if unat off \<le> unat (i_size (ino ip s)) \<and> unat off + unat n < 2 ^ 32
        then Some (take (unat n) (drop (unat off) (contents s ip))) else None) t \<and>
    dsk t = dsk s \<and> ino ip t = ino ip s \<and> fs_ok t"
proof (cases "unat off \<le> unat (i_size (ino ip s)) \<and> unat off + unat n < 2 ^ 32")
  case True
  then obtain t where "readi ip off n s = Ret (Some (take (unat n) (drop (unat off) (contents s ip)))) t" "to_disk s t (dsk s)"
    using readi_ok [OF assms, of off n] by blast
  then show ?thesis using True to_disk_sel [of s t] by (intro exI [of _ t]) simp
next
  case False
  moreover have "unat (off + n) < 2 ^ 32" using unsigned_less [of "off + n", where ?'a = nat] by simp
  ultimately have "off > i_size (ino ip s) \<or> off + n < off"
    using unat_plus_simple [of off n] by (auto simp: word_less_nat_alt word_le_nat_alt)
  then have "readi ip off n s = Ret None s" using assms by (auto simp: readi_def readable_def)
  then show ?thesis using False assms by (auto simp: readable_def)
qed

text \<open>A file of three bytes in block 5.\<close>

definition abc_fs :: fs where
  "abc_fs = small_fs\<lparr>bc := empty_cache\<lparr>disk := small_disk(5 := [97, 98, 99] @ replicate 509 0)\<rparr>,
    icache := [no_inode\<lparr>i_type := T_FILE, i_size := 3, i_addrs := 5 # replicate 13 0\<rparr>]\<rparr>"

lemma abc_readable: "readable abc_fs 0"
proof -
  have "fs_ok abc_fs"
    by (simp add: fs_ok_def abc_fs_def small_fs_def cache_ok_def empty_cache_def XV6FS_NBUF_def BSIZE_def valid_buf_def
        disk_up_def small_disk_def)
  moreover have "mapped d (5 # replicate 13 0) (k div BSIZE)" if "k < 3" for d k
    using that by (auto simp: mapped_def bpath_def layout_defs prefix_Cons)
  ultimately show ?thesis by (simp add: readable_def abc_fs_def ino_def no_inode_def T_FILE_def T_DEV_def)
qed

theorem readi_returns_contents_witness:
  "\<exists>t. readi 0 1 10 abc_fs = Ret (Some [98, 99]) t"
proof -
  have "contents abc_fs 0 = [97, 98, 99]"
    by (simp add: file_bytes_def file_byte_def abc_fs_def ino_def no_inode_def bpath_def layout_defs upt_rec)
  then show ?thesis
    using readi_returns_contents [OF abc_readable, of 1 10] by (auto simp: abc_fs_def ino_def no_inode_def)
qed

end
