(* ===== verification/Mkfs.thy ===== *)
theory Mkfs
  imports FsContent
begin

text \<open>
  The program that writes a disk image, \<open>mkfs.c\<close>, which runs on the host.  The image file is its
  length in sectors and its bytes; sectors past the end read as zero once the file grows over
  them.  \<open>io_error\<close> holds for the sectors the host cannot read or write.  An \<open>exit(1)\<close> and a failed
  \<open>assert\<close> are \<open>Halt\<close>.  The layout of superblock, inodes and directory entries mirrors
  \<open>kernel/Xjail/xv6/fs.h\<close> and is that of \<open>FsLayout\<close>; \<open>strncpy\<close> of the C library does what that of
  the kernel does.
\<close>

definition FSSIZE :: nat where "FSSIZE = 8192"
definition NINODES :: nat where "NINODES = 200"
definition LOGSIZE :: nat where "LOGSIZE = 30"

record mkfs =
  sectors :: nat
  image :: "u32 \<Rightarrow> u8 list"
  io_error :: "u32 \<Rightarrow> bool"
  msb :: superblock
  freeblock :: u32
  freeinode :: u32

text \<open>The static variables, and the file that \<open>open\<close> with \<open>O_TRUNC\<close> leaves empty.\<close>

definition mkfs_start :: "(u32 \<Rightarrow> bool) \<Rightarrow> mkfs" where
  "mkfs_start err = \<lparr>sectors = 0, image = (\<lambda>_. replicate BSIZE 0), io_error = err,
    msb = \<lparr>magic = 0, sb_size = 0, nblocks = 0, ninodes = 0, nlog = 0, logstart = 0, inodestart = 0, bmapstart = 0\<rparr>,
    freeblock = 0, freeinode = 1\<rparr>"

section \<open>Sectors and inodes\<close>

definition wsect :: "u32 \<Rightarrow> u8 list \<Rightarrow> mkfs \<Rightarrow> (unit, mkfs) outcome" where
  "wsect sec buf m =
    (if io_error m sec then Halt ''write'' m
     else Ret () (m\<lparr>image := (image m)(sec := buf), sectors := max (sectors m) (unat sec + 1)\<rparr>))"

definition rsect :: "u32 \<Rightarrow> mkfs \<Rightarrow> (u8 list, mkfs) outcome" where
  "rsect sec m = (if io_error m sec \<or> sectors m \<le> unat sec then Halt ''read'' m else Ret (image m sec) m)"

definition winode :: "u32 \<Rightarrow> dinode \<Rightarrow> mkfs \<Rightarrow> (unit, mkfs) outcome" where
  "winode inum ip m =
    (let bn = IBLOCK inum (msb m) in obind (rsect bn m) (\<lambda>buf. wsect bn (put_dinode inum ip buf)))"

definition rinode :: "u32 \<Rightarrow> mkfs \<Rightarrow> (dinode, mkfs) outcome" where
  "rinode inum m = obind (rsect (IBLOCK inum (msb m)) m) (\<lambda>buf. Ret (get_dinode inum buf))"

definition mk_ialloc :: "u16 \<Rightarrow> mkfs \<Rightarrow> (u32, mkfs) outcome" where
  "mk_ialloc t m =
    (let inum = freeinode m; m = m\<lparr>freeinode := inum + 1\<rparr>;
         din = \<lparr>d_type = t, d_major = 0, d_minor = 0, d_nlink = 1, d_size = 0, d_addrs = replicate (NDIRECT + 2) 0\<rparr>
     in obind (winode inum din m) (\<lambda>_. Ret inum))"

text \<open>
  The first loop of \<open>balloc_mark_used\<close> fills a buffer that is cleared again before it is written;
  with more than \<open>BPB\<close> blocks in use it writes past the end of the buffer.
\<close>

definition balloc_mark_used :: "u32 \<Rightarrow> mkfs \<Rightarrow> (unit, mkfs) outcome" where
  "balloc_mark_used n_used m =
    (if BPB < unat n_used then Halt ''write past the end of buf'' m
     else ofold (\<lambda>b m. wsect b (fold (\<lambda>bi buf. if unat (b - bmapstart (msb m)) * BPB + bi < unat n_used
         then set_map_bit bi buf else buf) [0..<BPB] (replicate BSIZE 0)) m)
       [bmapstart (msb m), bmapstart (msb m) + 1] m)"

section \<open>Appending to a file\<close>

text \<open>\<open>if (din.addrs[k] == 0) din.addrs[k] = freeblock++;\<close>\<close>

definition mk_slot :: "nat \<Rightarrow> u32 list \<Rightarrow> mkfs \<Rightarrow> u32 list \<times> mkfs" where
  "mk_slot k addrs m =
    (if addrs ! k = 0 then (addrs[k := freeblock m], m\<lparr>freeblock := freeblock m + 1\<rparr>) else (addrs, m))"

text \<open>\<open>rsect(b, t); if (t[k] == 0) { t[k] = freeblock++; wsect(b, t); }\<close>, and then \<open>t[k]\<close>.\<close>

definition mk_entry :: "u32 \<Rightarrow> nat \<Rightarrow> mkfs \<Rightarrow> (u32, mkfs) outcome" where
  "mk_entry b k m =
    obind (rsect b m) (\<lambda>t m.
      if get32 (4 * k) t = 0
      then let x = freeblock m; m = m\<lparr>freeblock := x + 1\<rparr> in obind (wsect b (put32 (4 * k) x t) m) (\<lambda>_. Ret x)
      else Ret (get32 (4 * k) t) m)"

definition mk_block :: "nat \<Rightarrow> u32 list \<Rightarrow> mkfs \<Rightarrow> (u32 \<times> u32 list, mkfs) outcome" where
  "mk_block fbn addrs m =
    (if fbn < NDIRECT
     then let (addrs, m) = mk_slot fbn addrs m in Ret (addrs ! fbn, addrs) m
     else if fbn < NDIRECT + NINDIRECT
     then let bn = fbn - NDIRECT; (addrs, m) = mk_slot NDIRECT addrs m in
       obind (mk_entry (addrs ! NDIRECT) bn m) (\<lambda>x. Ret (x, addrs))
     else let bn2 = fbn - NDIRECT - NINDIRECT; idx1 = bn2 div NINDIRECT; idx2 = bn2 mod NINDIRECT;
              (addrs, m) = mk_slot (NDIRECT + 1) addrs m in
       obind (mk_entry (addrs ! (NDIRECT + 1)) idx1 m) (\<lambda>b m. obind (mk_entry b idx2 m) (\<lambda>x. Ret (x, addrs))))"

function iappend_loop :: "nat \<Rightarrow> u8 list \<Rightarrow> u32 list \<Rightarrow> mkfs \<Rightarrow> (u32 list, mkfs) outcome" where
  "iappend_loop off p addrs m =
    (if p = [] then Ret addrs m
     else if \<not> off div BSIZE < MAXFILE then Halt ''assert(fbn < MAXFILE)'' m
     else obind (mk_block (off div BSIZE) addrs m) (\<lambda>(x, addrs) m.
       let n1 = min (length p) (BSIZE - off mod BSIZE) in
       obind (rsect x m) (\<lambda>buf m.
       obind (wsect x (put_bytes (off mod BSIZE) (take n1 p) buf) m) (\<lambda>_ m.
       iappend_loop (off + n1) (drop n1 p) addrs m))))"
  by auto
termination
  by (relation "measure (\<lambda>(off, p, addrs, m). length p)") (auto simp: BSIZE_def intro!: diff_less)

declare iappend_loop.simps [simp del]

definition iappend :: "u32 \<Rightarrow> u8 list \<Rightarrow> mkfs \<Rightarrow> (unit, mkfs) outcome" where
  "iappend inum p m =
    obind (rinode inum m) (\<lambda>din m.
    obind (iappend_loop (unat (d_size din)) p (d_addrs din) m) (\<lambda>addrs m.
    winode inum (din\<lparr>d_addrs := addrs, d_size := d_size din + of_nat (length p)\<rparr>) m))"

definition mk_dirlink :: "u32 \<Rightarrow> u8 list \<Rightarrow> u32 \<Rightarrow> mkfs \<Rightarrow> (unit, mkfs) outcome" where
  "mk_dirlink dir_inum name target_inum =
    iappend dir_inum (enc_dirent \<lparr>de_inum = ucast target_inum, de_name = strncpy name DIRSIZ\<rparr>)"

definition set_nlink :: "u32 \<Rightarrow> u16 \<Rightarrow> mkfs \<Rightarrow> (unit, mkfs) outcome" where
  "set_nlink inum n m = obind (rinode inum m) (\<lambda>din. winode inum (din\<lparr>d_nlink := n\<rparr>))"

definition cstring :: "string \<Rightarrow> u8 list" where
  "cstring s = map of_char s"

definition make_dir_under_root :: "u32 \<Rightarrow> u8 list \<Rightarrow> mkfs \<Rightarrow> (u32, mkfs) outcome" where
  "make_dir_under_root root_inum name m =
    obind (mk_ialloc T_DIR m) (\<lambda>inum m.
    obind (mk_dirlink inum (cstring ''.'') inum m) (\<lambda>_ m.
    obind (mk_dirlink inum (cstring ''..'') root_inum m) (\<lambda>_ m.
    obind (mk_dirlink root_inum name inum m) (\<lambda>_ m.
    obind (set_nlink inum 2 m) (\<lambda>_. Ret inum)))))"

section \<open>The image\<close>

definition ninodeblocks :: nat where "ninodeblocks = NINODES div IPB + 1"
definition nbitmap :: nat where "nbitmap = FSSIZE div (BSIZE * 8) + 1"
definition nmeta :: nat where "nmeta = 2 + LOGSIZE + ninodeblocks + nbitmap"

definition mkfs_sb :: superblock where
  "mkfs_sb = \<lparr>magic = XV6_MAGIC, sb_size = of_nat FSSIZE, nblocks = of_nat (FSSIZE - nmeta), ninodes = of_nat NINODES,
    nlog = of_nat LOGSIZE, logstart = 2, inodestart = of_nat (2 + LOGSIZE), bmapstart = of_nat (2 + LOGSIZE + ninodeblocks)\<rparr>"

definition enc_superblock :: "superblock \<Rightarrow> u8 list" where
  "enc_superblock b = concat (map le32 [magic b, sb_size b, nblocks b, ninodes b, nlog b, logstart b, inodestart b, bmapstart b])"

definition readme_lines :: "string list" where
  "readme_lines = [''Welcome to notux.'', '''', ''This file was written by tools/mkfs.c when this disk image'',
    ''was built -- if you can read this, the AHCI driver and'', ''xv6fs are both working end to end.'', '''',
    ''Layout:'', ''  /bin   executables'', ''  /etc   configuration'', ''  /root  root'' @ [CHR 39] @ ''s home directory'']"

definition readme_text :: "u8 list" where
  "readme_text = concat (map (\<lambda>l. cstring l @ [10]) readme_lines)"

text \<open>The lines of \<open>main\<close> up to the superblock, the directories, \<open>README\<close> and the program.\<close>

definition mkfs_format :: "mkfs \<Rightarrow> (unit, mkfs) outcome" where
  "mkfs_format m =
    (let m = m\<lparr>msb := mkfs_sb, freeblock := of_nat nmeta\<rparr> in
     obind (ofold (\<lambda>i. wsect (of_nat i) (replicate BSIZE 0)) [0..<FSSIZE] m) (\<lambda>_.
     wsect 1 (put_bytes 0 (enc_superblock (msb m)) (replicate BSIZE 0))))"

definition mkfs_dirs :: "mkfs \<Rightarrow> (u32 \<times> u32, mkfs) outcome" where
  "mkfs_dirs m =
    obind (mk_ialloc T_DIR m) (\<lambda>root_inum m.
    if root_inum \<noteq> ROOTINO then Halt ''assert(root_inum == ROOTINO)'' m
    else obind (mk_dirlink root_inum (cstring ''.'') root_inum m) (\<lambda>_ m.
    obind (mk_dirlink root_inum (cstring ''..'') root_inum m) (\<lambda>_ m.
    obind (make_dir_under_root root_inum (cstring ''etc'') m) (\<lambda>_ m.
    obind (make_dir_under_root root_inum (cstring ''bin'') m) (\<lambda>bin_inum m.
    obind (make_dir_under_root root_inum (cstring ''root'') m) (\<lambda>_ m.
    obind (set_nlink root_inum (2 + 3) m) (\<lambda>_. Ret (root_inum, bin_inum))))))))"

definition mkfs_readme :: "u32 \<Rightarrow> mkfs \<Rightarrow> (unit, mkfs) outcome" where
  "mkfs_readme root_inum m =
    obind (mk_ialloc T_FILE m) (\<lambda>readme_inum m.
    obind (iappend readme_inum readme_text m) (\<lambda>_.
    mk_dirlink root_inum (cstring ''README'') readme_inum))"

text \<open>\<open>chunks\<close> are the results of \<open>fread\<close> until the end of the program's file.\<close>

definition mkfs_child :: "u32 \<Rightarrow> u8 list list \<Rightarrow> mkfs \<Rightarrow> (unit, mkfs) outcome" where
  "mkfs_child bin_inum chunks m =
    obind (mk_ialloc T_FILE m) (\<lambda>child_inum m.
    obind (ofold (iappend child_inum) chunks m) (\<lambda>_.
    mk_dirlink bin_inum (cstring ''child'') child_inum))"

text \<open>
  \<open>main\<close>: the number of arguments, whether the image file can be opened, and what reading the
  program gives if it can be opened.  The result is the exit status.
\<close>

definition mkfs_main :: "nat \<Rightarrow> bool \<Rightarrow> u8 list list option \<Rightarrow> mkfs \<Rightarrow> (int, mkfs) outcome" where
  "mkfs_main argc opened child m =
    (if argc \<noteq> 2 \<and> argc \<noteq> 3 then Ret 1 m
     else if \<not> opened then Ret 1 m
     else obind (mkfs_format m) (\<lambda>_ m.
       obind (mkfs_dirs m) (\<lambda>(root_inum, bin_inum) m.
       obind (mkfs_readme root_inum m) (\<lambda>_ m.
       if argc = 3 \<and> child = None then Ret 1 m
       else obind (if argc = 3 then mkfs_child bin_inum (the child) m else Ret () m) (\<lambda>_ m.
         obind (balloc_mark_used (freeblock m) m) (\<lambda>_. Ret 0))))))"

end
