(* ===== verification/MkfsTree.thy ===== *)
theory MkfsTree
  imports Mkfs
begin

text \<open>
  The tree of blocks of one file while \<open>iappend\<close> of \<open>mkfs.c\<close> extends it.  Blocks are handed out
  in ascending order, so every block from \<open>freeblock\<close> on is still zero, and the blocks a file has
  stay where they are.
\<close>

section \<open>Paths\<close>

definition pointer :: "nat list \<Rightarrow> bool" where
  "pointer q \<longleftrightarrow> q = [NDIRECT] \<or> q = [NDIRECT + 1] \<or> (\<exists>k < NINDIRECT. q = [NDIRECT + 1, k])"

definition bpaths :: "nat \<Rightarrow> nat list set" where
  "bpaths n = {p. p \<noteq> [] \<and> prefix p (bpath n)}"

definition tree_paths :: "nat \<Rightarrow> nat list set" where
  "tree_paths N = (\<Union>n < N. bpaths n)"

lemma tree_paths_Suc: "tree_paths (Suc n) = tree_paths n \<union> bpaths n"
  by (auto simp: tree_paths_def less_Suc_eq)

lemma tree_paths_mono: "n < N \<Longrightarrow> bpaths n \<subseteq> tree_paths N"
  by (auto simp: tree_paths_def)

lemma tree_paths_0 [simp]: "tree_paths 0 = {}"
  by (simp add: tree_paths_def)

lemma NINDIRECT_eq: "NINDIRECT = 128" "NDIRECT = 12" "NDINDIRECT = 16384" "MAXFILE = 16524"
  by (simp_all add: layout_defs)

lemma bpath_cases:
  assumes "n < MAXFILE"
  obtains "n < NDIRECT" "bpath n = [n]"
  | k where "k < NINDIRECT" "n = NDIRECT + k" "bpath n = [NDIRECT, k]"
  | a b where "a < NINDIRECT" "b < NINDIRECT" "n = NDIRECT + NINDIRECT + a * NINDIRECT + b" "bpath n = [NDIRECT + 1, a, b]"
proof -
  consider "n < NDIRECT" | "NDIRECT \<le> n" "n < NDIRECT + NINDIRECT" | "NDIRECT + NINDIRECT \<le> n" by linarith
  then show thesis
  proof cases
    case 1
    then show thesis using that(1) by (simp add: bpath_def)
  next
    case 2
    then show thesis using that(2) [of "n - NDIRECT"] by (simp add: bpath_def)
  next
    case 3
    let ?m = "n - NDIRECT - NINDIRECT"
    show thesis
      by (rule that(3) [of "?m div NINDIRECT" "?m mod NINDIRECT"]) (use assms 3 in \<open>simp_all add: NINDIRECT_eq bpath_def\<close>)
  qed
qed

lemma bpath_inj: "n < MAXFILE \<Longrightarrow> m < MAXFILE \<Longrightarrow> bpath n = bpath m \<Longrightarrow> n = m"
  by (erule bpath_cases; erule bpath_cases) (auto simp: NINDIRECT_eq)

lemma bpath_data: "n < MAXFILE \<Longrightarrow> \<not> pointer (bpath n)"
  by (erule bpath_cases) (auto simp: pointer_def NINDIRECT_eq)

lemma bpaths_step: "q @ [k] \<in> bpaths n \<Longrightarrow> n < MAXFILE \<Longrightarrow> q \<noteq> [] \<Longrightarrow> pointer q \<and> k < NINDIRECT"
  by (erule bpath_cases)
    (auto simp: bpaths_def pointer_def NINDIRECT_eq prefix_Cons Cons_eq_append_conv append_eq_Cons_conv)

lemma bpaths_root: "[i] \<in> bpaths n \<Longrightarrow> n < MAXFILE \<Longrightarrow> i < NDIRECT + 2"
  by (erule bpath_cases) (auto simp: bpaths_def NINDIRECT_eq)

section \<open>Trees\<close>

definition zero_block :: "u8 list" where "zero_block = replicate BSIZE 0"

lemma get32_zero: "k < NINDIRECT \<Longrightarrow> get32 (4 * k) zero_block = 0"
  by (simp add: get32_def zero_block_def NINDIRECT_eq BSIZE_def)

text \<open>A set of paths closed under prefixes, with the blocks they lead to.\<close>

definition closed :: "nat list set \<Rightarrow> bool" where
  "closed T \<longleftrightarrow> T \<subseteq> tree_paths MAXFILE \<and> (\<forall>q k. q @ [k] \<in> T \<longrightarrow> q = [] \<or> q \<in> T)"

lemma closedD:
  assumes "closed T" "q @ [k] \<in> T" "q \<noteq> []"
  shows "q \<in> T" "pointer q" "k < NINDIRECT"
  using assms bpaths_step [of q k] unfolding closed_def tree_paths_def by blast+

lemma closed_nonempty: "closed T \<Longrightarrow> [] \<notin> T"
  by (auto simp: closed_def tree_paths_def bpaths_def)

lemma closed_insert: "closed T \<Longrightarrow> q = [] \<or> q \<in> T \<Longrightarrow> q @ [k] \<in> tree_paths MAXFILE \<Longrightarrow> closed (insert (q @ [k]) T)"
  by (auto simp: closed_def)

lemma closed_tree_paths: "N \<le> MAXFILE \<Longrightarrow> closed (tree_paths N)"
  by (force simp: closed_def tree_paths_def bpaths_def dest: append_prefixD)

definition tree :: "(u32 \<Rightarrow> u8 list) \<Rightarrow> u32 list \<Rightarrow> nat list set \<Rightarrow> nat \<Rightarrow> nat \<Rightarrow> bool" where
  "tree d addrs T lo hi \<longleftrightarrow> closed T \<and> length addrs = NDIRECT + 2 \<and> 0 < lo \<and>
    (\<forall>p \<in> T. lo \<le> unat (node d addrs p) \<and> unat (node d addrs p) < hi) \<and> inj_on (node d addrs) T \<and>
    (\<forall>i < NDIRECT + 2. [i] \<notin> T \<longrightarrow> addrs ! i = 0) \<and>
    (\<forall>q \<in> T. pointer q \<longrightarrow> (\<forall>k < NINDIRECT. q @ [k] \<notin> T \<longrightarrow> get32 (4 * k) (d (node d addrs q)) = 0))"

lemma tree_nonzero: "tree d addrs T lo hi \<Longrightarrow> p \<in> T \<Longrightarrow> node d addrs p \<noteq> 0"
  by (auto simp: tree_def)

lemma nodes_same:
  assumes "closed T" "\<And>q k. q @ [k] \<in> T \<Longrightarrow> q \<in> T \<Longrightarrow> get32 (4 * k) (d' (node d addrs q)) = get32 (4 * k) (d (node d addrs q))"
  shows "p \<in> T \<Longrightarrow> node d' addrs p = node d addrs p"
proof (induction p rule: rev_induct)
  case (snoc k q)
  show ?case
  proof (cases "q = []")
    case False
    have q: "q \<in> T" using closedD(1) [OF assms(1) snoc.prems False] .
    then show ?thesis using snoc.IH assms(2) [OF snoc.prems q] False by (simp add: node_snoc)
  qed simp
qed simp

text \<open>A tree survives changes outside its pointer blocks.\<close>

lemma tree_frame:
  assumes "tree d addrs T lo hi" "hi \<le> hi'" "\<And>q. q \<in> T \<Longrightarrow> pointer q \<Longrightarrow> d' (node d addrs q) = d (node d addrs q)"
  shows "tree d' addrs T lo hi'" "p \<in> T \<Longrightarrow> node d' addrs p = node d addrs p"
proof -
  have c: "closed T" using assms(1) by (simp add: tree_def)
  have n: "node d' addrs p = node d addrs p" if "p \<in> T" for p
    by (rule nodes_same [OF c _ that]) (use assms(3) closedD(2) [OF c] closed_nonempty [OF c] in metis)
  then show "p \<in> T \<Longrightarrow> node d' addrs p = node d addrs p" .
  have "inj_on (node d' addrs) T \<longleftrightarrow> inj_on (node d addrs) T" by (rule inj_on_cong) (rule n)
  then show "tree d' addrs T lo hi'" using assms n unfolding tree_def by (auto intro: order.strict_trans2)
qed

lemma node_update_root: "closed T \<Longrightarrow> [i] \<notin> T \<Longrightarrow> p \<in> T \<Longrightarrow> node d (addrs[i := h]) p = node d addrs p"
proof (induction p rule: rev_induct)
  case (snoc k q)
  show ?case
  proof (cases "q = []")
    case True
    then show ?thesis using snoc.prems by (cases "k = i") auto
  next
    case False
    then show ?thesis using snoc closedD(1) [of T q k] by (simp add: node_snoc)
  qed
qed simp

lemma tree_add_root:
  assumes t: "tree d addrs T lo hi" and i: "[i] \<notin> T" "[i] \<in> tree_paths MAXFILE"
    and h: "unat h = hi" "lo \<le> hi" "d h = zero_block"
  shows "tree d (addrs[i := h]) (insert [i] T) lo (hi + 1)" "p \<in> T \<Longrightarrow> node d (addrs[i := h]) p = node d addrs p"
    "node d (addrs[i := h]) [i] = h"
proof -
  have c: "closed T" and l: "length addrs = NDIRECT + 2" using t by (simp_all add: tree_def)
  have i14: "i < NDIRECT + 2" using i(2) bpaths_root by (auto simp: tree_paths_def)
  note n = node_update_root [OF c i(1)]
  show "p \<in> T \<Longrightarrow> node d (addrs[i := h]) p = node d addrs p" by (rule n)
  show new: "node d (addrs[i := h]) [i] = h" using i14 l by simp
  have c': "closed (insert [i] T)" using closed_insert [OF c, of "[]" i] i by simp
  have "h \<notin> node d addrs ` T" using t h(1) by (auto simp: tree_def)
  moreover have "inj_on (node d (addrs[i := h])) T \<longleftrightarrow> inj_on (node d addrs) T" by (rule inj_on_cong) (rule n)
  ultimately have inj: "inj_on (node d (addrs[i := h])) (insert [i] T)"
    using t i(1) n new by (auto simp: tree_def inj_on_insert image_iff)
  have kids: "get32 (4 * k) (d (node d (addrs[i := h]) q)) = 0"
    if "q \<in> insert [i] T" "pointer q" "k < NINDIRECT" "q @ [k] \<notin> insert [i] T" for q k
  proof (cases "q = [i]")
    case True
    then show ?thesis using get32_zero [OF that(3)] h(3) new by simp
  next
    case False
    then show ?thesis using that t n [of q] by (auto simp: tree_def)
  qed
  have range: "lo \<le> unat (node d (addrs[i := h]) p) \<and> unat (node d (addrs[i := h]) p) < hi + 1" if "p \<in> insert [i] T" for p
    using that t n [of p] new h by (auto simp: tree_def less_SucI)
  show "tree d (addrs[i := h]) (insert [i] T) lo (hi + 1)"
    unfolding tree_def using c' l t inj kids range by (auto simp: tree_def nth_list_update)
qed

lemma tree_add_entry:
  assumes t: "tree d addrs T lo hi" and q: "q \<in> T" "q @ [k] \<notin> T" "q @ [k] \<in> tree_paths MAXFILE"
    and h: "unat h = hi" "lo \<le> hi" "d h = zero_block" and l: "length (d (node d addrs q)) = BSIZE"
  defines "d' \<equiv> d(node d addrs q := put32 (4 * k) h (d (node d addrs q)))"
  shows "tree d' addrs (insert (q @ [k]) T) lo (hi + 1)" "\<And>p. p \<in> T \<Longrightarrow> node d' addrs p = node d addrs p"
    "node d' addrs (q @ [k]) = h"
proof -
  have c: "closed T" using t by (simp add: tree_def)
  have q0: "q \<noteq> []" using closed_nonempty [OF c] q(1) by auto
  have c': "closed (insert (q @ [k]) T)" using closed_insert [OF c] q by blast
  have k: "k < NINDIRECT" "pointer q" using closedD [OF c' _ q0, of k] by simp_all
  have inj: "inj_on (node d addrs) T" using t by (simp add: tree_def)
  have hq: "h \<noteq> node d addrs p" if "p \<in> T" for p using t h(1) that by (auto simp: tree_def)
  have get: "get32 (4 * j) (d' (node d addrs q')) = (if q' = q \<and> j = k then h else get32 (4 * j) (d (node d addrs q')))"
    if "q' \<in> T" "j < NINDIRECT" for q' j
  proof (cases "q' = q")
    case True
    have "4 * k + 4 \<le> length (d (node d addrs q))" "4 * j + 4 \<le> length (d (node d addrs q))"
      using k that l by (simp_all add: NINDIRECT_eq BSIZE_def)
    moreover have "4 * j + 4 \<le> 4 * k \<or> 4 * k + 4 \<le> 4 * j" if "j \<noteq> k" using that by linarith
    ultimately show ?thesis
      using True get_put32 get_put32_other [of "4 * k" "d (node d addrs q)" "4 * j" h] by (cases "j = k") (simp_all add: d'_def)
  next
    case False
    then have "node d addrs q' \<noteq> node d addrs q" using inj_onD [OF inj _ that(1) q(1)] by blast
    then show ?thesis using False by (simp add: d'_def)
  qed
  have n: "node d' addrs p = node d addrs p" if "p \<in> T" for p
  proof (rule nodes_same [OF c _ that])
    fix q' j assume "q' @ [j] \<in> T" "q' \<in> T"
    then show "get32 (4 * j) (d' (node d addrs q')) = get32 (4 * j) (d (node d addrs q'))"
      using get [of q' j] q(2) closedD(3) [OF c] closed_nonempty [OF c] by (metis (full_types))
  qed
  then show "\<And>p. p \<in> T \<Longrightarrow> node d' addrs p = node d addrs p" .
  show new: "node d' addrs (q @ [k]) = h" using get [OF q(1) k(1)] n [OF q(1)] q0 by (simp add: node_snoc)
  have "inj_on (node d' addrs) T \<longleftrightarrow> inj_on (node d addrs) T" by (rule inj_on_cong) (rule n)
  then have inj': "inj_on (node d' addrs) (insert (q @ [k]) T)"
    using inj q(2) hq n new by (auto simp: inj_on_insert image_iff)
  have kids: "get32 (4 * j) (d' (node d' addrs q')) = 0"
    if "q' \<in> insert (q @ [k]) T" "pointer q'" "j < NINDIRECT" "q' @ [j] \<notin> insert (q @ [k]) T" for q' j
  proof (cases "q' \<in> T")
    case True
    then show ?thesis using that get [OF True that(3)] n [OF True] t by (auto simp: tree_def)
  next
    case False
    then have "q' = q @ [k]" using that(1) by simp
    moreover have "d' h = zero_block" using hq [OF q(1)] h(3) by (simp add: d'_def)
    ultimately show ?thesis using new get32_zero [OF that(3)] by simp
  qed
  have range: "lo \<le> unat (node d' addrs p) \<and> unat (node d' addrs p) < hi + 1" if "p \<in> insert (q @ [k]) T" for p
    using that t n [of p] new h by (auto simp: tree_def less_SucI)
  show "tree d' addrs (insert (q @ [k]) T) lo (hi + 1)"
    unfolding tree_def using c' t inj' kids range q0 by (auto simp: tree_def)
qed

section \<open>Handing out blocks\<close>

definition mk_ok :: "mkfs \<Rightarrow> bool" where
  "mk_ok m \<longleftrightarrow> (\<forall>b. length (image m b) = BSIZE) \<and> (\<forall>b. \<not> io_error m b) \<and> sectors m < 2 ^ 32 \<and>
    (\<forall>b. unat (freeblock m) \<le> unat b \<longrightarrow> image m b = zero_block) \<and> unat (freeblock m) \<le> sectors m"

text \<open>
  The file with the tree \<open>T\<close> below \<open>addrs\<close> grew to \<open>T'\<close> below \<open>addrs'\<close>: the blocks it had stay where
  they were, new ones are from \<open>freeblock\<close> on, and of the old blocks only those at the paths in \<open>P\<close> changed.
\<close>

definition same_setup :: "mkfs \<Rightarrow> mkfs \<Rightarrow> bool" where
  "same_setup m m' \<longleftrightarrow> sectors m' = sectors m \<and> io_error m' = io_error m \<and> msb m' = msb m \<and> freeinode m' = freeinode m"

definition ext :: "(nat list \<Rightarrow> bool) \<Rightarrow> nat \<Rightarrow> mkfs \<Rightarrow> u32 list \<Rightarrow> nat list set \<Rightarrow> mkfs \<Rightarrow> u32 list \<Rightarrow> nat list set \<Rightarrow> bool" where
  "ext P lo m addrs T m' addrs' T' \<longleftrightarrow> mk_ok m' \<and> same_setup m m' \<and>
    unat (freeblock m) \<le> unat (freeblock m') \<and> tree (image m') addrs' T' lo (unat (freeblock m')) \<and> T \<subseteq> T' \<and>
    (\<forall>p \<in> T. node (image m') addrs' p = node (image m) addrs p) \<and>
    (\<forall>p \<in> T' - T. unat (freeblock m) \<le> unat (node (image m') addrs' p)) \<and>
    (\<forall>b. unat b < unat (freeblock m) \<longrightarrow> b \<notin> node (image m) addrs ` {q \<in> T. P q} \<longrightarrow> image m' b = image m b)"

lemma ext_refl: "mk_ok m \<Longrightarrow> tree (image m) addrs T lo (unat (freeblock m)) \<Longrightarrow> ext P lo m addrs T m addrs T"
  by (simp add: ext_def same_setup_def)

lemma ext_trans:
  assumes "ext P lo m addrs T m' addrs' T'" "ext P lo m' addrs' T' m'' addrs'' T''"
  shows "ext P lo m addrs T m'' addrs'' T''"
proof -
  have "image m'' b = image m b"
    if b: "unat b < unat (freeblock m)" "b \<notin> node (image m) addrs ` {q \<in> T. P q}" for b
  proof -
    have "b \<noteq> node (image m') addrs' q" if "q \<in> T'" "P q" for q
    proof (cases "q \<in> T")
      case True
      then show ?thesis using b(2) that(2) assms(1) by (auto simp: ext_def)
    next
      case False
      then have "unat (freeblock m) \<le> unat (node (image m') addrs' q)" using that(1) assms(1) by (auto simp: ext_def)
      then show ?thesis using b(1) by auto
    qed
    then have "b \<notin> node (image m') addrs' ` {q \<in> T'. P q}" by blast
    moreover have "unat b < unat (freeblock m')" using b(1) assms(1) unfolding ext_def by linarith
    ultimately have "image m'' b = image m' b" using assms(2) unfolding ext_def by blast
    also have "image m' b = image m b" using b assms(1) unfolding ext_def by blast
    finally show ?thesis .
  qed
  moreover have "same_setup m m''" using assms by (simp add: ext_def same_setup_def)
  moreover have "unat (freeblock m) \<le> unat (node (image m'') addrs'' p)" if p: "p \<in> T''" "p \<notin> T" for p
  proof (cases "p \<in> T'")
    case True
    then have "node (image m'') addrs'' p = node (image m') addrs' p" using assms(2) unfolding ext_def by blast
    then show ?thesis using assms(1) True p unfolding ext_def by auto
  next
    case False
    then have "unat (freeblock m') \<le> unat (node (image m'') addrs'' p)" using assms(2) p unfolding ext_def by blast
    then show ?thesis using assms(1) unfolding ext_def by linarith
  qed
  ultimately show ?thesis using assms unfolding ext_def by auto
qed

lemma unat_free: "mk_ok m \<Longrightarrow> unat (freeblock m) < sectors m \<Longrightarrow> unat (freeblock m + 1) = unat (freeblock m) + 1"
  by (simp add: mk_ok_def unat_word_ariths)

lemma rsect_ok: "mk_ok m \<Longrightarrow> unat b < unat (freeblock m) \<Longrightarrow> rsect b m = Ret (image m b) m"
  by (simp add: rsect_def mk_ok_def)

lemma mk_slot_ext:
  assumes m: "mk_ok m" "tree (image m) addrs T lo (unat (freeblock m))" and i: "[i] \<in> tree_paths MAXFILE"
    and room: "[i] \<in> T \<or> unat (freeblock m) < sectors m" "lo \<le> unat (freeblock m)"
  obtains addrs' m' where "mk_slot i addrs m = (addrs', m')" "ext pointer lo m addrs T m' addrs' (insert [i] T)"
    "unat (freeblock m') = unat (freeblock m) + (if [i] \<in> T then 0 else 1)"
proof (cases "[i] \<in> T")
  case True
  then have "addrs ! i \<noteq> 0" using tree_nonzero [OF m(2)] by force
  then show thesis using that [of addrs m] True ext_refl [OF m] by (simp add: mk_slot_def insert_absorb)
next
  case False
  have "i < NDIRECT + 2" using i bpaths_root by (auto simp: tree_paths_def)
  then have z: "addrs ! i = 0" using m(2) False by (auto simp: tree_def)
  let ?m = "m\<lparr>freeblock := freeblock m + 1\<rparr>" and ?a = "addrs[i := freeblock m]"
  have u: "unat (freeblock m + 1) = unat (freeblock m) + 1" using unat_free m room False by blast
  have h: "image m (freeblock m) = zero_block" using m(1) by (simp add: mk_ok_def)
  note A = tree_add_root [OF m(2) False i refl room(2) h]
  have "mk_ok ?m" using m(1) room False u by (auto simp: mk_ok_def)
  then have "ext pointer lo m addrs T ?m ?a (insert [i] T)"
    using A unfolding ext_def same_setup_def by (auto simp: u)
  then show thesis using that [of ?a ?m] z False u by (simp add: mk_slot_def)
qed

lemma mk_entry_ext:
  assumes m: "mk_ok m" "tree (image m) addrs T lo (unat (freeblock m))" and q: "q \<in> T" "q @ [k] \<in> tree_paths MAXFILE"
    and room: "q @ [k] \<in> T \<or> unat (freeblock m) < sectors m" "lo \<le> unat (freeblock m)"
  obtains m' where "mk_entry (node (image m) addrs q) k m = Ret (node (image m') addrs (q @ [k])) m'"
    "ext pointer lo m addrs T m' addrs (insert (q @ [k]) T)"
    "unat (freeblock m') = unat (freeblock m) + (if q @ [k] \<in> T then 0 else 1)"
proof -
  let ?b = "node (image m) addrs q"
  have c: "closed T" using m(2) by (simp add: tree_def)
  have q0: "q \<noteq> []" using closed_nonempty [OF c] q(1) by auto
  have b: "unat ?b < unat (freeblock m)" using m(2) q(1) by (auto simp: tree_def)
  note r = rsect_ok [OF m(1) b]
  show thesis
  proof (cases "q @ [k] \<in> T")
    case True
    then have "get32 (4 * k) (image m ?b) \<noteq> 0" using tree_nonzero [OF m(2) True] q0 by (simp add: node_snoc)
    then show thesis using that [of m] True ext_refl [OF m] r q0 by (simp add: mk_entry_def insert_absorb node_snoc)
  next
    case False
    have k: "k < NINDIRECT" "pointer q" using closedD [OF closed_insert [OF c _ q(2)], of q k] q(1) q0 by simp_all
    then have z: "get32 (4 * k) (image m ?b) = 0" using m(2) q(1) False by (auto simp: tree_def)
    let ?d = "(image m)(?b := put32 (4 * k) (freeblock m) (image m ?b))"
    let ?m = "m\<lparr>freeblock := freeblock m + 1, image := ?d\<rparr>"
    have u: "unat (freeblock m + 1) = unat (freeblock m) + 1" using unat_free m room False by blast
    have h: "image m (freeblock m) = zero_block" and l: "length (image m ?b) = BSIZE" using m(1) by (simp_all add: mk_ok_def)
    note A = tree_add_entry [OF m(2) q(1) False q(2) refl room(2) h l]
    have "length (put32 (4 * k) (freeblock m) (image m ?b)) = BSIZE" using l k by (simp add: put32_def NINDIRECT_eq BSIZE_def)
    then have "mk_ok ?m" using m(1) room False u b by (auto simp: mk_ok_def)
    then have "ext pointer lo m addrs T ?m addrs (insert (q @ [k]) T)"
      using A q(1) k(2) unfolding ext_def same_setup_def by (auto simp: u)
    moreover have "max (sectors m) (unat ?b + 1) = sectors m" using m(1) b by (simp add: mk_ok_def)
    then have "mk_entry ?b k m = Ret (node (image ?m) addrs (q @ [k])) ?m"
      using r z A(3) m(1) by (simp add: mk_entry_def Let_def wsect_def mk_ok_def)
    ultimately show thesis using that [of ?m] False u by simp
  qed
qed

lemma bpaths_eq:
  "bpath n = [x] \<Longrightarrow> bpaths n = {[x]}" "bpath n = [x, y] \<Longrightarrow> bpaths n = {[x], [x, y]}"
  "bpath n = [x, y, z] \<Longrightarrow> bpaths n = {[x], [x, y], [x, y, z]}"
  by (auto simp: bpaths_def prefix_Cons)

lemma ext_tree: "ext P lo m addrs T m' addrs' T' \<Longrightarrow> mk_ok m' \<and> tree (image m') addrs' T' lo (unat (freeblock m')) \<and>
    sectors m' = sectors m \<and> unat (freeblock m) \<le> unat (freeblock m')"
  by (simp add: ext_def same_setup_def)

lemma mk_block_ext:
  assumes m: "mk_ok m" "tree (image m) addrs T lo (unat (freeblock m))" and n: "n < MAXFILE"
    and room: "bpaths n \<subseteq> T \<or> unat (freeblock m) + 3 \<le> sectors m" "lo \<le> unat (freeblock m)"
  obtains addrs' m' where "mk_block n addrs m = Ret (node (image m') addrs' (bpath n), addrs') m'"
    "ext pointer lo m addrs T m' addrs' (T \<union> bpaths n)"
    "unat (freeblock m') \<le> unat (freeblock m) + (if bpaths n \<subseteq> T then 0 else 3)"
proof -
  have valid: "p \<in> bpaths n \<Longrightarrow> p \<in> tree_paths MAXFILE" for p using tree_paths_mono [OF n] by blast
  show thesis
  proof (cases rule: bpath_cases [OF n])
    case 1
    note P = bpaths_eq(1) [OF 1(2)]
    obtain a m' where s: "mk_slot n addrs m = (a, m')" "ext pointer lo m addrs T m' a (insert [n] T)"
        "unat (freeblock m') = unat (freeblock m) + (if [n] \<in> T then 0 else 1)"
      by (rule mk_slot_ext [OF m, of n]) (use room valid P in auto)
    show thesis using that [of m' a] s 1 by (simp add: mk_block_def P)
  next
    case (2 k)
    note P = bpaths_eq(2) [OF 2(3)]
    obtain a m1 where s: "mk_slot NDIRECT addrs m = (a, m1)" "ext pointer lo m addrs T m1 a (insert [NDIRECT] T)"
        "unat (freeblock m1) = unat (freeblock m) + (if [NDIRECT] \<in> T then 0 else 1)"
      by (rule mk_slot_ext [OF m, of NDIRECT]) (use room valid P in auto)
    note s1 = ext_tree [OF s(2)]
    obtain m2 where t: "mk_entry (node (image m1) a [NDIRECT]) k m1 = Ret (node (image m2) a ([NDIRECT] @ [k])) m2"
        "ext pointer lo m1 a (insert [NDIRECT] T) m2 a (insert ([NDIRECT] @ [k]) (insert [NDIRECT] T))"
        "unat (freeblock m2) = unat (freeblock m1) + (if [NDIRECT] @ [k] \<in> insert [NDIRECT] T then 0 else 1)"
      by (rule mk_entry_ext [of m1 a "insert [NDIRECT] T" lo "[NDIRECT]" k]) (use s1 room s(3) valid P in auto)
    have e: "insert ([NDIRECT] @ [k]) (insert [NDIRECT] T) = T \<union> bpaths n" by (auto simp: P)
    have "mk_block n addrs m = Ret (node (image m2) a (bpath n), a) m2" using s(1) t(1) 2 by (simp add: mk_block_def Let_def)
    moreover have "ext pointer lo m addrs T m2 a (T \<union> bpaths n)" using ext_trans [OF s(2) t(2)] by (simp only: e)
    moreover have "unat (freeblock m2) \<le> unat (freeblock m) + (if bpaths n \<subseteq> T then 0 else 3)"
      using s(3) t(3) by (auto simp: P)
    ultimately show thesis by (rule that)
  next
    case (3 i j)
    let ?r = "[NDIRECT + 1]" and ?q = "[NDIRECT + 1, i]"
    note P = bpaths_eq(3) [OF 3(4)]
    obtain a m1 where s: "mk_slot (NDIRECT + 1) addrs m = (a, m1)" "ext pointer lo m addrs T m1 a (insert ?r T)"
        "unat (freeblock m1) = unat (freeblock m) + (if ?r \<in> T then 0 else 1)"
      by (rule mk_slot_ext [OF m, of "NDIRECT + 1"]) (use room valid P in auto)
    note s1 = ext_tree [OF s(2)]
    obtain m2 where t: "mk_entry (node (image m1) a ?r) i m1 = Ret (node (image m2) a (?r @ [i])) m2"
        "ext pointer lo m1 a (insert ?r T) m2 a (insert (?r @ [i]) (insert ?r T))"
        "unat (freeblock m2) = unat (freeblock m1) + (if ?r @ [i] \<in> insert ?r T then 0 else 1)"
      by (rule mk_entry_ext [of m1 a "insert ?r T" lo ?r i]) (use s1 room s(3) valid P in auto)
    note t1 = ext_tree [OF t(2)]
    obtain m3 where u: "mk_entry (node (image m2) a ?q) j m2 = Ret (node (image m3) a (?q @ [j])) m3"
        "ext pointer lo m2 a (insert ?q (insert ?r T)) m3 a (insert (?q @ [j]) (insert ?q (insert ?r T)))"
        "unat (freeblock m3) = unat (freeblock m2) + (if ?q @ [j] \<in> insert ?q (insert ?r T) then 0 else 1)"
      by (rule mk_entry_ext [of m2 a "insert ?q (insert ?r T)" lo ?q j]) (use s1 t1 room s(3) t(3) valid P in auto)
    have e: "T \<union> bpaths n = insert (?q @ [j]) (insert ?q (insert ?r T))" by (auto simp: P)
    have "mk_block n addrs m = Ret (node (image m3) a (bpath n), a) m3"
      using s(1) t(1) u(1) 3 by (simp add: mk_block_def Let_def)
    moreover have "ext pointer lo m addrs T m3 a (T \<union> bpaths n)"
      unfolding e by (rule ext_trans [OF ext_trans [OF s(2) t(2) [unfolded append.simps]] u(2)])
    moreover have "unat (freeblock m3) \<le> unat (freeblock m) + (if bpaths n \<subseteq> T then 0 else 3)"
      using s(3) t(3) u(3) by (auto simp: P)
    ultimately show thesis by (rule that)
  qed
qed

section \<open>The loop\<close>

lemma ext_weaken: "ext P lo m addrs T m' addrs' T' \<Longrightarrow> ext (\<lambda>_. True) lo m addrs T m' addrs' T'"
  unfolding ext_def by blast

definition nblk :: "nat \<Rightarrow> nat" where
  "nblk k = (k + BSIZE - 1) div BSIZE"

lemma block_below: "k < off \<Longrightarrow> k div BSIZE < nblk off"
  by (simp add: nblk_def BSIZE_def)

lemma nblk_step:
  assumes "0 < i" "i \<le> BSIZE - off mod BSIZE"
  shows "nblk (off + i) = off div BSIZE + 1" "nblk off = off div BSIZE \<or> nblk off = off div BSIZE + 1"
proof -
  define q r where "q = off div 512" and "r = off mod 512"
  have off: "off = 512 * q + r" "r < 512" by (simp_all add: q_def r_def)
  have "(512 * q + s) div 512 = q" if "s < 512" for s :: nat using that by simp
  note d = this
  have "nblk (off + i) = (512 * (q + 1) + (r + i - 1)) div 512" using assms(1) off(1) by (simp add: nblk_def BSIZE_def)
  also have "\<dots> = q + 1" using assms off(2) by (simp add: BSIZE_def r_def [symmetric])
  finally show "nblk (off + i) = off div BSIZE + 1" by (simp add: BSIZE_def q_def)
  have "nblk off = (if r = 0 then q else q + 1)"
  proof (cases "r = 0")
    case False
    then have "nblk off = (512 * (q + 1) + (r - 1)) div 512" using off(1) by (simp add: nblk_def BSIZE_def)
    then show ?thesis using off(2) False by simp
  qed (use off(1) in \<open>simp add: nblk_def BSIZE_def\<close>)
  then show "nblk off = off div BSIZE \<or> nblk off = off div BSIZE + 1" by (simp add: BSIZE_def q_def)
qed

lemma tree_data_kept:
  assumes "ext pointer lo m addrs T m' addrs' T'" "p \<in> T" "\<not> pointer p" "tree (image m) addrs T lo (unat (freeblock m))"
  shows "image m' (node (image m') addrs' p) = image m (node (image m) addrs p)"
proof -
  let ?b = "node (image m) addrs p"
  have b: "unat ?b < unat (freeblock m)" "inj_on (node (image m) addrs) T" using assms(2,4) by (auto simp: tree_def)
  have "?b \<noteq> node (image m) addrs q" if "q \<in> T" "pointer q" for q
    using inj_onD [OF b(2) _ assms(2) that(1)] that(2) assms(3) by blast
  then have "?b \<notin> node (image m) addrs ` {q \<in> T. pointer q}" by blast
  with b(1) assms(1) have "image m' ?b = image m ?b" unfolding ext_def by blast
  moreover have "node (image m') addrs' p = ?b" using assms(1,2) unfolding ext_def by blast
  ultimately show ?thesis by simp
qed

lemma write_data:
  assumes m: "mk_ok m" "tree (image m) addrs T lo (unat (freeblock m))" and p: "p \<in> T" "\<not> pointer p" and l: "length bs = BSIZE"
  defines "x \<equiv> node (image m) addrs p"
  obtains m' where "wsect x bs m = Ret () m'" "image m' = (image m)(x := bs)" "freeblock m' = freeblock m"
    "ext (\<lambda>_. True) lo m addrs T m' addrs T"
proof -
  let ?m = "m\<lparr>image := (image m)(x := bs)\<rparr>"
  have x: "unat x < unat (freeblock m)" and inj: "inj_on (node (image m) addrs) T" using m(2) p by (auto simp: tree_def x_def)
  have "((image m)(x := bs)) (node (image m) addrs q) = image m (node (image m) addrs q)" if "q \<in> T" "pointer q" for q
    using inj_onD [OF inj _ that(1) p(1)] that(2) p(2) by (auto simp: x_def)
  note F = tree_frame [where d' = "(image m)(x := bs)", OF m(2) le_refl this]
  have "mk_ok ?m" using m(1) l x by (auto simp: mk_ok_def)
  then have "ext (\<lambda>_. True) lo m addrs T ?m addrs T"
    using F p(1) unfolding ext_def same_setup_def by (simp add: x_def image_iff del: fun_upd_apply) (auto simp: image_iff)
  moreover have "wsect x bs m = Ret () ?m" using m(1) x by (simp add: wsect_def mk_ok_def max_absorb1)
  ultimately show thesis using that [of ?m] by simp
qed

lemma append_block:
  assumes m: "mk_ok m" "tree (image m) addrs (tree_paths (nblk off)) lo (unat (freeblock m))"
    and n: "n < MAXFILE" "n = off div BSIZE" and bs: "0 < length bs" "length bs \<le> BSIZE - off mod BSIZE"
    and room: "unat (freeblock m) + 3 * (n + 1 - nblk off) \<le> sectors m" "lo \<le> unat (freeblock m)"
  obtains x addrs' m1 m2 where "mk_block n addrs m = Ret (x, addrs') m1" "rsect x m1 = Ret (image m1 x) m1"
    "wsect x (put_bytes (off mod BSIZE) bs (image m1 x)) m1 = Ret () m2"
    "ext (\<lambda>_. True) lo m addrs (tree_paths (nblk off)) m2 addrs' (tree_paths (n + 1))"
    "file_bytes (image m2) addrs' (off + length bs) = file_bytes (image m) addrs off @ bs"
    "unat (freeblock m2) \<le> unat (freeblock m) + 3 * (n + 1 - nblk off)"
proof -
  let ?T = "tree_paths (nblk off)"
  note st = nblk_step [OF bs, folded n(2)]
  have T: "?T \<union> bpaths n = tree_paths (n + 1)" using st(2) tree_paths_Suc [of n] by auto
  have sub: "nblk off = n + 1 \<Longrightarrow> bpaths n \<subseteq> ?T" by (simp add: tree_paths_mono)
  obtain a m1 where b: "mk_block n addrs m = Ret (node (image m1) a (bpath n), a) m1"
      "ext pointer lo m addrs ?T m1 a (tree_paths (n + 1))"
      "unat (freeblock m1) \<le> unat (freeblock m) + (if bpaths n \<subseteq> ?T then 0 else 3)"
    by (rule mk_block_ext [OF m n(1) _ room(2), unfolded T]) (use st(2) sub room(1) in auto)
  let ?x = "node (image m1) a (bpath n)"
  note m1 = ext_tree [OF b(2)]
  have pn: "bpath n \<in> tree_paths (n + 1)" by (auto simp: tree_paths_def bpaths_def bpath_def)
  have x: "unat ?x < unat (freeblock m1)" and inj: "inj_on (node (image m1) a) (tree_paths (n + 1))"
    using m1 pn by (auto simp: tree_def)
  have len: "length (image m1 ?x) = BSIZE" using m1 by (simp add: mk_ok_def)
  have fit: "off mod BSIZE + length bs \<le> length (image m1 ?x)" using bs(2) len by (simp add: BSIZE_def)
  let ?bs = "put_bytes (off mod BSIZE) bs (image m1 ?x)"
  obtain m2 where w: "wsect ?x ?bs m1 = Ret () m2" "image m2 = (image m1)(?x := ?bs)" "freeblock m2 = freeblock m1"
      "ext (\<lambda>_. True) lo m1 a (tree_paths (n + 1)) m2 a (tree_paths (n + 1))"
    by (rule write_data [of m1 a "tree_paths (n + 1)" lo "bpath n" ?bs]) (use m1 pn bpath_data [OF n(1)] len fit in auto)
  have nodes: "node (image m2) a p = node (image m1) a p" if "p \<in> tree_paths (n + 1)" for p
    using w(4) that unfolding ext_def by blast
  have old: "file_byte (image m2) a k = file_byte (image m) addrs k" if k: "k < off" for k
  proof -
    let ?j = "k div BSIZE"
    have j: "?j < nblk off" "?j \<le> n" "?j < MAXFILE" using block_below [OF k] st(2) n(1) by auto
    have pj: "bpath ?j \<in> ?T" "bpath ?j \<in> tree_paths (n + 1)" using j(1,2) by (auto simp: tree_paths_def bpaths_def bpath_def)
    have e: "image m1 (node (image m1) a (bpath ?j)) = image m (node (image m) addrs (bpath ?j))"
      by (rule tree_data_kept [OF b(2) pj(1) bpath_data [OF j(3)] m(2)])
    show ?thesis
    proof (cases "?j = n")
      case True
      then have lt: "k mod BSIZE < off mod BSIZE" using k n(2) by (metis div_mult_mod_eq nat_add_left_cancel_less)
      then have "k mod BSIZE < length (image m1 ?x)" using fit by simp
      from nth_put_bytes [OF fit this] lt show ?thesis
        using nodes [OF pj(2)] e True unfolding file_byte_def w(2) by simp
    next
      case False
      then have "bpath ?j \<noteq> bpath n" using bpath_inj [OF j(3) n(1)] by blast
      then have "node (image m1) a (bpath ?j) \<noteq> ?x" using inj_onD [OF inj _ pj(2) pn] by blast
      then show ?thesis using nodes [OF pj(2)] e unfolding file_byte_def w(2) by simp
    qed
  qed
  have new: "file_byte (image m2) a (off + i) = bs ! i" if i: "i < length bs" for i
  proof -
    have lt: "off mod BSIZE + i < BSIZE" using i bs(2) by simp
    then show ?thesis
      using nodes [OF pn] same_block [OF lt] nth_put_bytes [OF fit, of "off mod BSIZE + i"] i len
      unfolding file_byte_def w(2) by (simp add: n(2) [symmetric])
  qed
  have "file_bytes (image m2) a (off + length bs) = file_bytes (image m) addrs off @ bs"
  proof (rule nth_equalityI)
    fix i assume "i < length (file_bytes (image m2) a (off + length bs))"
    then show "file_bytes (image m2) a (off + length bs) ! i = (file_bytes (image m) addrs off @ bs) ! i"
      using old [of i] new [of "i - off"] by (cases "i < off") (auto simp: file_bytes_def nth_append)
  qed (simp add: file_bytes_def)
  moreover have "unat (freeblock m2) \<le> unat (freeblock m) + 3 * (n + 1 - nblk off)" using b(3) st(2) sub w(3) by (auto split: if_splits)
  ultimately show thesis using that [OF b(1) rsect_ok [OF _ x] w(1) ext_trans [OF ext_weaken [OF b(2)] w(4)]] m1 by blast
qed

lemma iappend_loop_ok:
  assumes "mk_ok m" "tree (image m) addrs (tree_paths (nblk off)) lo (unat (freeblock m))" "off + length p \<le> MAXFILE * BSIZE"
    "unat (freeblock m) + 3 * (nblk (off + length p) - nblk off) \<le> sectors m" "lo \<le> unat (freeblock m)"
  shows "\<exists>addrs' m'. iappend_loop off p addrs m = Ret addrs' m' \<and>
    ext (\<lambda>_. True) lo m addrs (tree_paths (nblk off)) m' addrs' (tree_paths (nblk (off + length p))) \<and>
    file_bytes (image m') addrs' (off + length p) = file_bytes (image m) addrs off @ p \<and>
    unat (freeblock m') \<le> unat (freeblock m) + 3 * (nblk (off + length p) - nblk off)"
  using assms
proof (induction "length p" arbitrary: off p addrs m rule: less_induct)
  case less
  show ?case
  proof (cases "p = []")
    case True
    then show ?thesis using ext_refl [OF less.prems(1,2)] by (simp add: iappend_loop.simps)
  next
    case False
    define n1 where "n1 = min (length p) (BSIZE - off mod BSIZE)"
    let ?n = "off div BSIZE"
    have n1: "0 < n1" "n1 \<le> length p" "n1 \<le> BSIZE - off mod BSIZE" using False by (simp_all add: n1_def BSIZE_def)
    have nm: "?n < MAXFILE" using less.prems(3) n1(1,2) by (simp add: NINDIRECT_eq BSIZE_def)
    note st = nblk_step [OF n1(1,3)]
    have le: "?n + 1 \<le> nblk (off + length p)" unfolding st(1) [symmetric] nblk_def using n1(2) by (intro div_le_mono) simp
    obtain x a m1 m2 where s: "mk_block ?n addrs m = Ret (x, a) m1" "rsect x m1 = Ret (image m1 x) m1"
        "wsect x (put_bytes (off mod BSIZE) (take n1 p) (image m1 x)) m1 = Ret () m2"
        "ext (\<lambda>_. True) lo m addrs (tree_paths (nblk off)) m2 a (tree_paths (?n + 1))"
        "file_bytes (image m2) a (off + n1) = file_bytes (image m) addrs off @ take n1 p"
        "unat (freeblock m2) \<le> unat (freeblock m) + 3 * (?n + 1 - nblk off)"
      by (rule append_block [OF less.prems(1,2) nm refl, of "take n1 p"]) (use n1 less.prems(4,5) le in \<open>auto simp: min_absorb2\<close>)
    note m2 = ext_tree [OF s(4)]
    have e: "off + n1 + length (drop n1 p) = off + length p" using n1(2) by simp
    have "\<exists>a' m'. iappend_loop (off + n1) (drop n1 p) a m2 = Ret a' m' \<and>
        ext (\<lambda>_. True) lo m2 a (tree_paths (nblk (off + n1))) m' a' (tree_paths (nblk (off + length p))) \<and>
        file_bytes (image m') a' (off + length p) = file_bytes (image m2) a (off + n1) @ drop n1 p \<and>
        unat (freeblock m') \<le> unat (freeblock m2) + 3 * (nblk (off + length p) - nblk (off + n1))"
      using less.hyps [of "drop n1 p" m2 a "off + n1", unfolded e] n1 m2 s(6) less.prems(3-5) st le by (auto simp: st(1))
    then obtain a' m' where r: "iappend_loop (off + n1) (drop n1 p) a m2 = Ret a' m'"
        "ext (\<lambda>_. True) lo m2 a (tree_paths (?n + 1)) m' a' (tree_paths (nblk (off + length p)))"
        "file_bytes (image m') a' (off + length p) = file_bytes (image m2) a (off + n1) @ drop n1 p"
        "unat (freeblock m') \<le> unat (freeblock m2) + 3 * (nblk (off + length p) - (?n + 1))" unfolding st(1) by blast
    have "iappend_loop off p addrs m = Ret a' m'"
      using False nm s(1-3) r(1) by (subst iappend_loop.simps) (simp add: n1_def [symmetric] Let_def)
    moreover have "file_bytes (image m') a' (off + length p) = file_bytes (image m) addrs off @ p" using r(3) s(5) by simp
    ultimately show ?thesis using ext_trans [OF s(4) r(2)] r(4) s(6) st(2) le by (intro exI [of _ a'] exI [of _ m']) auto
  qed
qed

end
