(* ===== verification/MkfsFiles.thy ===== *)
theory MkfsFiles
  imports MkfsTree
begin

text \<open>
  What \<open>ialloc\<close>, \<open>iappend\<close> and \<open>dirlink\<close> of \<open>mkfs.c\<close> do to the files of the image: the file
  they are called for grows by the bytes, all others stay, since the trees of blocks of the inodes
  are apart from each other.
\<close>

section \<open>The files of an image\<close>

lemma tree_same_blocks:
  assumes "tree d addrs T lo hi" "hi \<le> hi'" "\<And>p. p \<in> T \<Longrightarrow> d' (node d addrs p) = d (node d addrs p)"
  shows "tree d' addrs T lo hi'" "\<And>p. p \<in> T \<Longrightarrow> node d' addrs p = node d addrs p"
    "T = tree_paths (nblk sz) \<Longrightarrow> file_bytes d' addrs sz = file_bytes d addrs sz"
proof -
  show "tree d' addrs T lo hi'" and n: "\<And>p. p \<in> T \<Longrightarrow> node d' addrs p = node d addrs p"
    using tree_frame [OF assms(1,2)] assms(3) by blast+
  assume T: "T = tree_paths (nblk sz)"
  have "file_byte d' addrs k = file_byte d addrs k" if "k < sz" for k
  proof -
    have "bpath (k div BSIZE) \<in> T" unfolding T using block_below [OF that] by (auto simp: tree_paths_def bpaths_def bpath_def)
    then show ?thesis using n assms(3) by (simp add: file_byte_def)
  qed
  then show "file_bytes d' addrs sz = file_bytes d addrs sz" by (simp add: file_bytes_def)
qed

definition mk_inode :: "mkfs \<Rightarrow> u32 \<Rightarrow> dinode" where
  "mk_inode m i = disk_inode (image m) mkfs_sb i"

definition mk_size :: "mkfs \<Rightarrow> u32 \<Rightarrow> nat" where
  "mk_size m i = unat (d_size (mk_inode m i))"

definition mk_paths :: "mkfs \<Rightarrow> u32 \<Rightarrow> nat list set" where
  "mk_paths m i = tree_paths (nblk (mk_size m i))"

definition mk_blocks :: "mkfs \<Rightarrow> u32 \<Rightarrow> u32 set" where
  "mk_blocks m i = node (image m) (d_addrs (mk_inode m i)) ` mk_paths m i"

text \<open>The bytes of the file with inode \<open>i\<close>: what an image is about.\<close>

definition mk_file :: "mkfs \<Rightarrow> u32 \<Rightarrow> u8 list" where
  "mk_file m i = file_bytes (image m) (d_addrs (mk_inode m i)) (mk_size m i)"

definition mk_given :: "mkfs \<Rightarrow> u32 set" where
  "mk_given m = {i. 1 \<le> unat i \<and> unat i < unat (freeinode m)}"

definition files_ok :: "mkfs \<Rightarrow> bool" where
  "files_ok m \<longleftrightarrow> mk_ok m \<and> msb m = mkfs_sb \<and> sectors m = FSSIZE \<and> nmeta \<le> unat (freeblock m) \<and>
    unat (freeinode m) \<le> NINODES \<and>
    (\<forall>i \<in> mk_given m. mk_size m i \<le> MAXFILE * BSIZE \<and>
      tree (image m) (d_addrs (mk_inode m i)) (mk_paths m i) nmeta (unat (freeblock m))) \<and>
    (\<forall>i \<in> mk_given m. \<forall>j \<in> mk_given m. i \<noteq> j \<longrightarrow> mk_blocks m i \<inter> mk_blocks m j = {})"

lemma mkfs_consts: "FSSIZE = 8192" "NINODES = 200" "nmeta = 64" "ninodeblocks = 29" "BPB = 4096" "IPB = 7" "inodestart mkfs_sb = 32"
  "bmapstart mkfs_sb = 61" "sb_size mkfs_sb = 8192"
  by (simp_all add: FSSIZE_def NINODES_def LOGSIZE_def ninodeblocks_def nbitmap_def nmeta_def layout_defs mkfs_sb_def)

lemma IBLOCK_mkfs: "unat i \<le> NINODES \<Longrightarrow> unat (IBLOCK i mkfs_sb) < nmeta"
proof -
  assume "unat i \<le> NINODES"
  then have "unat (i div 7) \<le> 28" by (simp add: unat_div mkfs_consts)
  then show ?thesis by (simp add: IBLOCK_def mkfs_consts unat_word_ariths)
qed

lemma IBLOCK_low: "32 \<le> unat (IBLOCK i mkfs_sb)" if "unat i < NINODES"
proof -
  have "unat (i div 7) \<le> 28" using that by (simp add: unat_div mkfs_consts)
  then show ?thesis by (simp add: IBLOCK_def mkfs_consts unat_word_ariths)
qed

lemma dinode_ok_disk [simp]: "dinode_ok (disk_inode d sbk i)"
  by (simp add: disk_inode_def get_dinode_def dec_dinode_def dinode_ok_def)

text \<open>Storing an inode touches no file.\<close>

lemma winode_ok:
  assumes "mk_ok m" "msb m = mkfs_sb" "nmeta \<le> unat (freeblock m)" "unat i < NINODES" "dinode_ok x"
  obtains m' where "winode i x m = Ret () m'" "image m' = store_inode mkfs_sb i x (image m)" "freeblock m' = freeblock m"
    "same_setup m m'" "mk_ok m'" "\<And>j. mk_inode m' j = (if j = i then x else mk_inode m j)"
proof -
  let ?b = "IBLOCK i mkfs_sb"
  let ?m = "m\<lparr>image := store_inode mkfs_sb i x (image m)\<rparr>"
  have b: "unat ?b < unat (freeblock m)" using IBLOCK_mkfs [of i] assms(3,4) by simp
  have l: "\<And>b. length (image m b) = BSIZE" using assms(1) by (simp add: mk_ok_def)
  have "winode i x m = Ret () ?m"
    using rsect_ok [OF assms(1) b] assms(1,2) b by (simp add: winode_def Let_def wsect_def mk_ok_def store_inode_def max_absorb1)
  moreover have "mk_ok ?m" using assms(1,5) b l by (auto simp: mk_ok_def store_inode_def)
  ultimately show thesis
    using that [of ?m] disk_inode_store [OF l assms(5)] by (simp add: same_setup_def mk_inode_def)
qed

lemma rinode_ok:
  assumes "mk_ok m" "msb m = mkfs_sb" "nmeta \<le> unat (freeblock m)" "unat i < NINODES"
  shows "rinode i m = Ret (mk_inode m i) m"
  using rsect_ok [OF assms(1), of "IBLOCK i mkfs_sb"] IBLOCK_mkfs [of i] assms
  by (simp add: rinode_def mk_inode_def disk_inode_def)

lemma files_okD:
  assumes "files_ok m"
  shows "mk_ok m" "msb m = mkfs_sb" "sectors m = FSSIZE" "nmeta \<le> unat (freeblock m)" "unat (freeinode m) \<le> NINODES"
    "i \<in> mk_given m \<Longrightarrow> unat i < NINODES"
    "i \<in> mk_given m \<Longrightarrow> tree (image m) (d_addrs (mk_inode m i)) (mk_paths m i) nmeta (unat (freeblock m))"
    "i \<in> mk_given m \<Longrightarrow> mk_size m i \<le> MAXFILE * BSIZE"
    "i \<in> mk_given m \<Longrightarrow> j \<in> mk_given m \<Longrightarrow> i \<noteq> j \<Longrightarrow> mk_blocks m i \<inter> mk_blocks m j = {}"
  using assms unfolding files_ok_def by (auto simp: mk_given_def)

text \<open>A step that keeps the blocks and the inode of file \<open>j\<close> keeps the file.\<close>

lemma file_kept:
  assumes f: "files_ok m" "j \<in> mk_given m" and hi: "unat (freeblock m) \<le> hi"
    and x: "d_addrs (mk_inode m' j) = d_addrs (mk_inode m j)" "d_size (mk_inode m' j) = d_size (mk_inode m j)"
    and d: "\<And>b. b \<in> mk_blocks m j \<Longrightarrow> image m' b = image m b"
  shows "tree (image m') (d_addrs (mk_inode m' j)) (mk_paths m' j) nmeta hi" "mk_blocks m' j = mk_blocks m j"
    "mk_file m' j = mk_file m j" "mk_size m' j = mk_size m j"
proof -
  have sz: "mk_size m' j = mk_size m j" "mk_paths m' j = mk_paths m j" using x(2) by (simp_all add: mk_size_def mk_paths_def)
  have "image m' (node (image m) (d_addrs (mk_inode m j)) p) = image m (node (image m) (d_addrs (mk_inode m j)) p)"
    if "p \<in> mk_paths m j" for p using d that by (auto simp: mk_blocks_def)
  note A = tree_same_blocks [OF files_okD(7) [OF f] hi this]
  show "tree (image m') (d_addrs (mk_inode m' j)) (mk_paths m' j) nmeta hi" using A(1) by (simp add: x(1) sz)
  show "mk_blocks m' j = mk_blocks m j" using A(2) by (auto simp: mk_blocks_def x(1) sz image_iff)
  show "mk_file m' j = mk_file m j" using A(3) by (simp add: mk_file_def x(1) sz mk_paths_def)
  show "mk_size m' j = mk_size m j" by (rule sz)
qed

lemma mk_blocks_range:
  assumes "files_ok m" "i \<in> mk_given m" "b \<in> mk_blocks m i" shows "nmeta \<le> unat b" "unat b < unat (freeblock m)"
  using files_okD(7) [OF assms(1,2)] assms(3) by (auto simp: mk_blocks_def tree_def)

lemma iappend_ok:
  assumes f: "files_ok m" "i \<in> mk_given m" and sz: "mk_size m i + length p \<le> MAXFILE * BSIZE"
    and room: "unat (freeblock m) + 3 * (nblk (mk_size m i + length p) - nblk (mk_size m i)) \<le> FSSIZE"
  obtains m' where "iappend i p m = Ret () m'" "files_ok m'" "freeinode m' = freeinode m"
    "unat (freeblock m') \<le> unat (freeblock m) + 3 * (nblk (mk_size m i + length p) - nblk (mk_size m i))"
    "\<And>j. j \<in> mk_given m \<Longrightarrow> mk_file m' j = (if j = i then mk_file m i @ p else mk_file m j)"
    "\<And>j. j \<in> mk_given m \<Longrightarrow> mk_size m' j = (if j = i then mk_size m i + length p else mk_size m j)"
    "\<And>j. unat j < NINODES \<Longrightarrow> mk_inode m' j = (mk_inode m j)\<lparr>d_addrs := d_addrs (mk_inode m' j), d_size := d_size (mk_inode m' j)\<rparr>"
    "\<And>b. unat b < 32 \<Longrightarrow> image m' b = image m b"
proof -
  note F = files_okD [OF f(1)]
  let ?x = "mk_inode m i" and ?T = "mk_paths m i" and ?s = "mk_size m i"
  obtain a m1 where l: "iappend_loop ?s p (d_addrs ?x) m = Ret a m1"
      "ext (\<lambda>_. True) nmeta m (d_addrs ?x) ?T m1 a (tree_paths (nblk (?s + length p)))"
      "file_bytes (image m1) a (?s + length p) = mk_file m i @ p"
      "unat (freeblock m1) \<le> unat (freeblock m) + 3 * (nblk (?s + length p) - nblk ?s)"
    using iappend_loop_ok [OF F(1) F(7) [OF f(2), unfolded mk_paths_def] sz] room F(3,4) unfolding mk_file_def mk_paths_def by auto
  note m1 = ext_tree [OF l(2)]
  have s1: "same_setup m m1" using l(2) by (simp add: ext_def)
  have keep: "image m1 b = image m b" if "unat b < unat (freeblock m)" "b \<notin> mk_blocks m i" for b
    using l(2) that unfolding ext_def mk_blocks_def by simp
  have in1: "mk_inode m1 j = mk_inode m j" if "unat j < NINODES" for j
  proof -
    have "unat (IBLOCK j mkfs_sb) < nmeta" using IBLOCK_mkfs that by simp
    then have "image m1 (IBLOCK j mkfs_sb) = image m (IBLOCK j mkfs_sb)"
      using keep mk_blocks_range(1) [OF f] F(4) by (meson leD order_less_le_trans)
    then show ?thesis by (simp add: mk_inode_def disk_inode_def)
  qed
  let ?y = "?x\<lparr>d_addrs := a, d_size := d_size ?x + of_nat (length p)\<rparr>"
  have ok: "dinode_ok ?y" using m1 by (simp add: dinode_ok_def tree_def)
  obtain m2 where w: "winode i ?y m1 = Ret () m2" "image m2 = store_inode mkfs_sb i ?y (image m1)" "freeblock m2 = freeblock m1"
      "same_setup m1 m2" "mk_ok m2" "\<And>j. mk_inode m2 j = (if j = i then ?y else mk_inode m1 j)"
    by (rule winode_ok [of m1 i ?y]) (use m1 s1 F ok f(2) in \<open>auto simp: same_setup_def\<close>)
  have r: "iappend i p m = Ret () m2"
    using rinode_ok [OF F(1,2,4) F(6) [OF f(2)]] l(1) w(1) by (simp add: iappend_def mk_size_def)
  have big: "image m2 b = image m1 b" if "nmeta \<le> unat b" for b
    using that IBLOCK_mkfs [of i] F(6) [OF f(2)] by (auto simp: w(2) store_inode_def)
  have "unat (d_size ?x) + length p < 2 ^ 32" using sz by (simp add: mk_size_def NINDIRECT_eq BSIZE_def)
  then have szi: "mk_size m2 i = ?s + length p" by (simp add: mk_size_def w(6) unat_word_ariths unat_of_nat_u32)
  have nodes2: "tree (image m2) a (mk_paths m2 i) nmeta (unat (freeblock m2))"
      "\<And>q. q \<in> mk_paths m2 i \<Longrightarrow> node (image m2) a q = node (image m1) a q"
      "file_bytes (image m2) a (?s + length p) = file_bytes (image m1) a (?s + length p)"
  proof -
    have "image m2 (node (image m1) a q) = image m1 (node (image m1) a q)" if "q \<in> tree_paths (nblk (?s + length p))" for q
      using that m1 by (intro big) (auto simp: tree_def)
    from tree_same_blocks [OF conjunct1 [OF conjunct2 [OF m1]] le_refl this]
    show "tree (image m2) a (mk_paths m2 i) nmeta (unat (freeblock m2))"
      "\<And>q. q \<in> mk_paths m2 i \<Longrightarrow> node (image m2) a q = node (image m1) a q"
      "file_bytes (image m2) a (?s + length p) = file_bytes (image m1) a (?s + length p)"
      by (simp_all add: mk_paths_def szi w(3))
  qed
  have given: "mk_given m2 = mk_given m" using w(4) s1 by (simp add: mk_given_def same_setup_def)
  have other: "d_addrs (mk_inode m2 j) = d_addrs (mk_inode m j)" "d_size (mk_inode m2 j) = d_size (mk_inode m j)"
      "\<And>b. b \<in> mk_blocks m j \<Longrightarrow> image m2 b = image m b" if "j \<in> mk_given m" "j \<noteq> i" for j
  proof -
    show "d_addrs (mk_inode m2 j) = d_addrs (mk_inode m j)" "d_size (mk_inode m2 j) = d_size (mk_inode m j)"
      using that in1 [OF F(6) [OF that(1)]] by (simp_all add: w(6))
    fix b assume b: "b \<in> mk_blocks m j"
    then have "b \<notin> mk_blocks m i" using F(9) [OF that(1) f(2) that(2)] by blast
    then show "image m2 b = image m b" using keep big mk_blocks_range [OF f(1) that(1) b] by simp
  qed
  have le: "unat (freeblock m) \<le> unat (freeblock m2)" using m1 w(3) by simp
  have K: "tree (image m2) (d_addrs (mk_inode m2 j)) (mk_paths m2 j) nmeta (unat (freeblock m2))" "mk_blocks m2 j = mk_blocks m j"
      "mk_file m2 j = mk_file m j" "mk_size m2 j = mk_size m j" if "j \<in> mk_given m" "j \<noteq> i" for j
    using file_kept [OF f(1) that(1) le other [OF that]] by simp_all
  have blk: "mk_blocks m2 i \<subseteq> mk_blocks m i \<union> {b. unat (freeblock m) \<le> unat b}"
  proof
    fix b assume "b \<in> mk_blocks m2 i"
    then obtain q where q: "q \<in> mk_paths m2 i" "b = node (image m2) a q" by (auto simp: mk_blocks_def w(6))
    then have b: "b = node (image m1) a q" using nodes2(2) by simp
    show "b \<in> mk_blocks m i \<union> {b. unat (freeblock m) \<le> unat b}"
    proof (cases "q \<in> ?T")
      case True
      then have "b = node (image m) (d_addrs ?x) q" using l(2) b unfolding ext_def by simp
      then show ?thesis using True by (auto simp: mk_blocks_def)
    next
      case False
      then have "q \<in> tree_paths (nblk (?s + length p)) - ?T" using q(1) by (simp add: mk_paths_def szi)
      then show ?thesis using l(2) b unfolding ext_def by simp
    qed
  qed
  have apart: "mk_blocks m2 j \<inter> mk_blocks m2 i = {}" if j: "j \<in> mk_given m" "j \<noteq> i" for j
  proof -
    have "mk_blocks m2 j = mk_blocks m j" using K(2) j by blast
    then show ?thesis using blk F(9) [OF j(1) f(2) j(2)] mk_blocks_range(2) [OF f(1) j(1)] by fastforce
  qed
  have "files_ok m2" unfolding files_ok_def given
  proof (intro conjI ballI impI)
    fix j assume j: "j \<in> mk_given m"
    show "mk_size m2 j \<le> MAXFILE * BSIZE" using K(4) [of j] j F(8) sz szi by (cases "j = i") auto
    show "tree (image m2) (d_addrs (mk_inode m2 j)) (mk_paths m2 j) nmeta (unat (freeblock m2))"
      using K(1) [of j] j nodes2(1) by (cases "j = i") (auto simp: w(6))
    fix j' assume j': "j' \<in> mk_given m" "j \<noteq> j'"
    show "mk_blocks m2 j \<inter> mk_blocks m2 j' = {}"
      using apart j j' F(9) [OF j j'] K(2) by (cases "j = i"; cases "j' = i") blast+
  qed (use w s1 F m1 le in \<open>auto simp: same_setup_def\<close>)
  moreover have "image m2 b = image m b" if "unat b < 32" for b
  proof -
    have "b \<noteq> IBLOCK i mkfs_sb" using IBLOCK_low F(6) [OF f(2)] that by force
    moreover have "b \<notin> mk_blocks m i" "unat b < unat (freeblock m)" using mk_blocks_range(1) [OF f, of b] F(4) that by (auto simp: mkfs_consts)
    ultimately show ?thesis using keep [of b] by (simp add: w(2) store_inode_def)
  qed
  moreover have "mk_file m2 i = mk_file m i @ p" using l(3) nodes2(3) by (simp add: mk_file_def szi) (simp add: w(6))
  ultimately show thesis
    using that [of m2] r w(3,4) s1 l(4) K(3,4) szi in1 w(6) by (auto simp: same_setup_def)
qed

section \<open>The image as a map of files\<close>

text \<open>Type, link count and bytes of every inode given out.\<close>

definition mk_view :: "mkfs \<Rightarrow> u32 \<Rightarrow> (u16 \<times> u16 \<times> u8 list) option" where
  "mk_view m i = (if i \<in> mk_given m then Some (d_type (mk_inode m i), d_nlink (mk_inode m i), mk_file m i) else None)"

text \<open>What every operation keeps, with at most \<open>c\<close> blocks handed out.\<close>

definition mk_step :: "nat \<Rightarrow> mkfs \<Rightarrow> mkfs \<Rightarrow> bool" where
  "mk_step c m m' \<longleftrightarrow> files_ok m' \<and> unat (freeblock m') \<le> unat (freeblock m) + c \<and>
    (\<forall>b. unat b < 32 \<longrightarrow> image m' b = image m b)"

lemma mk_step_trans: "mk_step c m m' \<Longrightarrow> mk_step c' m' m'' \<Longrightarrow> mk_step (c + c') m m''"
  by (auto simp: mk_step_def)

lemma mk_view_Some:
  "mk_view m i = Some (t, n, bs) \<longleftrightarrow> i \<in> mk_given m \<and> t = d_type (mk_inode m i) \<and> n = d_nlink (mk_inode m i) \<and> bs = mk_file m i"
  by (auto simp: mk_view_def)

lemma length_mk_file [simp]: "length (mk_file m i) = mk_size m i"
  by (simp add: mk_file_def file_bytes_def)

lemma iappend_refines:
  assumes "files_ok m" "mk_view m i = Some (t, n, bs)" "length bs + length p \<le> MAXFILE * BSIZE"
    and "unat (freeblock m) + 3 * (nblk (length bs + length p) - nblk (length bs)) \<le> FSSIZE"
  obtains m' where "iappend i p m = Ret () m'" "mk_step (3 * (nblk (length bs + length p) - nblk (length bs))) m m'"
    "mk_view m' = (mk_view m)(i \<mapsto> (t, n, bs @ p))" "freeinode m' = freeinode m"
proof -
  have v: "i \<in> mk_given m" "bs = mk_file m i" "t = d_type (mk_inode m i)" "n = d_nlink (mk_inode m i)"
    using assms(2) by (simp_all add: mk_view_Some)
  obtain m' where m': "iappend i p m = Ret () m'" "files_ok m'" "freeinode m' = freeinode m"
      "unat (freeblock m') \<le> unat (freeblock m) + 3 * (nblk (mk_size m i + length p) - nblk (mk_size m i))"
      "\<And>j. j \<in> mk_given m \<Longrightarrow> mk_file m' j = (if j = i then mk_file m i @ p else mk_file m j)"
      "\<And>j. unat j < NINODES \<Longrightarrow> mk_inode m' j = (mk_inode m j)\<lparr>d_addrs := d_addrs (mk_inode m' j), d_size := d_size (mk_inode m' j)\<rparr>"
      "\<And>b. unat b < 32 \<Longrightarrow> image m' b = image m b"
    by (rule iappend_ok [OF assms(1) v(1), of p]) (use assms(3,4) v(2) in simp_all)
  have same: "d_type (mk_inode m' j) = d_type (mk_inode m j)" "d_nlink (mk_inode m' j) = d_nlink (mk_inode m j)" if "j \<in> mk_given m" for j
    using m'(6) [OF files_okD(6) [OF assms(1) that]] by (metis dinode.select_convs dinode.surjective dinode.update_convs(5,6))+
  have "mk_view m' = (mk_view m)(i \<mapsto> (t, n, bs @ p))"
  proof
    show "mk_view m' j = ((mk_view m)(i \<mapsto> (t, n, bs @ p))) j" for j
      using same m'(5) v m'(3) by (auto simp: mk_view_def mk_given_def)
  qed
  then show thesis using that [of m'] m' v(2) by (auto simp: mk_step_def)
qed

text \<open>Storing an inode with the same file changes its link count and type only.\<close>

lemma winode_refines:
  assumes "files_ok m" "i \<in> mk_given m" "d_addrs x = d_addrs (mk_inode m i)" "d_size x = d_size (mk_inode m i)"
  obtains m' where "winode i x m = Ret () m'" "mk_step 0 m m'" "freeinode m' = freeinode m"
    "mk_view m' = (mk_view m)(i \<mapsto> (d_type x, d_nlink x, mk_file m i))"
proof -
  note F = files_okD [OF assms(1)]
  have x: "dinode_ok x" using assms(3) dinode_ok_disk [of "image m" mkfs_sb i] by (simp add: mk_inode_def dinode_ok_def)
  obtain m' where w: "winode i x m = Ret () m'" "image m' = store_inode mkfs_sb i x (image m)" "freeblock m' = freeblock m"
      "same_setup m m'" "mk_ok m'" "\<And>j. mk_inode m' j = (if j = i then x else mk_inode m j)"
    by (rule winode_ok [OF F(1,2,4) F(6) [OF assms(2)] x]) blast
  have given: "mk_given m' = mk_given m" using w(4) by (simp add: mk_given_def same_setup_def)
  have K: "tree (image m') (d_addrs (mk_inode m' j)) (mk_paths m' j) nmeta (unat (freeblock m'))" "mk_blocks m' j = mk_blocks m j"
      "mk_file m' j = mk_file m j" "mk_size m' j = mk_size m j" if j: "j \<in> mk_given m" for j
  proof -
    have "image m' b = image m b" if "b \<in> mk_blocks m j" for b
      using mk_blocks_range(1) [OF assms(1) j that] IBLOCK_mkfs [of i] F(6) [OF assms(2)] by (auto simp: w(2) store_inode_def)
    moreover have "d_addrs (mk_inode m' j) = d_addrs (mk_inode m j)" "d_size (mk_inode m' j) = d_size (mk_inode m j)"
      using assms(3,4) by (cases "j = i"; simp add: w(6))+
    ultimately show "tree (image m') (d_addrs (mk_inode m' j)) (mk_paths m' j) nmeta (unat (freeblock m'))"
      "mk_blocks m' j = mk_blocks m j" "mk_file m' j = mk_file m j" "mk_size m' j = mk_size m j"
      using file_kept [OF assms(1) j le_refl, of m'] by (simp_all add: w(3))
  qed
  have "files_ok m'" unfolding files_ok_def given
    using K F(8,9) w(3,4,5) F(2-5) by (auto simp: same_setup_def)
  moreover have "image m' b = image m b" if "unat b < 32" for b
    using IBLOCK_low [OF F(6) [OF assms(2)]] that by (auto simp: w(2) store_inode_def)
  ultimately have "mk_step 0 m m'" by (simp add: mk_step_def w(3))
  moreover have "mk_view m' = (mk_view m)(i \<mapsto> (d_type x, d_nlink x, mk_file m i))"
    by (rule ext) (use K(3) assms(2) in \<open>auto simp: mk_view_def given w(6)\<close>)
  ultimately show thesis using that [of m'] w(1,4) by (simp add: same_setup_def)
qed

lemma set_nlink_refines:
  assumes "files_ok m" "mk_view m i = Some (t, n, bs)"
  obtains m' where "set_nlink i n' m = Ret () m'" "mk_step 0 m m'" "freeinode m' = freeinode m"
    "mk_view m' = (mk_view m)(i \<mapsto> (t, n', bs))"
proof -
  note F = files_okD [OF assms(1)]
  have i: "i \<in> mk_given m" "t = d_type (mk_inode m i)" "bs = mk_file m i" using assms(2) by (simp_all add: mk_view_Some)
  obtain m' where "winode i ((mk_inode m i)\<lparr>d_nlink := n'\<rparr>) m = Ret () m'" "mk_step 0 m m'" "freeinode m' = freeinode m"
      "mk_view m' = (mk_view m)(i \<mapsto> (t, n', bs))"
    by (rule winode_refines [OF assms(1) i(1), of "(mk_inode m i)\<lparr>d_nlink := n'\<rparr>"]) (use i(2,3) in auto)
  then show thesis using that [of m'] rinode_ok [OF F(1,2,4) F(6) [OF i(1)]] by (simp add: set_nlink_def)
qed

lemma mk_ialloc_refines:
  assumes "files_ok m" "1 \<le> unat (freeinode m)" "unat (freeinode m) < NINODES"
  obtains m' where "mk_ialloc t m = Ret (freeinode m) m'" "mk_step 0 m m'" "freeinode m' = freeinode m + 1"
    "mk_view m' = (mk_view m)(freeinode m \<mapsto> (t, 1, []))"
proof -
  note F = files_okD [OF assms(1)]
  let ?i = "freeinode m" and ?x = "\<lparr>d_type = t, d_major = 0, d_minor = 0, d_nlink = 1, d_size = 0, d_addrs = replicate (NDIRECT + 2) 0\<rparr>"
  let ?m = "m\<lparr>freeinode := ?i + 1\<rparr>"
  have "mk_ok ?m" using F(1) by (simp add: mk_ok_def)
  then obtain m' where w: "winode ?i ?x ?m = Ret () m'" "image m' = store_inode mkfs_sb ?i ?x (image m)" "freeblock m' = freeblock m"
      "same_setup ?m m'" "mk_ok m'" "\<And>j. mk_inode m' j = (if j = ?i then ?x else mk_inode m j)"
    by (rule winode_ok [of ?m ?i ?x]) (use F assms(3) in \<open>auto simp: dinode_ok_def mk_inode_def\<close>)
  have u: "unat (?i + 1) = unat ?i + 1" using assms(3) by (simp add: mkfs_consts unat_word_ariths)
  have given: "mk_given m' = insert ?i (mk_given m)"
    using w(4) u assms(2) by (auto simp: mk_given_def same_setup_def less_Suc_eq word_unat_eq_iff)
  have new: "?i \<notin> mk_given m" by (simp add: mk_given_def)
  have K: "tree (image m') (d_addrs (mk_inode m' j)) (mk_paths m' j) nmeta (unat (freeblock m'))" "mk_blocks m' j = mk_blocks m j"
      "mk_file m' j = mk_file m j" "mk_size m' j = mk_size m j" if j: "j \<in> mk_given m" for j
  proof -
    have "image m' b = image m b" if "b \<in> mk_blocks m j" for b
      using mk_blocks_range(1) [OF assms(1) j that] IBLOCK_mkfs [of ?i] assms(3) by (auto simp: w(2) store_inode_def)
    moreover have "d_addrs (mk_inode m' j) = d_addrs (mk_inode m j)" "d_size (mk_inode m' j) = d_size (mk_inode m j)"
      using j new by (cases "j = ?i"; simp add: w(6))+
    ultimately show "tree (image m') (d_addrs (mk_inode m' j)) (mk_paths m' j) nmeta (unat (freeblock m'))"
      "mk_blocks m' j = mk_blocks m j" "mk_file m' j = mk_file m j" "mk_size m' j = mk_size m j"
      using file_kept [OF assms(1) j le_refl, of m'] by (simp_all add: w(3))
  qed
  have I: "mk_size m' ?i = 0" "mk_paths m' ?i = {}" "mk_blocks m' ?i = {}" "mk_file m' ?i = []"
    by (simp_all add: mk_size_def mk_paths_def mk_blocks_def mk_file_def w(6) nblk_def BSIZE_def file_bytes_def)
  have z: "\<forall>i < NDIRECT + 2. replicate (NDIRECT + 2) 0 ! i = (0 :: u32)" by (metis nth_replicate)
  have "tree (image m') (d_addrs (mk_inode m' ?i)) (mk_paths m' ?i) nmeta (unat (freeblock m'))"
    using z by (simp add: I w(6) tree_def closed_def mkfs_consts)
  then have "files_ok m'" unfolding files_ok_def given
    using K F(8,9) I w(3,4,5) F(2-5) assms(3) u by (auto simp: same_setup_def)
  moreover have "image m' b = image m b" if "unat b < 32" for b
    using IBLOCK_low [OF assms(3)] that by (auto simp: w(2) store_inode_def)
  ultimately have "mk_step 0 m m'" by (simp add: mk_step_def w(3))
  moreover have "mk_view m' = (mk_view m)(?i \<mapsto> (t, 1, []))"
    by (rule ext) (use K(3) new I in \<open>auto simp: mk_view_def given w(6)\<close>)
  ultimately show thesis using that [of m'] w(1,4) by (simp add: mk_ialloc_def Let_def same_setup_def)
qed

text \<open>A directory as the list of its entries.\<close>

definition dents :: "(u32 \<times> string) list \<Rightarrow> u8 list" where
  "dents es = concat (map (\<lambda>(i, nm). enc_dirent \<lparr>de_inum = ucast i, de_name = strncpy (cstring nm) DIRSIZ\<rparr>) es)"

lemma length_enc_named: "length (enc_dirent \<lparr>de_inum = i, de_name = strncpy s DIRSIZ\<rparr>) = sizeof_dirent"
  by (simp add: enc_dirent_def strncpy_def strncpy_from_length sizeof_dirent_def)

lemma length_dents: "length (dents es) = sizeof_dirent * length es"
  by (induction es) (auto simp: dents_def length_enc_named)

lemma dents_snoc: "dents (es @ [(i, nm)]) = dents es @ enc_dirent \<lparr>de_inum = ucast i, de_name = strncpy (cstring nm) DIRSIZ\<rparr>"
  by (simp add: dents_def)

lemma nblk_dirent: "nblk (k + sizeof_dirent) - nblk k \<le> 1"
proof -
  have "(k + sizeof_dirent + BSIZE - 1) div BSIZE \<le> (k + BSIZE - 1 + 1 * BSIZE) div BSIZE"
    by (rule div_le_mono) (simp add: sizeof_dirent_def DIRSIZ_def BSIZE_def)
  also have "\<dots> = (k + BSIZE - 1) div BSIZE + 1" by (subst div_mult_self1) (simp_all add: BSIZE_def)
  finally show ?thesis by (simp add: nblk_def)
qed

lemma mk_dirlink_refines:
  assumes "files_ok m" "mk_view m d = Some (t, n, dents es)" "length es < 1000" "unat (freeblock m) + 3 \<le> FSSIZE"
  obtains m' where "mk_dirlink d (cstring nm) i m = Ret () m'" "mk_step 3 m m'"
    "mk_view m' = (mk_view m)(d \<mapsto> (t, n, dents (es @ [(i, nm)])))" "freeinode m' = freeinode m"
proof -
  let ?e = "enc_dirent \<lparr>de_inum = ucast i, de_name = strncpy (cstring nm) DIRSIZ\<rparr>"
  have l: "length ?e = 16" "length (dents es) \<le> 16000"
    unfolding length_enc_named length_dents using assms(3) by (simp_all add: sizeof_dirent_def DIRSIZ_def)
  have c: "3 * (nblk (length (dents es) + length ?e) - nblk (length (dents es))) \<le> 3"
    using nblk_dirent [of "length (dents es)"] by (simp add: length_enc_named)
  obtain m' where "iappend d ?e m = Ret () m'" "mk_step (3 * (nblk (length (dents es) + length ?e) - nblk (length (dents es)))) m m'"
      "mk_view m' = (mk_view m)(d \<mapsto> (t, n, dents es @ ?e))" "freeinode m' = freeinode m"
    by (rule iappend_refines [OF assms(1,2), of ?e])
      (use assms(4) c l in \<open>simp_all add: NINDIRECT_eq BSIZE_def\<close>)
  then show thesis using that [of m'] c by (auto simp: mk_dirlink_def dents_snoc mk_step_def)
qed

section \<open>Properties\<close>

text \<open>C14: 
  \<open>iappend\<close> appends: with room on the image and a file that stays below \<open>MAXFILE\<close> blocks, the file it
  is called for, whatever its size, ends in the new bytes and keeps its type and links, every other
  file stays as it is, and the superblock and the log are not touched.
\<close>

theorem iappend_appends:
  assumes "files_ok m" and "mk_view m i = Some (t, n, bs)" and "length bs + length p \<le> MAXFILE * BSIZE"
    and "unat (freeblock m) + 3 * (nblk (length bs + length p) - nblk (length bs)) \<le> FSSIZE"
  shows "\<exists>m'. iappend i p m = Ret () m' \<and> files_ok m' \<and> mk_view m' = (mk_view m)(i \<mapsto> (t, n, bs @ p)) \<and>
    (\<forall>b. unat b < 32 \<longrightarrow> image m' b = image m b)"
proof -
  obtain m' where "iappend i p m = Ret () m'" "mk_step (3 * (nblk (length bs + length p) - nblk (length bs))) m m'"
      "mk_view m' = (mk_view m)(i \<mapsto> (t, n, bs @ p))"
    using iappend_refines [OF assms] by blast
  then show ?thesis by (auto simp: mk_step_def)
qed

text \<open>An image with one empty file.\<close>

definition blank_image :: mkfs where
  "blank_image = (mkfs_start (\<lambda>_. False))\<lparr>sectors := FSSIZE, msb := mkfs_sb, freeblock := of_nat nmeta\<rparr>"

lemma blank_image_ok: "files_ok blank_image" "freeinode blank_image = 1" "unat (freeblock blank_image) = nmeta"
proof -
  have g: "mk_given blank_image = {}" by (auto simp: mk_given_def blank_image_def mkfs_start_def)
  have "mk_ok blank_image" by (auto simp: mk_ok_def blank_image_def mkfs_start_def mkfs_consts zero_block_def)
  then show "files_ok blank_image" using g
    by (simp add: files_ok_def) (simp add: blank_image_def mkfs_start_def mkfs_consts)
qed (simp_all add: blank_image_def mkfs_start_def mkfs_consts)

theorem iappend_appends_witness:
  "\<exists>m m'. mk_ialloc T_FILE blank_image = Ret 1 m \<and> iappend 1 (replicate 600 7) m = Ret () m' \<and>
    mk_view m' 1 = Some (T_FILE, 1, replicate 600 7)"
proof -
  obtain m where m: "mk_ialloc T_FILE blank_image = Ret 1 m" "mk_step 0 blank_image m" "mk_view m = (mk_view blank_image)(1 \<mapsto> (T_FILE, 1, []))"
    using mk_ialloc_refines [OF blank_image_ok(1), of T_FILE] blank_image_ok(2) by (auto simp: mkfs_consts)
  then have "files_ok m" "mk_view m 1 = Some (T_FILE, 1, [])" "unat (freeblock m) \<le> 64"
    using blank_image_ok(3) by (simp_all add: mk_step_def mkfs_consts)
  from iappend_appends [OF this(1,2), of "replicate 600 7"] this(3) m(1) show ?thesis
    by (auto simp: nblk_def BSIZE_def NINDIRECT_eq mkfs_consts)
qed

end
