(* ===== verification/MkfsImage.thy ===== *)
theory MkfsImage
  imports MkfsFiles
begin

text \<open>
  The image that \<open>main\<close> of \<open>mkfs.c\<close> leaves: its superblock, its directories and files, and the map
  of the blocks in use.
\<close>

section \<open>Formatting\<close>

lemma ofold_append: "ofold f (xs @ ys) s = obind (ofold f xs s) (\<lambda>_. ofold f ys)"
proof (induction xs arbitrary: s)
  case (Cons x xs)
  then show ?case by (cases "f x s") simp_all
qed simp

lemma zero_sectors:
  assumes "image m = (\<lambda>_. zero_block)" "\<And>b. \<not> io_error m b" "sectors m = 0" "n \<le> FSSIZE"
  shows "ofold (\<lambda>i. wsect (of_nat i) zero_block) [0..<n] m = Ret () (m\<lparr>sectors := n\<rparr>)"
  using assms(4)
proof (induction n)
  case 0
  then show ?case using assms(3) by (cases m) simp
next
  case (Suc n)
  have u: "unat (of_nat n :: u32) = n" using Suc.prems by (intro unat_of_nat_u32) (simp add: mkfs_consts)
  have "(\<lambda>_. zero_block)(of_nat n := zero_block) = (\<lambda>_ :: u32. zero_block)" by auto
  then show ?case using Suc assms u by (cases m) (simp add: ofold_append wsect_def)
qed

lemma get32_prefix: "k + 4 \<le> length a \<Longrightarrow> get32 k (a @ b) = get32 k a"
  by (simp add: get32_def nth_append)

lemma dec_enc_superblock: "dec_superblock (put_bytes 0 (enc_superblock b) zero_block) = b"
proof -
  let ?ws = "[magic b, sb_size b, nblocks b, ninodes b, nlog b, logstart b, inodestart b, bmapstart b]"
  have "get32 (4 * j) (put_bytes 0 (enc_superblock b) zero_block) = ?ws ! j" if "j < 8" for j
    using that get32_concat [of j ?ws] get32_prefix [of "4 * j" "concat (map le32 ?ws)"]
    by (simp add: put_bytes_def enc_superblock_def del: concat.simps list.map)
  from this [of 0] this [of 1] this [of 2] this [of 3] this [of 4] this [of 5] this [of 6] this [of 7]
  show ?thesis by (simp add: dec_superblock_def del: One_nat_def)
qed

lemma mkfs_format_ok:
  obtains m where "mkfs_format (mkfs_start (\<lambda>_. False)) = Ret () m" "files_ok m" "mk_view m = Map.empty" "freeinode m = 1"
    "unat (freeblock m) = nmeta" "dec_superblock (image m 1) = mkfs_sb"
proof -
  let ?start = "(mkfs_start (\<lambda>_. False))\<lparr>msb := mkfs_sb, freeblock := of_nat nmeta\<rparr>"
  let ?b = "put_bytes 0 (enc_superblock mkfs_sb) zero_block"
  let ?m = "?start\<lparr>sectors := FSSIZE, image := (\<lambda>_. zero_block)(1 := ?b)\<rparr>"
  have l: "length ?b = BSIZE" by (simp add: enc_superblock_def zero_block_def BSIZE_def)
  have z: "ofold (\<lambda>i. wsect (of_nat i) (replicate BSIZE 0)) [0..<FSSIZE] ?start = Ret () (?start\<lparr>sectors := FSSIZE\<rparr>)"
    using zero_sectors [of ?start FSSIZE] by (simp add: mkfs_start_def zero_block_def)
  have "mkfs_format (mkfs_start (\<lambda>_. False)) = Ret () ?m"
    unfolding mkfs_format_def Let_def z obind.simps
    by (simp add: wsect_def mkfs_start_def mkfs_consts zero_block_def)
  moreover have fb: "unat (of_nat nmeta :: u32) = nmeta" by (simp add: mkfs_consts)
  moreover have g: "mk_given ?m = {}" by (auto simp: mk_given_def mkfs_start_def)
  moreover have "mk_ok ?m"
    using l fb by (auto simp: mk_ok_def mkfs_start_def mkfs_consts zero_block_def)
  then have "files_ok ?m" using g fb by (simp add: files_ok_def) (simp add: mkfs_start_def mkfs_consts)
  moreover have "mk_view ?m = Map.empty" using g by (auto simp: mk_view_def)
  ultimately show thesis using that [of ?m] dec_enc_superblock [of mkfs_sb] by (simp add: mkfs_start_def)
qed

section \<open>Directories\<close>

lemma mk_stepD: "mk_step c m m' \<Longrightarrow> files_ok m' \<and> unat (freeblock m') \<le> unat (freeblock m) + c"
  by (simp add: mk_step_def)

lemma dents_Nil [simp]: "dents [] = []"
  by (simp add: dents_def)

lemma make_dir_ok:
  assumes f: "files_ok m" "mk_view m r = Some (T_DIR, n, dents es)" "length es < 1000" "freeinode m = i" "i \<noteq> r"
    and room: "1 \<le> unat i" "unat i < NINODES" "unat (freeblock m) + 9 \<le> FSSIZE"
  obtains m' where "make_dir_under_root r (cstring nm) m = Ret i m'" "mk_step 9 m m'" "freeinode m' = i + 1"
    "mk_view m' = (mk_view m)(r \<mapsto> (T_DIR, n, dents (es @ [(i, nm)])), i \<mapsto> (T_DIR, 2, dents [(i, ''.''), (r, ''..'')]))"
proof -
  obtain m1 where a: "mk_ialloc T_DIR m = Ret i m1" "mk_step 0 m m1" "freeinode m1 = i + 1"
      "mk_view m1 = (mk_view m)(i \<mapsto> (T_DIR, 1, dents []))"
    using mk_ialloc_refines [OF f(1), of T_DIR] f(4) room(1,2) by auto
  obtain m2 where b: "mk_dirlink i (cstring ''.'') i m1 = Ret () m2" "mk_step 3 m1 m2"
      "mk_view m2 = (mk_view m1)(i \<mapsto> (T_DIR, 1, dents ([] @ [(i, ''.'')])))" "freeinode m2 = freeinode m1"
    by (rule mk_dirlink_refines [of m1 i T_DIR 1 "[]" "''.''" i]) (use a(4) room(3) mk_stepD [OF a(2)] in auto)
  obtain m3 where c: "mk_dirlink i (cstring ''..'') r m2 = Ret () m3" "mk_step 3 m2 m3"
      "mk_view m3 = (mk_view m2)(i \<mapsto> (T_DIR, 1, dents ([(i, ''.'')] @ [(r, ''..'')])))" "freeinode m3 = freeinode m2"
    by (rule mk_dirlink_refines [of m2 i T_DIR 1 "[(i, ''.'')]" "''..''" r])
      (use b(3) room(3) mk_stepD [OF a(2)] mk_stepD [OF b(2)] in auto)
  obtain m4 where d: "mk_dirlink r (cstring nm) i m3 = Ret () m4" "mk_step 3 m3 m4"
      "mk_view m4 = (mk_view m3)(r \<mapsto> (T_DIR, n, dents (es @ [(i, nm)])))" "freeinode m4 = freeinode m3"
    by (rule mk_dirlink_refines [of m3 r T_DIR n es nm i])
      (use a(4) b(3) c(3) f(2,3,5) room(3) mk_stepD [OF a(2)] mk_stepD [OF b(2)] mk_stepD [OF c(2)] in auto)
  obtain m5 where e: "set_nlink i 2 m4 = Ret () m5" "mk_step 0 m4 m5" "freeinode m5 = freeinode m4"
      "mk_view m5 = (mk_view m4)(i \<mapsto> (T_DIR, 2, dents [(i, ''.''), (r, ''..'')]))"
    by (rule set_nlink_refines [of m4 i T_DIR 1 "dents [(i, ''.''), (r, ''..'')]" 2])
      (use c(3) d(3) f(5) mk_stepD [OF d(2)] in auto)
  have "mk_step (0 + 3 + 3 + 3 + 0) m m5"
    by (rule mk_step_trans [OF mk_step_trans [OF mk_step_trans [OF mk_step_trans [OF a(2) b(2)] c(2)] d(2)] e(2)])
  moreover have "mk_view m5 = (mk_view m)(r \<mapsto> (T_DIR, n, dents (es @ [(i, nm)])), i \<mapsto> (T_DIR, 2, dents [(i, ''.''), (r, ''..'')]))"
    unfolding e(4) d(3) c(3) b(3) a(4) using f(5) by (auto simp: fun_upd_twist)
  moreover have "make_dir_under_root r (cstring nm) m = Ret i m5"
    by (simp add: make_dir_under_root_def a(1) b(1) c(1) d(1) e(1))
  ultimately show thesis using that [of m5] a(3) b(4) c(4) d(4) e(3) by simp
qed

definition root_entries :: "(u32 \<times> string) list" where
  "root_entries = [(1, ''.''), (1, ''..''), (2, ''etc''), (3, ''bin''), (4, ''root'')]"

definition sub_dir :: "u32 \<Rightarrow> u16 \<times> u16 \<times> u8 list" where
  "sub_dir i = (T_DIR, 2, dents [(i, ''.''), (1, ''..'')])"

lemma mkfs_dirs_ok:
  assumes f: "files_ok m" "mk_view m = Map.empty" "freeinode m = 1" "unat (freeblock m) = nmeta"
  obtains m' where "mkfs_dirs m = Ret (1, 3) m'" "mk_step 33 m m'" "freeinode m' = 5"
    "mk_view m' = [1 \<mapsto> (T_DIR, 5, dents root_entries), 2 \<mapsto> sub_dir 2, 3 \<mapsto> sub_dir 3, 4 \<mapsto> sub_dir 4]"
proof -
  obtain m1 where a: "mk_ialloc T_DIR m = Ret 1 m1" "mk_step 0 m m1" "freeinode m1 = 2" "mk_view m1 = [1 \<mapsto> (T_DIR, 1, dents [])]"
    using mk_ialloc_refines [OF f(1), of T_DIR] f(2,3) by (auto simp: mkfs_consts)
  note A = mk_stepD [OF a(2)]
  obtain m2 where b: "mk_dirlink 1 (cstring ''.'') 1 m1 = Ret () m2" "mk_step 3 m1 m2"
      "mk_view m2 = [1 \<mapsto> (T_DIR, 1, dents ([] @ [(1, ''.'')]))]" "freeinode m2 = freeinode m1"
    by (rule mk_dirlink_refines [of m1 1 T_DIR 1 "[]" "''.''" 1]) (use a(4) A f(4) in \<open>auto simp: mkfs_consts\<close>)
  note B = mk_stepD [OF b(2)]
  obtain m3 where c: "mk_dirlink 1 (cstring ''..'') 1 m2 = Ret () m3" "mk_step 3 m2 m3"
      "mk_view m3 = [1 \<mapsto> (T_DIR, 1, dents ([(1, ''.'')] @ [(1, ''..'')]))]" "freeinode m3 = freeinode m2"
    by (rule mk_dirlink_refines [of m2 1 T_DIR 1 "[(1, ''.'')]" "''..''" 1]) (use b(3) A B f(4) in \<open>auto simp: mkfs_consts\<close>)
  note C = mk_stepD [OF c(2)]
  obtain m4 where d: "make_dir_under_root 1 (cstring ''etc'') m3 = Ret 2 m4" "mk_step 9 m3 m4" "freeinode m4 = 2 + 1"
      "mk_view m4 = (mk_view m3)(1 \<mapsto> (T_DIR, 1, dents ([(1, ''.''), (1, ''..'')] @ [(2, ''etc'')])), 2 \<mapsto> (T_DIR, 2, dents [(2, ''.''), (1, ''..'')]))"
    by (rule make_dir_ok [of m3 1 1 "[(1, ''.''), (1, ''..'')]" 2 "''etc''"])
      (use a(3) b(4) c(3,4) A B C f(4) in \<open>auto simp: mkfs_consts\<close>)
  note D = mk_stepD [OF d(2)]
  obtain m5 where e: "make_dir_under_root 1 (cstring ''bin'') m4 = Ret 3 m5" "mk_step 9 m4 m5" "freeinode m5 = 3 + 1"
      "mk_view m5 = (mk_view m4)(1 \<mapsto> (T_DIR, 1, dents ([(1, ''.''), (1, ''..''), (2, ''etc'')] @ [(3, ''bin'')])), 3 \<mapsto> (T_DIR, 2, dents [(3, ''.''), (1, ''..'')]))"
    by (rule make_dir_ok [of m4 1 1 "[(1, ''.''), (1, ''..''), (2, ''etc'')]" 3 "''bin''"])
      (use d(3,4) A B C D f(4) in \<open>auto simp: mkfs_consts\<close>)
  note E = mk_stepD [OF e(2)]
  obtain m6 where g: "make_dir_under_root 1 (cstring ''root'') m5 = Ret 4 m6" "mk_step 9 m5 m6" "freeinode m6 = 4 + 1"
      "mk_view m6 = (mk_view m5)(1 \<mapsto> (T_DIR, 1, dents ([(1, ''.''), (1, ''..''), (2, ''etc''), (3, ''bin'')] @ [(4, ''root'')])), 4 \<mapsto> (T_DIR, 2, dents [(4, ''.''), (1, ''..'')]))"
    by (rule make_dir_ok [of m5 1 1 "[(1, ''.''), (1, ''..''), (2, ''etc''), (3, ''bin'')]" 4 "''root''"])
      (use e(3,4) A B C D E f(4) in \<open>auto simp: mkfs_consts\<close>)
  obtain m7 where h: "set_nlink 1 (2 + 3) m6 = Ret () m7" "mk_step 0 m6 m7" "freeinode m7 = freeinode m6"
      "mk_view m7 = (mk_view m6)(1 \<mapsto> (T_DIR, 2 + 3, dents root_entries))"
    by (rule set_nlink_refines [of m6 1 T_DIR 1 "dents root_entries" "2 + 3"])
      (use g(4) mk_stepD [OF g(2)] in \<open>auto simp: root_entries_def\<close>)
  have "mk_step (0 + 3 + 3 + 9 + 9 + 9 + 0) m m7"
    by (rule mk_step_trans [OF mk_step_trans [OF mk_step_trans [OF mk_step_trans [OF mk_step_trans [OF mk_step_trans
      [OF a(2) b(2)] c(2)] d(2)] e(2)] g(2)] h(2)])
  moreover have "mk_view m7 = [1 \<mapsto> (T_DIR, 5, dents root_entries), 2 \<mapsto> sub_dir 2, 3 \<mapsto> sub_dir 3, 4 \<mapsto> sub_dir 4]"
    unfolding h(4) g(4) e(4) d(4) c(3) by (auto simp: sub_dir_def fun_eq_iff)
  moreover have "mkfs_dirs m = Ret (1, 3) m7"
    by (simp add: mkfs_dirs_def ROOTINO_def a(1) b(1) c(1) d(1) e(1) g(1) h(1) [simplified])
  ultimately show thesis using that [of m7] g(3) h(3) by simp
qed

section \<open>Files\<close>

lemma length_readme: "length readme_text = 252"
  by (simp add: readme_text_def readme_lines_def cstring_def)

lemma mkfs_readme_ok:
  assumes f: "files_ok m" "mk_view m 1 = Some (T_DIR, n, dents es)" "freeinode m = 5" "length es < 1000"
    and room: "unat (freeblock m) + 6 \<le> FSSIZE"
  obtains m' where "mkfs_readme 1 m = Ret () m'" "mk_step 6 m m'" "freeinode m' = 6"
    "mk_view m' = (mk_view m)(5 \<mapsto> (T_FILE, 1, readme_text), 1 \<mapsto> (T_DIR, n, dents (es @ [(5, ''README'')])))"
proof -
  obtain m1 where a: "mk_ialloc T_FILE m = Ret 5 m1" "mk_step 0 m m1" "freeinode m1 = 6" "mk_view m1 = (mk_view m)(5 \<mapsto> (T_FILE, 1, []))"
    using mk_ialloc_refines [OF f(1), of T_FILE] f(3) by (auto simp: mkfs_consts)
  note A = mk_stepD [OF a(2)]
  have c: "3 * (nblk (length [] + length readme_text) - nblk (length [])) = 3" by (simp add: length_readme nblk_def BSIZE_def)
  obtain m2 where b: "iappend 5 readme_text m1 = Ret () m2" "mk_step 3 m1 m2"
      "mk_view m2 = (mk_view m1)(5 \<mapsto> (T_FILE, 1, [] @ readme_text))" "freeinode m2 = freeinode m1"
    by (rule iappend_refines [of m1 5 T_FILE 1 "[]" readme_text, unfolded c])
      (use a(4) A room in \<open>auto simp: length_readme NINDIRECT_eq BSIZE_def\<close>)
  note B = mk_stepD [OF b(2)]
  obtain m3 where d: "mk_dirlink 1 (cstring ''README'') 5 m2 = Ret () m3" "mk_step 3 m2 m3"
      "mk_view m3 = (mk_view m2)(1 \<mapsto> (T_DIR, n, dents (es @ [(5, ''README'')])))" "freeinode m3 = freeinode m2"
    by (rule mk_dirlink_refines [of m2 1 T_DIR n es "''README''" 5]) (use a(4) b(3) A B f(2,4) room in auto)
  have "mk_step (0 + 3 + 3) m m3" by (rule mk_step_trans [OF mk_step_trans [OF a(2) b(2)] d(2)])
  then show thesis
    using that [of m3] a(1,3,4) b(1,3,4) d(1,3,4) by (simp add: mkfs_readme_def fun_upd_twist)
qed

lemma nblk_mono: "a \<le> b \<Longrightarrow> nblk a \<le> nblk b"
  unfolding nblk_def by (intro div_le_mono) simp

lemma append_chunks:
  assumes "files_ok m" "mk_view m i = Some (t, n, bs)" "length bs + length (concat cs) \<le> MAXFILE * BSIZE"
    "unat (freeblock m) + 3 * (nblk (length bs + length (concat cs)) - nblk (length bs)) \<le> FSSIZE"
  shows "\<exists>m'. ofold (iappend i) cs m = Ret () m' \<and> mk_step (3 * (nblk (length bs + length (concat cs)) - nblk (length bs))) m m' \<and>
    mk_view m' = (mk_view m)(i \<mapsto> (t, n, bs @ concat cs)) \<and> freeinode m' = freeinode m"
  using assms
proof (induction cs arbitrary: m bs)
  case Nil
  then show ?case by (auto simp: mk_step_def fun_upd_idem)
next
  case (Cons p cs)
  let ?a = "nblk (length bs)" and ?b = "nblk (length bs + length p)" and ?c = "nblk (length bs + length (concat (p # cs)))"
  have le: "?a \<le> ?b" "?b \<le> ?c" by (simp_all add: nblk_mono)
  obtain m1 where a: "iappend i p m = Ret () m1" "mk_step (3 * (?b - ?a)) m m1"
      "mk_view m1 = (mk_view m)(i \<mapsto> (t, n, bs @ p))" "freeinode m1 = freeinode m"
    by (rule iappend_refines [OF Cons.prems(1,2), of p]) (use Cons.prems(3,4) le in auto)
  note A = mk_stepD [OF a(2)]
  have e: "length bs + length p + length (concat cs) = length bs + length (concat (p # cs))" by simp
  have "unat (freeblock m1) + 3 * (?c - ?b) \<le> FSSIZE" using A Cons.prems(4) le by linarith
  moreover have "mk_view m1 i = Some (t, n, bs @ p)" using a(3) by simp
  ultimately obtain m2 where b: "ofold (iappend i) cs m1 = Ret () m2" "mk_step (3 * (?c - ?b)) m1 m2"
      "mk_view m2 = (mk_view m1)(i \<mapsto> (t, n, (bs @ p) @ concat cs))" "freeinode m2 = freeinode m1"
    using Cons.IH [of m1 "bs @ p", unfolded length_append e] A Cons.prems(3) by blast
  have "3 * (?b - ?a) + 3 * (?c - ?b) = 3 * (?c - ?a)" using le by simp
  then have "mk_step (3 * (?c - ?a)) m m2" using mk_step_trans [OF a(2) b(2)] by simp
  then show ?case using a(1,3,4) b(1,3,4) by (intro exI [of _ m2]) simp
qed

lemma mkfs_child_ok:
  assumes f: "files_ok m" "mk_view m 3 = Some (T_DIR, n, dents es)" "freeinode m = 6" "length es < 1000"
    and room: "length (concat cs) \<le> MAXFILE * BSIZE" "unat (freeblock m) + 3 * nblk (length (concat cs)) + 3 \<le> FSSIZE"
  obtains m' where "mkfs_child 3 cs m = Ret () m'" "mk_step (3 * nblk (length (concat cs)) + 3) m m'" "freeinode m' = 7"
    "mk_view m' = (mk_view m)(6 \<mapsto> (T_FILE, 1, concat cs), 3 \<mapsto> (T_DIR, n, dents (es @ [(6, ''child'')])))"
proof -
  obtain m1 where a: "mk_ialloc T_FILE m = Ret 6 m1" "mk_step 0 m m1" "freeinode m1 = 7" "mk_view m1 = (mk_view m)(6 \<mapsto> (T_FILE, 1, []))"
    using mk_ialloc_refines [OF f(1), of T_FILE] f(3) by (auto simp: mkfs_consts)
  note A = mk_stepD [OF a(2)]
  have z: "nblk 0 = 0" by (simp add: nblk_def BSIZE_def)
  obtain m2 where b: "ofold (iappend 6) cs m1 = Ret () m2" "mk_step (3 * nblk (length (concat cs))) m1 m2"
      "mk_view m2 = (mk_view m1)(6 \<mapsto> (T_FILE, 1, concat cs))" "freeinode m2 = freeinode m1"
    using append_chunks [of m1 6 T_FILE 1 "[]" cs] A a(4) room z by auto
  note B = mk_stepD [OF b(2)]
  obtain m3 where d: "mk_dirlink 3 (cstring ''child'') 6 m2 = Ret () m3" "mk_step 3 m2 m3"
      "mk_view m3 = (mk_view m2)(3 \<mapsto> (T_DIR, n, dents (es @ [(6, ''child'')])))" "freeinode m3 = freeinode m2"
    by (rule mk_dirlink_refines [of m2 3 T_DIR n es "''child''" 6]) (use a(4) b(3) A B f(2,4) room in auto)
  have "mk_step (0 + 3 * nblk (length (concat cs)) + 3) m m3" by (rule mk_step_trans [OF mk_step_trans [OF a(2) b(2)] d(2)])
  then show thesis
    using that [of m3] a(1,3,4) b(1,3,4) d(1,3,4) by (simp add: mkfs_child_def fun_upd_twist)
qed

section \<open>The map of used blocks\<close>

lemma map_bits_of:
  "k \<le> BPB \<Longrightarrow> length (fold (\<lambda>bi buf. if P bi then set_map_bit bi buf else buf) [0..<k] zero_block) = BSIZE \<and>
    (\<forall>j < BPB. map_bit j (fold (\<lambda>bi buf. if P bi then set_map_bit bi buf else buf) [0..<k] zero_block) \<longleftrightarrow> j < k \<and> P j)"
proof (induction k)
  case 0
  then show ?case by (auto simp: zero_block_def map_bit_def BPB_def)
next
  case (Suc k)
  then have "k div 8 < BSIZE" by (simp add: BPB_def)
  then show ?case using Suc by (auto simp: map_bit_set less_Suc_eq)
qed

lemma balloc_mark_used_ok:
  assumes f: "files_ok m" and n: "unat n \<le> BPB"
  obtains m' where "balloc_mark_used n m = Ret () m'" "files_ok m'" "mk_view m' = mk_view m" "freeblock m' = freeblock m"
    "\<And>b. unat b < 32 \<Longrightarrow> image m' b = image m b" "\<And>j. j < FSSIZE \<Longrightarrow> used (image m') mkfs_sb j \<longleftrightarrow> j < unat n"
proof -
  note F = files_okD [OF f]
  let ?buf = "\<lambda>a. fold (\<lambda>bi buf. if a + bi < unat n then set_map_bit bi buf else buf) [0..<BPB] zero_block"
  let ?d = "(image m)(61 := ?buf 0, 62 := ?buf BPB)"
  define m' where "m' = m\<lparr>image := ?d\<rparr>"
  have sel: "image m' = ?d" "freeblock m' = freeblock m" "msb m' = msb m" "sectors m' = sectors m" "freeinode m' = freeinode m"
      "io_error m' = io_error m" by (simp_all add: m'_def)
  have len: "length (?buf a) = BSIZE" for a using map_bits_of [of BPB] by simp
  have lo: "((image m)(61 := x, 62 := y)) b = image m b" if "unat b < 61 \<or> 63 \<le> unat b" for b x y using that by auto
  have "62 < sectors m" "\<And>b. \<not> io_error m b" using F(1,3) by (simp_all add: mkfs_consts mk_ok_def)
  then have r: "balloc_mark_used n m = Ret () m'"
    using n F(2) by (simp add: balloc_mark_used_def mkfs_consts wsect_def zero_block_def [symmetric] max_absorb1 m'_def)
  have ok: "mk_ok m'" using F(1,4) len len [of 0] lo by (auto simp: mk_ok_def mkfs_consts sel)
  have in1: "mk_inode m' j = mk_inode m j" if "unat j < NINODES" for j
  proof -
    have "unat (j div 7) \<le> 28" using that by (simp add: unat_div mkfs_consts)
    then have "unat (IBLOCK j mkfs_sb) < 61" by (simp add: IBLOCK_def mkfs_consts unat_word_ariths)
    then have "?d (IBLOCK j mkfs_sb) = image m (IBLOCK j mkfs_sb)" by (intro lo) simp
    then show ?thesis by (simp add: mk_inode_def disk_inode_def sel)
  qed
  have K: "tree (image m') (d_addrs (mk_inode m' j)) (mk_paths m' j) nmeta (unat (freeblock m'))" "mk_blocks m' j = mk_blocks m j"
      "mk_file m' j = mk_file m j" "mk_size m' j = mk_size m j" if j: "j \<in> mk_given m" for j
  proof -
    have "image m' b = image m b" if "b \<in> mk_blocks m j" for b
      using mk_blocks_range(1) [OF f j that] lo by (simp add: mkfs_consts sel)
    from file_kept [OF f j _ _ _ this, of "unat (freeblock m')"] in1 [OF F(6) [OF j]] sel(2)
    show "tree (image m') (d_addrs (mk_inode m' j)) (mk_paths m' j) nmeta (unat (freeblock m'))" "mk_blocks m' j = mk_blocks m j"
      "mk_file m' j = mk_file m j" "mk_size m' j = mk_size m j" by simp_all
  qed
  have g: "mk_given m' = mk_given m" by (simp add: mk_given_def sel)
  have "files_ok m'" unfolding files_ok_def g using K F(8,9) F(2-5) ok by (simp add: sel)
  moreover have "mk_view m' = mk_view m"
    by (rule ext) (use K(3) in1 F(6) in \<open>auto simp: mk_view_def g\<close>)
  moreover have "used ?d mkfs_sb j \<longleftrightarrow> j < unat n" if j: "j < FSSIZE" for j
  proof -
    have u: "unat (of_nat j :: u32) = j" using j by (intro unat_of_nat_u32) (simp add: mkfs_consts)
    have m: "j mod 4096 < BPB" by (simp add: mkfs_consts)
    show ?thesis
    proof (cases "j < 4096")
      case True
      then have "(of_nat j :: u32) div 4096 = 0" using u by (simp add: word_unat_eq_iff unat_div)
      then have "?d (BBLOCK (of_nat j) mkfs_sb) = ?buf 0" by (simp add: BBLOCK_def mkfs_consts)
      then show ?thesis using map_bits_of [of BPB "\<lambda>bi. bi < unat n"] True m by (simp add: used_def mkfs_consts)
    next
      case False
      then have "j div 4096 = 1" using j by (simp add: mkfs_consts)
      then have "(of_nat j :: u32) div 4096 = 1" using u by (simp add: word_unat_eq_iff unat_div)
      then have b: "?d (BBLOCK (of_nat j) mkfs_sb) = ?buf BPB" by (simp add: BBLOCK_def mkfs_consts)
      have "map_bit (j mod BPB) (?buf BPB) \<longleftrightarrow> BPB + j mod BPB < unat n"
        using map_bits_of [of BPB "\<lambda>bi. BPB + bi < unat n"] m by (simp add: mkfs_consts)
      then show ?thesis unfolding used_def b using False n by (simp add: mkfs_consts)
    qed
  qed
  ultimately show thesis using that [of m'] r lo by (simp add: sel)
qed

section \<open>The whole image\<close>

definition child_given :: "nat \<Rightarrow> u8 list list option \<Rightarrow> bool" where
  "child_given argc child \<longleftrightarrow> argc = 2 \<and> child = None \<or>
    argc = 3 \<and> (\<exists>cs. child = Some cs \<and> 3 * nblk (length (concat cs)) \<le> 3900)"

definition image_view :: "u8 list list option \<Rightarrow> u32 \<Rightarrow> (u16 \<times> u16 \<times> u8 list) option" where
  "image_view child =
    (let v = [1 \<mapsto> (T_DIR, 5, dents (root_entries @ [(5, ''README'')])), 2 \<mapsto> sub_dir 2, 3 \<mapsto> sub_dir 3, 4 \<mapsto> sub_dir 4,
        5 \<mapsto> (T_FILE, 1, readme_text)]
     in case child of None \<Rightarrow> v
       | Some cs \<Rightarrow> v(6 \<mapsto> (T_FILE, 1, concat cs), 3 \<mapsto> (T_DIR, 2, dents [(3, ''.''), (1, ''..''), (6, ''child'')])))"

lemma mkfs_main_ok:
  assumes c: "child_given argc child"
  obtains m where "mkfs_main argc True child (mkfs_start (\<lambda>_. False)) = Ret 0 m" "files_ok m" "mk_view m = image_view child"
    "dec_superblock (image m 1) = mkfs_sb" "\<And>j. j < FSSIZE \<Longrightarrow> used (image m) mkfs_sb j \<longleftrightarrow> j < unat (freeblock m)"
proof -
  obtain m1 where a: "mkfs_format (mkfs_start (\<lambda>_. False)) = Ret () m1" "files_ok m1" "mk_view m1 = Map.empty" "freeinode m1 = 1"
      "unat (freeblock m1) = nmeta" "dec_superblock (image m1 1) = mkfs_sb" using mkfs_format_ok by blast
  obtain m2 where b: "mkfs_dirs m1 = Ret (1, 3) m2" "mk_step 33 m1 m2" "freeinode m2 = 5"
      "mk_view m2 = [1 \<mapsto> (T_DIR, 5, dents root_entries), 2 \<mapsto> sub_dir 2, 3 \<mapsto> sub_dir 3, 4 \<mapsto> sub_dir 4]"
    using mkfs_dirs_ok [OF a(2-5)] by blast
  note B = mk_stepD [OF b(2)]
  obtain m3 where d: "mkfs_readme 1 m2 = Ret () m3" "mk_step 6 m2 m3" "freeinode m3 = 6"
      "mk_view m3 = (mk_view m2)(5 \<mapsto> (T_FILE, 1, readme_text), 1 \<mapsto> (T_DIR, 5, dents (root_entries @ [(5, ''README'')])))"
    by (rule mkfs_readme_ok [of m2 5 root_entries]) (use b(3,4) B a(5) in \<open>auto simp: root_entries_def mkfs_consts\<close>)
  note D = mk_stepD [OF d(2)]
  have v3: "mk_view m3 = image_view None" unfolding d(4) b(4) by (auto simp: image_view_def fun_eq_iff)
  obtain m4 c where e: "(if argc = 3 then mkfs_child 3 (the child) m3 else Ret () m3) = Ret () m4" "mk_step c m3 m4"
      "c \<le> 3903" "mk_view m4 = image_view child"
  proof (cases "argc = 3")
    case True
    then obtain cs where cs: "child = Some cs" "3 * nblk (length (concat cs)) \<le> 3900" using c by (auto simp: child_given_def)
    have "length (concat cs) \<le> BSIZE * nblk (length (concat cs))"
      using div_mod_decomp [of "length (concat cs) + 511" 512] unfolding nblk_def BSIZE_def by simp
    then have l: "length (concat cs) \<le> MAXFILE * BSIZE" using cs(2) by (simp add: NINDIRECT_eq BSIZE_def)
    obtain m4 where h: "mkfs_child 3 cs m3 = Ret () m4" "mk_step (3 * nblk (length (concat cs)) + 3) m3 m4"
        "mk_view m4 = (mk_view m3)(6 \<mapsto> (T_FILE, 1, concat cs), 3 \<mapsto> (T_DIR, 2, dents ([(3, ''.''), (1, ''..'')] @ [(6, ''child'')])))"
      by (rule mkfs_child_ok [of m3 2 "[(3, ''.''), (1, ''..'')]" cs])
        (use v3 d(3) D B a(5) cs(2) l in \<open>auto simp: image_view_def sub_dir_def mkfs_consts\<close>)
    then show ?thesis
      using that [of m4 "3 * nblk (length (concat cs)) + 3"] True cs v3 by (auto simp: image_view_def fun_eq_iff)
  next
    case False
    then show ?thesis using that [of m3 0] c v3 D by (auto simp: child_given_def mk_step_def)
  qed
  note E = mk_stepD [OF e(2)]
  have fb: "unat (freeblock m4) \<le> BPB" using B D E a(5) e(3) by (simp add: mkfs_consts)
  obtain m5 where g: "balloc_mark_used (freeblock m4) m4 = Ret () m5" "files_ok m5" "mk_view m5 = mk_view m4" "freeblock m5 = freeblock m4"
      "\<And>b. unat b < 32 \<Longrightarrow> image m5 b = image m4 b" "\<And>j. j < FSSIZE \<Longrightarrow> used (image m5) mkfs_sb j \<longleftrightarrow> j < unat (freeblock m4)"
    by (rule balloc_mark_used_ok [of m4 "freeblock m4"]) (use E fb in blast)+
  have "image m5 1 = image m1 1" using g(5) b(2) d(2) e(2) by (simp add: mk_step_def)
  moreover have "\<not> (argc = 3 \<and> child = None)" "argc = 2 \<or> argc = 3" using c by (auto simp: child_given_def)
  ultimately show thesis
    using that [of m5] a(1,6) b(1) d(1) e(1,4) g by (auto simp: mkfs_main_def)
qed

section \<open>Properties\<close>

text \<open>C9: 
  \<open>mkfs\<close> with a program of at most 650 KiB, or none, succeeds, and the image has the superblock, the
  directories, the text of \<open>README\<close> and the program with their types and link counts; the map marks
  exactly the blocks below \<open>freeblock\<close> as used, all blocks of all files are among them, and no two
  files share a block.
\<close>

theorem mkfs_writes_image:
  assumes "child_given argc child"
  shows "\<exists>m. mkfs_main argc True child (mkfs_start (\<lambda>_. False)) = Ret 0 m \<and> mk_view m = image_view child \<and>
    dec_superblock (image m 1) = mkfs_sb \<and> (\<forall>j < FSSIZE. used (image m) mkfs_sb j \<longleftrightarrow> j < unat (freeblock m)) \<and>
    (\<forall>i \<in> mk_given m. \<forall>b \<in> mk_blocks m i. nmeta \<le> unat b \<and> used (image m) mkfs_sb (unat b)) \<and>
    (\<forall>i \<in> mk_given m. \<forall>j \<in> mk_given m. i \<noteq> j \<longrightarrow> mk_blocks m i \<inter> mk_blocks m j = {})"
proof -
  obtain m where m: "mkfs_main argc True child (mkfs_start (\<lambda>_. False)) = Ret 0 m" "files_ok m" "mk_view m = image_view child"
      "dec_superblock (image m 1) = mkfs_sb" "\<And>j. j < FSSIZE \<Longrightarrow> used (image m) mkfs_sb j \<longleftrightarrow> j < unat (freeblock m)"
    using mkfs_main_ok [OF assms] by metis
  have "nmeta \<le> unat b \<and> used (image m) mkfs_sb (unat b)" if "i \<in> mk_given m" "b \<in> mk_blocks m i" for i b
    using mk_blocks_range [OF m(2) that] m(5) [of "unat b"] files_okD(1,3) [OF m(2)] by (simp add: mk_ok_def)
  then show ?thesis using m files_okD(9) [OF m(2)] by blast
qed

theorem mkfs_writes_image_witness:
  "\<exists>m. mkfs_main 3 True (Some [[1, 2], [3]]) (mkfs_start (\<lambda>_. False)) = Ret 0 m \<and> mk_view m 6 = Some (T_FILE, 1, [1, 2, 3])"
proof -
  have "child_given 3 (Some [[1, 2], [3]])" by (simp add: child_given_def nblk_def BSIZE_def)
  from mkfs_writes_image [OF this] show ?thesis by (auto simp: image_view_def)
qed

end
