(* ===== verification/FsRead.thy ===== *)
theory FsRead
  imports MkfsImage
begin

text \<open>
  Reading a file by its path with the code of the kernel: \<open>namei\<close> and
  \<open>xv6fs_bridge_read_file\<close> on a disk whose directories hold the entries the path needs, and on
  the images that \<open>mkfs.c\<close> writes.
\<close>

section \<open>The inode table\<close>

definition table_is :: "(u32 \<Rightarrow> u8 list) \<Rightarrow> superblock \<Rightarrow> (nat \<Rightarrow> inode) \<Rightarrow> fs \<Rightarrow> bool" where
  "table_is d b F s \<longleftrightarrow> fs_ok s \<and> dsk s = d \<and> sb s = b \<and> length (icache s) = NINODE \<and> \<not> icache_lock s \<and>
    (\<forall>q < NINODE. ino q s = F q)"

lemma tis_upd: "table_is d b F s \<Longrightarrow> ip < NINODE \<Longrightarrow> table_is d b (F(ip := f (F ip))) (upd_ino ip f s)"
  by (auto simp: table_is_def upd_ino_def ino_def fs_ok_def nth_list_update)

lemma tis_disk: "table_is d b F s \<Longrightarrow> to_disk s t d \<Longrightarrow> table_is d b F t"
  using to_disk_sel [of s t d] by (simp add: table_is_def)

lemma tis_lock: "table_is d b F s \<Longrightarrow> table_is d b F (s\<lparr>icache_lock := True\<rparr>\<lparr>icache_lock := False\<rparr>)"
  by (auto simp: table_is_def ino_def fs_ok_def)

lemma tis_ino: "table_is d b F s \<Longrightarrow> ip < NINODE \<Longrightarrow> ino ip s = F ip"
  by (simp add: table_is_def)

definition new_ref :: "u32 \<Rightarrow> inode \<Rightarrow> inode" where
  "new_ref i x = x\<lparr>i_dev := 0, i_inum := i, i_ref := 1, i_valid := False\<rparr>"

lemma find_upt: "find P [0..<n] = Some k \<longleftrightarrow> k < n \<and> P k \<and> (\<forall>j < k. \<not> P j)"
  by (auto simp: find_Some_iff)

lemma iget_new:
  assumes s: "table_is d b F s" and ip: "ip < NINODE" "i_ref (F ip) = 0" "\<forall>q < ip. i_ref (F q) \<noteq> 0"
    and no: "\<forall>q < NINODE. 0 < i_ref (F q) \<longrightarrow> i_dev (F q) = 0 \<longrightarrow> i_inum (F q) \<noteq> i"
  obtains t where "iget 0 i s = Ret ip t" "table_is d b (F(ip := new_ref i (F ip))) t"
proof -
  let ?s = "s\<lparr>icache_lock := True\<rparr>"
  have i: "ino q ?s = F q" if "q < NINODE" for q using tis_ino [OF s that] by (simp add: ino_def)
  have "find (\<lambda>ip. i_ref (ino ip ?s) > 0 \<and> i_dev (ino ip ?s) = 0 \<and> i_inum (ino ip ?s) = i) [0..<NINODE] = None"
    using no i by (auto simp: find_None_iff)
  moreover have "find (\<lambda>ip. i_ref (ino ip ?s) = 0) [0..<NINODE] = Some ip"
    using ip i by (auto simp: find_upt)
  moreover have "\<not> icache_lock s" using s by (simp add: table_is_def)
  moreover define t where "t = upd_ino ip (new_ref i) ?s\<lparr>icache_lock := False\<rparr>"
  moreover have "table_is d b (F(ip := new_ref i (F ip))) t"
    using tis_upd [OF s ip(1), of "new_ref i"] by (auto simp: t_def table_is_def upd_ino_def ino_def fs_ok_def)
  ultimately show thesis
    using that [of t] by (simp add: iget_def acquire_def release_def upd_ino_def new_ref_def [abs_def])
qed

text \<open>\<open>ilock\<close> of an inode that is not in memory loads it from the disk.\<close>

definition load_inode :: "dinode \<Rightarrow> inode \<Rightarrow> inode" where
  "load_inode y x = x\<lparr>i_lock := True, i_type := d_type y, i_major := d_major y, i_minor := d_minor y, i_nlink := d_nlink y,
    i_size := d_size y, i_addrs := d_addrs y, i_valid := True\<rparr>"

lemma ilock_loads:
  assumes s: "table_is d b F s" and ip: "ip < NINODE" "1 \<le> i_ref (F ip)" "\<not> i_lock (F ip)" "\<not> i_valid (F ip)" "i_dev (F ip) = 0"
    and y: "disk_inode d b (i_inum (F ip)) = y" "d_type y \<noteq> 0"
  obtains t where "ilock (Some ip) s = Ret () t" "table_is d b (F(ip := load_inode y (F ip))) t"
proof -
  let ?x = "F ip"
  let ?s1 = "upd_ino ip (\<lambda>x. x\<lparr>i_lock := True\<rparr>) s"
  have x: "ino ip s = ?x" using tis_ino [OF s ip(1)] .
  note s1 = tis_upd [OF s ip(1), of "\<lambda>x. x\<lparr>i_lock := True\<rparr>"]
  have x1: "ino ip ?s1 = ?x\<lparr>i_lock := True\<rparr>" using tis_ino [OF s1 ip(1)] by simp
  have sb1: "fs_ok ?s1" "dsk ?s1 = d" "sb ?s1 = b" using s1 by (simp_all add: table_is_def)
  obtain k u where u: "fs_bread 0 (IBLOCK (i_inum ?x) b) ?s1 = Ret k u" "to_disk ?s1 u d" "bdata k u = d (IBLOCK (i_inum ?x) b)"
    using fs_bread_ok [OF sb1(1)] sb1(2) by metis
  have xu: "ino ip u = ?x\<lparr>i_lock := True\<rparr>" using to_disk_sel(5) [OF u(2)] x1 by simp
  let ?f = "\<lambda>x. x\<lparr>i_type := d_type y, i_major := d_major y, i_minor := d_minor y,
                  i_nlink := d_nlink y, i_size := d_size y, i_addrs := d_addrs y, i_valid := True\<rparr>"
  have t: "table_is d b (F(ip := load_inode y ?x)) (upd_ino ip ?f u)"
    using tis_upd [OF tis_disk [OF s1 u(2)] ip(1), of ?f] by (simp add: load_inode_def)
  have xt: "i_type (ino ip (upd_ino ip ?f u)) = d_type y" using tis_ino [OF t ip(1)] by (simp add: load_inode_def)
  have "get_dinode (i_inum ?x) (bdata k u) = y" using y(1) u(3) by (simp add: disk_inode_def)
  then have "ilock (Some ip) s = Ret () (upd_ino ip ?f u)"
    using x ip u(1) x1 xu sb1(3) y(2) xt by (simp add: ilock_def acquiresleep_def Let_def)
  then show thesis using that t by blast
qed

lemma iunlock_frees:
  assumes s: "table_is d b F s" and ip: "ip < NINODE" "1 \<le> i_ref (F ip)" "i_lock (F ip)"
  obtains t where "iunlock (Some ip) s = Ret () t" "table_is d b (F(ip := (F ip)\<lparr>i_lock := False\<rparr>)) t"
  using that [of "upd_ino ip (\<lambda>x. x\<lparr>i_lock := False\<rparr>) s"] tis_upd [OF s ip(1), of "\<lambda>x. x\<lparr>i_lock := False\<rparr>"] tis_ino [OF s ip(1)] ip
  by (simp add: iunlock_def releasesleep_def)

lemma iput_drops:
  assumes s: "table_is d b F s" and ip: "ip < NINODE" "\<not> i_lock (F ip)" "i_nlink (F ip) \<noteq> 0"
  obtains t where "iput ip s = Ret () t" "table_is d b (F(ip := (F ip)\<lparr>i_ref := i_ref (F ip) - 1\<rparr>)) t"
proof -
  let ?s1 = "upd_ino ip (\<lambda>x. x\<lparr>i_lock := True\<rparr>) s"
  note s1 = tis_upd [OF s ip(1), of "\<lambda>x. x\<lparr>i_lock := True\<rparr>"]
  let ?s2 = "upd_ino ip (\<lambda>x. x\<lparr>i_lock := False\<rparr>) ?s1"
  note s2 = tis_upd [OF s1 ip(1), of "\<lambda>x. x\<lparr>i_lock := False\<rparr>"]
  have e: "(F ip)\<lparr>i_lock := False\<rparr> = F ip" using ip(2) by (cases "F ip") simp
  let ?t = "upd_ino ip (\<lambda>x. x\<lparr>i_ref := i_ref x - 1\<rparr>) (?s2\<lparr>icache_lock := True\<rparr>)\<lparr>icache_lock := False\<rparr>"
  have "table_is d b (F(ip := (F ip)\<lparr>i_ref := i_ref (F ip) - 1\<rparr>)) ?t"
    using tis_upd [OF s2 ip(1), of "\<lambda>x. x\<lparr>i_ref := i_ref x - 1\<rparr>"] e
    by (auto simp: table_is_def upd_ino_def ino_def fs_ok_def fun_upd_def)
  moreover have "\<not> icache_lock s" using s by (simp add: table_is_def)
  then have "iput ip s = Ret () ?t"
    using tis_ino [OF s ip(1)] tis_ino [OF s1 ip(1)] ip(2,3)
    by (simp add: iput_def acquiresleep_def releasesleep_def acquire_def release_def) (simp add: upd_ino_def)
  ultimately show thesis using that by blast
qed

section \<open>Looking up a name\<close>

abbreviation named :: "u32 \<times> string \<Rightarrow> dirent" where
  "named e \<equiv> \<lparr>de_inum = ucast (fst e), de_name = strncpy (cstring (snd e)) DIRSIZ\<rparr>"

lemma dents_nth: "k < length es \<Longrightarrow> take sizeof_dirent (drop (sizeof_dirent * k) (dents es)) = enc_dirent (named (es ! k))"
proof (induction es arbitrary: k)
  case (Cons e es)
  have "dents (e # es) = enc_dirent (named e) @ dents es" by (simp add: dents_def case_prod_unfold)
  then show ?case using Cons by (cases k) (auto simp: length_enc_named)
qed simp

lemma dec_named: "dec_dirent (enc_dirent (named e)) = named e"
  by (rule dec_enc_dirent) (simp add: strncpy_def strncpy_from_length)

lemma readable_disk:
  assumes "readable s ip" "to_disk s t (dsk s)" shows "readable t ip" "contents t ip = contents s ip" "dsk t = dsk s" "ino ip t = ino ip s"
  using assms to_disk_sel [OF assms(2)] by (simp_all add: readable_def)

lemma read_dirent_ok:
  assumes r: "readable s dp" "contents s dp = dents es" and k: "k < length es"
  obtains t where "read_dirent msg dp (k * sizeof_dirent) s = Ret (named (es ! k)) t" "to_disk s t (dsk s)"
proof -
  have sz: "unat (i_size (ino dp s)) = sizeof_dirent * length es" using arg_cong [OF r(2), of length] by (simp add: file_bytes_def length_dents)
  have "k * sizeof_dirent + sizeof_dirent \<le> unat (i_size (ino dp s))"
    unfolding sz using mult_le_mono2 [of "Suc k" "length es" sizeof_dirent] k by (simp add: mult.commute)
  moreover have "unat (i_size (ino dp s)) < 2 ^ 32" using unsigned_less [of "i_size (ino dp s)"] by simp
  ultimately have b: "unat (of_nat (k * sizeof_dirent) :: u32) = k * sizeof_dirent" "k * sizeof_dirent + sizeof_dirent < 2 ^ 32"
      "k * sizeof_dirent \<le> unat (i_size (ino dp s))" "unat (of_nat sizeof_dirent :: u32) = sizeof_dirent"
    by (simp_all only: unat_of_nat_u32)
  obtain t where t: "readi dp (of_nat (k * sizeof_dirent)) (of_nat sizeof_dirent) s =
      Ret (Some (take sizeof_dirent (drop (k * sizeof_dirent) (contents s dp)))) t" "to_disk s t (dsk s)"
    by (rule readi_ok [OF r(1), of "of_nat (k * sizeof_dirent)" "of_nat sizeof_dirent", unfolded b(1,4)]) (use b in simp_all)
  have "take sizeof_dirent (drop (k * sizeof_dirent) (contents s dp)) = enc_dirent (named (es ! k))"
    unfolding r(2) using dents_nth [OF k] by (simp add: mult.commute)
  with t show thesis using that by (simp add: read_dirent_def length_enc_named dec_named)
qed

text \<open>The entry at index \<open>j\<close> is the first one with the name.\<close>

definition first_named :: "(u32 \<times> string) list \<Rightarrow> u8 list \<Rightarrow> nat \<Rightarrow> bool" where
  "first_named es name j \<longleftrightarrow> j < length es \<and> namecmp name (de_name (named (es ! j))) = 0 \<and> de_inum (named (es ! j)) \<noteq> 0 \<and>
    (\<forall>i < j. de_inum (named (es ! i)) = 0 \<or> namecmp name (de_name (named (es ! i))) \<noteq> 0)"

lemma dirlookup_from_ok:
  assumes "readable s dp" "contents s dp = dents es" "first_named es name j" "k \<le> j"
  shows "\<exists>t. dirlookup_from dp name (map (\<lambda>k. k * sizeof_dirent) [k..<length es]) s =
      obind (iget 0 (ucast (de_inum (named (es ! j)))) t) (\<lambda>ip s. Ret (Some (ip, j * sizeof_dirent)) s) \<and> to_disk s t (dsk s)"
  using assms
proof (induction "j - k" arbitrary: k s rule: less_induct)
  case less
  have k: "k < length es" using less.prems(3,4) by (auto simp: first_named_def)
  then have u: "[k..<length es] = k # [Suc k..<length es]" by (simp add: upt_conv_Cons)
  obtain t where t: "read_dirent ''dirlookup read'' dp (k * sizeof_dirent) s = Ret (named (es ! k)) t" "to_disk s t (dsk s)"
    using read_dirent_ok [OF less.prems(1,2) k] by blast
  note T = readable_disk [OF less.prems(1) t(2)]
  show ?case
  proof (cases "k = j")
    case True
    then show ?thesis using less.prems(1,3) t T(4) unfolding u by (intro exI [of _ t]) (simp add: first_named_def readable_def)
  next
    case False
    then have kj: "k < j" using less.prems(4) by simp
    have "\<exists>v. dirlookup_from dp name (map (\<lambda>k. k * sizeof_dirent) [Suc k..<length es]) t =
        obind (iget 0 (ucast (de_inum (named (es ! j)))) v) (\<lambda>ip s. Ret (Some (ip, j * sizeof_dirent)) s) \<and> to_disk t v (dsk t)"
      by (rule less.hyps) (use kj T less.prems in auto)
    then obtain v where v: "dirlookup_from dp name (map (\<lambda>k. k * sizeof_dirent) [Suc k..<length es]) t =
        obind (iget 0 (ucast (de_inum (named (es ! j)))) v) (\<lambda>ip s. Ret (Some (ip, j * sizeof_dirent)) s)" "to_disk t v (dsk s)"
      unfolding T(3) by blast
    moreover have "de_inum (named (es ! k)) = 0 \<or> namecmp name (de_name (named (es ! k))) \<noteq> 0"
      using less.prems(3) kj unfolding first_named_def by blast
    ultimately show ?thesis using t(1) to_disk_trans [OF t(2) v(2)] unfolding u by (intro exI [of _ v]) auto
  qed
qed

lemma dirlookup_ok:
  assumes "readable s dp" "i_type (ino dp s) = T_DIR" "contents s dp = dents es" "first_named es name j"
  obtains t where "dirlookup dp name s = obind (iget 0 (ucast (de_inum (named (es ! j)))) t) (\<lambda>ip s. Ret (Some (ip, j * sizeof_dirent)) s)"
    "to_disk s t (dsk s)"
proof -
  have "unat (i_size (ino dp s)) = sizeof_dirent * length es" using arg_cong [OF assms(3), of length] by (simp add: file_bytes_def length_dents)
  then have "dirent_offsets (i_size (ino dp s)) = map (\<lambda>k. k * sizeof_dirent) [0..<length es]"
    by (simp add: dirent_offsets_def sizeof_dirent_def DIRSIZ_def)
  then show thesis using dirlookup_from_ok [OF assms(1,3,4), of 0] that assms(2) by (auto simp: dirlookup_def)
qed

section \<open>Walking a path\<close>

text \<open>A file or a directory of the disk, with all its blocks.\<close>

definition disk_file :: "(u32 \<Rightarrow> u8 list) \<Rightarrow> superblock \<Rightarrow> u32 \<Rightarrow> u16 \<Rightarrow> u8 list \<Rightarrow> bool" where
  "disk_file d b i ty bs \<longleftrightarrow> d_type (disk_inode d b i) = ty \<and> ty \<noteq> 0 \<and> ty \<noteq> T_DEV \<and> d_nlink (disk_inode d b i) \<noteq> 0 \<and>
    (\<forall>k < unat (d_size (disk_inode d b i)). mapped d (d_addrs (disk_inode d b i)) (k div BSIZE)) \<and>
    bs = file_bytes d (d_addrs (disk_inode d b i)) (unat (d_size (disk_inode d b i)))"

lemma loaded_readable:
  assumes "table_is d b F s" "ip < NINODE" "F ip = load_inode (disk_inode d b i) x" "i_dev x = 0" "disk_file d b i ty bs"
  shows "readable s ip" "contents s ip = bs" "i_type (ino ip s) = ty"
  using assms tis_ino [OF assms(1,2)] by (simp_all add: readable_def disk_file_def load_inode_def table_is_def)

text \<open>All slots of the inode table are free but one, which refers to an inode not yet in memory.\<close>

definition unused :: "inode \<Rightarrow> bool" where
  "unused x \<longleftrightarrow> i_ref x = 0 \<and> \<not> i_lock x"

definition only :: "nat \<Rightarrow> u32 \<Rightarrow> (nat \<Rightarrow> inode) \<Rightarrow> bool" where
  "only ip i F \<longleftrightarrow> ip < NINODE \<and> i_dev (F ip) = 0 \<and> i_inum (F ip) = i \<and> i_ref (F ip) = 1 \<and> \<not> i_lock (F ip) \<and> \<not> i_valid (F ip) \<and>
    (\<forall>q < NINODE. q \<noteq> ip \<longrightarrow> unused (F q))"

lemma first_iget:
  assumes "table_is d b F s" "\<forall>q < NINODE. unused (F q)"
  obtains t G where "iget 0 i s = Ret 0 t" "table_is d b G t" "only 0 i G"
proof -
  obtain t where "iget 0 i s = Ret 0 t" "table_is d b (F(0 := new_ref i (F 0))) t"
    by (rule iget_new [OF assms(1), of 0 i]) (use assms(2) in \<open>auto simp: unused_def NINODE_def\<close>)
  moreover have "only 0 i (F(0 := new_ref i (F 0)))"
    using assms(2) by (auto simp: only_def new_ref_def unused_def NINODE_def)
  ultimately show thesis by (rule that)
qed

lemma namex_step:
  assumes s: "table_is d b F s" "only ip i F" and dir: "disk_file d b i T_DIR (dents es)"
    and sk: "skipelem path = Some (name, rest)" and fn: "first_named es name j" and ne: "ucast (de_inum (named (es ! j))) \<noteq> i"
  obtains ip' t G where "namex_loop False path nm ip s = namex_loop False rest name ip' t" "table_is d b G t"
    "only ip' (ucast (de_inum (named (es ! j)))) G"
proof -
  let ?y = "disk_inode d b i" and ?n = "ucast (de_inum (named (es ! j))) :: u32"
  have o: "ip < NINODE" "i_dev (F ip) = 0" "i_inum (F ip) = i" "i_ref (F ip) = 1" "\<not> i_lock (F ip)" "\<not> i_valid (F ip)"
    "\<And>q. q < NINODE \<Longrightarrow> q \<noteq> ip \<Longrightarrow> i_ref (F q) = 0 \<and> \<not> i_lock (F q)" using s(2) by (auto simp: only_def unused_def)
  obtain s1 where l: "ilock (Some ip) s = Ret () s1" "table_is d b (F(ip := load_inode ?y (F ip))) s1"
    by (rule ilock_loads [OF s(1) o(1), of ?y]) (use o dir in \<open>auto simp: disk_file_def\<close>)
  let ?F1 = "F(ip := load_inode ?y (F ip))"
  have r: "readable s1 ip" "contents s1 ip = dents es" "i_type (ino ip s1) = T_DIR"
    by (rule loaded_readable [OF l(2) o(1) _ o(2) dir]; simp)+
  obtain s2 where q: "dirlookup ip name s1 = obind (iget 0 ?n s2) (\<lambda>ip s. Ret (Some (ip, j * sizeof_dirent)) s)" "to_disk s1 s2 (dsk s1)"
    using dirlookup_ok [OF r(1,3,2) fn] by blast
  have s2: "table_is d b ?F1 s2" using tis_disk [OF l(2)] q(2) l(2) by (simp add: table_is_def)
  define ip' where "ip' = (if ip = 0 then 1 else 0 :: nat)"
  have ip': "ip' < NINODE" "ip' \<noteq> ip" by (auto simp: ip'_def NINODE_def)
  have free: "i_ref (?F1 ip') = 0" "\<forall>q < ip'. i_ref (?F1 q) \<noteq> 0"
    using o(7) ip' o(4) by (auto simp: ip'_def load_inode_def split: if_splits)
  have others: "\<forall>q < NINODE. 0 < i_ref (?F1 q) \<longrightarrow> i_dev (?F1 q) = 0 \<longrightarrow> i_inum (?F1 q) \<noteq> ?n"
    using o(3,7) ne by (auto simp: load_inode_def)
  obtain s3 where g: "iget 0 ?n s2 = Ret ip' s3" "table_is d b (?F1(ip' := new_ref ?n (?F1 ip'))) s3"
    using iget_new [OF s2 ip'(1) free others] by blast
  let ?F3 = "?F1(ip' := new_ref ?n (?F1 ip'))"
  have f3: "?F3 ip = load_inode ?y (F ip)" using ip'(2) by simp
  obtain s4 where u: "iunlock (Some ip) s3 = Ret () s4" "table_is d b (?F3(ip := (?F3 ip)\<lparr>i_lock := False\<rparr>)) s4"
    by (rule iunlock_frees [OF g(2) o(1)]) (use f3 o(4) in \<open>simp_all add: load_inode_def\<close>)
  let ?F4 = "?F3(ip := (?F3 ip)\<lparr>i_lock := False\<rparr>)"
  obtain s5 where p: "iput ip s4 = Ret () s5" "table_is d b (?F4(ip := (?F4 ip)\<lparr>i_ref := i_ref (?F4 ip) - 1\<rparr>)) s5"
    by (rule iput_drops [OF u(2) o(1)]) (use ip'(2) dir in \<open>simp_all add: load_inode_def disk_file_def\<close>)
  let ?F5 = "?F4(ip := (?F4 ip)\<lparr>i_ref := i_ref (?F4 ip) - 1\<rparr>)"
  have "only ip' ?n ?F5"
    using ip' o(4,7) by (auto simp: only_def unused_def new_ref_def load_inode_def)
  moreover have "namex_loop False path nm ip s = namex_loop False rest name ip' s5"
    using l(1) q(1) g(1) u(1) p(1) r(3) by (subst namex_loop.simps) (simp add: sk iunlockput_def)
  ultimately show thesis using that p(2) by blast
qed

lemma read_inode_ok:
  assumes s: "table_is d b F s" "only ip i F" and f: "disk_file d b i ty bs"
  obtains t where "obind (ilock (Some ip) s) (\<lambda>_ s. obind (readi ip 0 n s) (\<lambda>r s.
      obind (iunlock (Some ip) s) (\<lambda>_ s. obind (iput ip s) (\<lambda>_ s. Ret r s)))) = Ret (Some (take (unat n) bs)) t" "dsk t = d" "fs_ok t"
proof -
  let ?y = "disk_inode d b i"
  have o: "ip < NINODE" "i_dev (F ip) = 0" "i_inum (F ip) = i" "i_ref (F ip) = 1" "\<not> i_lock (F ip)" "\<not> i_valid (F ip)"
    using s(2) by (auto simp: only_def)
  obtain s1 where l: "ilock (Some ip) s = Ret () s1" "table_is d b (F(ip := load_inode ?y (F ip))) s1"
    by (rule ilock_loads [OF s(1) o(1), of ?y]) (use o f in \<open>auto simp: disk_file_def\<close>)
  let ?F1 = "F(ip := load_inode ?y (F ip))"
  have r: "readable s1 ip" "contents s1 ip = bs"
    by (rule loaded_readable [OF l(2) o(1) _ o(2) f]; simp)+
  have "unat n < 2 ^ 32" using unsigned_less [of n] by simp
  then obtain s2 where q: "readi ip 0 n s1 = Ret (Some (take (unat n) bs)) s2" "to_disk s1 s2 (dsk s1)"
    using readi_ok [OF r(1), of 0 n] r(2) by auto
  have s2: "table_is d b ?F1 s2" using tis_disk [OF l(2)] q(2) l(2) by (simp add: table_is_def)
  obtain s3 where u: "iunlock (Some ip) s2 = Ret () s3" "table_is d b (?F1(ip := (?F1 ip)\<lparr>i_lock := False\<rparr>)) s3"
    by (rule iunlock_frees [OF s2 o(1)]) (use o(4) in \<open>simp_all add: load_inode_def\<close>)
  let ?F3 = "?F1(ip := (?F1 ip)\<lparr>i_lock := False\<rparr>)"
  obtain s4 where p: "iput ip s3 = Ret () s4" "table_is d b (?F3(ip := (?F3 ip)\<lparr>i_ref := i_ref (?F3 ip) - 1\<rparr>)) s4"
    by (rule iput_drops [OF u(2) o(1)]) (use f in \<open>simp_all add: load_inode_def disk_file_def\<close>)
  show thesis by (rule that [of s4]) (use l(1) q(1) u(1) p in \<open>auto simp: table_is_def\<close>)
qed

section \<open>Images of \<open>mkfs\<close>\<close>

lemma mount_ok:
  assumes "fs_ok s" "magic (dec_superblock (dsk s 1)) = XV6_MAGIC" "length (icache s) = NINODE"
  obtains t where "xv6fs_full_init True s = Ret 0 t" "xv6fs_mounted t"
    "table_is (dsk s) (dec_superblock (dsk s 1)) (\<lambda>q. (ino q s)\<lparr>i_lock := False\<rparr>) t"
proof -
  let ?s = "(devsw_init (xv6fs_bridge_init True s))\<lparr>icache_lock := False, icache := map (\<lambda>x. x\<lparr>i_lock := False\<rparr>) (icache s)\<rparr>"
  have "bc ?s = bc s" using assms(1) by (cases "bc s") (simp add: devsw_init_def xv6fs_bridge_init_def fs_ok_def disk_up_def)
  then have s: "fs_ok ?s" "dsk ?s = dsk s" using assms(1) by (simp_all add: fs_ok_def)
  obtain t where t: "readsb 0 ?s = Ret (dec_superblock (dsk s 1)) t" "to_disk ?s t (dsk s)"
    using readsb_ok [OF s(1)] unfolding s(2) by blast
  have i: "icache (devsw_init (xv6fs_bridge_init True s)) = icache s"
    by (simp add: devsw_init_def xv6fs_bridge_init_def)
  let ?t = "t\<lparr>sb := dec_superblock (dsk s 1), kout := kout t @
    ''sb: size %d nblocks %d ninodes %d nlog %d logstart %d inodestart %d bmap start %d'' @ [char_of (10 :: nat)], xv6fs_mounted := True\<rparr>"
  have "xv6fs_full_init True s = Ret 0 ?t"
    unfolding xv6fs_full_init_def xv6fs_iinit_def Let_def ROOTDEV_def i using t(1) assms(2) by simp
  moreover have "table_is (dsk s) (dec_superblock (dsk s 1)) (\<lambda>q. (ino q s)\<lparr>i_lock := False\<rparr>) ?t"
    using to_disk_sel [OF t(2)] assms(3) by (auto simp: table_is_def fs_ok_def ino_def)
  ultimately show thesis using that [of ?t] by simp
qed

lemma mapped_of_tree:
  assumes "tree d addrs (tree_paths (nblk sz)) lo hi" "k < sz" "sz \<le> MAXFILE * BSIZE"
  shows "mapped d addrs (k div BSIZE)"
proof -
  have "k div BSIZE < MAXFILE" using assms(2,3) by (simp add: NINDIRECT_eq BSIZE_def)
  moreover have "bpaths (k div BSIZE) \<subseteq> tree_paths (nblk sz)" by (rule tree_paths_mono [OF block_below [OF assms(2)]])
  then have "node d addrs p \<noteq> 0" if "p \<noteq> []" "prefix p (bpath (k div BSIZE))" for p
    using tree_nonzero [OF assms(1)] that by (auto simp: bpaths_def)
  ultimately show ?thesis by (simp add: mapped_def)
qed

lemma image_disk_file:
  assumes "files_ok m" "mk_view m i = Some (ty, n, bs)" "ty \<noteq> 0" "ty \<noteq> T_DEV" "n \<noteq> 0"
  shows "disk_file (image m) mkfs_sb i ty bs"
proof -
  have v: "i \<in> mk_given m" "ty = d_type (mk_inode m i)" "n = d_nlink (mk_inode m i)" "bs = mk_file m i"
    using assms(2) by (simp_all add: mk_view_Some)
  have "mapped (image m) (d_addrs (mk_inode m i)) (k div BSIZE)" if "k < mk_size m i" for k
    using mapped_of_tree [OF files_okD(7) [OF assms(1) v(1), unfolded mk_paths_def] that files_okD(8) [OF assms(1) v(1)]] .
  then show ?thesis using v assms(3-5) by (simp add: disk_file_def mk_inode_def mk_file_def mk_size_def)
qed

lemma read_file_eq:
  "xv6fs_bridge_read_file path n s = obind (namei path s) (\<lambda>r s. case r of
      None \<Rightarrow> Ret None (s\<lparr>kout := kout s @ ''[xv6fsbridge] file not found or u real stupid: '' @ bytes_string path @ [char_of (10 :: nat)]\<rparr>)
    | Some ip \<Rightarrow> obind (ilock (Some ip) s) (\<lambda>_ s. obind (readi ip 0 n s) (\<lambda>r s.
      obind (iunlock (Some ip) s) (\<lambda>_ s. obind (iput ip s) (\<lambda>_ s. Ret r s)))))"
  by (simp add: xv6fs_bridge_read_file_def)

lemma read_root_file:
  assumes s: "table_is d b F s" "\<forall>q < NINODE. unused (F q)" and root: "disk_file d b ROOTINO T_DIR (dents es)"
    and path: "path \<noteq> []" "hd path = slash" "skipelem path = Some (name, [])"
    and fn: "first_named es name j" and i: "ucast (de_inum (named (es ! j))) = i" "i \<noteq> ROOTINO" "disk_file d b i ty bs"
  obtains u where "xv6fs_bridge_read_file path n s = Ret (Some (take (unat n) bs)) u" "dsk u = d"
proof -
  obtain s1 F1 where a: "iget 0 ROOTINO s = Ret 0 s1" "table_is d b F1 s1" "only 0 ROOTINO F1" using first_iget [OF s] by blast
  obtain ip s2 F2 where c: "namex_loop False path [] 0 s1 = namex_loop False [] name ip s2" "table_is d b F2 s2" "only ip i F2"
    using namex_step [OF a(2,3) root path(3) fn] i by metis
  obtain u where u: "obind (ilock (Some ip) s2) (\<lambda>_ s. obind (readi ip 0 n s) (\<lambda>r s.
      obind (iunlock (Some ip) s) (\<lambda>_ s. obind (iput ip s) (\<lambda>_ s. Ret r s)))) = Ret (Some (take (unat n) bs)) u" "dsk u = d"
    using read_inode_ok [OF c(2,3) i(3)] by metis
  have "skipelem [] = None" by (simp add: skipelem_def)
  then have "namei path s = Ret (Some ip) s2"
    using path a(1) c(1) by (simp add: namei_def namex_def namex_root_def ROOTDEV_def namex_loop.simps [of False "[]"])
  then show thesis using that u by (simp add: read_file_eq)
qed

lemma read_sub_file:
  assumes s: "table_is d b F s" "\<forall>q < NINODE. unused (F q)" and root: "disk_file d b ROOTINO T_DIR (dents es)"
    and path: "path \<noteq> []" "hd path = slash" "skipelem path = Some (nm, rest)" "skipelem rest = Some (name, [])"
    and fd: "first_named es nm k" and dir: "ucast (de_inum (named (es ! k))) = i" "i \<noteq> ROOTINO" "disk_file d b i T_DIR (dents ds)"
    and fn: "first_named ds name j" and fl: "ucast (de_inum (named (ds ! j))) = f" "f \<noteq> i" "disk_file d b f ty bs"
  obtains u where "xv6fs_bridge_read_file path n s = Ret (Some (take (unat n) bs)) u" "dsk u = d"
proof -
  obtain s1 F1 where a: "iget 0 ROOTINO s = Ret 0 s1" "table_is d b F1 s1" "only 0 ROOTINO F1" using first_iget [OF s] by blast
  obtain ip s2 F2 where c: "namex_loop False path [] 0 s1 = namex_loop False rest nm ip s2" "table_is d b F2 s2" "only ip i F2"
    using namex_step [OF a(2,3) root path(3) fd] dir by metis
  obtain iq s3 F3 where g: "namex_loop False rest nm ip s2 = namex_loop False [] name iq s3" "table_is d b F3 s3" "only iq f F3"
    using namex_step [OF c(2,3) dir(3) path(4) fn] fl by metis
  obtain u where u: "obind (ilock (Some iq) s3) (\<lambda>_ s. obind (readi iq 0 n s) (\<lambda>r s.
      obind (iunlock (Some iq) s) (\<lambda>_ s. obind (iput iq s) (\<lambda>_ s. Ret r s)))) = Ret (Some (take (unat n) bs)) u" "dsk u = d"
    using read_inode_ok [OF g(2,3) fl(3)] by metis
  have "skipelem [] = None" by (simp add: skipelem_def)
  then have "namei path s = Ret (Some iq) s3"
    using path a(1) c(1) g(1) by (simp add: namei_def namex_def namex_root_def ROOTDEV_def namex_loop.simps [of False "[]"])
  then show thesis using that u by (simp add: read_file_eq)
qed

text \<open>The names of the image.\<close>

lemma README_path: "skipelem (cstring ''/README'') = Some (cstring ''README'', [])"
  "skipelem (cstring ''/bin/child'') = Some (cstring ''bin'', cstring ''child'')" "skipelem (cstring ''child'') = Some (cstring ''child'', [])"
  by (simp_all add: skipelem_def cstring_def DIRSIZ_def)

lemma README_named:
  "first_named (root_entries @ [(5, ''README'')]) (cstring ''README'') 5"
  "first_named (root_entries @ [(5, ''README'')]) (cstring ''bin'') 3"
  "first_named [(3, ''.''), (1, ''..''), (6, ''child'')] (cstring ''child'') 2"
  by code_simp+

section \<open>Properties\<close>

text \<open>C8: 
  The image that \<open>mkfs\<close> writes is read by the kernel: mounted, its \<open>/README\<close> has the text of
  the tool, and \<open>/bin/child\<close> the bytes of the program that was embedded, up to the
  number of bytes asked for; reading changes nothing on the disk.
\<close>

theorem kernel_reads_mkfs_image:
  assumes "child_given argc child" and "mkfs_main argc True child (mkfs_start (\<lambda>_. False)) = Ret 0 m"
    and "fs_ok s" and "dsk s = image m" and "length (icache s) = NINODE" and "\<forall>q < NINODE. i_ref (ino q s) = 0"
  shows "\<exists>t. xv6fs_full_init True s = Ret 0 t \<and> xv6fs_mounted t \<and>
    (\<exists>u. xv6fs_bridge_read_file (cstring ''/README'') n t = Ret (Some (take (unat n) readme_text)) u \<and> dsk u = image m) \<and>
    (\<forall>cs. child = Some cs \<longrightarrow>
      (\<exists>u. xv6fs_bridge_read_file (cstring ''/bin/child'') n t = Ret (Some (take (unat n) (concat cs))) u \<and> dsk u = image m))"
proof -
  obtain m' where "mkfs_main argc True child (mkfs_start (\<lambda>_. False)) = Ret 0 m'" "files_ok m'" "mk_view m' = image_view child"
      "dec_superblock (image m' 1) = mkfs_sb" using mkfs_main_ok [OF assms(1)] by metis
  then have m: "files_ok m" "mk_view m = image_view child" "dec_superblock (image m 1) = mkfs_sb" using assms(2) by simp_all
  obtain t where t: "xv6fs_full_init True s = Ret 0 t" "xv6fs_mounted t"
      "table_is (image m) mkfs_sb (\<lambda>q. (ino q s)\<lparr>i_lock := False\<rparr>) t"
    using mount_ok [OF assms(3)] assms(4,5) m(3) by (auto simp: mkfs_sb_def)
  have un: "\<forall>q < NINODE. unused ((ino q s)\<lparr>i_lock := False\<rparr>)" using assms(6) by (simp add: unused_def)
  note stored = image_disk_file [OF m(1), unfolded m(2)]
  have root: "disk_file (image m) mkfs_sb ROOTINO T_DIR (dents (root_entries @ [(5, ''README'')]))"
    by (rule stored [where n = 5]) (simp_all add: image_view_def Let_def ROOTINO_def T_DIR_def T_DEV_def split: option.split)
  have readme: "disk_file (image m) mkfs_sb 5 T_FILE readme_text"
    by (rule stored [where n = 1]) (simp_all add: image_view_def Let_def T_FILE_def T_DEV_def split: option.split)
  have slash: "cstring ''/README'' \<noteq> []" "hd (cstring ''/README'') = slash" "cstring ''/bin/child'' \<noteq> []" "hd (cstring ''/bin/child'') = slash"
    by (simp_all add: cstring_def)
  have ix: "ucast (de_inum (named ((root_entries @ [(5, ''README'')]) ! 5))) = (5 :: u32)"
      "ucast (de_inum (named ((root_entries @ [(5, ''README'')]) ! 3))) = (3 :: u32)" by (simp_all add: root_entries_def)
  have "\<exists>u. xv6fs_bridge_read_file (cstring ''/README'') n t = Ret (Some (take (unat n) readme_text)) u \<and> dsk u = image m"
    by (rule read_root_file [OF t(3) un root slash(1,2) README_path(1) README_named(1) ix(1) _ readme, of n])
      (auto simp: ROOTINO_def)
  moreover have "\<exists>u. xv6fs_bridge_read_file (cstring ''/bin/child'') n t = Ret (Some (take (unat n) (concat cs))) u \<and> dsk u = image m"
    if c: "child = Some cs" for cs
  proof -
    have bin: "disk_file (image m) mkfs_sb 3 T_DIR (dents [(3, ''.''), (1, ''..''), (6, ''child'')])"
      by (rule stored [where n = 2]) (simp_all add: image_view_def c T_DIR_def T_DEV_def)
    have child: "disk_file (image m) mkfs_sb 6 T_FILE (concat cs)"
      by (rule stored [where n = 1]) (simp_all add: image_view_def c T_FILE_def T_DEV_def)
    have jx: "ucast (de_inum (named ([(3, ''.''), (1, ''..''), (6, ''child'')] ! 2))) = (6 :: u32)" by simp
    show ?thesis
      by (rule read_sub_file [OF t(3) un root slash(3,4) README_path(2,3) README_named(2) ix(2) _ bin README_named(3) jx _ child, of n])
        (auto simp: ROOTINO_def)
  qed
  ultimately show ?thesis using t(1,2) by blast
qed

theorem kernel_reads_mkfs_image_witness:
  "\<exists>m s t u. mkfs_main 3 True (Some [[1, 2], [3]]) (mkfs_start (\<lambda>_. False)) = Ret 0 m \<and> dsk s = image m \<and>
    xv6fs_full_init True s = Ret 0 t \<and> xv6fs_bridge_read_file (cstring ''/bin/child'') 2 t = Ret (Some [1, 2]) u"
proof -
  have c: "child_given 3 (Some [[1, 2], [3]])" by (simp add: child_given_def nblk_def BSIZE_def)
  obtain m where m: "mkfs_main 3 True (Some [[1, 2], [3]]) (mkfs_start (\<lambda>_. False)) = Ret 0 m" "files_ok m"
    using mkfs_main_ok [OF c] by metis
  let ?s = "small_fs\<lparr>bc := empty_cache\<lparr>disk := image m\<rparr>\<rparr>"
  have "\<And>b. length (image m b) = BSIZE" using files_okD(1) [OF m(2)] by (simp add: mk_ok_def)
  then have s: "fs_ok ?s" "dsk ?s = image m"
    by (simp_all add: fs_ok_def cache_ok_def empty_cache_def XV6FS_NBUF_def valid_buf_def disk_up_def)
  have "length (icache ?s) = NINODE" "\<forall>q < NINODE. i_ref (ino q ?s) = 0"
    by (simp_all add: small_fs_def NINODE_def ino_def no_inode_def)
  from kernel_reads_mkfs_image [OF c m(1) s this, of 2]
  obtain t u where "xv6fs_full_init True ?s = Ret 0 t"
      "xv6fs_bridge_read_file (cstring ''/bin/child'') 2 t = Ret (Some (take (unat (2 :: u32)) (concat [[1, 2], [3]]))) u" by blast
  moreover have "take (unat (2 :: u32)) (concat [[1, 2], [3]]) = [1, 2 :: u8]" by simp
  ultimately have "xv6fs_full_init True ?s = Ret 0 t" "xv6fs_bridge_read_file (cstring ''/bin/child'') 2 t = Ret (Some [1, 2]) u"
    by simp_all
  with m(1) s(2) show ?thesis by blast
qed

end
