(* ===== verification/Ahci.thy ===== *)
theory Ahci
  imports Boot ElfLoad Bcache
begin

text \<open>
  The driver of the SATA controller, \<open>kernel/ahci/onahci.c\<close> with the layouts of
  \<open>kernel/ahci/ahci.h\<close>.  The controller (HBA) is not part of the repository: it is an
  argument \<open>H\<close> that answers every access to a device register (an address, with the value
  when the access is a write) and may change its own state and, by DMA, memory.  Every
  iteration of a polling loop is one more access, so a loop sees the device run on.
  Structures that the driver and the HBA share are bytes of physical memory.
\<close>

section \<open>State\<close>

type_synonym 'd hba = "u64 \<Rightarrow> u32 option \<Rightarrow> 'd \<times> mem \<Rightarrow> u32 \<times> 'd \<times> mem"

record ahci_device =
  dev_port :: u64
  port_num :: nat
  dev_sectors :: u64
  clb_virt :: u64
  fb_virt :: u64
  ctba_virt :: "u64 list"

record 'd ahci =
  avm :: vm_state
  hba_dev :: 'd
  g_abar :: u64
  g_devices :: "ahci_device list"
  g_device_count :: nat
  ahci_log :: string

definition AHCI_MAX_PORTS :: nat where "AHCI_MAX_PORTS = 32"
definition AHCI_IO_TIMEOUT :: nat where "AHCI_IO_TIMEOUT = 50000000"
definition GHC_AE :: u32 where "GHC_AE = 0x80000000"
definition PXCMD_ST :: u32 where "PXCMD_ST = 1"
definition PXCMD_FRE :: u32 where "PXCMD_FRE = 16"
definition PXCMD_FR :: u32 where "PXCMD_FR = 0x4000"
definition PXCMD_CR :: u32 where "PXCMD_CR = 0x8000"

text \<open>Offsets of the registers in \<open>hba_mem_t\<close> and in \<open>hba_port_t\<close>.\<close>

definition HBA_GHC :: u64 where "HBA_GHC = 0x04"
definition HBA_PI :: u64 where "HBA_PI = 0x0C"
definition PX_CLB :: u64 where "PX_CLB = 0x00"
definition PX_CLBU :: u64 where "PX_CLBU = 0x04"
definition PX_FB :: u64 where "PX_FB = 0x08"
definition PX_FBU :: u64 where "PX_FBU = 0x0C"
definition PX_IS :: u64 where "PX_IS = 0x10"
definition PX_CMD :: u64 where "PX_CMD = 0x18"
definition PX_TFD :: u64 where "PX_TFD = 0x20"
definition PX_SSTS :: u64 where "PX_SSTS = 0x28"
definition PX_SERR :: u64 where "PX_SERR = 0x30"
definition PX_SACT :: u64 where "PX_SACT = 0x34"
definition PX_CI :: u64 where "PX_CI = 0x38"

lemmas port_offsets = PX_CLB_def PX_CLBU_def PX_FB_def PX_FBU_def PX_IS_def PX_CMD_def PX_TFD_def PX_SSTS_def
  PX_SERR_def PX_SACT_def PX_CI_def

section \<open>Registers and memory\<close>

definition reg_rd :: "'d hba \<Rightarrow> u64 \<Rightarrow> 'd ahci \<Rightarrow> u32 \<times> 'd ahci" where
  "reg_rd H a s = (let (v, d, m) = H a None (hba_dev s, pmem (avm s))
     in (v, s\<lparr>hba_dev := d, avm := (avm s)\<lparr>pmem := m\<rparr>\<rparr>))"

definition reg_wr :: "'d hba \<Rightarrow> u64 \<Rightarrow> u32 \<Rightarrow> 'd ahci \<Rightarrow> 'd ahci" where
  "reg_wr H a x s = (let (v, d, m) = H a (Some x) (hba_dev s, pmem (avm s))
     in s\<lparr>hba_dev := d, avm := (avm s)\<lparr>pmem := m\<rparr>\<rparr>)"

definition on_mem :: "(mem \<Rightarrow> mem) \<Rightarrow> 'd ahci \<Rightarrow> 'd ahci" where
  "on_mem f s = s\<lparr>avm := (avm s)\<lparr>pmem := f (pmem (avm s))\<rparr>\<rparr>"

definition ahci_say :: "string \<Rightarrow> 'd ahci \<Rightarrow> 'd ahci" where
  "ahci_say msg s = s\<lparr>ahci_log := ahci_log s @ msg\<rparr>"

definition upd_dev :: "nat \<Rightarrow> (ahci_device \<Rightarrow> ahci_device) \<Rightarrow> 'd ahci \<Rightarrow> 'd ahci" where
  "upd_dev i f s = s\<lparr>g_devices := (g_devices s)[i := f (g_devices s ! i)]\<rparr>"

definition wr32 :: "u64 \<Rightarrow> u32 \<Rightarrow> mem \<Rightarrow> mem" where
  "wr32 a v m = wr_bytes m a (le_bytes 4 (ucast v))"

definition wr16 :: "u64 \<Rightarrow> u16 \<Rightarrow> mem \<Rightarrow> mem" where
  "wr16 a v m = wr_bytes m a (le_bytes 2 (ucast v))"

definition k_memset :: "u64 \<Rightarrow> u8 \<Rightarrow> nat \<Rightarrow> mem \<Rightarrow> mem" where
  "k_memset dst val n m = fold (\<lambda>i m. m(dst + of_nat i := val)) [0..<n] m"

definition alloc_mapped_page :: "u64 \<Rightarrow> 'd ahci \<Rightarrow> u64 \<times> 'd ahci" where
  "alloc_mapped_page flags s =
    (let (phys, fr) = pmm_alloc_page (frames (avm s)); v = (avm s)\<lparr>frames := fr\<rparr> in
     if phys = 0 then (0, s\<lparr>avm := v\<rparr>)
     else let v = vmm_map_page (vmm_get_kernel_pml4 v) phys phys flags v
          in (phys, on_mem (k_memset phys 0 4096) (s\<lparr>avm := v\<rparr>)))"

section \<open>Finding the controller\<close>

definition pci_read32 :: "pci_space \<Rightarrow> u16 \<Rightarrow> u8 \<Rightarrow> u8 \<Rightarrow> u8 \<Rightarrow> u32" where
  "pci_read32 p bus slot func offset =
    p (push_bit 16 (ucast (ucast bus :: u8)) OR push_bit 11 (ucast slot) OR push_bit 8 (ucast func) OR
       (ucast offset AND 0xFC) OR 0x80000000)"

definition is_ahci :: "pci_space \<Rightarrow> u16 \<times> u8 \<Rightarrow> bool" where
  "is_ahci p = (\<lambda>(bus, slot).
    \<not> pci_read32 p bus slot 0 0 AND 0xFFFF = 0xFFFF \<and>
    drop_bit 24 (pci_read32 p bus slot 0 8) AND 0xFF = 1 \<and>
    drop_bit 16 (pci_read32 p bus slot 0 8) AND 0xFF = 6)"

definition pci_slots :: "(u16 \<times> u8) list" where
  "pci_slots = concat (map (\<lambda>bus. map (\<lambda>slot. (of_nat bus, of_nat slot)) [0..<32]) [0..<256])"

definition ahci_find_controller :: "pci_space \<Rightarrow> 'd ahci \<Rightarrow> u64 \<times> 'd ahci" where
  "ahci_find_controller p s =
    (case find (is_ahci p) pci_slots of
       None \<Rightarrow> (0, s)
     | Some (bus, slot) \<Rightarrow>
         let bar5 = ucast (pci_read32 p bus slot 0 0x24 AND NOT 0xF) :: u64 in
         if bar5 = 0 then (0, s)
         else (bar5, s\<lparr>avm := vmm_map_page (vmm_get_kernel_pml4 (avm s)) bar5 bar5 (PAGE_PRESENT OR PAGE_WRITE) (avm s)\<rparr>))"

definition ahci_global_init :: "'d hba \<Rightarrow> u64 \<Rightarrow> 'd ahci \<Rightarrow> 'd ahci" where
  "ahci_global_init H abar s = (let (v, s) = reg_rd H (abar + HBA_GHC) s in reg_wr H (abar + HBA_GHC) (v OR GHC_AE) s)"

definition ahci_port_is_present :: "'d hba \<Rightarrow> u64 \<Rightarrow> 'd ahci \<Rightarrow> bool \<times> 'd ahci" where
  "ahci_port_is_present H port s =
    (let (ssts, s) = reg_rd H (port + PX_SSTS) s; det = ssts AND 0xF; ipm = drop_bit 8 ssts AND 0xF
     in (det = 3 \<and> ipm = 1, s))"

section \<open>Starting a port\<close>

text \<open>
  \<open>while (reg & bits) if (++spins > AHCI_IO_TIMEOUT) fail\<close>: \<open>n\<close> is how often the loop may
  still go round.
\<close>

fun wait_clear :: "'d hba \<Rightarrow> u64 \<Rightarrow> u32 \<Rightarrow> nat \<Rightarrow> 'd ahci \<Rightarrow> bool \<times> 'd ahci" where
  "wait_clear H a bits n s =
    (let (v, s) = reg_rd H a s in
     if v AND bits = 0 then (True, s)
     else case n of 0 \<Rightarrow> (False, s) | Suc n \<Rightarrow> wait_clear H a bits n s)"

declare wait_clear.simps [simp del]

definition reg_clear :: "'d hba \<Rightarrow> u64 \<Rightarrow> u32 \<Rightarrow> 'd ahci \<Rightarrow> 'd ahci" where
  "reg_clear H a bits s = (let (v, s) = reg_rd H a s in reg_wr H a (v AND NOT bits) s)"

definition reg_set :: "'d hba \<Rightarrow> u64 \<Rightarrow> u32 \<Rightarrow> 'd ahci \<Rightarrow> 'd ahci" where
  "reg_set H a bits s = (let (v, s) = reg_rd H a s in reg_wr H a (v OR bits) s)"

definition ahci_port_stop :: "'d hba \<Rightarrow> u64 \<Rightarrow> 'd ahci \<Rightarrow> int \<times> 'd ahci" where
  "ahci_port_stop H port s =
    (let s = reg_clear H (port + PX_CMD) PXCMD_ST s; s = reg_clear H (port + PX_CMD) PXCMD_FRE s;
         (ok, s) = wait_clear H (port + PX_CMD) (PXCMD_FR OR PXCMD_CR) AHCI_IO_TIMEOUT s
     in if ok then (0, s)
        else (- 1, ahci_say (''AHCI: port_stop timed out waiting for FR/CR to clear'' @ [char_of (10 :: nat)]) s))"

definition ahci_port_start :: "'d hba \<Rightarrow> u64 \<Rightarrow> 'd ahci \<Rightarrow> int \<times> 'd ahci" where
  "ahci_port_start H port s =
    (let (ok, s) = wait_clear H (port + PX_CMD) PXCMD_CR AHCI_IO_TIMEOUT s
     in if ok then (0, reg_set H (port + PX_CMD) PXCMD_ST (reg_set H (port + PX_CMD) PXCMD_FRE s))
        else (- 1, ahci_say (''AHCI: port_start timed out waiting for CR to clear'' @ [char_of (10 :: nat)]) s))"

text \<open>The loop over the 32 command headers, from header \<open>i\<close> on.\<close>

definition cmd_header :: "u64 \<Rightarrow> nat \<Rightarrow> u64" where
  "cmd_header clb i = clb + 32 * of_nat i"

fun init_tables :: "nat \<Rightarrow> nat list \<Rightarrow> 'd ahci \<Rightarrow> bool \<times> 'd ahci" where
  "init_tables dev [] s = (True, s)"
| "init_tables dev (i # is) s =
    (let (ctba, s) = alloc_mapped_page (PAGE_PRESENT OR PAGE_WRITE) s in
     if ctba = 0 then (False, s)
     else let s = upd_dev dev (\<lambda>d. d\<lparr>ctba_virt := (ctba_virt d)[i := ctba]\<rparr>) s;
              h = cmd_header (clb_virt (g_devices s ! dev)) i;
              s = on_mem (wr32 (h + 8) (ucast ctba)) s;
              s = on_mem (wr32 (h + 12) (ucast (drop_bit 32 ctba))) s;
              s = on_mem (wr16 (h + 2) 8) s
          in init_tables dev is s)"

definition ahci_port_init :: "'d hba \<Rightarrow> nat \<Rightarrow> 'd ahci \<Rightarrow> int \<times> 'd ahci" where
  "ahci_port_init H dev s =
    (let port = dev_port (g_devices s ! dev); (r, s) = ahci_port_stop H port s in
     if r < 0 then (- 1, s)
     else let (clb, s) = alloc_mapped_page (PAGE_PRESENT OR PAGE_WRITE) s in
     if clb = 0 then (- 1, s)
     else let s = upd_dev dev (\<lambda>d. d\<lparr>clb_virt := clb\<rparr>) s;
              s = reg_wr H (port + PX_CLB) (ucast clb) s;
              s = reg_wr H (port + PX_CLBU) (ucast (drop_bit 32 clb)) s;
              (fb, s) = alloc_mapped_page (PAGE_PRESENT OR PAGE_WRITE) s in
     if fb = 0 then (- 1, s)
     else let s = upd_dev dev (\<lambda>d. d\<lparr>fb_virt := fb\<rparr>) s;
              s = reg_wr H (port + PX_FB) (ucast fb) s;
              s = reg_wr H (port + PX_FBU) (ucast (drop_bit 32 fb)) s;
              (ok, s) = init_tables dev [0..<32] s in
     if \<not> ok then (- 1, s)
     else let (serr, s) = reg_rd H (port + PX_SERR) s; s = reg_wr H (port + PX_SERR) serr s
          in ahci_port_start H port s)"

section \<open>Transfers\<close>

definition ahci_find_free_slot :: "'d hba \<Rightarrow> u64 \<Rightarrow> 'd ahci \<Rightarrow> nat option \<times> 'd ahci" where
  "ahci_find_free_slot H port s =
    (let (sact, s) = reg_rd H (port + PX_SACT) s; (ci, s) = reg_rd H (port + PX_CI) s; busy = sact OR ci
     in (find (\<lambda>i. busy AND push_bit i 1 = 0) [0..<32], s))"

text \<open>The stores to the command header: the bit fields share their byte with others.\<close>

definition fill_header :: "u64 \<Rightarrow> bool \<Rightarrow> mem \<Rightarrow> mem" where
  "fill_header h write m =
    (let m = m(h := (m h AND NOT 0x1F) OR 5);
         m = m(h := (m h AND NOT 0x40) OR (if write then 0x40 else 0))
     in wr16 (h + 2) 1 m)"

text \<open>The stores to the command table: the first entry of its PRDT and the FIS at its start.\<close>

definition fill_prdt :: "u64 \<Rightarrow> u64 \<Rightarrow> u32 \<Rightarrow> mem \<Rightarrow> mem" where
  "fill_prdt e buf count m =
    (let m = wr32 e (ucast buf) m;
         m = wr32 (e + 4) (ucast (drop_bit 32 buf)) m;
         m = wr32 (e + 12) ((rd32 m (e + 12) AND NOT 0x3FFFFF) OR ((count * 512 - 1) AND 0x3FFFFF)) m
     in wr32 (e + 12) (rd32 m (e + 12) OR 0x80000000) m)"

definition fill_fis :: "u64 \<Rightarrow> u64 \<Rightarrow> u32 \<Rightarrow> bool \<Rightarrow> mem \<Rightarrow> mem" where
  "fill_fis f lba count write m =
    (let m = m(f := 0x27);
         m = m(f + 1 := m (f + 1) OR 0x80);
         m = m(f + 2 := if write then 0x35 else 0x25);
         m = m(f + 4 := ucast (lba AND 0xFF), f + 5 := ucast (drop_bit 8 lba AND 0xFF),
               f + 6 := ucast (drop_bit 16 lba AND 0xFF), f + 8 := ucast (drop_bit 24 lba AND 0xFF),
               f + 9 := ucast (drop_bit 32 lba AND 0xFF), f + 10 := ucast (drop_bit 40 lba AND 0xFF));
         m = m(f + 7 := 0x40)
     in wr16 (f + 12) (ucast count) m)"

definition fill_table :: "u64 \<Rightarrow> u64 \<Rightarrow> u32 \<Rightarrow> u64 \<Rightarrow> bool \<Rightarrow> mem \<Rightarrow> mem" where
  "fill_table tbl lba count buf write m =
    fill_fis tbl lba count write (fill_prdt (tbl + 0x80) buf count (k_memset tbl 0 256 m))"

datatype transfer = Completed | Task_error | Timed_out

fun wait_command :: "'d hba \<Rightarrow> u64 \<Rightarrow> u32 \<Rightarrow> nat \<Rightarrow> 'd ahci \<Rightarrow> transfer \<times> 'd ahci" where
  "wait_command H port bits n s =
    (let (ci, s) = reg_rd H (port + PX_CI) s in
     if ci AND bits = 0 then (Completed, s)
     else let (is, s) = reg_rd H (port + PX_IS) s in
       if is AND push_bit 30 1 \<noteq> 0 then (Task_error, s)
       else case n of 0 \<Rightarrow> (Timed_out, s) | Suc n \<Rightarrow> wait_command H port bits n s)"

declare wait_command.simps [simp del]

definition ahci_do_rw :: "'d hba \<Rightarrow> ahci_device \<Rightarrow> u64 \<Rightarrow> u32 \<Rightarrow> u64 \<Rightarrow> bool \<Rightarrow> 'd ahci \<Rightarrow> int \<times> 'd ahci" where
  "ahci_do_rw H dev lba count buf write s =
    (let port = dev_port dev; (slot, s) = ahci_find_free_slot H port s in
     case slot of None \<Rightarrow> (- 1, s) | Some slot \<Rightarrow>
     let s = on_mem (fill_header (cmd_header (clb_virt dev) slot) write) s;
         s = on_mem (fill_table (ctba_virt dev ! slot) lba count buf write) s;
         (ok, s) = wait_clear H (port + PX_TFD) 0x88 AHCI_IO_TIMEOUT s in
     if \<not> ok then (- 1, ahci_say (''AHCI: timed out waiting for device not-busy before issuing command'' @ [char_of (10 :: nat)]) s)
     else let s = reg_set H (port + PX_CI) (push_bit slot 1) s;
              (r, s) = wait_command H port (push_bit slot 1) AHCI_IO_TIMEOUT s
          in case r of
               Completed \<Rightarrow> (0, s)
             | Task_error \<Rightarrow> (- 1, ahci_say ((if write then ''AHCI: task file error on WRITE lba='' else ''AHCI: task file error on READ lba='') @
                 map (\<lambda>i. hex_digit (drop_bit (i * 4) lba AND 0xF)) (rev [0..<16]) @ [char_of (10 :: nat)]) s)
             | Timed_out \<Rightarrow> (- 1, ahci_say (''AHCI: timed out waiting for command completion'' @ [char_of (10 :: nat)]) s))"

definition read_sectors :: "'d hba \<Rightarrow> ahci_device \<Rightarrow> u64 \<Rightarrow> u32 \<Rightarrow> u64 \<Rightarrow> 'd ahci \<Rightarrow> int \<times> 'd ahci" where
  "read_sectors H dev lba count buf s = ahci_do_rw H dev lba count buf False s"

definition write_sectors :: "'d hba \<Rightarrow> ahci_device \<Rightarrow> u64 \<Rightarrow> u32 \<Rightarrow> u64 \<Rightarrow> 'd ahci \<Rightarrow> int \<times> 'd ahci" where
  "write_sectors H dev lba count buf s = ahci_do_rw H dev lba count buf True s"

definition ahci_get_device :: "int \<Rightarrow> 'd ahci \<Rightarrow> ahci_device option" where
  "ahci_get_device i s = (if i < 0 \<or> i \<ge> int (g_device_count s) then None else Some (g_devices s ! nat i))"

section \<open>Finding the disks\<close>

definition port_base :: "u64 \<Rightarrow> nat \<Rightarrow> u64" where
  "port_base abar i = abar + 0x100 + of_nat i * 0x80"

text \<open>The body of the loop over the ports.\<close>

definition probe_port :: "'d hba \<Rightarrow> nat \<Rightarrow> 'd ahci \<Rightarrow> 'd ahci" where
  "probe_port H i s =
    (let (pi, s) = reg_rd H (g_abar s + HBA_PI) s in
     if pi AND push_bit i 1 = 0 then s
     else let port = port_base (g_abar s) i; (present, s) = ahci_port_is_present H port s in
     if \<not> present then s
     else let dev = g_device_count s;
              s = upd_dev dev (\<lambda>d. d\<lparr>dev_port := port, port_num := i\<rparr>) s;
              (r, s) = ahci_port_init H dev s
          in if r < 0 then ahci_say (''AHCI: port_init failed, skipping device'' @ [char_of (10 :: nat)]) s
             else s\<lparr>g_device_count := g_device_count s + 1\<rparr>)"

definition ahci_init :: "'d hba \<Rightarrow> pci_space \<Rightarrow> 'd ahci \<Rightarrow> int \<times> 'd ahci" where
  "ahci_init H p s =
    (let (abar, s) = ahci_find_controller p s; s = s\<lparr>g_abar := abar\<rparr> in
     if abar = 0 then (- 1, s)
     else let s = fold (probe_port H) [0..<AHCI_MAX_PORTS] (ahci_global_init H abar s)
          in (int (g_device_count s), s))"

end
