(* ===== verification/AhciDisk.thy ===== *)
theory AhciDisk
  imports Ahci
begin

text \<open>
  The driver of \<open>kernel/ahci/onahci.c\<close> on a controller that conforms to the AHCI
  specification: a transfer moves exactly the sectors it names between the disk and memory.
  What the specification promises is stated as laws of the argument \<open>H\<close>.
\<close>

section \<open>The controller, as documented\<close>

text \<open>
  A view of the state of the controller: the last values of its registers that can be read back,
  whether a port is idle, the contents of the disk behind a port and their size in sectors.
\<close>

record 'd hba_view =
  hv_reg :: "'d \<Rightarrow> u64 \<Rightarrow> u32"
  hv_idle :: "'d \<Rightarrow> u64 \<Rightarrow> bool"
  hv_disk :: "'d \<Rightarrow> u64 \<Rightarrow> u64 \<Rightarrow> u8 list"
  hv_sectors :: "u64 \<Rightarrow> nat"

definition reg64 :: "'d hba_view \<Rightarrow> 'd \<Rightarrow> u64 \<Rightarrow> u64" where
  "reg64 V d a = ucast (hv_reg V d a) OR push_bit 32 (ucast (hv_reg V d (a + 4)))"

definition all_idle :: "u64 set \<Rightarrow> 'd hba_view \<Rightarrow> 'd \<Rightarrow> bool" where
  "all_idle P V d \<longleftrightarrow> (\<forall>p \<in> P. hv_idle V d p)"

text \<open>Frames into which the ports post received information.\<close>

definition rx_frames :: "u64 set \<Rightarrow> 'd hba_view \<Rightarrow> 'd \<Rightarrow> nat set" where
  "rx_frames P V d = (\<lambda>p. frame_of (reg64 V d (p + PX_FB))) ` {p \<in> P. hv_reg V d (p + PX_CMD) AND PXCMD_FRE \<noteq> 0}"

text \<open>The registers that keep what is written to them.\<close>

definition plain_regs :: "u64 set \<Rightarrow> u64 set" where
  "plain_regs P = {p + r | p r. p \<in> P \<and> r \<in> {PX_CLB, PX_CLBU, PX_FB, PX_FBU, PX_CMD}}"

text \<open>An access that issues no command, while the ports are idle.\<close>

definition quiet_access :: "'d hba \<Rightarrow> u64 set \<Rightarrow> 'd hba_view \<Rightarrow> bool" where
  "quiet_access H P V \<longleftrightarrow> (\<forall>a w d m v d' m'. H a w (d, m) = (v, d', m') \<and> all_idle P V d \<and>
     (w = None \<or> a \<notin> (\<lambda>p. p + PX_CI) ` P) \<longrightarrow>
     all_idle P V d' \<and> hv_disk V d' = hv_disk V d \<and>
     (\<forall>b \<in> plain_regs P. hv_reg V d' b = (if a = b \<and> w \<noteq> None then the w else hv_reg V d b)) \<and>
     (\<forall>x. frame_of x \<notin> rx_frames P V d' \<longrightarrow> m' x = m x))"

text \<open>What the registers of an idle port read.\<close>

definition idle_registers :: "'d hba \<Rightarrow> u64 set \<Rightarrow> 'd hba_view \<Rightarrow> bool" where
  "idle_registers H P V \<longleftrightarrow> (\<forall>p \<in> P. \<forall>d m. all_idle P V d \<longrightarrow>
     fst (H (p + PX_SACT) None (d, m)) = 0 \<and> fst (H (p + PX_CI) None (d, m)) = 0 \<and>
     fst (H (p + PX_TFD) None (d, m)) AND 0x88 = 0 \<and>
     fst (H (p + PX_CMD) None (d, m)) AND (PXCMD_ST OR PXCMD_FRE) = hv_reg V d (p + PX_CMD) AND (PXCMD_ST OR PXCMD_FRE))"

text \<open>A command in memory: its header, and the command table the header points to.\<close>

record hba_cmd =
  c_write :: bool
  c_lba :: u64
  c_count :: nat
  c_buf :: u64

definition hba_command :: "mem \<Rightarrow> u64 \<Rightarrow> hba_cmd option" where
  "hba_command m h =
    (let t = rd64 m (h + 8); e = t + 0x80; w = m h AND 0x40 \<noteq> 0;
         n = unat (le_val [m (t + 12), m (t + 13)]); dbc = rd32 m (e + 12) AND 0x3FFFFF
     in if m h AND 0xBF = 5 \<and> m (h + 1) = 0 \<and> m (h + 2) = 1 \<and> m (h + 3) = 0 \<and>
           m t = 0x27 \<and> m (t + 1) = 0x80 \<and> m (t + 2) = (if w then 0x35 else 0x25) \<and> m (t + 7) AND 0x40 \<noteq> 0 \<and>
           n \<noteq> 0 \<and> unat dbc + 1 = 512 * n \<and> even (rd64 m e)
        then Some \<lparr>c_write = w, c_lba = le_val [m (t + 4), m (t + 5), m (t + 6), m (t + 8), m (t + 9), m (t + 10)],
               c_count = n, c_buf = rd64 m e\<rparr>
        else None)"

definition sectors_at :: "(u64 \<Rightarrow> u8 list) \<Rightarrow> u64 \<Rightarrow> nat \<Rightarrow> u8 list" where
  "sectors_at dk l n = concat (map (\<lambda>i. dk (l + of_nat i)) [0..<n])"

definition disk_after :: "hba_cmd \<Rightarrow> mem \<Rightarrow> (u64 \<Rightarrow> u8 list) \<Rightarrow> u64 \<Rightarrow> u8 list" where
  "disk_after c m dk = (if c_write c
     then (\<lambda>l. if unat (l - c_lba c) < c_count c then rd_bytes m (c_buf c + 512 * (l - c_lba c)) 512 else dk l) else dk)"

definition mem_after :: "hba_cmd \<Rightarrow> (u64 \<Rightarrow> u8 list) \<Rightarrow> mem \<Rightarrow> mem" where
  "mem_after c dk m = (if c_write c then m else wr_bytes m (c_buf c) (sectors_at dk (c_lba c) (c_count c)))"

text \<open>
  A port executes the command in a slot: it is polled \<open>k\<close> times without a task file error and
  reports completion the next time, when the state satisfies \<open>Q\<close>.
\<close>

fun completes :: "'d hba \<Rightarrow> u64 \<Rightarrow> u32 \<Rightarrow> nat \<Rightarrow> ('d \<times> mem \<Rightarrow> bool) \<Rightarrow> 'd \<times> mem \<Rightarrow> bool" where
  "completes H p bits 0 Q s = (let (v, s) = H (p + PX_CI) None s in v AND bits = 0 \<and> Q s)"
| "completes H p bits (Suc k) Q s = (let (v, s) = H (p + PX_CI) None s; (w, s') = H (p + PX_IS) None s
     in v AND bits \<noteq> 0 \<and> w AND push_bit 30 1 = 0 \<and> completes H p bits k Q s')"

definition executes :: "'d hba \<Rightarrow> u64 set \<Rightarrow> 'd hba_view \<Rightarrow> bool" where
  "executes H P V \<longleftrightarrow> (\<forall>p \<in> P. \<forall>slot < 32. \<forall>d m c.
     all_idle P V d \<and> hv_reg V d (p + PX_CMD) AND PXCMD_ST \<noteq> 0 \<and> hv_reg V d (p + PX_CMD) AND PXCMD_FRE \<noteq> 0 \<and>
     hba_command m (cmd_header (reg64 V d (p + PX_CLB)) slot) = Some c \<and>
     unat (c_lba c) + c_count c \<le> hv_sectors V p \<longrightarrow>
     (\<exists>k \<le> AHCI_IO_TIMEOUT. completes H p (push_bit slot 1) k
       (\<lambda>(d', m'). all_idle P V d' \<and> (\<forall>b \<in> plain_regs P. hv_reg V d' b = hv_reg V d b) \<and>
          hv_disk V d' = (hv_disk V d)(p := disk_after c m (hv_disk V d p)) \<and>
          (\<forall>x. frame_of x \<notin> rx_frames P V d \<longrightarrow>
             \<not> unat (x - (cmd_header (reg64 V d (p + PX_CLB)) slot + 4)) < 4 \<longrightarrow> m' x = mem_after c (hv_disk V d p) m x))
       (snd (H (p + PX_CI) (Some (push_bit slot 1)) (d, m)))))"

definition conforms :: "'d hba \<Rightarrow> u64 set \<Rightarrow> 'd hba_view \<Rightarrow> bool" where
  "conforms H P V \<longleftrightarrow> quiet_access H P V \<and> idle_registers H P V \<and> executes H P V \<and>
     (\<forall>d p l. length (hv_disk V d p l) = 512) \<and> (\<forall>p. hv_sectors V p \<le> 2 ^ 48)"

section \<open>Stores to memory\<close>

lemma wr32_apply: "wr32 a v m x = (if unat (x - a) < 4 then le_bytes 4 (ucast v) ! unat (x - a) else m x)"
  by (simp add: wr32_def wr_bytes_apply)

lemma wr16_apply: "wr16 a v m x = (if unat (x - a) < 2 then le_bytes 2 (ucast v) ! unat (x - a) else m x)"
  by (simp add: wr16_def wr_bytes_apply)

lemma k_memset_apply: "n \<le> 2 ^ 64 \<Longrightarrow> k_memset a v n m x = (if unat (x - a) < n then v else m x)"
  unfolding k_memset_def by (rule fold_put)

lemma rd32_wr32: "rd32 (wr32 a v m) a = v"
proof -
  have "rd_bytes (wr32 a v m) a 4 = le_bytes 4 (ucast v)"
    unfolding wr32_def using rd_wr_bytes_same [of "le_bytes 4 (ucast v)" m a] by simp
  then show ?thesis by (simp add: rd32_def le_val_le_bytes unsigned_ucast_eq take_bit_word_eq_self)
      (rule bit_word_eqI, simp add: bit_simps)
qed

lemma rd_bytes_cong: "(\<And>k. k < n \<Longrightarrow> m (a + of_nat k) = m' (a + of_nat k)) \<Longrightarrow> rd_bytes m a n = rd_bytes m' a n"
  by (simp add: rd_bytes_def)

lemma wr_bytes_append: "wr_bytes m a (xs @ ys) = wr_bytes (wr_bytes m a xs) (a + of_nat (length xs)) ys"
  by (induction xs arbitrary: m a) (simp_all add: algebra_simps)

lemma le_bytes_8_split: "le_bytes 8 v = le_bytes 4 (ucast (ucast v :: u32)) @ le_bytes 4 (ucast (ucast (drop_bit 32 v) :: u32))"
proof (rule nth_equalityI)
  fix i assume "i < length (le_bytes 8 v)"
  then have i: "i < 8" by simp
  have "le_bytes 4 (ucast (ucast v :: u32)) ! i = ucast (drop_bit (8 * i) v)" if "i < 4"
    using that by (auto simp: le_bytes_def intro!: bit_word_eqI simp: bit_simps)
  moreover have "le_bytes 4 (ucast (ucast (drop_bit 32 v) :: u32)) ! j = ucast (drop_bit (8 * (4 + j)) v)" if "j < 4" for j
    using that by (auto simp: le_bytes_def algebra_simps intro!: bit_word_eqI simp: bit_simps)
  moreover have "i < 4 \<or> (\<exists>j < 4. i = 4 + j)" using i by (cases "i < 4") (auto intro!: exI [of _ "i - 4"])
  ultimately show "le_bytes 8 v ! i = (le_bytes 4 (ucast (ucast v :: u32)) @ le_bytes 4 (ucast (ucast (drop_bit 32 v) :: u32))) ! i"
    by (auto simp: nth_append le_bytes_def [of 8])
qed simp

lemma wr32_pair: "wr32 (a + 4) (ucast (drop_bit 32 v)) (wr32 a (ucast v) m) = wr64 m a v"
  unfolding wr64_def wr32_def le_bytes_8_split wr_bytes_append by simp

lemma wr32_twice: "wr32 a v (wr32 a w m) = wr32 a v m"
  by (rule ext) (simp add: wr32_apply)

section \<open>The command in memory\<close>

lemma fill_header_apply:
  "fill_header h w m x = (if x = h then (m h AND 0xA0) OR (if w then 0x45 else 5) else
    if x = h + 2 then 1 else if x = h + 3 then 0 else m x)"
proof -
  have "le_bytes 2 (ucast (1 :: u16)) = [1, 0]" by (simp add: le_bytes_def upt_rec)
  moreover have "((m h AND NOT 0x1F OR 5) AND NOT 0x40 OR k) = (m h AND 0xA0 OR (5 OR k))" if "k = 0 \<or> k = 0x40" for k
    by (rule bit_word_eqI) (use that in \<open>auto simp: bit_simps less_Suc_eq numeral_eq_Suc\<close>)
  ultimately show ?thesis by (simp add: fill_header_def wr16_def Let_def)
qed

text \<open>The PRDT entry of a cleared table.\<close>

lemma fill_prdt_eq:
  assumes "rd32 m (e + 12) = 0"
  shows "fill_prdt e buf n m = wr32 (e + 12) ((n * 512 - 1) AND 0x3FFFFF OR 0x80000000) (wr64 m e buf)"
proof -
  have "unat (12 + of_nat i :: u64) = 12 + i" if "i < 4" for i
    using that by (simp add: unat_word_ariths unat_of_nat_u64)
  then have "rd_bytes (wr64 m e buf) (e + 12) 4 = rd_bytes m (e + 12) 4"
    by (intro rd_bytes_cong) (simp add: wr64_apply algebra_simps)
  then have "rd32 (wr64 m e buf) (e + 12) = rd32 m (e + 12)" by (simp add: rd32_def)
  then show ?thesis using assms by (simp add: fill_prdt_def Let_def wr32_pair rd32_wr32 wr32_twice)
qed

text \<open>The FIS.\<close>

lemma fill_fis_apply:
  "fill_fis f lba n w m x = (
    if x = f then 0x27 else if x = f + 1 then m x OR 0x80 else if x = f + 2 then (if w then 0x35 else 0x25) else
    if x = f + 4 then ucast lba else if x = f + 5 then ucast (drop_bit 8 lba) else
    if x = f + 6 then ucast (drop_bit 16 lba) else if x = f + 7 then 0x40 else
    if x = f + 8 then ucast (drop_bit 24 lba) else if x = f + 9 then ucast (drop_bit 32 lba) else
    if x = f + 10 then ucast (drop_bit 40 lba) else
    if x = f + 12 then ucast n else if x = f + 13 then ucast (drop_bit 8 n) else m x)"
proof -
  have "ucast (v AND 0xFF) = (ucast v :: u8)" for v :: u64
    by (rule bit_word_eqI) (auto simp: bit_simps less_Suc_eq numeral_eq_Suc)
  moreover have "le_bytes 2 (ucast (ucast n :: u16)) = [ucast n, ucast (drop_bit 8 n)]"
    by (auto simp: le_bytes_def upt_rec intro!: bit_word_eqI simp: bit_simps)
  ultimately show ?thesis by (simp add: fill_fis_def wr16_def Let_def)
qed

lemma unat_plus_small: "unat k + i < 2 ^ 64 \<Longrightarrow> unat ((k :: u64) + of_nat i) = unat k + i"
  by (simp add: unat_word_ariths unat_of_nat_u64)

text \<open>The cleared table with its PRDT entry, before the FIS is stored.\<close>

lemma fill_table_eq:
  "fill_table t lba n buf w m = fill_fis t lba n w
    (wr32 (t + 0x80 + 12) ((n * 512 - 1) AND 0x3FFFFF OR 0x80000000) (wr64 (k_memset t 0 256 m) (t + 0x80) buf))"
proof -
  have "k_memset t 0 256 m (t + 0x80 + 12 + of_nat i) = 0" if "i < 4" for i
    using that unat_plus_small [of 140 i]
    by (simp add: k_memset_apply add.assoc)
  then have "rd_bytes (k_memset t 0 256 m) (t + 0x80 + 12) 4 = replicate 4 0"
    by (intro nth_equalityI) (simp_all add: rd_bytes_def)
  then have "rd32 (k_memset t 0 256 m) (t + 0x80 + 12) = 0" by (simp add: rd32_def numeral_eq_Suc)
  then show ?thesis by (simp add: fill_table_def fill_prdt_eq)
qed

lemma fill_fis_outside: "16 \<le> unat (x - t) \<Longrightarrow> fill_fis t lba n w m x = m x"
  by (auto simp: fill_fis_apply)

lemma shifted_diff:
  fixes x t :: u64
  assumes "unat k \<le> unat (x - t)" shows "unat (x - (t + k)) = unat (x - t) - unat k"
  using assms unat_sub [of k "x - t"] by (simp add: word_le_nat_alt algebra_simps)

lemma fill_table_outside:
  assumes "256 \<le> unat (x - t)" shows "fill_table t lba n buf w m x = m x"
proof -
  have "unat (x - (t + 128)) = unat (x - t) - 128" "unat (x - (t + 140)) = unat (x - t) - 140"
    using shifted_diff [of 128 x t] shifted_diff [of 140 x t] assms by simp_all
  then have n: "\<not> unat (x - (t + 128)) < 8" "\<not> unat (x - (t + 140)) < 4" "\<not> unat (x - t) < 256" "16 \<le> unat (x - t)"
    using assms by simp_all
  have e: "t + 0x80 + 12 = t + 140" by simp
  show ?thesis
    unfolding fill_table_eq e fill_fis_outside [OF n(4)] wr32_apply wr64_apply using n by (simp add: k_memset_apply)
qed

lemma fill_table_fis:
  "fill_table t lba n buf w m t = 0x27" "fill_table t lba n buf w m (t + 1) = 0x80"
  "fill_table t lba n buf w m (t + 2) = (if w then 0x35 else 0x25)"
  "fill_table t lba n buf w m (t + 4) = ucast lba" "fill_table t lba n buf w m (t + 5) = ucast (drop_bit 8 lba)"
  "fill_table t lba n buf w m (t + 6) = ucast (drop_bit 16 lba)" "fill_table t lba n buf w m (t + 7) = 0x40"
  "fill_table t lba n buf w m (t + 8) = ucast (drop_bit 24 lba)" "fill_table t lba n buf w m (t + 9) = ucast (drop_bit 32 lba)"
  "fill_table t lba n buf w m (t + 10) = ucast (drop_bit 40 lba)"
  "fill_table t lba n buf w m (t + 12) = ucast n" "fill_table t lba n buf w m (t + 13) = ucast (drop_bit 8 n)"
  by (simp_all add: fill_table_eq fill_fis_apply wr32_apply wr64_apply k_memset_apply)

lemma fill_table_prdt:
  "rd64 (fill_table t lba n buf w m) (t + 0x80) = buf"
  "rd32 (fill_table t lba n buf w m) (t + 0x80 + 12) AND 0x3FFFFF = (n * 512 - 1) AND 0x3FFFFF"
proof -
  let ?m = "wr64 (k_memset t 0 256 m) (t + 0x80) buf" and ?v = "(n * 512 - 1) AND 0x3FFFFF OR 0x80000000 :: u32"
  have a: "fill_table t lba n buf w m (t + 0x80 + k) = wr32 (t + 0x80 + 12) ?v ?m (t + 0x80 + k)" if "unat k < 0x40" for k
  proof -
    have "unat (0x80 + k) = 0x80 + unat k" using that by (simp add: unat_word_ariths)
    then show ?thesis unfolding fill_table_eq by (intro fill_fis_outside) (simp add: add.assoc)
  qed
  have "rd64 (fill_table t lba n buf w m) (t + 0x80) = rd64 ?m (t + 0x80)"
  proof (rule rd64_cong)
    fix x :: u64 assume x: "unat (x - (t + 0x80)) < 8"
    then have "unat (x - (t + 0x80) - 12) \<ge> 4" using unat_diff_u64 [of "x - (t + 0x80)" 12] by auto
    then show "fill_table t lba n buf w m x = ?m x"
      using a [of "x - (t + 0x80)"] x by (simp add: wr32_apply algebra_simps)
  qed
  then show "rd64 (fill_table t lba n buf w m) (t + 0x80) = buf" by (simp add: rd64_wr64_same)
  have "rd32 (fill_table t lba n buf w m) (t + 0x80 + 12) = rd32 (wr32 (t + 0x80 + 12) ?v ?m) (t + 0x80 + 12)"
  proof -
    have "rd_bytes (fill_table t lba n buf w m) (t + 0x80 + 12) 4 = rd_bytes (wr32 (t + 0x80 + 12) ?v ?m) (t + 0x80 + 12) 4"
      using a [of "12 + of_nat k" for k] by (intro rd_bytes_cong) (simp add: unat_word_ariths unat_of_nat_u64 add.assoc)
    then show ?thesis by (simp add: rd32_def)
  qed
  moreover have "?v AND 0x3FFFFF = (n * 512 - 1) AND 0x3FFFFF"
    by (rule bit_word_eqI) (auto simp: bit_simps less_Suc_eq numeral_eq_Suc)
  ultimately show "rd32 (fill_table t lba n buf w m) (t + 0x80 + 12) AND 0x3FFFFF = (n * 512 - 1) AND 0x3FFFFF"
    by (simp only: rd32_wr32)
qed

lemma take_bit_small:
  fixes n :: "'a::len word"
  assumes "unat n < 2 ^ k" shows "take_bit k n = n"
proof -
  have "unat (take_bit k n) = unat n" using assms by (simp add: unsigned_take_bit_eq take_bit_nat_eq_self)
  then show ?thesis by (simp add: word_unat_eq_iff)
qed

lemma hba_command_filled:
  assumes "rd64 m (h + 8) = t" "m h AND 0xA0 = 0" "m (h + 1) = 0" "unat lba < 2 ^ 48" "0 < unat n" "unat n \<le> 8192" "even buf"
    and "\<And>x. unat (x - h) < 32 \<Longrightarrow> 256 \<le> unat (x - t)" 
  shows "hba_command (fill_table t lba n buf w (fill_header h w m)) h =
    Some \<lparr>c_write = w, c_lba = lba, c_count = unat n, c_buf = buf\<rparr>"
proof -
  let ?m = "fill_table t lba n buf w (fill_header h w m)"
  have hd: "?m (h + k) = fill_header h w m (h + k)" if "unat k < 32" for k
    using fill_table_outside assms(8) [of "h + k"] that by simp
  have h0: "?m h = (if w then 0x45 else 5)" "?m (h + 1) = 0" "?m (h + 2) = 1" "?m (h + 3) = 0"
    using hd [of 0] hd [of 1] hd [of 2] hd [of 3] assms(2,3) by (simp_all add: fill_header_apply)
  have "rd64 ?m (h + 8) = rd64 m (h + 8)"
  proof (rule rd64_cong)
    fix x :: u64 assume x: "unat (x - (h + 8)) < 8"
    have "unat (8 + y) = 8 + unat y" if "unat y < 8" for y :: u64 using that by (simp add: unat_word_ariths)
    from this [OF x] have "unat (8 + (x - (h + 8))) = 8 + unat (x - (h + 8))" .
    moreover have "8 + (x - (h + 8)) = x - h" by simp
    ultimately have k: "8 \<le> unat (x - h)" "unat (x - h) < 16" using x by simp_all
    then have "?m x = fill_header h w m x" using hd [of "x - h"] by simp
    moreover have "x \<noteq> h" "x \<noteq> h + 2" "x \<noteq> h + 3" using k by auto
    ultimately show "?m x = m x" by (simp add: fill_header_apply)
  qed
  then have t: "rd64 ?m (h + 8) = t" using assms(1) by simp
  have cnt: "unat (le_val [ucast n, ucast (drop_bit 8 n)]) = unat n"
  proof -
    have "[ucast n, ucast (drop_bit 8 n)] = le_bytes 2 (ucast n)"
      by (auto simp: le_bytes_def upt_rec intro!: bit_word_eqI simp: bit_simps)
    moreover have "take_bit 16 (ucast n :: u64) = ucast n"
      by (rule take_bit_small) (use assms(6) in \<open>simp add: unsigned_ucast_eq take_bit_nat_eq_self\<close>)
    ultimately show ?thesis using assms(6) by (simp add: le_val_le_bytes unsigned_ucast_eq take_bit_nat_eq_self)
  qed
  have lb: "le_val [ucast lba, ucast (drop_bit 8 lba), ucast (drop_bit 16 lba), ucast (drop_bit 24 lba),
      ucast (drop_bit 32 lba), ucast (drop_bit 40 lba)] = lba"
  proof -
    have "[ucast lba, ucast (drop_bit 8 lba), ucast (drop_bit 16 lba), ucast (drop_bit 24 lba),
      ucast (drop_bit 32 lba), ucast (drop_bit 40 lba)] = le_bytes 6 lba"
      by (simp add: le_bytes_def upt_rec)
    then show ?thesis using assms(4) by (simp add: le_val_le_bytes take_bit_small)
  qed
  have dbc: "unat ((n * 512 - 1) AND 0x3FFFFF) + 1 = 512 * unat n"
  proof -
    have "n * 512 \<noteq> 0" and u: "unat (n * 512) = 512 * unat n"
      using assms(5,6) by (simp_all add: unat_word_ariths unat_eq_0 [symmetric])
    then have "unat (n * 512 - 1) = 512 * unat n - 1" by (simp add: unat_minus_one)
    moreover have "(n * 512 - 1) AND 0x3FFFFF = take_bit 22 (n * 512 - 1)"
      by (simp add: take_bit_eq_mask mask_eq_exp_minus_1)
    ultimately show ?thesis using assms(5,6) by (simp add: take_bit_small)
  qed
  show ?thesis
    unfolding hba_command_def t Let_def fill_table_fis fill_table_prdt h0 cnt lb dbc using assms(5,7) by simp
qed


section \<open>A disk that is ready\<close>

text \<open>The frames of the structures that the driver shares with the port.\<close>

definition cmd_frames :: "ahci_device \<Rightarrow> nat set" where
  "cmd_frames dev = insert (frame_of (clb_virt dev)) (frame_of ` set (ctba_virt dev))"

definition tables_ok :: "ahci_device \<Rightarrow> mem \<Rightarrow> bool" where
  "tables_ok dev m \<longleftrightarrow> page_aligned (clb_virt dev) \<and> length (ctba_virt dev) = 32 \<and> (\<forall>t \<in> set (ctba_virt dev). page_aligned t) \<and>
     frame_of (clb_virt dev) \<notin> frame_of ` set (ctba_virt dev) \<and>
     (\<forall>i < 32. let h = cmd_header (clb_virt dev) i in
        m h AND 0xA0 = 0 \<and> m (h + 1) = 0 \<and> rd64 m (h + 8) = ctba_virt dev ! i)"

definition disk_ready :: "u64 set \<Rightarrow> 'd hba_view \<Rightarrow> ahci_device \<Rightarrow> 'd ahci \<Rightarrow> bool" where
  "disk_ready P V dev s \<longleftrightarrow> dev_port dev \<in> P \<and> all_idle P V (hba_dev s) \<and> tables_ok dev (pmem (avm s)) \<and>
     reg64 V (hba_dev s) (dev_port dev + PX_CLB) = clb_virt dev \<and>
     hv_reg V (hba_dev s) (dev_port dev + PX_CMD) AND PXCMD_ST \<noteq> 0 \<and>
     hv_reg V (hba_dev s) (dev_port dev + PX_CMD) AND PXCMD_FRE \<noteq> 0 \<and>
     cmd_frames dev \<inter> rx_frames P V (hba_dev s) = {}"

section \<open>Quiet accesses\<close>

definition set_hw :: "'d \<Rightarrow> mem \<Rightarrow> 'd ahci \<Rightarrow> 'd ahci" where
  "set_hw d m s = s\<lparr>hba_dev := d, avm := (avm s)\<lparr>pmem := m\<rparr>\<rparr>"

lemma set_hw_sel [simp]:
  "hba_dev (set_hw d m s) = d" "pmem (avm (set_hw d m s)) = m" "frames (avm (set_hw d m s)) = frames (avm s)"
  "kernel_pml4 (avm (set_hw d m s)) = kernel_pml4 (avm s)" "g_devices (set_hw d m s) = g_devices s"
  "g_device_count (set_hw d m s) = g_device_count s" "g_abar (set_hw d m s) = g_abar s"
  "set_hw d m (set_hw d' m' s) = set_hw d m s" "on_mem f s = set_hw (hba_dev s) (f (pmem (avm s))) s"
  by (simp_all add: set_hw_def on_mem_def)

lemma reg_rd_hw: "reg_rd H a s = (let (v, d, m) = H a None (hba_dev s, pmem (avm s)) in (v, set_hw d m s))"
  by (simp add: reg_rd_def set_hw_def)

lemma reg_rd_fst: "reg_rd H a s = (fst (H a None (hba_dev s, pmem (avm s))), snd (reg_rd H a s))"
  by (simp add: reg_rd_def split: prod.splits)

lemma reg_wr_hw: "reg_wr H a x s = (let (v, d, m) = H a (Some x) (hba_dev s, pmem (avm s)) in set_hw d m s)"
  by (simp add: reg_wr_def set_hw_def)

definition regs_same :: "u64 set \<Rightarrow> 'd hba_view \<Rightarrow> 'd \<Rightarrow> 'd \<Rightarrow> bool" where
  "regs_same P V d d' \<longleftrightarrow> (\<forall>b \<in> plain_regs P. hv_reg V d' b = hv_reg V d b)"

lemma port_reg: "p \<in> P \<Longrightarrow> r \<in> {PX_CLB, PX_CLBU, PX_FB, PX_FBU, PX_CMD} \<Longrightarrow> p + r \<in> plain_regs P"
  unfolding plain_regs_def by blast

lemma regs_same_port:
  assumes "regs_same P V d d'" "p \<in> P"
  shows "reg64 V d' (p + PX_CLB) = reg64 V d (p + PX_CLB)" "reg64 V d' (p + PX_FB) = reg64 V d (p + PX_FB)"
    "hv_reg V d' (p + PX_CMD) = hv_reg V d (p + PX_CMD)"
proof -
  have "hv_reg V d' (p + r) = hv_reg V d (p + r)" if "r \<in> {PX_CLB, PX_CLBU, PX_FB, PX_FBU, PX_CMD}" for r
    using assms port_reg [OF assms(2) that] by (simp add: regs_same_def)
  from this [of PX_CLB] this [of PX_CLBU] this [of PX_FB] this [of PX_FBU] this [of PX_CMD]
  show "reg64 V d' (p + PX_CLB) = reg64 V d (p + PX_CLB)" "reg64 V d' (p + PX_FB) = reg64 V d (p + PX_FB)"
    "hv_reg V d' (p + PX_CMD) = hv_reg V d (p + PX_CMD)"
    by (simp_all add: reg64_def port_offsets add.assoc)
qed

lemma regs_same_rx:
  assumes "regs_same P V d d'" shows "rx_frames P V d' = rx_frames P V d"
  unfolding rx_frames_def by (rule image_cong) (auto simp: regs_same_port [OF assms])

text \<open>A read, or a write that changes no register which can be read back.\<close>

definition quiet :: "u64 set \<Rightarrow> 'd hba_view \<Rightarrow> 'd ahci \<Rightarrow> 'd ahci \<Rightarrow> bool" where
  "quiet P V s s' \<longleftrightarrow> s' = set_hw (hba_dev s') (pmem (avm s')) s \<and> all_idle P V (hba_dev s') \<and>
     hv_disk V (hba_dev s') = hv_disk V (hba_dev s) \<and> regs_same P V (hba_dev s) (hba_dev s') \<and>
     (\<forall>x. frame_of x \<notin> rx_frames P V (hba_dev s) \<longrightarrow> pmem (avm s') x = pmem (avm s) x)"

lemma quiet_rd:
  assumes "conforms H P V" "all_idle P V (hba_dev s)"
  shows "quiet P V s (snd (reg_rd H a s))"
proof -
  obtain v d m where h: "H a None (hba_dev s, pmem (avm s)) = (v, d, m)" by (metis prod_cases3)
  have q: "all_idle P V d \<and> hv_disk V d = hv_disk V (hba_dev s) \<and>
     (\<forall>b \<in> plain_regs P. hv_reg V d b = hv_reg V (hba_dev s) b) \<and>
     (\<forall>x. frame_of x \<notin> rx_frames P V d \<longrightarrow> m x = pmem (avm s) x)"
    using assms(1) [unfolded conforms_def quiet_access_def, THEN conjunct1, rule_format, of a None, OF conjI, OF h] assms(2)
    by simp
  then have r: "regs_same P V (hba_dev s) d" by (simp add: regs_same_def)
  with q regs_same_rx [OF r] show ?thesis by (simp add: quiet_def reg_rd_hw h)
qed

lemma quiet_trans:
  assumes "quiet P V s t" "quiet P V t u" shows "quiet P V s u"
proof -
  have "regs_same P V (hba_dev s) (hba_dev t)" using assms(1) by (simp add: quiet_def)
  then have "rx_frames P V (hba_dev t) = rx_frames P V (hba_dev s)" by (rule regs_same_rx)
  moreover have "u = set_hw (hba_dev u) (pmem (avm u)) s" using assms unfolding quiet_def by (metis set_hw_sel(8))
  ultimately show ?thesis using assms unfolding quiet_def by (auto simp: regs_same_def)
qed

text \<open>What is ready stays ready.\<close>

lemma header_frame:
  assumes "page_aligned clb" "i < 32" "unat k < 32"
  shows "frame_of (cmd_header clb i + k) = frame_of clb" "unat (cmd_header clb i + k - clb) = 32 * i + unat k"
proof -
  have e: "cmd_header clb i + k = clb + of_nat (32 * i + unat k)" by (simp add: cmd_header_def)
  have l: "32 * i + unat k < 4096" using assms(2,3) by simp
  show "frame_of (cmd_header clb i + k) = frame_of clb" unfolding e by (rule aligned_plus(6) [OF assms(1) l])
  show "unat (cmd_header clb i + k - clb) = 32 * i + unat k" unfolding e using l by (simp add: unat_of_nat_u64 del: of_nat_add)
qed

lemma tables_ok_change:
  assumes "tables_ok dev m" "m' (clb_virt dev) AND 0xA0 = 0"
    and "\<And>x. frame_of x = frame_of (clb_virt dev) \<Longrightarrow> unat (x - clb_virt dev) = 1 \<or> 8 \<le> unat (x - clb_virt dev) \<Longrightarrow> m' x = m x"
  shows "tables_ok dev m'"
proof -
  let ?c = "clb_virt dev"
  have al: "page_aligned ?c" using assms(1) by (simp add: tables_ok_def)
  have same: "m' (cmd_header ?c i + k) = m (cmd_header ?c i + k)" if "i < 32" "unat k < 32" "32 * i + unat k = 1 \<or> 8 \<le> 32 * i + unat k" for i k
    using assms(3) header_frame [OF al that(1,2)] that(3) by simp
  have "m' h AND 0xA0 = 0 \<and> m' (h + 1) = 0 \<and> rd64 m' (h + 8) = ctba_virt dev ! i" if i: "i < 32" and h: "h = cmd_header ?c i" for i h
  proof (intro conjI)
    have old: "m h AND 0xA0 = 0" "m (h + 1) = 0" "rd64 m (h + 8) = ctba_virt dev ! i"
      using assms(1) i by (simp_all add: tables_ok_def Let_def h)
    show "m' h AND 0xA0 = 0"
      using assms(2) same [OF i, of 0] old(1) unfolding h by (cases "i = 0") (simp_all add: cmd_header_def)
    show "m' (h + 1) = 0" using same [OF i, of 1] old(2) by (cases "i = 0") (simp_all add: h)
    have "rd64 m' (h + 8) = rd64 m (h + 8)"
    proof (rule rd64_cong)
      fix x :: u64 assume x: "unat (x - (h + 8)) < 8"
      have "unat (8 + y) = 8 + unat y" if "unat y < 8" for y :: u64 using that by (simp add: unat_word_ariths)
      from this [OF x] show "m' x = m x" using x same [OF i, of "8 + (x - (h + 8))"] by (simp add: h)
    qed
    then show "rd64 m' (h + 8) = ctba_virt dev ! i" using old(3) by simp
  qed
  then show ?thesis using assms(1) by (simp add: tables_ok_def Let_def)
qed

lemma tables_ok_frames:
  assumes "tables_ok dev m" "\<And>x. frame_of x = frame_of (clb_virt dev) \<Longrightarrow> m' x = m x" shows "tables_ok dev m'"
proof (rule tables_ok_change [OF assms(1)])
  have "m (cmd_header (clb_virt dev) 0) AND 0xA0 = 0" using assms(1) by (simp add: tables_ok_def Let_def)
  then show "m' (clb_virt dev) AND 0xA0 = 0" using assms(2) by (simp add: cmd_header_def)
qed (rule assms(2))

lemma quiet_ready:
  assumes "quiet P V s s'" "disk_ready P V dev s" shows "disk_ready P V dev s'"
proof -
  have p: "dev_port dev \<in> P" and r: "regs_same P V (hba_dev s) (hba_dev s')" using assms by (auto simp: disk_ready_def quiet_def)
  have "tables_ok dev (pmem (avm s'))"
    by (rule tables_ok_frames [where m = "pmem (avm s)"]) (use assms in \<open>auto simp: disk_ready_def quiet_def cmd_frames_def\<close>)
  then show ?thesis using assms regs_same_port [OF r p] regs_same_rx [OF r] by (simp add: disk_ready_def quiet_def)
qed

section \<open>Polling\<close>

lemma wait_clear_first:
  assumes "reg_rd H a s = (v, s')" "v AND bits = 0" shows "wait_clear H a bits n s = (True, s')"
  using assms by (subst wait_clear.simps) simp

lemma wait_command_completes:
  assumes "completes H p bits k Q (hba_dev s, pmem (avm s))" "k \<le> n"
  shows "\<exists>d m. wait_command H p bits n s = (Completed, set_hw d m s) \<and> Q (d, m)"
  using assms
proof (induction k arbitrary: s n)
  case 0
  then show ?case by (subst wait_command.simps) (auto simp: reg_rd_hw split: prod.splits)
next
  case (Suc k)
  obtain v d m where 1: "H (p + PX_CI) None (hba_dev s, pmem (avm s)) = (v, d, m)" by (metis prod_cases3)
  obtain w d' m' where 2: "H (p + PX_IS) None (d, m) = (w, d', m')" by (metis prod_cases3)
  obtain n' where n: "n = Suc n'" using Suc.prems(2) by (cases n) auto
  have "completes H p bits k Q (d', m')" "k \<le> n'" "v AND bits \<noteq> 0" "w AND push_bit 30 1 = 0"
    using Suc.prems by (simp_all add: 1 2 n)
  with Suc.IH [of "set_hw d' m' s" n'] show ?case
    by (subst wait_command.simps) (simp add: reg_rd_hw 1 2 n)
qed


section \<open>Transfers\<close>

lemma hba_command_cong:
  assumes "\<And>x. unat (x - h) < 32 \<Longrightarrow> m' x = m x" "\<And>x. unat (x - rd64 m (h + 8)) < 256 \<Longrightarrow> m' x = m x"
  shows "hba_command m' h = hba_command m h"
proof -
  let ?t = "rd64 m (h + 8)"
  have h: "m' (h + k) = m (h + k)" if "unat k < 32" for k using assms(1) [of "h + k"] that by simp
  have t: "m' (?t + k) = m (?t + k)" if "unat k < 256" for k using assms(2) [of "?t + k"] that by simp
  have run: "rd_bytes m' (b + k) n = rd_bytes m (b + k) n"
    if "\<And>j. unat j < N \<Longrightarrow> m' (b + j) = m (b + j)" "unat k + n \<le> N" "N \<le> 256" for b k n N
  proof (rule rd_bytes_cong)
    fix j assume "j < n"
    then have "unat (k + of_nat j) = unat k + j" using that by (intro unat_plus_small) simp
    then show "m' (b + k + of_nat j) = m (b + k + of_nat j)" using that(1) [of "k + of_nat j"] that(2) \<open>j < n\<close> by (simp add: add.assoc)
  qed
  have r8: "rd64 m' (h + 8) = ?t" using run [OF h, where k = 8 and n = 8] by (simp add: rd64_def)
  have re: "rd64 m' (?t + 0x80) = rd64 m (?t + 0x80)" "rd32 m' (?t + 0x80 + 12) = rd32 m (?t + 0x80 + 12)"
    using run [OF t, where k = 128 and n = 8 and N = 256] run [OF t, where k = 140 and n = 4 and N = 256] by (simp_all add: rd64_def rd32_def add.assoc)
  show ?thesis
    unfolding hba_command_def r8 Let_def re
    using h [of 0] t [of 0] by (simp add: h t)
qed


text \<open>The stores of a command keep the tables in order, and memory elsewhere.\<close>

definition fill_command :: "ahci_device \<Rightarrow> u64 \<Rightarrow> u32 \<Rightarrow> u64 \<Rightarrow> bool \<Rightarrow> mem \<Rightarrow> mem" where
  "fill_command dev lba n buf w m = fill_table (ctba_virt dev ! 0) lba n buf w (fill_header (clb_virt dev) w m)"

lemma table_facts:
  assumes "tables_ok dev m"
  shows "page_aligned (clb_virt dev)" "page_aligned (ctba_virt dev ! 0)" "frame_of (ctba_virt dev ! 0) \<noteq> frame_of (clb_virt dev)"
    "frame_of (ctba_virt dev ! 0) \<in> cmd_frames dev" "frame_of (clb_virt dev) \<in> cmd_frames dev"
    "rd64 m (clb_virt dev + 8) = ctba_virt dev ! 0" "m (clb_virt dev) AND 0xA0 = 0" "m (clb_virt dev + 1) = 0"
proof -
  have "ctba_virt dev ! 0 \<in> set (ctba_virt dev)" using assms by (simp add: tables_ok_def)
  then have 1: "frame_of (ctba_virt dev ! 0) \<in> frame_of ` set (ctba_virt dev)" by (rule imageI)
  have 2: "frame_of (clb_virt dev) \<notin> frame_of ` set (ctba_virt dev)" using assms by (simp add: tables_ok_def)
  show "page_aligned (clb_virt dev)" using assms by (simp add: tables_ok_def)
  show "page_aligned (ctba_virt dev ! 0)" using assms \<open>ctba_virt dev ! 0 \<in> _\<close> by (simp add: tables_ok_def)
  show "frame_of (ctba_virt dev ! 0) \<noteq> frame_of (clb_virt dev)" using 1 2 by metis
  show "frame_of (ctba_virt dev ! 0) \<in> cmd_frames dev" "frame_of (clb_virt dev) \<in> cmd_frames dev"
    unfolding cmd_frames_def by (rule insertI2 [OF 1], rule insertI1)
  have "0 < (32 :: nat)" by simp
  then have "let h = cmd_header (clb_virt dev) 0 in m h AND 0xA0 = 0 \<and> m (h + 1) = 0 \<and> rd64 m (h + 8) = ctba_virt dev ! 0"
    using assms unfolding tables_ok_def by blast
  then show "rd64 m (clb_virt dev + 8) = ctba_virt dev ! 0" "m (clb_virt dev) AND 0xA0 = 0" "m (clb_virt dev + 1) = 0"
    by (simp_all add: cmd_header_def Let_def)
qed

lemma near_frame: "page_aligned t \<Longrightarrow> unat (x - t) < n \<Longrightarrow> n \<le> 4096 \<Longrightarrow> frame_of x = frame_of t"
  using frame_offset [of t x] by simp

lemma byte_count:
  fixes c :: u64
  assumes "unat (x - (c + 4)) < 4" shows "unat (x - c) < 8 \<and> 4 \<le> unat (x - c)"
proof -
  have "unat (4 + y) = 4 + unat y" if "unat y < 4" for y :: u64 using that by (simp add: unat_word_ariths)
  from this [OF assms] show ?thesis using assms by simp
qed

lemma fill_command_facts:
  assumes T: "tables_ok dev m"
  shows "frame_of x \<notin> cmd_frames dev \<Longrightarrow> fill_command dev lba n buf w m x = m x"
    and "tables_ok dev (fill_command dev lba n buf w m)"
    and "unat lba < 2 ^ 48 \<Longrightarrow> 0 < unat n \<Longrightarrow> unat n \<le> 8192 \<Longrightarrow> even buf \<Longrightarrow>
      hba_command (fill_command dev lba n buf w m) (clb_virt dev) = Some \<lparr>c_write = w, c_lba = lba, c_count = unat n, c_buf = buf\<rparr>"
proof -
  let ?c = "clb_virt dev" and ?t = "ctba_virt dev ! 0"
  note F = table_facts [OF T]
  have far: "256 \<le> unat (x - ?t)" if "frame_of x \<noteq> frame_of ?t" for x
    using near_frame [OF F(2), of x 256] that by linarith
  have hdr: "fill_command dev lba n buf w m x = fill_header ?c w m x" if "frame_of x \<noteq> frame_of ?t" for x
    by (simp add: fill_command_def fill_table_outside [OF far [OF that]])
  show "fill_command dev lba n buf w m x = m x" if x: "frame_of x \<notin> cmd_frames dev"
  proof -
    have "x \<noteq> ?c + k" if "unat k < 32" for k
      using near_frame [OF F(1), of "?c + k" 32] x F(5) that by auto
    from this [of 0] this [of 2] this [of 3] show ?thesis
      using x F(4) by (subst hdr) (auto simp: fill_header_apply)
  qed
  show "tables_ok dev (fill_command dev lba n buf w m)"
  proof (rule tables_ok_change [OF T])
    have "((if w then 0x45 else 5) AND 0xA0 :: u8) = 0" by simp
    moreover have "fill_command dev lba n buf w m ?c = (if w then 0x45 else 5)"
      using hdr [of ?c] F(3,7) by (simp add: fill_header_apply)
    ultimately show "fill_command dev lba n buf w m ?c AND 0xA0 = 0" by simp
    fix x assume x: "frame_of x = frame_of ?c" "unat (x - ?c) = 1 \<or> 8 \<le> unat (x - ?c)"
    then have "x \<noteq> ?c" "x \<noteq> ?c + 2" "x \<noteq> ?c + 3" by auto
    then show "fill_command dev lba n buf w m x = m x" using hdr [of x] x(1) F(3) by (simp add: fill_header_apply)
  qed
  have apart: "256 \<le> unat (x - ?t)" if "unat (x - ?c) < 32" for x
    by (rule far) (use near_frame [OF F(1) that] F(3) in simp)
  assume "unat lba < 2 ^ 48" "0 < unat n" "unat n \<le> 8192" "even buf"
  then show "hba_command (fill_command dev lba n buf w m) ?c = Some \<lparr>c_write = w, c_lba = lba, c_count = unat n, c_buf = buf\<rparr>"
    unfolding fill_command_def
    by (rule hba_command_filled [OF F(6-8) _ _ _ _ apart])
qed

text \<open>The contents of memory once the command is done, off the structures of the driver and of the port.\<close>

definition transferred :: "u64 set \<Rightarrow> 'd hba_view \<Rightarrow> ahci_device \<Rightarrow> hba_cmd \<Rightarrow> 'd ahci \<Rightarrow> 'd ahci \<Rightarrow> bool" where
  "transferred P V dev c s s' \<longleftrightarrow> s' = set_hw (hba_dev s') (pmem (avm s')) s \<and> disk_ready P V dev s' \<and>
     regs_same P V (hba_dev s) (hba_dev s') \<and>
     hv_disk V (hba_dev s') = (hv_disk V (hba_dev s))(dev_port dev :=
        disk_after c (pmem (avm s)) (hv_disk V (hba_dev s) (dev_port dev))) \<and>
     (\<forall>x. frame_of x \<notin> cmd_frames dev \<union> rx_frames P V (hba_dev s) \<longrightarrow>
        pmem (avm s') x = mem_after c (hv_disk V (hba_dev s) (dev_port dev)) (pmem (avm s)) x)"

definition buffer_free :: "u64 set \<Rightarrow> 'd hba_view \<Rightarrow> ahci_device \<Rightarrow> u64 \<Rightarrow> nat \<Rightarrow> 'd ahci \<Rightarrow> bool" where
  "buffer_free P V dev buf n s \<longleftrightarrow> (\<forall>k < 512 * n. frame_of (buf + of_nat k) \<notin> cmd_frames dev \<union> rx_frames P V (hba_dev s))"

lemma length_sectors_at: "(\<And>l. length (dk l) = 512) \<Longrightarrow> length (sectors_at dk l n) = 512 * n"
  by (simp add: sectors_at_def length_concat comp_def sum_list_triv)

lemma ahci_transfer:
  assumes C: "conforms H P V" and R: "disk_ready P V dev s"
    and n: "0 < unat n" "unat n \<le> 8192" "even buf" "unat lba + unat n \<le> hv_sectors V (dev_port dev)"
    and B: "buffer_free P V dev buf (unat n) s"
    and c: "c = \<lparr>c_write = w, c_lba = lba, c_count = unat n, c_buf = buf\<rparr>"
  shows "\<exists>s'. ahci_do_rw H dev lba n buf w s = (0, s') \<and> transferred P V dev c s s'"
proof -
  let ?p = "dev_port dev" and ?c = "clb_virt dev"
  have idle: "all_idle P V (hba_dev s)" and p: "?p \<in> P" and T: "tables_ok dev (pmem (avm s))" using R by (auto simp: disk_ready_def)
  have ir: "fst (H (?p + PX_SACT) None (d, m)) = 0" "fst (H (?p + PX_CI) None (d, m)) = 0"
      "fst (H (?p + PX_TFD) None (d, m)) AND 0x88 = 0" if "all_idle P V d" for d m
    using C p that unfolding conforms_def idle_registers_def by blast+
  define s1 where "s1 = snd (reg_rd H (?p + PX_SACT) s)"
  define s2 where "s2 = snd (reg_rd H (?p + PX_CI) s1)"
  define s3 where "s3 = on_mem (fill_command dev lba n buf w) s2"
  define s4 where "s4 = snd (reg_rd H (?p + PX_TFD) s3)"
  define s5 where "s5 = snd (reg_rd H (?p + PX_CI) s4)"
  have q1: "quiet P V s s1" unfolding s1_def by (rule quiet_rd [OF C idle])
  then have i1: "all_idle P V (hba_dev s1)" by (simp add: quiet_def)
  have q2: "quiet P V s1 s2" unfolding s2_def by (rule quiet_rd [OF C i1])
  have q12: "quiet P V s s2" by (rule quiet_trans [OF q1 q2])
  have R2: "disk_ready P V dev s2" by (rule quiet_ready [OF q12 R])
  have T2: "tables_ok dev (pmem (avm s2))" and i2: "all_idle P V (hba_dev s2)" using R2 by (auto simp: disk_ready_def)
  note FC = fill_command_facts [OF T2]
  have R3: "disk_ready P V dev s3" using R2 FC(2) by (simp add: disk_ready_def s3_def)
  then have i3: "all_idle P V (hba_dev s3)" by (simp add: disk_ready_def)
  have q4: "quiet P V s3 s4" unfolding s4_def by (rule quiet_rd [OF C i3])
  then have i4: "all_idle P V (hba_dev s4)" by (simp add: quiet_def)
  have q5: "quiet P V s4 s5" unfolding s5_def by (rule quiet_rd [OF C i4])
  have q35: "quiet P V s3 s5" by (rule quiet_trans [OF q4 q5])
  have R5: "disk_ready P V dev s5" by (rule quiet_ready [OF q35 R3])
  have slot: "ahci_find_free_slot H ?p s = (Some 0, s2)"
    using ir(1) [OF idle, of "pmem (avm s)"] ir(2) [OF i1, of "pmem (avm s1)"]
    by (subst ahci_find_free_slot_def, subst reg_rd_fst, simp add: s1_def [symmetric])
      (subst reg_rd_fst, simp add: s2_def [symmetric] upt_rec)
  have w4: "wait_clear H (?p + PX_TFD) 0x88 AHCI_IO_TIMEOUT s3 = (True, s4)"
  proof (rule wait_clear_first)
    show "reg_rd H (?p + PX_TFD) s3 = (fst (H (?p + PX_TFD) None (hba_dev s3, pmem (avm s3))), s4)"
      unfolding s4_def by (rule reg_rd_fst)
  qed (rule ir(3) [OF i3])
  let ?m5 = "pmem (avm s5)"
  define s6 where "s6 = reg_wr H (?p + PX_CI) (push_bit 0 1) s5"
  have issue: "reg_set H (?p + PX_CI) (push_bit 0 1) s4 = s6"
    using ir(2) [OF i4] by (subst reg_set_def, subst reg_rd_fst) (simp add: s6_def s5_def)
  have d3: "hba_dev s3 = hba_dev s2" by (simp add: s3_def)
  have r12: "regs_same P V (hba_dev s) (hba_dev s2)" and r35: "regs_same P V (hba_dev s2) (hba_dev s5)"
    using q12 q35 d3 by (auto simp: quiet_def)
  have rs: "regs_same P V (hba_dev s) (hba_dev s5)" using r12 r35 by (simp add: regs_same_def)
  have dk: "hv_disk V (hba_dev s5) = hv_disk V (hba_dev s)" using q12 q35 d3 by (simp add: quiet_def)
  note rx = regs_same_rx [OF rs]
  have off: "f \<notin> rx_frames P V (hba_dev s)" if "f \<in> cmd_frames dev" for f
    using R that unfolding disk_ready_def by blast
  have m35: "?m5 x = pmem (avm s3) x" if "frame_of x \<notin> rx_frames P V (hba_dev s)" for x
    using that q35 regs_same_rx [OF r12] d3 by (simp add: quiet_def)
  have mem: "?m5 x = pmem (avm s) x" if "frame_of x \<notin> cmd_frames dev \<union> rx_frames P V (hba_dev s)" for x
  proof -
    have "?m5 x = fill_command dev lba n buf w (pmem (avm s2)) x" using m35 that by (simp add: s3_def)
    also have "\<dots> = pmem (avm s2) x" using FC(1) that by blast
    also have "\<dots> = pmem (avm s) x" using q12 that by (simp add: quiet_def)
    finally show ?thesis .
  qed
  note F3 = table_facts [OF FC(2)]
  have "hba_command ?m5 ?c = hba_command (fill_command dev lba n buf w (pmem (avm s2))) ?c"
  proof (rule hba_command_cong)
    fix x assume "unat (x - ?c) < 32"
    then have "frame_of x = frame_of ?c" by (rule near_frame [OF F3(1)]) simp
    then show "?m5 x = fill_command dev lba n buf w (pmem (avm s2)) x" using m35 [of x] off [OF F3(5)] by (simp add: s3_def)
  next
    fix x assume "unat (x - rd64 (fill_command dev lba n buf w (pmem (avm s2))) (?c + 8)) < 256"
    then have "frame_of x = frame_of (ctba_virt dev ! 0)" unfolding F3(6) by (rule near_frame [OF F3(2)]) simp
    then show "?m5 x = fill_command dev lba n buf w (pmem (avm s2)) x" using m35 [of x] off [OF F3(4)] by (simp add: s3_def)
  qed
  also have "\<dots> = Some c"
  proof -
    have "hv_sectors V ?p \<le> 2 ^ 48" using C by (simp add: conforms_def)
    then show ?thesis unfolding c by (intro FC(3)) (use n in auto)
  qed
  finally have "hba_command ?m5 ?c = Some c" .
  moreover have clb: "cmd_header (reg64 V (hba_dev s5) (?p + PX_CLB)) 0 = ?c" using R5 by (simp add: disk_ready_def cmd_header_def)
  ultimately have cmd: "hba_command ?m5 (cmd_header (reg64 V (hba_dev s5) (?p + PX_CLB)) 0) = Some c" by simp
  obtain k where k: "k \<le> AHCI_IO_TIMEOUT" "completes H ?p (push_bit 0 1) k
       (\<lambda>(d', m'). all_idle P V d' \<and> (\<forall>b \<in> plain_regs P. hv_reg V d' b = hv_reg V (hba_dev s5) b) \<and>
          hv_disk V d' = (hv_disk V (hba_dev s5))(?p := disk_after c ?m5 (hv_disk V (hba_dev s5) ?p)) \<and>
          (\<forall>x. frame_of x \<notin> rx_frames P V (hba_dev s5) \<longrightarrow>
             \<not> unat (x - (cmd_header (reg64 V (hba_dev s5) (?p + PX_CLB)) 0 + 4)) < 4 \<longrightarrow> m' x = mem_after c (hv_disk V (hba_dev s5) ?p) ?m5 x))
       (hba_dev s6, pmem (avm s6))"
  proof -
    have ex: "executes H P V" using C by (simp add: conforms_def)
    have "snd (H (?p + PX_CI) (Some (push_bit 0 1)) (hba_dev s5, ?m5)) = (hba_dev s6, pmem (avm s6))"
      by (simp add: s6_def reg_wr_hw split: prod.splits)
    moreover have "all_idle P V (hba_dev s5) \<and> hv_reg V (hba_dev s5) (?p + PX_CMD) AND PXCMD_ST \<noteq> 0 \<and>
        hv_reg V (hba_dev s5) (?p + PX_CMD) AND PXCMD_FRE \<noteq> 0 \<and>
        hba_command ?m5 (cmd_header (reg64 V (hba_dev s5) (?p + PX_CLB)) 0) = Some c \<and>
        unat (c_lba c) + c_count c \<le> hv_sectors V ?p"
      using R5 cmd n(4) by (simp add: disk_ready_def c)
    ultimately show thesis
      using ex [unfolded executes_def, rule_format, OF p, of 0 "hba_dev s5" ?m5 c] that by auto
  qed
  from wait_command_completes [OF k(2,1)]
  obtain d m where fin: "wait_command H ?p (push_bit 0 1) AHCI_IO_TIMEOUT s6 = (Completed, set_hw d m s6)"
    and q: "all_idle P V d" "regs_same P V (hba_dev s5) d"
      "hv_disk V d = (hv_disk V (hba_dev s5))(?p := disk_after c ?m5 (hv_disk V (hba_dev s5) ?p))"
      "\<And>x. frame_of x \<notin> rx_frames P V (hba_dev s5) \<Longrightarrow>
             \<not> unat (x - (cmd_header (reg64 V (hba_dev s5) (?p + PX_CLB)) 0 + 4)) < 4 \<Longrightarrow> m x = mem_after c (hv_disk V (hba_dev s5) ?p) ?m5 x"
    by (auto simp: regs_same_def)
  have run: "ahci_do_rw H dev lba n buf w s = (0, set_hw d m s6)"
  proof -
    have "on_mem (fill_table (ctba_virt dev ! 0) lba n buf w) (on_mem (fill_header (cmd_header ?c 0) w) s2) = s3"
      by (simp add: s3_def fill_command_def cmd_header_def)
    then show ?thesis by (simp only: ahci_do_rw_def Let_def slot prod.case option.case w4 issue fin transfer.case if_True not_True_eq_False if_False)
  qed
  have len: "length (sectors_at (hv_disk V (hba_dev s) ?p) lba (unat n)) = 512 * unat n"
    using C by (simp add: length_sectors_at conforms_def)
  have inbuf: "unat (x - buf) < 512 * unat n \<Longrightarrow> frame_of x \<notin> cmd_frames dev \<union> rx_frames P V (hba_dev s)" for x
    using B [unfolded buffer_free_def, rule_format, of "unat (x - buf)"] by simp
  have after: "mem_after c dk m' x = mem_after c dk m'' x" if "m' x = m'' x" "length (sectors_at dk lba (unat n)) = 512 * unat n" for m' m'' x dk
    using that n(2) by (simp add: mem_after_def c wr_bytes_apply)
  have dsk: "disk_after c ?m5 dk = disk_after c (pmem (avm s)) dk" for dk
  proof -
    have "rd_bytes ?m5 (buf + 512 * (l - lba)) 512 = rd_bytes (pmem (avm s)) (buf + 512 * (l - lba)) 512"
      if l: "unat (l - lba) < unat n" for l
    proof (rule rd_bytes_cong)
      fix i :: nat assume i: "i < 512"
      let ?j = "512 * unat (l - lba) + i"
      have "buf + 512 * (l - lba) + of_nat i = buf + of_nat ?j" by simp
      moreover have "frame_of (buf + of_nat ?j) \<notin> cmd_frames dev \<union> rx_frames P V (hba_dev s)"
        using l i by (intro B [unfolded buffer_free_def, rule_format]) simp
      ultimately show "?m5 (buf + 512 * (l - lba) + of_nat i) = pmem (avm s) (buf + 512 * (l - lba) + of_nat i)"
        using mem by metis
    qed
    then show ?thesis by (auto simp: disk_after_def c)
  qed
  have T5: "tables_ok dev ?m5" using R5 by (simp add: disk_ready_def)
  note F5 = table_facts [OF T5]
  have keep: "m x = ?m5 x" if "frame_of x = frame_of ?c" "\<not> unat (x - (?c + 4)) < 4" for x
  proof -
    have "\<not> unat (x - buf) < 512 * unat n" using inbuf [of x] F5(5) that(1) by auto
    then have "mem_after c (hv_disk V (hba_dev s5) ?p) ?m5 x = ?m5 x"
      using len n(2) unfolding dk by (simp add: mem_after_def c wr_bytes_apply)
    moreover have "frame_of x \<notin> rx_frames P V (hba_dev s5)" using off [OF F5(5)] rx that(1) by simp
    ultimately show ?thesis using q(4) [of x] that(2) unfolding clb by simp
  qed
  have tab: "tables_ok dev m"
  proof (rule tables_ok_change [OF T5])
    show "m ?c AND 0xA0 = 0" using keep [of ?c] F5(7) by simp
    fix x assume x: "frame_of x = frame_of ?c" "unat (x - ?c) = 1 \<or> 8 \<le> unat (x - ?c)"
    have "\<not> unat (x - (?c + 4)) < 4" using byte_count [of x ?c] x(2) by auto
    then show "m x = ?m5 x" using keep x(1) by blast
  qed
  have "transferred P V dev c s (set_hw d m s6)"
    unfolding transferred_def
  proof (intro conjI allI impI)
    have "s6 = set_hw (hba_dev s6) (pmem (avm s6)) s5" by (simp add: s6_def reg_wr_hw split: prod.splits)
    moreover have "s5 = set_hw (hba_dev s5) (pmem (avm s5)) s3" "s2 = set_hw (hba_dev s2) (pmem (avm s2)) s"
      using q35 q12 by (simp_all add: quiet_def)
    ultimately have "set_hw d m s6 = set_hw d m s" unfolding s3_def by (metis set_hw_sel(8,9))
    then show "set_hw d m s6 = set_hw (hba_dev (set_hw d m s6)) (pmem (avm (set_hw d m s6))) s" by simp
    have "regs_same P V (hba_dev s) d" using rs q(2) by (simp add: regs_same_def)
    then show "regs_same P V (hba_dev s) (hba_dev (set_hw d m s6))" by simp
    note R = regs_same_port [OF q(2) p] regs_same_rx [OF q(2)]
    show "disk_ready P V dev (set_hw d m s6)" using R5 tab q(1) R by (simp add: disk_ready_def)
    show "hv_disk V (hba_dev (set_hw d m s6)) = (hv_disk V (hba_dev s))(?p := disk_after c (pmem (avm s)) (hv_disk V (hba_dev s) ?p))"
      using q(3) dk dsk by simp
    fix x assume x: "frame_of x \<notin> cmd_frames dev \<union> rx_frames P V (hba_dev s)"
    have "\<not> unat (x - (?c + 4)) < 4"
      using byte_count [of x ?c] near_frame [OF F5(1), of x 8] F5(5) x by auto
    then have "m x = mem_after c (hv_disk V (hba_dev s) ?p) ?m5 x" using q(4) [of x] x unfolding clb rx dk by blast
    then show "pmem (avm (set_hw d m s6)) x = mem_after c (hv_disk V (hba_dev s) ?p) (pmem (avm s)) x"
      using after [of ?m5 x "pmem (avm s)", OF mem [OF x] len] by simp
  qed
  with run show ?thesis by blast
qed


section \<open>Reading and writing sectors\<close>

lemma command_effects:
  "disk_after \<lparr>c_write = True, c_lba = lba, c_count = n, c_buf = buf\<rparr> m dk =
    (\<lambda>l. if unat (l - lba) < n then rd_bytes m (buf + 512 * (l - lba)) 512 else dk l)"
  "disk_after \<lparr>c_write = False, c_lba = lba, c_count = n, c_buf = buf\<rparr> m dk = dk"
  "mem_after \<lparr>c_write = True, c_lba = lba, c_count = n, c_buf = buf\<rparr> dk m = m"
  "mem_after \<lparr>c_write = False, c_lba = lba, c_count = n, c_buf = buf\<rparr> dk m = wr_bytes m buf (sectors_at dk lba n)"
  by (auto simp: disk_after_def mem_after_def)

lemma unat_block: "unat (ucast (b :: u32) :: u64) = unat b"
  using unsigned_less [of b, where ?'a = nat] by (simp add: unsigned_ucast_eq take_bit_nat_eq_self)

lemma ahci_read:
  assumes C: "conforms H P V" and R: "disk_ready P V dev s"
    and n: "0 < unat n" "unat n \<le> 8192" "even buf" "unat lba + unat n \<le> hv_sectors V (dev_port dev)"
    and B: "buffer_free P V dev buf (unat n) s"
  shows "\<exists>s'. read_sectors H dev lba n buf s = (0, s') \<and> disk_ready P V dev s' \<and> hv_disk V (hba_dev s') = hv_disk V (hba_dev s) \<and>
    s' = set_hw (hba_dev s') (pmem (avm s')) s \<and> rx_frames P V (hba_dev s') = rx_frames P V (hba_dev s) \<and>
    rd_bytes (pmem (avm s')) buf (512 * unat n) = sectors_at (hv_disk V (hba_dev s) (dev_port dev)) lba (unat n) \<and>
    (\<forall>x. frame_of x \<notin> cmd_frames dev \<union> rx_frames P V (hba_dev s) \<longrightarrow> \<not> unat (x - buf) < 512 * unat n \<longrightarrow>
      pmem (avm s') x = pmem (avm s) x)"
proof -
  let ?c = "\<lparr>c_write = False, c_lba = lba, c_count = unat n, c_buf = buf\<rparr>" and ?dk = "hv_disk V (hba_dev s) (dev_port dev)"
  from ahci_transfer [OF C R n B refl, of False]
  obtain s' where s': "read_sectors H dev lba n buf s = (0, s')" "transferred P V dev ?c s s'" by (auto simp: read_sectors_def)
  have len: "length (sectors_at ?dk lba (unat n)) = 512 * unat n" using C by (simp add: length_sectors_at conforms_def)
  have m: "pmem (avm s') x = wr_bytes (pmem (avm s)) buf (sectors_at ?dk lba (unat n)) x"
    if "frame_of x \<notin> cmd_frames dev \<union> rx_frames P V (hba_dev s)" for x
    using s'(2) that by (simp add: transferred_def command_effects)
  have "rd_bytes (pmem (avm s')) buf (512 * unat n) = sectors_at ?dk lba (unat n)"
  proof (rule nth_equalityI)
    fix k assume "k < length (rd_bytes (pmem (avm s')) buf (512 * unat n))"
    then have k: "k < 512 * unat n" by (simp add: rd_bytes_def)
    have "unat (of_nat k :: u64) = k" using k n(2) by (intro unat_of_nat_u64) simp
    then show "rd_bytes (pmem (avm s')) buf (512 * unat n) ! k = sectors_at ?dk lba (unat n) ! k"
      using m [OF B [unfolded buffer_free_def, rule_format, OF k]] k len n(2) by (simp add: rd_bytes_def wr_bytes_apply)
  qed (simp add: rd_bytes_def len)
  moreover have "rx_frames P V (hba_dev s') = rx_frames P V (hba_dev s)"
    by (rule regs_same_rx) (use s'(2) in \<open>simp add: transferred_def\<close>)
  moreover have "hv_disk V (hba_dev s') = hv_disk V (hba_dev s)" using s'(2) by (simp add: transferred_def command_effects)
  moreover have "pmem (avm s') x = pmem (avm s) x"
    if "frame_of x \<notin> cmd_frames dev \<union> rx_frames P V (hba_dev s)" "\<not> unat (x - buf) < 512 * unat n" for x
    using m [OF that(1)] that(2) len n(2) by (simp add: wr_bytes_apply)
  ultimately show ?thesis using s' unfolding transferred_def by blast
qed

lemma ahci_write:
  assumes C: "conforms H P V" and R: "disk_ready P V dev s"
    and n: "0 < unat n" "unat n \<le> 8192" "even buf" "unat lba + unat n \<le> hv_sectors V (dev_port dev)"
    and B: "buffer_free P V dev buf (unat n) s"
  shows "\<exists>s'. write_sectors H dev lba n buf s = (0, s') \<and> disk_ready P V dev s' \<and>
    s' = set_hw (hba_dev s') (pmem (avm s')) s \<and> rx_frames P V (hba_dev s') = rx_frames P V (hba_dev s) \<and>
    hv_disk V (hba_dev s') = (hv_disk V (hba_dev s))(dev_port dev := (\<lambda>l.
      if unat (l - lba) < unat n then rd_bytes (pmem (avm s)) (buf + 512 * (l - lba)) 512
      else hv_disk V (hba_dev s) (dev_port dev) l)) \<and>
    (\<forall>x. frame_of x \<notin> cmd_frames dev \<union> rx_frames P V (hba_dev s) \<longrightarrow> pmem (avm s') x = pmem (avm s) x)"
proof -
  let ?c = "\<lparr>c_write = True, c_lba = lba, c_count = unat n, c_buf = buf\<rparr>"
  from ahci_transfer [OF C R n B refl, of True]
  obtain s' where s': "write_sectors H dev lba n buf s = (0, s')" "transferred P V dev ?c s s'" by (auto simp: write_sectors_def)
  moreover have "rx_frames P V (hba_dev s') = rx_frames P V (hba_dev s)"
    by (rule regs_same_rx) (use s'(2) in \<open>simp add: transferred_def\<close>)
  ultimately show ?thesis by (intro exI [of _ s']) (simp add: transferred_def command_effects)
qed

text \<open>
  The disk of the buffer cache's model: block \<open>b\<close> of \<open>c\<close> is the sector of that number, and no
  transfer of a block that is on the disk fails.
\<close>

definition disk_of :: "'d hba_view \<Rightarrow> ahci_device \<Rightarrow> 'd ahci \<Rightarrow> bcache \<Rightarrow> bool" where
  "disk_of V dev s c \<longleftrightarrow> (\<forall>b. unat b < hv_sectors V (dev_port dev) \<longrightarrow>
     \<not> faulty c b \<and> disk c b = hv_disk V (hba_dev s) (dev_port dev) (ucast b))"

lemma driver_reads_disk:
  assumes "conforms H P V" "disk_ready P V dev s" "disk_of V dev s c" "unat b < hv_sectors V (dev_port dev)"
    "even buf" "buffer_free P V dev buf 1 s"
  shows "\<exists>s' d. read_sectors H dev (ucast b) 1 buf s = (0, s') \<and> ahci_read_sectors b c = Some d \<and>
    rd_bytes (pmem (avm s')) buf 512 = d \<and> disk_ready P V dev s' \<and> disk_of V dev s' c \<and> buffer_free P V dev buf 1 s'"
proof -
  note u = unat_block [of b]
  from ahci_read [OF assms(1,2), of 1 buf "ucast b"] assms(4-6) u obtain s' where
    s': "read_sectors H dev (ucast b) 1 buf s = (0, s')" "disk_ready P V dev s'" "hv_disk V (hba_dev s') = hv_disk V (hba_dev s)"
      "rd_bytes (pmem (avm s')) buf 512 = sectors_at (hv_disk V (hba_dev s) (dev_port dev)) (ucast b) 1"
      "rx_frames P V (hba_dev s') = rx_frames P V (hba_dev s)" by auto
  then show ?thesis using assms(3,4,6)
    by (intro exI [of _ s'] exI [of _ "disk c b"]) (simp add: disk_of_def ahci_read_sectors_def sectors_at_def buffer_free_def)
qed

lemma driver_writes_disk:
  assumes "conforms H P V" "disk_ready P V dev s" "disk_of V dev s c" "unat b < hv_sectors V (dev_port dev)"
    "even buf" "buffer_free P V dev buf 1 s"
  shows "\<exists>s' c'. write_sectors H dev (ucast b) 1 buf s = (0, s') \<and>
    ahci_write_sectors b (rd_bytes (pmem (avm s)) buf 512) c = (True, c') \<and>
    disk_ready P V dev s' \<and> disk_of V dev s' c' \<and> buffer_free P V dev buf 1 s'"
proof -
  note u = unat_block
  from ahci_write [OF assms(1,2), of 1 buf "ucast b"] assms(4-6) u obtain s' where
    s': "write_sectors H dev (ucast b) 1 buf s = (0, s')" "disk_ready P V dev s'"
      "hv_disk V (hba_dev s') = (hv_disk V (hba_dev s))(dev_port dev := (\<lambda>l.
        if unat (l - ucast b) < 1 then rd_bytes (pmem (avm s)) (buf + 512 * (l - ucast b)) 512
        else hv_disk V (hba_dev s) (dev_port dev) l))"
      "rx_frames P V (hba_dev s') = rx_frames P V (hba_dev s)" by auto
  have one: "unat ((ucast a :: u64) - ucast b) < 1 \<longleftrightarrow> a = b" for a
  proof -
    have "unat ((ucast a :: u64) - ucast b) < 1 \<longleftrightarrow> (ucast a :: u64) = ucast b" by (simp add: unat_eq_0)
    then show ?thesis using u by (metis word_unat_eq_iff)
  qed
  have "hv_disk V (hba_dev s') (dev_port dev) (ucast a) =
      (if a = b then rd_bytes (pmem (avm s)) buf 512 else hv_disk V (hba_dev s) (dev_port dev) (ucast a))" for a
    using one [of a] unfolding s'(3) by simp
  then show ?thesis using s'(1,2,4) assms(3,4,6)
    by (intro exI [of _ s'] exI [of _ "c\<lparr>disk := (disk c)(b := rd_bytes (pmem (avm s)) buf 512)\<rparr>"])
      (simp add: disk_of_def ahci_write_sectors_def buffer_free_def)
qed

end
