(* ===== verification/AhciInit.thy ===== *)
theory AhciInit
  imports AhciDisk
begin

text \<open>
  What \<open>ahci_init\<close> of \<open>kernel/ahci/onahci.c\<close> sets up: every device it counts is ready for
  transfers, in frames that nothing else uses.
\<close>

section \<open>Ports and frames\<close>

text \<open>Registers of different ports have different addresses.\<close>

definition ports_apart :: "u64 set \<Rightarrow> bool" where
  "ports_apart P \<longleftrightarrow> (\<forall>p \<in> P. \<forall>q \<in> P. \<forall>r r'. unat r < 0x80 \<longrightarrow> unat r' < 0x80 \<longrightarrow> p + r = q + r' \<longrightarrow> p = q \<and> r = r')"

definition hba_ports :: "u64 \<Rightarrow> u64 set" where
  "hba_ports abar = port_base abar ` {..<AHCI_MAX_PORTS}"

lemma port_register:
  assumes "i < 32" "j < 32" "unat r < 0x80" "unat r' < 0x80" "port_base abar i + r = port_base abar j + r'"
  shows "i = j \<and> r = r'"
proof -
  have u: "unat (of_nat i * 0x80 + r) = i * 0x80 + unat r" if "i < 32" "unat r < 0x80" for i and r :: u64
    using that by (simp add: unat_word_ariths unat_of_nat_u64)
  have "of_nat i * 0x80 + r = of_nat j * 0x80 + r'" using assms(5) by (simp add: port_base_def)
  then have e: "i * 0x80 + unat r = j * 0x80 + unat r'" using u [OF assms(1,3)] u [OF assms(2,4)] by simp
  from arg_cong [OF e, of "\<lambda>n. n div 0x80"] have "i = j" using assms(3,4) by simp
  moreover from this e have "unat r = unat r'" by simp
  ultimately show ?thesis by (simp add: word_unat_eq_iff)
qed

lemma hba_ports_apart: "ports_apart (hba_ports abar)"
  unfolding ports_apart_def hba_ports_def AHCI_MAX_PORTS_def using port_register by blast

text \<open>The frames that allocation and mapping may still touch.\<close>

definition pool :: "vm_state \<Rightarrow> nat set" where
  "pool v = table_frames (pmem v) (kernel_pml4 v) \<union> free_pages (frames v)"

text \<open>
  What setting up port \<open>p\<close> as device \<open>i\<close> leaves alone, from \<open>s0\<close> on: the disks, the registers
  of the other ports, the other devices, and memory outside the pool.
\<close>

definition kept :: "u64 set \<Rightarrow> 'd hba_view \<Rightarrow> u64 \<Rightarrow> nat \<Rightarrow> 'd ahci \<Rightarrow> 'd ahci \<Rightarrow> bool" where
  "kept P V p i s0 s \<longleftrightarrow>
     all_idle P V (hba_dev s) \<and> hv_disk V (hba_dev s) = hv_disk V (hba_dev s0) \<and>
     vm_ok (kernel_pml4 (avm s)) (avm s) \<and> (\<forall>b \<in> plain_regs (P - {p}). hv_reg V (hba_dev s) b = hv_reg V (hba_dev s0) b) \<and>
     rx_frames P V (hba_dev s) \<subseteq> rx_frames P V (hba_dev s0) \<union> pool (avm s0) \<and> rx_frames P V (hba_dev s) \<inter> pool (avm s) = {} \<and>
     pool (avm s) \<subseteq> pool (avm s0) \<and>
     (\<forall>x. frame_of x \<notin> pool (avm s0) \<union> rx_frames P V (hba_dev s0) \<longrightarrow> pmem (avm s) x = pmem (avm s0) x) \<and>
     length (g_devices s) = length (g_devices s0) \<and> (\<forall>j. j \<noteq> i \<longrightarrow> g_devices s ! j = g_devices s0 ! j) \<and>
     (\<forall>d \<in> set (g_devices s). length (ctba_virt d) = 32) \<and>
     g_device_count s = g_device_count s0 \<and> g_abar s = g_abar s0"

lemma quiet_pool:
  assumes "quiet P V s s'" "vm_ok (kernel_pml4 (avm s)) (avm s)" "rx_frames P V (hba_dev s) \<inter> pool (avm s) = {}"
  shows "vm_ok (kernel_pml4 (avm s')) (avm s')" "pool (avm s') = pool (avm s)"
    "g_devices s' = g_devices s" "g_device_count s' = g_device_count s" "g_abar s' = g_abar s"
proof -
  have e: "s' = set_hw (hba_dev s') (pmem (avm s')) s" using assms(1) by (simp add: quiet_def)
  have k: "kernel_pml4 (avm s') = kernel_pml4 (avm s)" "frames (avm s') = frames (avm s)"
    by (subst e, simp)+
  have "pmem (avm s') x = pmem (avm s) x" if "frame_of x \<in> table_frames (pmem (avm s)) (kernel_pml4 (avm s))" for x
    using assms(1,3) that by (auto simp: quiet_def pool_def)
  moreover have "pmm_ok (frames (avm s'))" "free_pages (frames (avm s')) \<subseteq> free_pages (frames (avm s))"
    using vm_okD(2) [OF assms(2)] by (simp_all add: k)
  ultimately have U: "vm_ok (kernel_pml4 (avm s)) (avm s')"
    "table_frames (pmem (avm s')) (kernel_pml4 (avm s)) = table_frames (pmem (avm s)) (kernel_pml4 (avm s))"
    using space_untouched [OF assms(2)] by metis+
  show "vm_ok (kernel_pml4 (avm s')) (avm s')" "pool (avm s') = pool (avm s)" using U by (simp_all add: pool_def k)
  show "g_devices s' = g_devices s" "g_device_count s' = g_device_count s" "g_abar s' = g_abar s" by (subst e, simp)+
qed

lemma kept_quiet:
  assumes "kept P V p i s0 s" "quiet P V s s'" shows "kept P V p i s0 s'"
proof -
  have K: "vm_ok (kernel_pml4 (avm s)) (avm s)" "rx_frames P V (hba_dev s) \<inter> pool (avm s) = {}"
    "rx_frames P V (hba_dev s) \<subseteq> rx_frames P V (hba_dev s0) \<union> pool (avm s0)"
    using assms(1) by (simp_all add: kept_def)
  have r: "regs_same P V (hba_dev s) (hba_dev s')" using assms(2) by (simp add: quiet_def)
  have "plain_regs (P - {p}) \<subseteq> plain_regs P" by (auto simp: plain_regs_def)
  then have "\<forall>b \<in> plain_regs (P - {p}). hv_reg V (hba_dev s') b = hv_reg V (hba_dev s) b" using r by (auto simp: regs_same_def)
  moreover have "pmem (avm s') x = pmem (avm s0) x" if "frame_of x \<notin> pool (avm s0) \<union> rx_frames P V (hba_dev s0)" for x
  proof -
    have "frame_of x \<notin> rx_frames P V (hba_dev s)" using that K(3) by blast
    then have "pmem (avm s') x = pmem (avm s) x" using assms(2) by (simp add: quiet_def)
    then show ?thesis using assms(1) that by (simp add: kept_def)
  qed
  ultimately show ?thesis
    using assms quiet_pool [OF assms(2) K(1,2)] regs_same_rx [OF r] unfolding kept_def quiet_def by simp
qed


lemma quiet_write:
  fixes x :: u32 and s :: "'d ahci"
  assumes C: "conforms H P V" and A: "ports_apart P" and i: "all_idle P V (hba_dev s)" and p: "p \<in> P"
    and r: "unat r < 0x80" "r \<noteq> PX_CI"
  defines "s' \<equiv> reg_wr H (p + r) x s"
  shows "all_idle P V (hba_dev s')" "hv_disk V (hba_dev s') = hv_disk V (hba_dev s)"
    "\<And>b. b \<in> plain_regs P \<Longrightarrow> hv_reg V (hba_dev s') b = (if b = p + r then x else hv_reg V (hba_dev s) b)"
    "\<And>y. frame_of y \<notin> rx_frames P V (hba_dev s') \<Longrightarrow> pmem (avm s') y = pmem (avm s) y"
    "s' = set_hw (hba_dev s') (pmem (avm s')) s"
proof -
  obtain v d m where h: "H (p + r) (Some x) (hba_dev s, pmem (avm s)) = (v, d, m)" by (metis prod_cases3)
  have "p + r \<notin> (\<lambda>p. p + PX_CI) ` P"
    using A p r unfolding ports_apart_def by (auto simp: PX_CI_def)
  then have q: "all_idle P V d \<and> hv_disk V d = hv_disk V (hba_dev s) \<and>
     (\<forall>b \<in> plain_regs P. hv_reg V d b = (if p + r = b then x else hv_reg V (hba_dev s) b)) \<and>
     (\<forall>x. frame_of x \<notin> rx_frames P V d \<longrightarrow> m x = pmem (avm s) x)"
    using C [unfolded conforms_def quiet_access_def, THEN conjunct1, rule_format, of "p + r" "Some x", OF conjI, OF h] i by simp
  have s': "s' = set_hw d m s" by (simp add: s'_def reg_wr_hw h)
  show "all_idle P V (hba_dev s')" "hv_disk V (hba_dev s') = hv_disk V (hba_dev s)"
    "\<And>y. frame_of y \<notin> rx_frames P V (hba_dev s') \<Longrightarrow> pmem (avm s') y = pmem (avm s) y"
    "s' = set_hw (hba_dev s') (pmem (avm s')) s" using q by (simp_all add: s')
  show "hv_reg V (hba_dev s') b = (if b = p + r then x else hv_reg V (hba_dev s) b)" if "b \<in> plain_regs P" for b
    using q that by (auto simp: s')
qed

text \<open>A write to a register of port \<open>p\<close> that lets the port post into no frame but \<open>Y\<close>.\<close>

lemma kept_write:
  assumes C: "conforms H P V" and A: "ports_apart P" and K: "kept P V p i s0 s" and p: "p \<in> P"
    and r: "unat r < 0x80" "r \<noteq> PX_CI"
    and rx: "rx_frames P V (hba_dev (reg_wr H (p + r) x s)) \<subseteq> rx_frames P V (hba_dev s) \<union> Y"
    and Y: "Y \<subseteq> pool (avm s0) - pool (avm s)"
  shows "kept P V p i s0 (reg_wr H (p + r) x s)" "pool (avm (reg_wr H (p + r) x s)) = pool (avm s)"
proof -
  let ?s = "reg_wr H (p + r) x s"
  have k: "all_idle P V (hba_dev s)" "vm_ok (kernel_pml4 (avm s)) (avm s)" "rx_frames P V (hba_dev s) \<inter> pool (avm s) = {}"
    "rx_frames P V (hba_dev s) \<subseteq> rx_frames P V (hba_dev s0) \<union> pool (avm s0)" using K by (simp_all add: kept_def)
  note Q = quiet_write [OF C A k(1) p r, where x = x]
  have e: "kernel_pml4 (avm ?s) = kernel_pml4 (avm s)" "frames (avm ?s) = frames (avm s)" "g_devices ?s = g_devices s"
    "g_device_count ?s = g_device_count s" "g_abar ?s = g_abar s" by (subst Q(5), simp)+
  have off: "rx_frames P V (hba_dev ?s) \<inter> pool (avm s) = {}" using rx Y k(3) by blast
  have "pmem (avm ?s) x = pmem (avm s) x" if "frame_of x \<in> table_frames (pmem (avm s)) (kernel_pml4 (avm s))" for x
    using Q(4) that off by (auto simp: pool_def)
  moreover have "pmm_ok (frames (avm ?s))" "free_pages (frames (avm ?s)) \<subseteq> free_pages (frames (avm s))"
    using vm_okD(2) [OF k(2)] by (simp_all add: e)
  ultimately have U: "vm_ok (kernel_pml4 (avm s)) (avm ?s)"
    "table_frames (pmem (avm ?s)) (kernel_pml4 (avm s)) = table_frames (pmem (avm s)) (kernel_pml4 (avm s))"
    using space_untouched [OF k(2)] by metis+
  then show pl: "pool (avm ?s) = pool (avm s)" by (simp add: pool_def e)
  have regs: "hv_reg V (hba_dev ?s) b = hv_reg V (hba_dev s) b" if b: "b \<in> plain_regs (P - {p})" for b
  proof -
    obtain q r' where q: "b = q + r'" "q \<in> P" "q \<noteq> p" "r' \<in> {PX_CLB, PX_CLBU, PX_FB, PX_FBU, PX_CMD}"
      using b unfolding plain_regs_def by blast
    then have "unat r' < 0x80" by (auto simp: port_offsets)
    with q have "b \<noteq> p + r" using A p r(1) unfolding ports_apart_def by metis
    moreover have "b \<in> plain_regs P" using b by (auto simp: plain_regs_def)
    ultimately show ?thesis using Q(3) by simp
  qed
  have mem: "pmem (avm ?s) y = pmem (avm s0) y" if "frame_of y \<notin> pool (avm s0) \<union> rx_frames P V (hba_dev s0)" for y
  proof -
    have "frame_of y \<notin> rx_frames P V (hba_dev ?s)" using that rx Y k(4) by blast
    then show ?thesis using Q(4) K that by (simp add: kept_def)
  qed
  have "rx_frames P V (hba_dev ?s) \<subseteq> rx_frames P V (hba_dev s0) \<union> pool (avm s0)" using rx Y k(4) by blast
  then show "kept P V p i s0 ?s"
    using K Q(1,2) U(1) regs mem off unfolding kept_def pl e by simp
qed

text \<open>Writes while the port does not receive.\<close>

lemma rx_unchanged:
  assumes "\<And>q. q \<in> P \<Longrightarrow> q \<noteq> p \<Longrightarrow> hv_reg V d' (q + PX_CMD) = hv_reg V d (q + PX_CMD) \<and> reg64 V d' (q + PX_FB) = reg64 V d (q + PX_FB)"
    and "hv_reg V d' (p + PX_CMD) AND PXCMD_FRE = 0"
  shows "rx_frames P V d' \<subseteq> rx_frames P V d"
proof
  fix f assume "f \<in> rx_frames P V d'"
  then obtain q where q: "q \<in> P" "hv_reg V d' (q + PX_CMD) AND PXCMD_FRE \<noteq> 0" "f = frame_of (reg64 V d' (q + PX_FB))"
    by (auto simp: rx_frames_def)
  then have "q \<noteq> p" using assms(2) by auto
  with q assms(1) [OF q(1) this] show "f \<in> rx_frames P V d" by (auto simp: rx_frames_def)
qed


lemma port_regs_apart:
  assumes "ports_apart P" "p \<in> P" "q \<in> P" "q \<noteq> p" "unat r < 0x80"
  shows "q + PX_CMD \<noteq> p + r" "q + PX_FB \<noteq> p + r" "q + PX_FB + 4 \<noteq> p + r"
proof -
  have "q + r' \<noteq> p + r" if "unat r' < 0x80" for r' using assms that unfolding ports_apart_def by metis
  from this [of PX_CMD] this [of PX_FB] this [of PX_FBU]
  show "q + PX_CMD \<noteq> p + r" "q + PX_FB \<noteq> p + r" "q + PX_FB + 4 \<noteq> p + r" by (simp_all add: port_offsets add.assoc)
qed

lemma kept_write_stopped:
  assumes C: "conforms H P V" and A: "ports_apart P" and K: "kept P V p i s0 s" and p: "p \<in> P"
    and r: "unat r < 0x80" "r \<noteq> PX_CI"
    and off: "hv_reg V (hba_dev (reg_wr H (p + r) x s)) (p + PX_CMD) AND PXCMD_FRE = 0"
  shows "kept P V p i s0 (reg_wr H (p + r) x s)" "pool (avm (reg_wr H (p + r) x s)) = pool (avm s)"
    "rx_frames P V (hba_dev (reg_wr H (p + r) x s)) \<subseteq> rx_frames P V (hba_dev s)"
proof -
  have i: "all_idle P V (hba_dev s)" using K by (simp add: kept_def)
  note Q = quiet_write [OF C A i p r, where x = x]
  have "hv_reg V (hba_dev (reg_wr H (p + r) x s)) (q + PX_CMD) = hv_reg V (hba_dev s) (q + PX_CMD) \<and>
      reg64 V (hba_dev (reg_wr H (p + r) x s)) (q + PX_FB) = reg64 V (hba_dev s) (q + PX_FB)" if q: "q \<in> P" "q \<noteq> p" for q
  proof -
    have "q + PX_CMD \<in> plain_regs P" "q + PX_FB \<in> plain_regs P" "q + PX_FBU \<in> plain_regs P"
      using q(1) by (auto intro: port_reg)
    moreover have "q + PX_FBU = q + PX_FB + 4" by (simp add: port_offsets)
    ultimately show ?thesis using Q(3) port_regs_apart [OF A p q r(1)] by (simp add: reg64_def)
  qed
  then show rx: "rx_frames P V (hba_dev (reg_wr H (p + r) x s)) \<subseteq> rx_frames P V (hba_dev s)"
    using off by (rule rx_unchanged)
  show "kept P V p i s0 (reg_wr H (p + r) x s)" "pool (avm (reg_wr H (p + r) x s)) = pool (avm s)"
    using kept_write [OF C A K p r, where x = x and Y = "{}"] rx by simp_all
qed

section \<open>Allocated pages\<close>

lemma kept_alloc:
  assumes K: "kept P V p i s0 s" and fl: "page_base flags = 0" and al: "alloc_mapped_page flags s = (a, s')"
  shows "kept P V p i s0 s'" "hba_dev s' = hba_dev s" "g_devices s' = g_devices s" "pool (avm s') \<subseteq> pool (avm s)"
    "\<And>x. frame_of x \<notin> pool (avm s) \<Longrightarrow> pmem (avm s') x = pmem (avm s) x"
    "a \<noteq> 0 \<Longrightarrow> page_aligned a \<and> frame_of a \<in> pool (avm s) - pool (avm s')"
    "a \<noteq> 0 \<Longrightarrow> frame_of x = frame_of a \<Longrightarrow> pmem (avm s') x = 0"
proof -
  let ?root = "kernel_pml4 (avm s)"
  have k: "vm_ok ?root (avm s)" "rx_frames P V (hba_dev s) \<inter> pool (avm s) = {}"
    "pool (avm s) \<subseteq> pool (avm s0)" using K by (simp_all add: kept_def)
  obtain a' fr where pa: "pmm_alloc_page (frames (avm s)) = (a', fr)" by fastforce
  define v where "v = (avm s)\<lparr>frames := fr\<rparr>"
  have main: "vm_ok ?root (avm s') \<and> kernel_pml4 (avm s') = ?root \<and> pool (avm s') \<subseteq> pool (avm s) \<and> hba_dev s' = hba_dev s \<and>
    g_devices s' = g_devices s \<and> g_device_count s' = g_device_count s \<and> g_abar s' = g_abar s \<and>
    (\<forall>x. frame_of x \<notin> pool (avm s) \<longrightarrow> pmem (avm s') x = pmem (avm s) x) \<and>
    (a \<noteq> 0 \<longrightarrow> page_aligned a \<and> frame_of a \<in> pool (avm s) - pool (avm s') \<and> (\<forall>x. frame_of x = frame_of a \<longrightarrow> pmem (avm s') x = 0))"
  proof (cases "a' = 0")
    case True
    have "fr = frames (avm s)" using alloc_zero_same [OF vm_okD(2) [OF k(1)]] pa True by simp
    then have "a = 0" "s' = s" using al pa True by (simp_all add: alloc_mapped_page_def)
    then show ?thesis using k by simp
  next
    case False
    note a = alloc_facts [OF vm_okD(2) [OF k(1)] pa False, folded frame_of_def]
    have fz: "pmm_ok (frames v)" "free_pages (frames v) \<subseteq> free_pages (frames (avm s))" using a by (auto simp: v_def)
    have same: "pmem v x = pmem (avm s) x" if "frame_of x \<in> table_frames (pmem (avm s)) ?root" for x by (simp add: v_def)
    note U = space_untouched [OF k(1) fz same]
    define w where "w = vmm_map_page ?root a' a' flags v"
    note E = vmm_map_page_effect [OF U(1) fl w_def]
    have notab: "frame_of a' \<notin> table_frames (pmem (avm s)) ?root" using table_frames_used [OF k(1)] a(3) by blast
    have kw: "kernel_pml4 w = ?root" using E by (simp add: v_def)
    have pw: "pool w \<subseteq> pool (avm s) - {frame_of a'}"
      using E a(3,4) U(3) notab unfolding pool_def kw writes_in_def by (auto simp: v_def)
    have s': "a = a'" "s' = on_mem (k_memset a' 0 4096) (s\<lparr>avm := w\<rparr>)"
      using al pa False by (auto simp: alloc_mapped_page_def vmm_get_kernel_pml4_def v_def w_def Let_def)
    have mem: "pmem (avm s') x = (if frame_of x = frame_of a' then 0 else pmem w x)" for x
      by (simp add: s' k_memset_apply frame_offset [OF a(2)])
    have av: "kernel_pml4 (avm s') = ?root" "frames (avm s') = frames w" by (simp_all add: s' kw)
    have tw: "pmem (avm s') x = pmem w x" if "frame_of x \<in> table_frames (pmem w) ?root" for x
      using that pw mem kw by (auto simp: pool_def)
    have okw: "vm_ok ?root w" using E by simp
    have "pmm_ok (frames (avm s'))" "free_pages (frames (avm s')) \<subseteq> free_pages (frames w)"
      using vm_okD(2) [OF okw] by (simp_all add: av)
    note W = space_untouched [OF okw this tw]
    have "pmem w x = pmem (avm s) x" if "frame_of x \<notin> pool (avm s)" for x
    proof -
      have "frame_of x \<notin> table_frames (pmem v) ?root \<union> free_pages (frames v)" using that U(3) fz(2) by (auto simp: pool_def)
      then have "pmem w x = pmem v x" using E unfolding writes_in_def by blast
      then show ?thesis by (simp add: v_def)
    qed
    moreover have "frame_of x \<noteq> frame_of a'" if "frame_of x \<notin> pool (avm s)" for x using that a(3) by (auto simp: pool_def)
    moreover have "pool (avm s') = pool w" by (simp add: pool_def av kw W(3))
    moreover have "frame_of a' \<in> pool (avm s)" using a(3) by (simp add: pool_def)
    ultimately show ?thesis using W(1) a(2) pw mem by (auto simp: s' kw)
  qed
  then show "hba_dev s' = hba_dev s" "g_devices s' = g_devices s" "pool (avm s') \<subseteq> pool (avm s)"
    "\<And>x. frame_of x \<notin> pool (avm s) \<Longrightarrow> pmem (avm s') x = pmem (avm s) x"
    "a \<noteq> 0 \<Longrightarrow> page_aligned a \<and> frame_of a \<in> pool (avm s) - pool (avm s')"
    "a \<noteq> 0 \<Longrightarrow> frame_of x = frame_of a \<Longrightarrow> pmem (avm s') x = 0" by simp_all
  have "pmem (avm s') x = pmem (avm s0) x" if "frame_of x \<notin> pool (avm s0) \<union> rx_frames P V (hba_dev s0)" for x
  proof -
    have "frame_of x \<notin> pool (avm s)" using that k(3) by blast
    then have "pmem (avm s') x = pmem (avm s) x" using main by blast
    then show ?thesis using K that by (simp add: kept_def)
  qed
  moreover have "rx_frames P V (hba_dev s') \<inter> pool (avm s') = {}" "pool (avm s') \<subseteq> pool (avm s0)"
    using main k(2,3) by auto
  ultimately show "kept P V p i s0 s'" using main K unfolding kept_def by simp
qed


section \<open>The command tables\<close>

text \<open>Stores to a page that was taken from the pool.\<close>

lemma kept_poke:
  assumes K: "kept P V p i s0 s" and F: "F \<in> pool (avm s0) - pool (avm s)"
    and f: "\<And>x. frame_of x \<noteq> F \<Longrightarrow> f (pmem (avm s)) x = pmem (avm s) x"
  shows "kept P V p i s0 (on_mem f s)" "pool (avm (on_mem f s)) = pool (avm s)"
proof -
  let ?root = "kernel_pml4 (avm s)" and ?v = "avm (on_mem f s)"
  have ok: "vm_ok ?root (avm s)" using K by (simp add: kept_def)
  have e: "kernel_pml4 ?v = ?root" "frames ?v = frames (avm s)" by simp_all
  have "pmem ?v x = pmem (avm s) x" if "frame_of x \<in> table_frames (pmem (avm s)) ?root" for x
  proof -
    have "frame_of x \<noteq> F" using that F by (auto simp: pool_def)
    then show ?thesis by (simp add: f)
  qed
  moreover have "pmm_ok (frames ?v)" "free_pages (frames ?v) \<subseteq> free_pages (frames (avm s))"
    using vm_okD(2) [OF ok] by simp_all
  ultimately have U: "vm_ok ?root ?v" "table_frames (pmem ?v) ?root = table_frames (pmem (avm s)) ?root"
    using space_untouched [OF ok] by metis+
  then show pl: "pool ?v = pool (avm s)" unfolding pool_def e by simp
  have "pmem ?v x = pmem (avm s0) x" if "frame_of x \<notin> pool (avm s0) \<union> rx_frames P V (hba_dev s0)" for x
    using f [of x] F K that by (auto simp: kept_def)
  then show "kept P V p i s0 (on_mem f s)" using K U(1) pl unfolding kept_def by simp
qed

lemma kept_upd_dev:
  assumes "kept P V p i s0 s" "length (ctba_virt (f (g_devices s ! i))) = 32"
  shows "kept P V p i s0 (upd_dev i f s)"
  using assms set_update_subset_insert [of "g_devices s" i "f (g_devices s ! i)"] unfolding kept_def upd_dev_def by auto

text \<open>The first \<open>k\<close> headers point to their tables; the flags of all are still clear.\<close>

definition headers_ok :: "nat \<Rightarrow> ahci_device \<Rightarrow> mem \<Rightarrow> bool" where
  "headers_ok k dev m \<longleftrightarrow> (\<forall>j < 32. let h = cmd_header (clb_virt dev) j in
     m h = 0 \<and> m (h + 1) = 0 \<and> (j < k \<longrightarrow> rd64 m (h + 8) = ctba_virt dev ! j))"

lemma headers_ok_frames:
  assumes "page_aligned (clb_virt dev)" "headers_ok k dev m" "\<And>x. frame_of x = frame_of (clb_virt dev) \<Longrightarrow> m' x = m x"
  shows "headers_ok k dev m'"
proof -
  have same: "m' (cmd_header (clb_virt dev) j + b) = m (cmd_header (clb_virt dev) j + b)" if "j < 32" "unat b < 32" for j b
    using header_frame(1) [OF assms(1) that] assms(3) by simp
  have "rd64 m' (cmd_header (clb_virt dev) j + 8) = rd64 m (cmd_header (clb_virt dev) j + 8)" if "j < 32" for j
  proof (rule rd64_cong)
    fix x :: u64 assume x: "unat (x - (cmd_header (clb_virt dev) j + 8)) < 8"
    have "unat (8 + y) = 8 + unat y" if "unat y < 8" for y :: u64 using that by (simp add: unat_word_ariths)
    from this [OF x] show "m' x = m x" using same [OF that, of "8 + (x - (cmd_header (clb_virt dev) j + 8))"] x by simp
  qed
  then show ?thesis
    using assms(2) same [of _ 0] same [of _ 1] unfolding headers_ok_def Let_def by simp
qed

definition set_header :: "u64 \<Rightarrow> u64 \<Rightarrow> mem \<Rightarrow> mem" where
  "set_header h t m = wr16 (h + 2) 8 (wr32 (h + 12) (ucast (drop_bit 32 t)) (wr32 (h + 8) (ucast t) m))"

lemma set_header_apply:
  "set_header h t m x = (if unat (x - (h + 2)) < 2 then [8, 0] ! unat (x - (h + 2))
    else if unat (x - (h + 8)) < 8 then le_bytes 8 t ! unat (x - (h + 8)) else m x)"
proof -
  have "wr32 (h + 12) (ucast (drop_bit 32 t)) (wr32 (h + 8) (ucast t) m) = wr64 m (h + 8) t"
    using wr32_pair [of "h + 8" t m] by (simp add: add.assoc)
  moreover have "le_bytes 2 (ucast (8 :: u16)) = [8, 0]" by (simp add: le_bytes_def upt_rec)
  ultimately show ?thesis by (simp add: set_header_def wr16_apply wr64_apply)
qed

lemma page_diff:
  fixes y :: u64
  assumes "unat y < 4096" "q < 4096" "n \<le> 4096"
  shows "unat (y - of_nat q) < n \<longleftrightarrow> q \<le> unat y \<and> unat y < q + n" "q \<le> unat y \<Longrightarrow> unat (y - of_nat q) = unat y - q"
proof -
  have "unat (of_nat q :: u64) = q" using assms(2) by (intro unat_of_nat_u64) simp
  then have u: "unat (y - of_nat q) = (if q \<le> unat y then unat y - q else unat y + 2 ^ 64 - q)"
    by (simp add: unat_sub_if_size word_le_nat_alt word_size)
  show "unat (y - of_nat q) < n \<longleftrightarrow> q \<le> unat y \<and> unat y < q + n" using u assms by auto
  show "q \<le> unat y \<Longrightarrow> unat (y - of_nat q) = unat y - q" using u by simp
qed

lemma set_header_page:
  assumes "k < 32" "unat (x - clb) < 4096"
  shows "set_header (cmd_header clb k) t m x = (if unat (x - clb) = 32 * k + 2 then 8 else if unat (x - clb) = 32 * k + 3 then 0
    else if 32 * k + 8 \<le> unat (x - clb) \<and> unat (x - clb) < 32 * k + 16 then le_bytes 8 t ! (unat (x - clb) - (32 * k + 8)) else m x)"
proof -
  define w where "w = unat (x - clb)"
  define a where "a = 32 * k + 2"
  have e: "x - (cmd_header clb k + 2) = (x - clb) - of_nat a" "x - (cmd_header clb k + 8) = (x - clb) - of_nat (a + 6)"
    by (simp_all add: cmd_header_def a_def)
  have q: "a < 4096" "a + 6 < 4096" using assms(1) by (simp_all add: a_def)
  have A: "unat (x - (cmd_header clb k + 2)) < 2 \<longleftrightarrow> a \<le> w \<and> w < a + 2" "a \<le> w \<Longrightarrow> unat (x - (cmd_header clb k + 2)) = w - a"
    using page_diff [OF assms(2) q(1), of 2] by (simp_all add: e w_def)
  have B: "unat (x - (cmd_header clb k + 8)) < 8 \<longleftrightarrow> a + 6 \<le> w \<and> w < a + 6 + 8" "a + 6 \<le> w \<Longrightarrow> unat (x - (cmd_header clb k + 8)) = w - (a + 6)"
    using page_diff [OF assms(2) q(2), of 8] by (simp_all add: e w_def)
  have n: "32 * k + 2 = a" "32 * k + 3 = a + 1" "32 * k + 8 = a + 6" "32 * k + 16 = a + 14" by (simp_all add: a_def)
  consider "w = a" | "w = a + 1" | "w < a \<or> a + 2 \<le> w" by linarith
  then show ?thesis
    unfolding n w_def [symmetric] set_header_apply by cases (use A B in auto)
qed

lemma headers_step:
  assumes al: "page_aligned (clb_virt dev)" and H: "headers_ok k dev m" and k: "k < 32" and len: "length (ctba_virt dev) = 32"
    and dev': "dev' = dev\<lparr>ctba_virt := (ctba_virt dev)[k := t]\<rparr>"
  shows "headers_ok (Suc k) dev' (set_header (cmd_header (clb_virt dev) k) t m)"
    and "\<And>x. frame_of x \<noteq> frame_of (clb_virt dev) \<Longrightarrow> set_header (cmd_header (clb_virt dev) k) t m x = m x"
proof -
  let ?c = "clb_virt dev" and ?m = "set_header (cmd_header (clb_virt dev) k) t m"
  have at: "?m (cmd_header ?c j + b) = (if j = k \<and> unat b = 2 then 8 else if j = k \<and> unat b = 3 then 0
      else if j = k \<and> 8 \<le> unat b \<and> unat b < 16 then le_bytes 8 t ! (unat b - 8) else m (cmd_header ?c j + b))"
    if "j < 32" "unat b < 32" for j b
  proof -
    have o: "unat (cmd_header ?c j + b - ?c) = 32 * j + unat b" by (rule header_frame(2) [OF al that])
    have l: "unat (cmd_header ?c j + b - ?c) < 4096" using o that by simp
    consider "j = k" | "j < k" | "k < j" by linarith
    then show ?thesis using that(2) unfolding set_header_page [OF k l] o by cases auto
  qed
  have "?m (cmd_header ?c j) = 0 \<and> ?m (cmd_header ?c j + 1) = 0 \<and>
      (j < Suc k \<longrightarrow> rd64 ?m (cmd_header ?c j + 8) = ctba_virt dev' ! j)" if j: "j < 32" for j
  proof (intro conjI impI)
    have old: "m (cmd_header ?c j) = 0" "m (cmd_header ?c j + 1) = 0" "j < k \<Longrightarrow> rd64 m (cmd_header ?c j + 8) = ctba_virt dev ! j"
      using H j by (simp_all add: headers_ok_def Let_def)
    show "?m (cmd_header ?c j) = 0" "?m (cmd_header ?c j + 1) = 0" using at [OF j, of 0] at [OF j, of 1] old by simp_all
    assume jk: "j < Suc k"
    have "?m (cmd_header ?c j + 8 + of_nat i) = (if j = k then le_bytes 8 t ! i else m (cmd_header ?c j + 8 + of_nat i))"
      if "i < 8" for i
    proof -
      have "unat (8 + of_nat i :: u64) = 8 + i" using unat_plus_small [of 8 i] that by simp
      then show ?thesis using at [OF j, of "8 + of_nat i"] that by (simp add: add.assoc)
    qed
    then have "rd_bytes ?m (cmd_header ?c j + 8) 8 = (if j = k then le_bytes 8 t else rd_bytes m (cmd_header ?c j + 8) 8)"
      by (auto simp: rd_bytes_def intro!: nth_equalityI)
    then show "rd64 ?m (cmd_header ?c j + 8) = ctba_virt dev' ! j"
      using old(3) jk len k by (auto simp: rd64_def dev')
  qed
  then show "headers_ok (Suc k) dev' ?m" by (simp add: headers_ok_def dev' Let_def)
  fix x assume x: "frame_of x \<noteq> frame_of ?c"
  have far: "\<not> unat (x - (cmd_header ?c k + d)) < n" if "unat d + n \<le> 32" for d n
  proof
    assume n: "unat (x - (cmd_header ?c k + d)) < n"
    have "unat (d + y) = unat d + unat y" if "unat d + unat y < 32" for y :: u64 using that by (simp add: unat_word_ariths)
    from this [of "x - (cmd_header ?c k + d)"] have "unat (x - cmd_header ?c k) < 32" using n that by simp
    from header_frame(1) [OF al k this] x show False by simp
  qed
  show "?m x = m x" using far [of 2 2] far [of 8 8] by (simp add: set_header_apply)
qed


text \<open>The loop over the command headers.\<close>

lemma init_tables_ok:
  assumes K: "kept P V p i s0 s" and i: "i < length (g_devices s)"
    and al: "page_aligned (clb_virt (g_devices s ! i))" and F: "frame_of (clb_virt (g_devices s ! i)) \<in> pool (avm s0) - pool (avm s)"
    and H: "headers_ok k (g_devices s ! i) (pmem (avm s))" and k: "k \<le> 32"
    and T: "\<forall>j < k. page_aligned (ctba_virt (g_devices s ! i) ! j) \<and> frame_of (ctba_virt (g_devices s ! i) ! j) \<in> F0 - pool (avm s)"
    and F0: "pool (avm s) \<subseteq> F0"
    and run: "init_tables i [k..<32] s = (ok, s')"
  shows "kept P V p i s0 s' \<and> hba_dev s' = hba_dev s \<and> pool (avm s') \<subseteq> pool (avm s) \<and>
    clb_virt (g_devices s' ! i) = clb_virt (g_devices s ! i) \<and> fb_virt (g_devices s' ! i) = fb_virt (g_devices s ! i) \<and>
    dev_port (g_devices s' ! i) = dev_port (g_devices s ! i) \<and>
    (ok \<longrightarrow> headers_ok 32 (g_devices s' ! i) (pmem (avm s')) \<and>
      (\<forall>j < 32. page_aligned (ctba_virt (g_devices s' ! i) ! j) \<and> frame_of (ctba_virt (g_devices s' ! i) ! j) \<in> F0 - pool (avm s')))"
  using assms
proof (induction "32 - k" arbitrary: k s)
  case 0
  then show ?case by simp
next
  case (Suc n)
  let ?c = "clb_virt (g_devices s ! i)"
  have k: "k < 32" using Suc.hyps(2) by simp
  obtain t s1 where a: "alloc_mapped_page (PAGE_PRESENT OR PAGE_WRITE) s = (t, s1)" by fastforce
  have fl: "page_base (PAGE_PRESENT OR PAGE_WRITE) = 0" by (simp add: page_base_def page_flag_defs)
  note A = kept_alloc [OF Suc.prems(1) fl a]
  show ?case
  proof (cases "t = 0")
    case True
    then have "s' = s1" "\<not> ok" using Suc.prems(9) k a by (simp_all add: upt_conv_Cons)
    then show ?thesis using A by simp
  next
    case False
    note t = A(6) [OF False]
    define s2 where "s2 = upd_dev i (\<lambda>d. d\<lparr>ctba_virt := (ctba_virt d)[k := t]\<rparr>) s1"
    define s3 where "s3 = on_mem (set_header (cmd_header ?c k) t) s2"
    have d1: "g_devices s1 ! i = g_devices s ! i" "i < length (g_devices s1)" using A(3) Suc.prems(2) by simp_all
    have d2: "g_devices s2 ! i = (g_devices s ! i)\<lparr>ctba_virt := (ctba_virt (g_devices s ! i))[k := t]\<rparr>"
      using d1 by (simp add: s2_def upd_dev_def)
    have len: "length (ctba_virt (g_devices s ! i)) = 32" using Suc.prems(1,2) by (auto simp: kept_def)
    have av2: "avm s2 = avm s1" "hba_dev s2 = hba_dev s1" by (simp_all add: s2_def upd_dev_def)
    have K2: "kept P V p i s0 s2" unfolding s2_def by (rule kept_upd_dev [OF A(1)]) (simp add: d1 len)
    have F2: "frame_of ?c \<in> pool (avm s0) - pool (avm s2)" using Suc.prems(4) A(4) by (auto simp: av2)
    have "headers_ok k (g_devices s ! i) (pmem (avm s1))"
      by (rule headers_ok_frames [OF Suc.prems(3,5)]) (use A(5) Suc.prems(4) in simp)
    note S = headers_step [OF Suc.prems(3) this k len d2]
    note P3 = kept_poke [OF K2 F2, of "set_header (cmd_header ?c k) t", folded s3_def]
    have K3: "kept P V p i s0 s3" by (rule P3(1)) (simp add: S(2) av2)
    have p3: "pool (avm s3) = pool (avm s1)" using P3(2) S(2) by (simp add: av2)
    have g3: "g_devices s3 = g_devices s2" "hba_dev s3 = hba_dev s" by (simp_all add: s3_def av2 A(2))
    have "init_tables i [k..<32] s = init_tables i [Suc k..<32] s3"
      using k a False d1 by (simp add: upt_conv_Cons s3_def set_header_def s2_def [symmetric] av2 d2 Let_def)
    then have run: "init_tables i [Suc k..<32] s3 = (ok, s')" using Suc.prems(9) by simp
    have T3: "\<forall>j < Suc k. page_aligned (ctba_virt (g_devices s3 ! i) ! j) \<and> frame_of (ctba_virt (g_devices s3 ! i) ! j) \<in> F0 - pool (avm s3)"
      using Suc.prems(7,8) t A(4) k len unfolding g3 d2 p3 by (auto simp: less_Suc_eq)
    have "kept P V p i s0 s' \<and> hba_dev s' = hba_dev s3 \<and> pool (avm s') \<subseteq> pool (avm s3) \<and>
      clb_virt (g_devices s' ! i) = clb_virt (g_devices s3 ! i) \<and> fb_virt (g_devices s' ! i) = fb_virt (g_devices s3 ! i) \<and>
      dev_port (g_devices s' ! i) = dev_port (g_devices s3 ! i) \<and>
      (ok \<longrightarrow> headers_ok 32 (g_devices s' ! i) (pmem (avm s')) \<and>
        (\<forall>j < 32. page_aligned (ctba_virt (g_devices s' ! i) ! j) \<and> frame_of (ctba_virt (g_devices s' ! i) ! j) \<in> F0 - pool (avm s')))"
    proof (rule Suc.hyps(1) [OF _ K3])
      show "headers_ok (Suc k) (g_devices s3 ! i) (pmem (avm s3))" using S(1) by (simp add: s3_def av2 g3)
      show "i < length (g_devices s3)" using d1 by (simp add: g3 s2_def upd_dev_def)
    qed (use Suc.hyps(2) Suc.prems(3,4,8) k T3 run p3 A(4) in \<open>auto simp: g3 d2\<close>)
    then show ?thesis using A(4) by (auto simp: g3 d2 p3)
  qed
qed


section \<open>Starting a port\<close>

lemma wait_clear_quiet:
  assumes "conforms H P V" "all_idle P V (hba_dev s)" "wait_clear H a bits n s = (ok, s')" shows "quiet P V s s'"
  using assms(2,3)
proof (induction n arbitrary: s)
  case 0
  then show ?case using quiet_rd [OF assms(1) 0(1), of a] by (subst (asm) wait_clear.simps) (auto split: prod.splits if_splits)
next
  case (Suc n)
  obtain v s1 where r: "reg_rd H a s = (v, s1)" by fastforce
  have q: "quiet P V s s1" using quiet_rd [OF assms(1) Suc.prems(1), of a] by (simp add: r)
  show ?case
  proof (cases "v AND bits = 0")
    case True
    then have "s' = s1" using Suc.prems(2) r by (subst (asm) wait_clear.simps) simp
    then show ?thesis using q by simp
  next
    case False
    then have "wait_clear H a bits n s1 = (ok, s')" using Suc.prems(2) r by (subst (asm) wait_clear.simps) simp
    moreover have "all_idle P V (hba_dev s1)" using q by (simp add: quiet_def)
    ultimately show ?thesis using Suc.IH quiet_trans [OF q] by blast
  qed
qed

text \<open>
  A port that is being set up: it does not receive, and the frames into which the other ports
  post are among \<open>R\<close>.
\<close>

definition setting :: "u64 set \<Rightarrow> 'd hba_view \<Rightarrow> u64 \<Rightarrow> nat \<Rightarrow> nat set \<Rightarrow> 'd ahci \<Rightarrow> 'd ahci \<Rightarrow> bool" where
  "setting P V p i R s0 s \<longleftrightarrow> kept P V p i s0 s \<and> hv_reg V (hba_dev s) (p + PX_CMD) AND PXCMD_FRE = 0 \<and>
     rx_frames P V (hba_dev s) \<subseteq> R"

lemma setting_quiet:
  assumes S: "setting P V p i R s0 s" and p: "p \<in> P" and q: "quiet P V s s'"
  shows "setting P V p i R s0 s'" "pool (avm s') = pool (avm s)" "g_devices s' = g_devices s"
    "regs_same P V (hba_dev s) (hba_dev s')" "\<And>y. frame_of y \<notin> R \<Longrightarrow> pmem (avm s') y = pmem (avm s) y"
proof -
  have K: "kept P V p i s0 s" using S by (simp add: setting_def)
  then have k: "vm_ok (kernel_pml4 (avm s)) (avm s)" "rx_frames P V (hba_dev s) \<inter> pool (avm s) = {}" by (simp_all add: kept_def)
  show r: "regs_same P V (hba_dev s) (hba_dev s')" using q by (simp add: quiet_def)
  show "pool (avm s') = pool (avm s)" "g_devices s' = g_devices s" using quiet_pool [OF q k] by simp_all
  show "setting P V p i R s0 s'"
    using S kept_quiet [OF K q] regs_same_port(3) [OF r p] regs_same_rx [OF r] by (simp add: setting_def)
  show "\<And>y. frame_of y \<notin> R \<Longrightarrow> pmem (avm s') y = pmem (avm s) y" using q S by (auto simp: quiet_def setting_def)
qed

lemma setting_write:
  assumes C: "conforms H P V" and A: "ports_apart P" and S: "setting P V p i R s0 s" and p: "p \<in> P"
    and r: "unat r < 0x80" "r \<noteq> PX_CI" "r \<noteq> PX_CMD" and s': "s' = reg_wr H (p + r) x s"
  shows "setting P V p i R s0 s'" "pool (avm s') = pool (avm s)" "g_devices s' = g_devices s"
    "\<And>r'. r' \<in> {PX_CLB, PX_CLBU, PX_FB, PX_FBU, PX_CMD} \<Longrightarrow> hv_reg V (hba_dev s') (p + r') = (if r' = r then x else hv_reg V (hba_dev s) (p + r'))"
    "\<And>y. frame_of y \<notin> R \<Longrightarrow> pmem (avm s') y = pmem (avm s) y"
proof -
  have K: "kept P V p i s0 s" using S by (simp add: setting_def)
  then have i: "all_idle P V (hba_dev s)" by (simp add: kept_def)
  note Q = quiet_write [OF C A i p r(1,2), where x = x, folded s']
  show regs: "hv_reg V (hba_dev s') (p + r') = (if r' = r then x else hv_reg V (hba_dev s) (p + r'))"
    if "r' \<in> {PX_CLB, PX_CLBU, PX_FB, PX_FBU, PX_CMD}" for r'
    using Q(3) [OF port_reg [OF p that]] by simp
  have off: "hv_reg V (hba_dev s') (p + PX_CMD) AND PXCMD_FRE = 0" using regs [of PX_CMD] r(3) S by (auto simp: setting_def)
  note W = kept_write_stopped [OF C A K p r(1,2), where x = x, folded s', OF off]
  show "setting P V p i R s0 s'" using W(1,3) off S by (auto simp: setting_def)
  show "pool (avm s') = pool (avm s)" by (rule W(2))
  show "g_devices s' = g_devices s" by (subst Q(5)) simp
  show "\<And>y. frame_of y \<notin> R \<Longrightarrow> pmem (avm s') y = pmem (avm s) y" using Q(4) W(3) S by (auto simp: setting_def)
qed

lemma setting_alloc:
  assumes S: "setting P V p i R s0 s" and al: "alloc_mapped_page (PAGE_PRESENT OR PAGE_WRITE) s = (a, s')"
  shows "setting P V p i R s0 s'" "hba_dev s' = hba_dev s" "g_devices s' = g_devices s" "pool (avm s') \<subseteq> pool (avm s)"
    "\<And>x. frame_of x \<notin> pool (avm s) \<Longrightarrow> pmem (avm s') x = pmem (avm s) x"
    "a \<noteq> 0 \<Longrightarrow> page_aligned a \<and> frame_of a \<in> pool (avm s) - pool (avm s')"
    "a \<noteq> 0 \<Longrightarrow> frame_of x = frame_of a \<Longrightarrow> pmem (avm s') x = 0"
proof -
  have fl: "page_base (PAGE_PRESENT OR PAGE_WRITE) = 0" by (simp add: page_base_def page_flag_defs)
  have K: "kept P V p i s0 s" using S by (simp add: setting_def)
  note A = kept_alloc [OF K fl al]
  show "setting P V p i R s0 s'" using A(1,2) S by (simp add: setting_def)
  show "hba_dev s' = hba_dev s" "g_devices s' = g_devices s" "pool (avm s') \<subseteq> pool (avm s)"
    "\<And>x. frame_of x \<notin> pool (avm s) \<Longrightarrow> pmem (avm s') x = pmem (avm s) x"
    "a \<noteq> 0 \<Longrightarrow> page_aligned a \<and> frame_of a \<in> pool (avm s) - pool (avm s')"
    "a \<noteq> 0 \<Longrightarrow> frame_of x = frame_of a \<Longrightarrow> pmem (avm s') x = 0" using A by simp_all
qed

lemma setting_upd_dev:
  assumes "setting P V p i R s0 s" "length (ctba_virt (f (g_devices s ! i))) = 32"
  shows "setting P V p i R s0 (upd_dev i f s)"
  using assms kept_upd_dev [of P V p i s0 s f] by (simp add: setting_def) (simp add: upd_dev_def)

text \<open>A store to the command register that does not begin to receive.\<close>

lemma rx_cmd_write:
  assumes C: "conforms H P V" and A: "ports_apart P" and i: "all_idle P V (hba_dev s)" and p: "p \<in> P"
    and x: "x AND PXCMD_FRE \<noteq> 0 \<longrightarrow> hv_reg V (hba_dev s) (p + PX_CMD) AND PXCMD_FRE \<noteq> 0 \<or> frame_of (reg64 V (hba_dev s) (p + PX_FB)) \<in> Y"
  shows "rx_frames P V (hba_dev (reg_wr H (p + PX_CMD) x s)) \<subseteq> rx_frames P V (hba_dev s) \<union> Y"
proof
  let ?s = "reg_wr H (p + PX_CMD) x s"
  have r: "unat PX_CMD < 0x80" "PX_CMD \<noteq> PX_CI" by (simp_all add: port_offsets)
  note Q = quiet_write [OF C A i p r, where x = x]
  fix f assume "f \<in> rx_frames P V (hba_dev ?s)"
  then obtain q where q: "q \<in> P" "hv_reg V (hba_dev ?s) (q + PX_CMD) AND PXCMD_FRE \<noteq> 0" "f = frame_of (reg64 V (hba_dev ?s) (q + PX_FB))"
    by (auto simp: rx_frames_def)
  have P: "q + PX_CMD \<in> plain_regs P" "q + PX_FB \<in> plain_regs P" "q + PX_FB + 4 \<in> plain_regs P"
    using port_reg [OF q(1), of PX_FBU] by (auto intro: port_reg [OF q(1)] simp: port_offsets add.assoc)
  have fb: "reg64 V (hba_dev ?s) (q + PX_FB) = reg64 V (hba_dev s) (q + PX_FB)"
  proof (cases "q = p")
    case True
    then show ?thesis using Q(3) [OF P(2)] Q(3) [OF P(3)] by (simp add: reg64_def port_offsets add.assoc)
  next
    case False
    then show ?thesis using Q(3) [OF P(2)] Q(3) [OF P(3)] port_regs_apart [OF A p q(1) False r(1)] by (simp add: reg64_def)
  qed
  show "f \<in> rx_frames P V (hba_dev s) \<union> Y"
  proof (cases "q = p")
    case True
    then show ?thesis using x q fb Q(3) [OF P(1)] by (auto simp: rx_frames_def)
  next
    case False
    then show ?thesis using q fb Q(3) [OF P(1)] port_regs_apart(1) [OF A p q(1) False r(1)] by (auto simp: rx_frames_def)
  qed
qed


lemma cmd_bits: "(v OR PXCMD_FRE) AND PXCMD_FRE = PXCMD_FRE" "(v OR PXCMD_ST) AND PXCMD_ST = PXCMD_ST"
  "(v OR PXCMD_ST) AND PXCMD_FRE = v AND PXCMD_FRE" "PXCMD_ST \<noteq> 0" "PXCMD_FRE \<noteq> 0"
proof -
  show "(v OR PXCMD_FRE) AND PXCMD_FRE = PXCMD_FRE" "(v OR PXCMD_ST) AND PXCMD_ST = PXCMD_ST"
    by (rule bit_word_eqI, auto simp: bit_simps)+
  have "PXCMD_ST AND PXCMD_FRE = 0" by (simp add: PXCMD_ST_def PXCMD_FRE_def)
  moreover have "(v OR PXCMD_ST) AND PXCMD_FRE = (v AND PXCMD_FRE) OR (PXCMD_ST AND PXCMD_FRE)"
    by (rule bit_word_eqI) (auto simp: bit_simps)
  ultimately show "(v OR PXCMD_ST) AND PXCMD_FRE = v AND PXCMD_FRE" by simp
qed (simp_all add: PXCMD_ST_def PXCMD_FRE_def)

lemma cmd_read:
  assumes C: "conforms H P V" and i: "all_idle P V (hba_dev s)" and p: "p \<in> P" and rd: "reg_rd H (p + PX_CMD) s = (v, s')"
  shows "v AND PXCMD_FRE = hv_reg V (hba_dev s') (p + PX_CMD) AND PXCMD_FRE"
    "v AND PXCMD_ST = hv_reg V (hba_dev s') (p + PX_CMD) AND PXCMD_ST" "quiet P V s s'"
proof -
  show q: "quiet P V s s'" using quiet_rd [OF C i, of "p + PX_CMD"] by (simp add: rd)
  then have "regs_same P V (hba_dev s) (hba_dev s')" by (simp add: quiet_def)
  then have e: "hv_reg V (hba_dev s') (p + PX_CMD) = hv_reg V (hba_dev s) (p + PX_CMD)" by (rule regs_same_port(3) [OF _ p])
  have v: "v = fst (H (p + PX_CMD) None (hba_dev s, pmem (avm s)))" using reg_rd_fst [of H "p + PX_CMD" s] rd by simp
  have "v AND (PXCMD_ST OR PXCMD_FRE) = hv_reg V (hba_dev s) (p + PX_CMD) AND (PXCMD_ST OR PXCMD_FRE)"
    using C p i unfolding conforms_def idle_registers_def v by blast
  then have b: "(v AND (PXCMD_ST OR PXCMD_FRE)) AND c = (hv_reg V (hba_dev s) (p + PX_CMD) AND (PXCMD_ST OR PXCMD_FRE)) AND c" for c
    by simp
  have m: "(PXCMD_ST OR PXCMD_FRE) AND PXCMD_FRE = PXCMD_FRE" "(PXCMD_ST OR PXCMD_FRE) AND PXCMD_ST = PXCMD_ST"
    by (simp_all add: PXCMD_ST_def PXCMD_FRE_def)
  show "v AND PXCMD_FRE = hv_reg V (hba_dev s') (p + PX_CMD) AND PXCMD_FRE"
    "v AND PXCMD_ST = hv_reg V (hba_dev s') (p + PX_CMD) AND PXCMD_ST"
    using b [of PXCMD_FRE] b [of PXCMD_ST] unfolding e and.assoc m by simp_all
qed

text \<open>A read of the command register and a store to it.\<close>

lemma kept_cmd:
  assumes C: "conforms H P V" and A: "ports_apart P" and K: "kept P V p i s0 s" and p: "p \<in> P"
    and rd: "reg_rd H (p + PX_CMD) s = (v, s1)" and s': "s' = reg_wr H (p + PX_CMD) x s1"
    and x: "x AND PXCMD_FRE \<noteq> 0 \<longrightarrow> v AND PXCMD_FRE \<noteq> 0 \<or> frame_of (reg64 V (hba_dev s) (p + PX_FB)) \<in> Y"
    and Y: "Y \<subseteq> pool (avm s0) - pool (avm s)"
  shows "kept P V p i s0 s'" "pool (avm s') = pool (avm s)" "g_devices s' = g_devices s"
    "hv_reg V (hba_dev s') (p + PX_CMD) = x" "reg64 V (hba_dev s') (p + PX_FB) = reg64 V (hba_dev s) (p + PX_FB)"
    "reg64 V (hba_dev s') (p + PX_CLB) = reg64 V (hba_dev s) (p + PX_CLB)"
    "rx_frames P V (hba_dev s') \<subseteq> rx_frames P V (hba_dev s) \<union> Y"
    "\<And>y. frame_of y \<notin> rx_frames P V (hba_dev s) \<union> Y \<Longrightarrow> pmem (avm s') y = pmem (avm s) y"
proof -
  have i: "all_idle P V (hba_dev s)" using K by (simp add: kept_def)
  note c = cmd_read [OF C i p rd]
  have K1: "kept P V p i s0 s1" by (rule kept_quiet [OF K c(3)])
  have i1: "all_idle P V (hba_dev s1)" and k1: "vm_ok (kernel_pml4 (avm s)) (avm s)" "rx_frames P V (hba_dev s) \<inter> pool (avm s) = {}"
    using K1 K by (simp_all add: kept_def)
  note q = quiet_pool [OF c(3) k1]
  have rs: "regs_same P V (hba_dev s) (hba_dev s1)" using c(3) by (simp add: quiet_def)
  note rp = regs_same_port [OF rs p] and rx1 = regs_same_rx [OF rs]
  have r: "unat PX_CMD < 0x80" "PX_CMD \<noteq> PX_CI" by (simp_all add: port_offsets)
  have rx': "rx_frames P V (hba_dev s') \<subseteq> rx_frames P V (hba_dev s1) \<union> Y"
    unfolding s' by (rule rx_cmd_write [OF C A i1 p]) (use x c(1) rp in auto)
  then show "rx_frames P V (hba_dev s') \<subseteq> rx_frames P V (hba_dev s) \<union> Y" by (simp add: rx1)
  have "Y \<subseteq> pool (avm s0) - pool (avm s1)" using Y q(2) by simp
  note W = kept_write [OF C A K1 p r rx' [unfolded s'] this, folded s']
  show "kept P V p i s0 s'" "pool (avm s') = pool (avm s)" using W q(2) by simp_all
  note Q = quiet_write [OF C A i1 p r, where x = x, folded s']
  show "g_devices s' = g_devices s" unfolding q(3) [symmetric] by (subst Q(5)) simp
  have P: "p + r' \<in> plain_regs P" if "r' \<in> {PX_CLB, PX_CLBU, PX_FB, PX_FBU, PX_CMD}" for r' by (rule port_reg [OF p that])
  show "hv_reg V (hba_dev s') (p + PX_CMD) = x" using Q(3) [OF P] by simp
  have "hv_reg V (hba_dev s') (p + r') = hv_reg V (hba_dev s1) (p + r')" if "r' \<in> {PX_CLB, PX_CLBU, PX_FB, PX_FBU}" for r'
  proof -
    have "p + r' \<noteq> p + PX_CMD" using that by (auto simp: port_offsets)
    moreover have "p + r' \<in> plain_regs P" using that by (auto intro: P)
    ultimately show ?thesis using Q(3) by simp
  qed
  from this [of PX_CLB] this [of PX_CLBU] this [of PX_FB] this [of PX_FBU]
  have "reg64 V (hba_dev s') (p + PX_FB) = reg64 V (hba_dev s1) (p + PX_FB)"
    "reg64 V (hba_dev s') (p + PX_CLB) = reg64 V (hba_dev s1) (p + PX_CLB)"
    by (simp_all add: reg64_def port_offsets add.assoc)
  then show "reg64 V (hba_dev s') (p + PX_FB) = reg64 V (hba_dev s) (p + PX_FB)"
    "reg64 V (hba_dev s') (p + PX_CLB) = reg64 V (hba_dev s) (p + PX_CLB)" using rp by simp_all
  fix y assume y: "frame_of y \<notin> rx_frames P V (hba_dev s) \<union> Y"
  then have "pmem (avm s') y = pmem (avm s1) y" using Q(4) rx' rx1 by blast
  also have "\<dots> = pmem (avm s) y" using c(3) y by (simp add: quiet_def)
  finally show "pmem (avm s') y = pmem (avm s) y" .
qed

lemma port_stop_ok:
  assumes C: "conforms H P V" and A: "ports_apart P" and K: "kept P V p i s0 s" and p: "p \<in> P"
    and run: "ahci_port_stop H p s = (r, s')"
  shows "kept P V p i s0 s'" "g_devices s' = g_devices s" "0 \<le> r \<Longrightarrow> setting P V p i (rx_frames P V (hba_dev s')) s0 s'"
proof -
  obtain v1 s1 where 1: "reg_rd H (p + PX_CMD) s = (v1, s1)" by fastforce
  define s2 where "s2 = reg_wr H (p + PX_CMD) (v1 AND NOT PXCMD_ST) s1"
  obtain v2 s3 where 2: "reg_rd H (p + PX_CMD) s2 = (v2, s3)" by fastforce
  define s4 where "s4 = reg_wr H (p + PX_CMD) (v2 AND NOT PXCMD_FRE) s3"
  obtain ok s5 where w: "wait_clear H (p + PX_CMD) (PXCMD_FR OR PXCMD_CR) AHCI_IO_TIMEOUT s4 = (ok, s5)" by fastforce
  have "NOT PXCMD_ST AND PXCMD_FRE = PXCMD_FRE" by (simp add: PXCMD_ST_def PXCMD_FRE_def)
  then have "(v1 AND NOT PXCMD_ST) AND PXCMD_FRE = v1 AND PXCMD_FRE" by (simp only: and.assoc)
  then have a: "(v1 AND NOT PXCMD_ST) AND PXCMD_FRE \<noteq> 0 \<longrightarrow> v1 AND PXCMD_FRE \<noteq> 0 \<or> frame_of (reg64 V (hba_dev s) (p + PX_FB)) \<in> {}"
    by simp
  note k2 = kept_cmd [OF C A K p 1 s2_def a]
  have f: "(v2 AND NOT PXCMD_FRE) AND PXCMD_FRE = 0" by (simp add: and.assoc)
  then have b: "(v2 AND NOT PXCMD_FRE) AND PXCMD_FRE \<noteq> 0 \<longrightarrow> v2 AND PXCMD_FRE \<noteq> 0 \<or> frame_of (reg64 V (hba_dev s2) (p + PX_FB)) \<in> {}"
    by simp
  note k4 = kept_cmd [OF C A k2(1) p 2 s4_def b]
  have K4: "kept P V p i s0 s4" by (rule k4(1)) simp_all
  have i4: "all_idle P V (hba_dev s4)" using K4 by (simp add: kept_def)
  have q5: "quiet P V s4 s5" by (rule wait_clear_quiet [OF C i4 w])
  have S4: "setting P V p i (rx_frames P V (hba_dev s4)) s0 s4" using K4 k4(4) f by (simp add: setting_def)
  have "regs_same P V (hba_dev s4) (hba_dev s5)" using q5 by (simp add: quiet_def)
  then have rx: "rx_frames P V (hba_dev s5) = rx_frames P V (hba_dev s4)" by (rule regs_same_rx)
  have S5: "setting P V p i (rx_frames P V (hba_dev s5)) s0 s5" using setting_quiet(1) [OF S4 p q5] rx by simp
  have g: "g_devices s5 = g_devices s" using setting_quiet(3) [OF S4 p q5] k2(3) k4(3) by simp
  have e: "reg_clear H (p + PX_CMD) PXCMD_ST s = s2" "reg_clear H (p + PX_CMD) PXCMD_FRE s2 = s4"
    by (simp_all add: reg_clear_def 1 2 [unfolded s2_def] s2_def s4_def)
  have r: "(r, s') = (if ok then (0, s5) else (- 1, ahci_say (''AHCI: port_stop timed out waiting for FR/CR to clear'' @ [char_of (10 :: nat)]) s5))"
    using run by (cases ok) (simp_all add: ahci_port_stop_def e w)
  then show "g_devices s' = g_devices s" using g by (auto simp: ahci_say_def split: if_splits)
  show "0 \<le> r \<Longrightarrow> setting P V p i (rx_frames P V (hba_dev s')) s0 s'" using r S5 by (auto split: if_splits)
  show "kept P V p i s0 s'" using r S5 by (auto simp: setting_def kept_def ahci_say_def split: if_splits)
qed


lemma reg64_join: "hv_reg V d a = ucast v \<Longrightarrow> hv_reg V d (a + 4) = ucast (drop_bit 32 v) \<Longrightarrow> reg64 V d a = v"
  unfolding reg64_def by (rule bit_word_eqI) (auto simp: bit_simps)

text \<open>A device that was set up: what the transfers of \<open>AhciDisk\<close> need, in frames of its own.\<close>

definition own_frames :: "u64 set \<Rightarrow> 'd hba_view \<Rightarrow> ahci_device \<Rightarrow> 'd ahci \<Rightarrow> bool" where
  "own_frames P V dev s \<longleftrightarrow> disk_ready P V dev s \<and> cmd_frames dev \<inter> pool (avm s) = {}"

lemma port_start_ok:
  assumes C: "conforms H P V" and A: "ports_apart P" and S: "setting P V p i R s0 s" and p: "p \<in> P"
    and fb: "frame_of (reg64 V (hba_dev s) (p + PX_FB)) \<in> pool (avm s0) - pool (avm s)"
    and run: "ahci_port_start H p s = (r, s')"
  shows "kept P V p i s0 s'" "g_devices s' = g_devices s"
    "0 \<le> r \<Longrightarrow> pool (avm s') = pool (avm s) \<and> rx_frames P V (hba_dev s') \<subseteq> R \<union> {frame_of (reg64 V (hba_dev s) (p + PX_FB))} \<and>
      (\<forall>y. frame_of y \<notin> R \<union> {frame_of (reg64 V (hba_dev s) (p + PX_FB))} \<longrightarrow> pmem (avm s') y = pmem (avm s) y) \<and>
      reg64 V (hba_dev s') (p + PX_CLB) = reg64 V (hba_dev s) (p + PX_CLB) \<and>
      hv_reg V (hba_dev s') (p + PX_CMD) AND PXCMD_ST \<noteq> 0 \<and> hv_reg V (hba_dev s') (p + PX_CMD) AND PXCMD_FRE \<noteq> 0"
proof -
  obtain ok s1 where w: "wait_clear H (p + PX_CMD) PXCMD_CR AHCI_IO_TIMEOUT s = (ok, s1)" by fastforce
  obtain v1 s2 where 1: "reg_rd H (p + PX_CMD) s1 = (v1, s2)" by fastforce
  define s3 where "s3 = reg_wr H (p + PX_CMD) (v1 OR PXCMD_FRE) s2"
  obtain v2 s4 where 2: "reg_rd H (p + PX_CMD) s3 = (v2, s4)" by fastforce
  define s5 where "s5 = reg_wr H (p + PX_CMD) (v2 OR PXCMD_ST) s4"
  let ?Y = "{frame_of (reg64 V (hba_dev s) (p + PX_FB))}"
  have i: "all_idle P V (hba_dev s)" using S by (simp add: setting_def kept_def)
  have q1: "quiet P V s s1" by (rule wait_clear_quiet [OF C i w])
  note S1 = setting_quiet [OF S p q1]
  note r1 = regs_same_port [OF S1(4) p]
  have K1: "kept P V p i s0 s1" using S1(1) by (simp add: setting_def)
  note k3 = kept_cmd [OF C A K1 p 1 s3_def, where Y = ?Y]
  have Y1: "?Y \<subseteq> pool (avm s0) - pool (avm s1)" using fb S1(2) by simp
  have x1': "(v1 OR PXCMD_FRE) AND PXCMD_FRE \<noteq> 0 \<longrightarrow> v1 AND PXCMD_FRE \<noteq> 0 \<or> frame_of (reg64 V (hba_dev s1) (p + PX_FB)) \<in> ?Y"
    using r1 by simp
  note k3 = k3 [OF x1' Y1]
  have i3: "all_idle P V (hba_dev s3)" using k3(1) by (simp add: kept_def)
  note c4 = cmd_read [OF C i3 p 2]
  have r4: "hv_reg V (hba_dev s4) (p + PX_CMD) = hv_reg V (hba_dev s3) (p + PX_CMD)"
    by (rule regs_same_port(3) [OF _ p]) (use c4(3) in \<open>simp add: quiet_def\<close>)
  have fre3: "hv_reg V (hba_dev s3) (p + PX_CMD) AND PXCMD_FRE \<noteq> 0"
    using k3(4) cmd_bits(1) [of v1] cmd_bits(5) by simp
  have fre4: "v2 AND PXCMD_FRE \<noteq> 0" using c4(1) r4 fre3 by simp
  note k5 = kept_cmd [OF C A k3(1) p 2 s5_def, where Y = "{}"]
  have x2: "(v2 OR PXCMD_ST) AND PXCMD_FRE \<noteq> 0 \<longrightarrow> v2 AND PXCMD_FRE \<noteq> 0 \<or> frame_of (reg64 V (hba_dev s3) (p + PX_FB)) \<in> {}"
    using fre4 by simp
  note k5 = k5 [OF x2 empty_subsetI]
  have st5: "hv_reg V (hba_dev s5) (p + PX_CMD) AND PXCMD_ST \<noteq> 0" "hv_reg V (hba_dev s5) (p + PX_CMD) AND PXCMD_FRE \<noteq> 0"
    using k5(4) cmd_bits(2,3) [of v2] cmd_bits(4) fre4 by simp_all
  have e: "reg_set H (p + PX_CMD) PXCMD_FRE s1 = s3" "reg_set H (p + PX_CMD) PXCMD_ST s3 = s5"
    by (simp_all add: reg_set_def 1 2 [unfolded s3_def] s3_def s5_def)
  have r: "(r, s') = (if ok then (0, s5) else (- 1, ahci_say (''AHCI: port_start timed out waiting for CR to clear'' @ [char_of (10 :: nat)]) s1))"
    using run by (cases ok) (simp_all add: ahci_port_start_def e w)
  show "g_devices s' = g_devices s" using r k3(3) k5(3) S1(3) by (auto simp: ahci_say_def split: if_splits)
  show "kept P V p i s0 s'"
    using r k5(1) K1 by (auto simp: kept_def ahci_say_def split: if_splits)
  have R1: "rx_frames P V (hba_dev s1) \<subseteq> R" using S1(1) by (simp add: setting_def)
  have "pmem (avm s5) y = pmem (avm s) y" if y: "frame_of y \<notin> R \<union> ?Y" for y
  proof -
    have "pmem (avm s5) y = pmem (avm s3) y" using k5(8) k3(7) R1 y by blast
    also have "\<dots> = pmem (avm s1) y" using k3(8) R1 y by blast
    also have "\<dots> = pmem (avm s) y" using S1(5) y by blast
    finally show ?thesis .
  qed
  moreover have "rx_frames P V (hba_dev s5) \<subseteq> R \<union> ?Y" using k5(7) k3(7) R1 by blast
  ultimately show "0 \<le> r \<Longrightarrow> pool (avm s') = pool (avm s) \<and> rx_frames P V (hba_dev s') \<subseteq> R \<union> ?Y \<and>
      (\<forall>y. frame_of y \<notin> R \<union> ?Y \<longrightarrow> pmem (avm s') y = pmem (avm s) y) \<and>
      reg64 V (hba_dev s') (p + PX_CLB) = reg64 V (hba_dev s) (p + PX_CLB) \<and>
      hv_reg V (hba_dev s') (p + PX_CMD) AND PXCMD_ST \<noteq> 0 \<and> hv_reg V (hba_dev s') (p + PX_CMD) AND PXCMD_FRE \<noteq> 0"
    using r S1(2) k3(2,6) k5(2,6) r1(1) st5 by (auto split: if_splits)
qed


text \<open>Setting up a device.\<close>

lemma port_init_ok:
  assumes C: "conforms H P V" and A: "ports_apart P" and K: "kept P V p i s0 s" and p: "p \<in> P"
    and i: "i < length (g_devices s)" and dp: "dev_port (g_devices s ! i) = p" and run: "ahci_port_init H i s = (r, s')"
  shows "kept P V p i s0 s'" "0 \<le> r \<Longrightarrow> dev_port (g_devices s' ! i) = p \<and> own_frames P V (g_devices s' ! i) s'"
proof -
  obtain r1 s1 where 1: "ahci_port_stop H p s = (r1, s1)" by fastforce
  note S1 = port_stop_ok [OF C A K p 1]
  obtain clb s2 where 2: "alloc_mapped_page (PAGE_PRESENT OR PAGE_WRITE) s1 = (clb, s2)" by fastforce
  let ?R = "rx_frames P V (hba_dev s1)"
  have all: "kept P V p i s0 s' \<and> (0 \<le> r \<longrightarrow> dev_port (g_devices s' ! i) = p \<and> own_frames P V (g_devices s' ! i) s')"
  proof (cases "r1 < 0")
    case True
    then have "r = - 1" "s' = s1" using run by (simp_all add: ahci_port_init_def dp 1)
    then show ?thesis using S1(1) by simp
  next
    case False
    then have S: "setting P V p i ?R s0 s1" using S1(3) by simp
    note A2 = setting_alloc [OF S 2]
    show ?thesis
    proof (cases "clb = 0")
      case True
      then have "r = - 1" "s' = s2" using run False by (simp_all add: ahci_port_init_def dp 1 2)
      then show ?thesis using A2(1) by (simp add: setting_def)
    next
      case clb: False
      note c2 = A2(6) [OF clb]
      define s3 where "s3 = upd_dev i (\<lambda>d. d\<lparr>clb_virt := clb\<rparr>) s2"
      define s4 where "s4 = reg_wr H (p + PX_CLB) (ucast clb) s3"
      define s5 where "s5 = reg_wr H (p + PX_CLBU) (ucast (drop_bit 32 clb)) s4"
      have len: "\<forall>d \<in> set (g_devices t). length (ctba_virt d) = 32 " if "setting P V p i ?R s0 t" for t
        using that by (simp add: setting_def kept_def)
      have il: "i < length (g_devices t)" if "setting P V p i ?R s0 t" for t
        using that i K by (simp add: setting_def kept_def)
      have S3: "setting P V p i ?R s0 s3" unfolding s3_def
        by (rule setting_upd_dev [OF A2(1)]) (use len [OF A2(1)] il [OF A2(1)] in simp)
      have av3: "avm s3 = avm s2" "hba_dev s3 = hba_dev s2" by (simp_all add: s3_def upd_dev_def)
      note o = port_offsets
      note W4 = setting_write [OF C A S3 p _ _ _ s4_def]
      have w4: "unat PX_CLB < 0x80" "PX_CLB \<noteq> PX_CI" "PX_CLB \<noteq> PX_CMD" by (simp_all add: o)
      note W4 = W4 [OF w4]
      have w5: "unat PX_CLBU < 0x80" "PX_CLBU \<noteq> PX_CI" "PX_CLBU \<noteq> PX_CMD" by (simp_all add: o)
      note W5 = setting_write [OF C A W4(1) p w5 s5_def]
      obtain fb s6 where 6: "alloc_mapped_page (PAGE_PRESENT OR PAGE_WRITE) s5 = (fb, s6)" by fastforce
      note A6 = setting_alloc [OF W5(1) 6]
      show ?thesis
      proof (cases "fb = 0")
        case True
        then have "r = - 1" "s' = s6" using run False clb
          by (simp_all add: ahci_port_init_def dp 1 2 s3_def [symmetric] s4_def [symmetric] s5_def [symmetric] 6)
        then show ?thesis using A6(1) by (simp add: setting_def)
      next
        case fb: False
        note c6 = A6(6) [OF fb]
        define s7 where "s7 = upd_dev i (\<lambda>d. d\<lparr>fb_virt := fb\<rparr>) s6"
        define s8 where "s8 = reg_wr H (p + PX_FB) (ucast fb) s7"
        define s9 where "s9 = reg_wr H (p + PX_FBU) (ucast (drop_bit 32 fb)) s8"
        have S7: "setting P V p i ?R s0 s7" unfolding s7_def
          by (rule setting_upd_dev [OF A6(1)]) (use len [OF A6(1)] il [OF A6(1)] in simp)
        have av7: "avm s7 = avm s6" "hba_dev s7 = hba_dev s6" by (simp_all add: s7_def upd_dev_def)
        have w8: "unat PX_FB < 0x80" "PX_FB \<noteq> PX_CI" "PX_FB \<noteq> PX_CMD" by (simp_all add: o)
        note W8 = setting_write [OF C A S7 p w8 s8_def]
        have w9: "unat PX_FBU < 0x80" "PX_FBU \<noteq> PX_CI" "PX_FBU \<noteq> PX_CMD" by (simp_all add: o)
        note W9 = setting_write [OF C A W8(1) p w9 s9_def]
        have K9: "kept P V p i s0 s9" using W9(1) by (simp add: setting_def)
        have dev9: "g_devices s9 ! i = (g_devices s ! i)\<lparr>clb_virt := clb, fb_virt := fb\<rparr>"
          using il [OF A2(1)] il [OF A6(1)] W9(3) W8(3) A6(3) W5(3) W4(3) A2(3) S1(2)
          by (simp add: s7_def s3_def upd_dev_def)
        have pools: "pool (avm s2) \<subseteq> pool (avm s1)" "pool (avm s5) = pool (avm s2)" "pool (avm s6) \<subseteq> pool (avm s2)"
          "pool (avm s9) = pool (avm s6)" "pool (avm s1) \<subseteq> pool (avm s0)"
          using A2(4) W4(2) W5(2) A6(4) W8(2) W9(2) av3 av7 S1(1) by (simp_all add: kept_def)
        have R: "?R \<inter> pool (avm s1) = {}" using S1(1) by (simp add: kept_def)
        have clbR: "frame_of clb \<notin> ?R" using c2 R by blast
        have zero: "pmem (avm s9) x = 0" if x: "frame_of x = frame_of clb" for x
        proof -
          have y: "frame_of x \<notin> ?R" "frame_of x \<notin> pool (avm s5)" using x clbR c2 pools by auto
          have "pmem (avm s9) x = pmem (avm s6) x" using W9(5) [OF y(1)] W8(5) [OF y(1)] by (simp add: av7)
          also have "\<dots> = pmem (avm s5) x" by (rule A6(5) [OF y(2)])
          also have "\<dots> = pmem (avm s2) x" using W5(5) [OF y(1)] W4(5) [OF y(1)] by (simp add: av3)
          also have "\<dots> = 0" by (rule A2(7) [OF clb x])
          finally show ?thesis .
        qed
        have al9: "page_aligned (clb_virt (g_devices s9 ! i))" using c2 by (simp add: dev9)
        have H0: "headers_ok 0 (g_devices s9 ! i) (pmem (avm s9))"
        proof -
          have "pmem (avm s9) (cmd_header clb j + b) = 0" if "j < 32" "unat b < 32" for j b
            using zero header_frame(1) [of clb, OF _ that] c2 by simp
          from this [of _ 0] this [of _ 1] show ?thesis by (simp add: headers_ok_def dev9 Let_def)
        qed
        have F9: "frame_of (clb_virt (g_devices s9 ! i)) \<in> pool (avm s0) - pool (avm s9)" using c2 pools by (auto simp: dev9)
        obtain ok s10 where 10: "init_tables i [0..<32] s9 = (ok, s10)" by fastforce
        have I: "kept P V p i s0 s10" "hba_dev s10 = hba_dev s9" "pool (avm s10) \<subseteq> pool (avm s9)"
          "clb_virt (g_devices s10 ! i) = clb" "dev_port (g_devices s10 ! i) = p"
          "ok \<Longrightarrow> headers_ok 32 (g_devices s10 ! i) (pmem (avm s10))"
          "\<And>j. ok \<Longrightarrow> j < 32 \<Longrightarrow> page_aligned (ctba_virt (g_devices s10 ! i) ! j) \<and>
             frame_of (ctba_virt (g_devices s10 ! i) ! j) \<in> pool (avm s9) - pool (avm s10)"
          using init_tables_ok [OF K9 il [OF W9(1)] al9 F9 H0 _ _ subset_refl 10] dp by (simp_all add: dev9)
        show ?thesis
        proof (cases ok)
          case False
          then have "r = - 1" "s' = s10" using run \<open>\<not> r1 < 0\<close> clb fb
            by (simp_all add: ahci_port_init_def dp 1 2 s3_def [symmetric] s4_def [symmetric] s5_def [symmetric] 6
                s7_def [symmetric] s8_def [symmetric] s9_def [symmetric] 10)
          then show ?thesis using I(1) by simp
        next
          case ok: True
          define dev where "dev = g_devices s10 ! i"
          have S10: "setting P V p i ?R s0 s10" using I(1,2) W9(1) by (simp add: setting_def)
          have i10: "all_idle P V (hba_dev s10)" using I(1) by (simp add: kept_def)
          obtain serr s11 where 11: "reg_rd H (p + PX_SERR) s10 = (serr, s11)" by fastforce
          have q11: "quiet P V s10 s11" using quiet_rd [OF C i10, of "p + PX_SERR"] by (simp add: 11)
          note Q11 = setting_quiet [OF S10 p q11]
          define s12 where "s12 = reg_wr H (p + PX_SERR) serr s11"
          have w12: "unat PX_SERR < 0x80" "PX_SERR \<noteq> PX_CI" "PX_SERR \<noteq> PX_CMD" by (simp_all add: o)
          note W12 = setting_write [OF C A Q11(1) p w12 s12_def]
          have start: "ahci_port_start H p s12 = (r, s')" using run \<open>\<not> r1 < 0\<close> clb fb ok
            by (simp add: ahci_port_init_def dp 1 2 s3_def [symmetric] s4_def [symmetric] s5_def [symmetric] 6
                s7_def [symmetric] s8_def [symmetric] s9_def [symmetric] 10 11 s12_def [symmetric])
          have regs: "hv_reg V (hba_dev s12) (p + r') = hv_reg V (hba_dev s9) (p + r')" if "r' \<in> {PX_CLB, PX_CLBU, PX_FB, PX_FBU}" for r'
          proof -
            have "r' \<noteq> PX_SERR" "r' \<in> {PX_CLB, PX_CLBU, PX_FB, PX_FBU, PX_CMD}" using that by (auto simp: o)
            moreover have "hv_reg V (hba_dev s11) (p + r') = hv_reg V (hba_dev s10) (p + r')"
              using Q11(4) port_reg [OF p calculation(2)] by (simp add: regs_same_def)
            ultimately show ?thesis using W12(4) I(2) by simp
          qed
          have ne: "PX_CLB \<noteq> PX_CLBU" "PX_CLB \<noteq> PX_FB" "PX_CLB \<noteq> PX_FBU" "PX_CLBU \<noteq> PX_FB" "PX_CLBU \<noteq> PX_FBU" "PX_FB \<noteq> PX_FBU"
            by (simp_all add: o)
          have "hv_reg V (hba_dev s12) (p + PX_CLB) = ucast clb" "hv_reg V (hba_dev s12) (p + PX_CLBU) = ucast (drop_bit 32 clb)"
            "hv_reg V (hba_dev s12) (p + PX_FB) = ucast fb" "hv_reg V (hba_dev s12) (p + PX_FBU) = ucast (drop_bit 32 fb)"
            using ne by (simp_all add: regs W9(4) W8(4) av7 A6(2) W5(4) W4(4))
          then have r64: "reg64 V (hba_dev s12) (p + PX_CLB) = clb" "reg64 V (hba_dev s12) (p + PX_FB) = fb"
            by (simp_all add: reg64_join o add.assoc)
          have p12: "pool (avm s12) = pool (avm s10)" using W12(2) Q11(2) by simp
          have "frame_of (reg64 V (hba_dev s12) (p + PX_FB)) \<in> pool (avm s0) - pool (avm s12)"
            unfolding r64 p12 using c6 I(3) pools by blast
          note P = port_start_ok [OF C A W12(1) p this start, unfolded r64]
          have K': "kept P V p i s0 s'" by (rule P(1))
          have dev': "g_devices s' ! i = dev" using P(2) W12(3) Q11(3) by (simp add: dev_def)
          have "own_frames P V dev s'" if "0 \<le> r"
          proof -
            note P3 = P(3) [OF that]
            have cl: "clb_virt dev = clb" "dev_port dev = p" by (simp_all add: dev_def I)
            have ct: "page_aligned (ctba_virt dev ! j) \<and> frame_of (ctba_virt dev ! j) \<in> pool (avm s9) - pool (avm s10)" if "j < 32" for j
              using I(7) [OF ok that] by (simp add: dev_def)
            have len10: "length (ctba_virt dev) = 32" using len [OF S10] il [OF S10] by (simp add: dev_def)
            have set: "page_aligned t \<and> frame_of t \<in> pool (avm s9) - pool (avm s10)" if "t \<in> set (ctba_virt dev)" for t
              using ct that len10 by (metis in_set_conv_nth)
            have sep: "frame_of clb \<notin> pool (avm s2)" "frame_of fb \<noteq> frame_of clb" "frame_of fb \<notin> pool (avm s9)"
              using c2 c6 pools by auto
            have "pmem (avm s') x = pmem (avm s10) x" if x: "frame_of x = frame_of clb" for x
            proof -
              have "pmem (avm s') x = pmem (avm s12) x" using P3 x clbR sep(2) by auto
              also have "\<dots> = pmem (avm s10) x" using W12(5) [of x] Q11(5) [of x] x clbR by simp
              finally show ?thesis .
            qed
            then have h: "headers_ok 32 dev (pmem (avm s'))"
              using headers_ok_frames [of dev 32 "pmem (avm s10)" "pmem (avm s')"] I(6) [OF ok] c2 by (simp add: dev_def [symmetric] cl)
            have "tables_ok dev (pmem (avm s'))"
              unfolding tables_ok_def using h set sep(1) pools c2 len10 by (auto simp: headers_ok_def cl Let_def)
            moreover have "cmd_frames dev \<inter> rx_frames P V (hba_dev s') = {}"
            proof -
              have "f \<notin> ?R \<union> {frame_of fb}" if "f \<in> cmd_frames dev" for f
              proof -
                have "f = frame_of clb \<or> f \<in> pool (avm s9)" using that set unfolding cmd_frames_def cl by blast
                moreover have "?R \<inter> pool (avm s9) = {}" using R pools by blast
                ultimately show ?thesis using sep clbR by auto
              qed
              then show ?thesis using P3 by blast
            qed
            moreover have "cmd_frames dev \<inter> pool (avm s') = {}"
            proof -
              have "pool (avm s') = pool (avm s10)" using P3 p12 by simp
              then show ?thesis using set sep(1) pools I(3) by (auto simp: cmd_frames_def cl)
            qed
            moreover have "all_idle P V (hba_dev s')" using K' by (simp add: kept_def)
            ultimately show ?thesis using P3 p by (simp add: own_frames_def disk_ready_def cl)
          qed
          then show ?thesis using K' dev' by (simp add: dev_def I(5))
        qed
      qed
    qed
  qed
  then show "kept P V p i s0 s'" "0 \<le> r \<Longrightarrow> dev_port (g_devices s' ! i) = p \<and> own_frames P V (g_devices s' ! i) s'" by simp_all
qed


section \<open>All ports\<close>

text \<open>
  The state while the ports below \<open>i\<close> have been probed: each device found so far is ready, in
  frames that the allocator and the page tables do not use.
\<close>

definition probed :: "u64 \<Rightarrow> 'd hba_view \<Rightarrow> nat \<Rightarrow> 'd ahci \<Rightarrow> 'd ahci \<Rightarrow> bool" where
  "probed abar V i s0 s \<longleftrightarrow> g_abar s = abar \<and> all_idle (hba_ports abar) V (hba_dev s) \<and>
     hv_disk V (hba_dev s) = hv_disk V (hba_dev s0) \<and> vm_ok (kernel_pml4 (avm s)) (avm s) \<and>
     rx_frames (hba_ports abar) V (hba_dev s) \<inter> pool (avm s) = {} \<and>
     length (g_devices s) = AHCI_MAX_PORTS \<and> (\<forall>d \<in> set (g_devices s). length (ctba_virt d) = 32) \<and>
     g_device_count s \<le> i \<and>
     (\<forall>j < g_device_count s. dev_port (g_devices s ! j) \<in> port_base abar ` {..<i} \<and> own_frames (hba_ports abar) V (g_devices s ! j) s)"

text \<open>The devices that are ready stay so while another port is set up.\<close>

lemma own_frames_kept:
  assumes K: "kept P V p i s0 s" and O: "own_frames P V dev s0" and p: "dev_port dev \<noteq> p"
  shows "own_frames P V dev s"
proof -
  have D: "disk_ready P V dev s0" and c: "cmd_frames dev \<inter> pool (avm s0) = {}" using O by (simp_all add: own_frames_def)
  have k: "rx_frames P V (hba_dev s) \<subseteq> rx_frames P V (hba_dev s0) \<union> pool (avm s0)" "pool (avm s) \<subseteq> pool (avm s0)"
    "\<forall>b \<in> plain_regs (P - {p}). hv_reg V (hba_dev s) b = hv_reg V (hba_dev s0) b" "all_idle P V (hba_dev s)"
    "\<And>x. frame_of x \<notin> pool (avm s0) \<union> rx_frames P V (hba_dev s0) \<Longrightarrow> pmem (avm s) x = pmem (avm s0) x"
    using K by (simp_all add: kept_def)
  have off: "cmd_frames dev \<inter> rx_frames P V (hba_dev s0) = {}" and T: "tables_ok dev (pmem (avm s0))" and dp: "dev_port dev \<in> P"
    using D by (simp_all add: disk_ready_def)
  have "regs_same (P - {p}) V (hba_dev s0) (hba_dev s)" using k(3) by (simp add: regs_same_def)
  moreover have "dev_port dev \<in> P - {p}" using dp p by simp
  ultimately have r: "reg64 V (hba_dev s) (dev_port dev + PX_CLB) = reg64 V (hba_dev s0) (dev_port dev + PX_CLB)"
    "hv_reg V (hba_dev s) (dev_port dev + PX_CMD) = hv_reg V (hba_dev s0) (dev_port dev + PX_CMD)"
    by (rule regs_same_port)+
  have "frame_of (clb_virt dev) \<in> cmd_frames dev" by (simp add: cmd_frames_def)
  then have "frame_of x \<notin> pool (avm s0) \<union> rx_frames P V (hba_dev s0)" if "frame_of x = frame_of (clb_virt dev)" for x
    using that c off by auto
  then have "tables_ok dev (pmem (avm s))" using k(5) by (intro tables_ok_frames [OF T]) blast
  moreover have "cmd_frames dev \<inter> rx_frames P V (hba_dev s) = {}" "cmd_frames dev \<inter> pool (avm s) = {}" using c off k(1,2) by blast+
  ultimately show ?thesis using D k(4) r by (simp add: own_frames_def disk_ready_def)
qed

lemma kept_start:
  assumes "all_idle P V (hba_dev s)" "vm_ok (kernel_pml4 (avm s)) (avm s)" "rx_frames P V (hba_dev s) \<inter> pool (avm s) = {}"
    "\<forall>d \<in> set (g_devices s). length (ctba_virt d) = 32"
  shows "kept P V p i s s"
  using assms by (auto simp: kept_def)

lemma probed_quiet:
  assumes S: "probed abar V i s0 s" and q: "quiet (hba_ports abar) V s s'" shows "probed abar V i s0 s'"
proof -
  have k: "vm_ok (kernel_pml4 (avm s)) (avm s)" "rx_frames (hba_ports abar) V (hba_dev s) \<inter> pool (avm s) = {}"
    using S by (simp_all add: probed_def)
  note Q = quiet_pool [OF q k]
  have "regs_same (hba_ports abar) V (hba_dev s) (hba_dev s')" using q by (simp add: quiet_def)
  note rx = regs_same_rx [OF this]
  show ?thesis using S Q rx q quiet_ready [OF q] unfolding probed_def own_frames_def by (simp add: quiet_def)
qed

lemma probe_port_ok:
  assumes C: "conforms H (hba_ports abar) V" and S: "probed abar V i s0 s" and i: "i < 32"
  shows "probed abar V (Suc i) s0 (probe_port H i s)"
proof -
  let ?P = "hba_ports abar" and ?p = "port_base abar i"
  have weak: "probed abar V i s0 t \<Longrightarrow> probed abar V (Suc i) s0 t" for t
    by (auto simp: probed_def lessThan_Suc)
  obtain pi s1 where 1: "reg_rd H (abar + HBA_PI) s = (pi, s1)" by fastforce
  have q1: "quiet ?P V s s1" using quiet_rd [OF C, of s "abar + HBA_PI"] S 1 by (simp add: probed_def)
  have S1: "probed abar V i s0 s1" by (rule probed_quiet [OF S q1])
  obtain ssts s2 where 2: "reg_rd H (?p + PX_SSTS) s1 = (ssts, s2)" by fastforce
  have q2: "quiet ?P V s1 s2" using quiet_rd [OF C, of s1 "?p + PX_SSTS"] S1 2 by (simp add: probed_def)
  have S2: "probed abar V i s0 s2" by (rule probed_quiet [OF S1 q2])
  have ab: "g_abar s = abar" "g_abar s1 = abar" using S S1 by (simp_all add: probed_def)
  define n where "n = g_device_count s2"
  define s3 where "s3 = upd_dev n (\<lambda>d. d\<lparr>dev_port := ?p, port_num := i\<rparr>) s2"
  obtain r s4 where 4: "ahci_port_init H n s3 = (r, s4)" by fastforce
  have n: "n \<le> i" "n < 32" using S2 i by (simp_all add: probed_def n_def)
  have p: "?p \<in> ?P" using i by (simp add: hba_ports_def AHCI_MAX_PORTS_def)
  have len: "length (g_devices s2) = 32" "\<forall>d \<in> set (g_devices s2). length (ctba_virt d) = 32"
    using S2 by (simp_all add: probed_def AHCI_MAX_PORTS_def)
  have sel: "avm s3 = avm s2" "hba_dev s3 = hba_dev s2" "g_device_count s3 = n" "g_abar s3 = abar" "length (g_devices s3) = 32"
    "\<And>j. j \<noteq> n \<Longrightarrow> g_devices s3 ! j = g_devices s2 ! j" "dev_port (g_devices s3 ! n) = ?p"
    using S2 n len by (simp_all add: s3_def upd_dev_def n_def probed_def)
  have len3: "\<forall>d \<in> set (g_devices s3). length (ctba_virt d) = 32"
    using len n nth_mem [of _ "g_devices s2"] by (auto simp: s3_def upd_dev_def in_set_conv_nth nth_list_update)
  have K3: "kept ?P V ?p n s3 s3"
    by (rule kept_start) (use S2 len3 in \<open>simp_all add: sel probed_def\<close>)
  note I = port_init_ok [OF C hba_ports_apart K3 p _ sel(7) 4]
  have K4: "kept ?P V ?p n s3 s4" using I(1) n sel(5) by simp
  have others: "own_frames ?P V (g_devices s4 ! j) s4 \<and> dev_port (g_devices s4 ! j) \<in> port_base abar ` {..<i}" if j: "j < n" for j
  proof -
    have e: "g_devices s4 ! j = g_devices s2 ! j" using K4 sel(6) j by (simp add: kept_def)
    have o: "own_frames ?P V (g_devices s2 ! j) s2" "dev_port (g_devices s2 ! j) \<in> port_base abar ` {..<i}"
      using S2 j by (simp_all add: probed_def n_def)
    obtain m where m: "m < i" "dev_port (g_devices s2 ! j) = port_base abar m" using o(2) by auto
    then have "dev_port (g_devices s2 ! j) \<noteq> ?p" using port_register [of m i 0 0 abar] i by auto
    moreover have "own_frames ?P V (g_devices s2 ! j) s3" using o(1) by (simp add: own_frames_def disk_ready_def sel)
    ultimately show ?thesis using own_frames_kept [OF K4] o(2) unfolding e by blast
  qed
  have k4: "g_abar s4 = abar" "all_idle ?P V (hba_dev s4)" "hv_disk V (hba_dev s4) = hv_disk V (hba_dev s2)"
    "vm_ok (kernel_pml4 (avm s4)) (avm s4)" "rx_frames ?P V (hba_dev s4) \<inter> pool (avm s4) = {}" "length (g_devices s4) = 32"
    "\<forall>d \<in> set (g_devices s4). length (ctba_virt d) = 32" "g_device_count s4 = n"
    using K4 sel by (simp_all add: kept_def)
  have run: "probe_port H i s = (if pi AND push_bit i 1 = 0 then s1 else if \<not> (ssts AND 0xF = 3 \<and> drop_bit 8 ssts AND 0xF = 1) then s2
      else if r < 0 then ahci_say (''AHCI: port_init failed, skipping device'' @ [char_of (10 :: nat)]) s4
      else s4\<lparr>g_device_count := g_device_count s4 + 1\<rparr>)"
    by (simp add: probe_port_def 1 ab ahci_port_is_present_def 2 n_def [symmetric] s3_def [symmetric] 4 Let_def)
  have "probed abar V (Suc i) s0 (ahci_say msg s4)" for msg
    using k4 others n S2 by (simp add: probed_def ahci_say_def own_frames_def disk_ready_def AHCI_MAX_PORTS_def lessThan_Suc)
  moreover have "probed abar V (Suc i) s0 (s4\<lparr>g_device_count := g_device_count s4 + 1\<rparr>)" if "\<not> r < 0"
  proof -
    have own: "own_frames ?P V dev (s4\<lparr>g_device_count := c\<rparr>) \<longleftrightarrow> own_frames ?P V dev s4" for dev c
      by (simp add: own_frames_def disk_ready_def)
    have "dev_port (g_devices s4 ! n) = ?p \<and> own_frames ?P V (g_devices s4 ! n) s4" using I(2) that n sel(5) by simp
    then have "dev_port (g_devices s4 ! j) \<in> port_base abar ` {..<Suc i} \<and> own_frames ?P V (g_devices s4 ! j) s4" if "j < Suc n" for j
      using others [of j] that by (cases "j = n") (auto simp: lessThan_Suc)
    then show ?thesis using k4 n S2 by (simp add: probed_def own AHCI_MAX_PORTS_def)
  qed
  ultimately show ?thesis unfolding run using weak [OF S1] weak [OF S2] by simp
qed


lemma probe_ports_ok:
  assumes "conforms H (hba_ports abar) V" "probed abar V 0 s0 s" "n \<le> 32"
  shows "probed abar V n s0 (fold (probe_port H) [0..<n] s)"
  using assms(3)
proof (induction n)
  case (Suc n)
  then show ?case using probe_port_ok [OF assms(1)] by simp
qed (simp add: assms(2))

lemma ahci_find_controller_ok:
  assumes "ahci_find_controller p s = (abar, s')" "vm_ok (kernel_pml4 (avm s)) (avm s)"
  shows "vm_ok (kernel_pml4 (avm s')) (avm s')" "pool (avm s') \<subseteq> pool (avm s)" "hba_dev s' = hba_dev s"
    "g_devices s' = g_devices s" "g_device_count s' = g_device_count s"
proof -
  have fl: "page_base (PAGE_PRESENT OR PAGE_WRITE) = 0" by (simp add: page_base_def page_flag_defs)
  note E = vmm_map_page_effect [OF assms(2) fl refl]
  have "s' = s \<or> (\<exists>a. s' = s\<lparr>avm := vmm_map_page (kernel_pml4 (avm s)) a a (PAGE_PRESENT OR PAGE_WRITE) (avm s)\<rparr>)"
    using assms(1) by (auto simp: ahci_find_controller_def vmm_get_kernel_pml4_def Let_def split: option.splits prod.splits if_splits)
  then show "vm_ok (kernel_pml4 (avm s')) (avm s')" "pool (avm s') \<subseteq> pool (avm s)" "hba_dev s' = hba_dev s"
    "g_devices s' = g_devices s" "g_device_count s' = g_device_count s"
    using assms(2) E unfolding pool_def writes_in_def by (elim disjE exE; fastforce)+
qed

text \<open>The store to \<open>GHC\<close> is no store to a port.\<close>

lemma global_init_ok:
  assumes C: "conforms H (hba_ports abar) V" and S: "probed abar V 0 s0 s"
  shows "probed abar V 0 s0 (ahci_global_init H abar s)"
proof -
  let ?P = "hba_ports abar"
  obtain v s1 where 1: "reg_rd H (abar + HBA_GHC) s = (v, s1)" by fastforce
  have q1: "quiet ?P V s s1" using quiet_rd [OF C, of s "abar + HBA_GHC"] S 1 by (simp add: probed_def)
  have S1: "probed abar V 0 s0 s1" by (rule probed_quiet [OF S q1])
  have away: "abar + HBA_GHC \<noteq> p + r" if p: "p \<in> ?P" and r: "unat r < 0x80" for p r
  proof
    assume e: "abar + HBA_GHC = p + r"
    obtain i where i: "i < 32" "p = port_base abar i" using p by (auto simp: hba_ports_def AHCI_MAX_PORTS_def)
    have "(4 :: u64) = 0x100 + of_nat i * 0x80 + r" using e by (simp add: i port_base_def HBA_GHC_def)
    then have "unat (4 :: u64) = unat (0x100 + of_nat i * 0x80 + r)" by (rule arg_cong [where f = unat])
    also have "\<dots> = 0x100 + i * 0x80 + unat r" using i(1) r by (simp add: unat_word_ariths unat_of_nat_u64)
    finally show False by simp
  qed
  obtain w d m where h: "H (abar + HBA_GHC) (Some (v OR GHC_AE)) (hba_dev s1, pmem (avm s1)) = (w, d, m)" by (metis prod_cases3)
  have i1: "all_idle ?P V (hba_dev s1)" using S1 by (simp add: probed_def)
  have "abar + HBA_GHC \<notin> (\<lambda>p. p + PX_CI) ` ?P" using away [of _ PX_CI] by (auto simp: PX_CI_def)
  then have q: "all_idle ?P V d \<and> hv_disk V d = hv_disk V (hba_dev s1) \<and>
     (\<forall>b \<in> plain_regs ?P. hv_reg V d b = (if abar + HBA_GHC = b then v OR GHC_AE else hv_reg V (hba_dev s1) b)) \<and>
     (\<forall>x. frame_of x \<notin> rx_frames ?P V d \<longrightarrow> m x = pmem (avm s1) x)"
    using C [unfolded conforms_def quiet_access_def, THEN conjunct1, rule_format, of _ "Some (v OR GHC_AE)", OF conjI, OF h] i1 by simp
  have "abar + HBA_GHC \<noteq> b" if b: "b \<in> plain_regs ?P" for b
  proof -
    obtain p r where "b = p + r" "p \<in> ?P" "r \<in> {PX_CLB, PX_CLBU, PX_FB, PX_FBU, PX_CMD}"
      using b unfolding plain_regs_def by blast
    then show ?thesis using away [of p r] by (auto simp: port_offsets)
  qed
  then have rs: "regs_same ?P V (hba_dev s1) d" using q by (auto simp: regs_same_def)
  have "quiet ?P V s1 (set_hw d m s1)" using q rs regs_same_rx [OF rs] by (simp add: quiet_def)
  then have "probed abar V 0 s0 (set_hw d m s1)" by (rule probed_quiet [OF S1])
  then show ?thesis by (simp add: ahci_global_init_def 1 reg_wr_hw h)
qed

definition ahci_start :: "u64 \<Rightarrow> 'd hba_view \<Rightarrow> 'd ahci \<Rightarrow> bool" where
  "ahci_start abar V s \<longleftrightarrow> all_idle (hba_ports abar) V (hba_dev s) \<and> vm_ok (kernel_pml4 (avm s)) (avm s) \<and>
     rx_frames (hba_ports abar) V (hba_dev s) \<inter> pool (avm s) = {} \<and>
     length (g_devices s) = AHCI_MAX_PORTS \<and> (\<forall>d \<in> set (g_devices s). length (ctba_virt d) = 32) \<and> g_device_count s = 0"

lemma ahci_init_ok:
  assumes C: "conforms H (hba_ports (fst (ahci_find_controller p s))) V" and S: "ahci_start (fst (ahci_find_controller p s)) V s"
    and run: "ahci_init H p s = (n, s')" and n: "0 \<le> n"
  shows "probed (fst (ahci_find_controller p s)) V AHCI_MAX_PORTS s s' \<and> n = int (g_device_count s')"
proof -
  obtain abar s1 where f: "ahci_find_controller p s = (abar, s1)" by fastforce
  have ab: "abar \<noteq> 0" using run n by (auto simp: ahci_init_def f split: if_splits)
  have "vm_ok (kernel_pml4 (avm s)) (avm s)" using S by (simp add: ahci_start_def)
  note F = ahci_find_controller_ok [OF f this]
  have "probed abar V 0 s (s1\<lparr>g_abar := abar\<rparr>)"
    using S F by (auto simp: probed_def ahci_start_def f)
  note P = probe_ports_ok [OF _ global_init_ok [OF _ this], where H = H and n = 32]
  have "(n, s') = (int (g_device_count s'), fold (probe_port H) [0..<AHCI_MAX_PORTS] (ahci_global_init H abar (s1\<lparr>g_abar := abar\<rparr>)))"
    using run ab by (auto simp: ahci_init_def f Let_def)
  then show ?thesis using P C by (simp add: f AHCI_MAX_PORTS_def)
qed

end
