(* ===== verification/AhciError.thy ===== *)
theory AhciError
  imports AhciInit
begin

text \<open>
  The properties of the driver of \<open>kernel/ahci/onahci.c\<close>, with a controller that conforms to
  the laws of \<open>AhciDisk\<close> and one that reports an error.
\<close>

section \<open>A controller that executes at once\<close>

record sim =
  sregs :: "u64 \<Rightarrow> u32"
  sdisk :: "u64 \<Rightarrow> u64 \<Rightarrow> u8 list"

definition sim_view :: "sim hba_view" where
  "sim_view = \<lparr>hv_reg = sregs, hv_idle = (\<lambda>d p. True), hv_disk = (\<lambda>d p l. take 512 (sdisk d p l @ replicate 512 0)),
     hv_sectors = (\<lambda>p. 4096)\<rparr>"

definition sim_command :: "u64 \<Rightarrow> u32 \<Rightarrow> sim \<times> mem \<Rightarrow> sim \<times> mem" where
  "sim_command p x = (\<lambda>(d, m). case find (\<lambda>i. x = push_bit i 1) [0..<32] of None \<Rightarrow> (d, m) | Some slot \<Rightarrow>
     (case hba_command m (cmd_header (reg64 sim_view d (p + PX_CLB)) slot) of None \<Rightarrow> (d, m) | Some c \<Rightarrow>
        (d\<lparr>sdisk := (sdisk d)(p := disk_after c m (hv_disk sim_view d p))\<rparr>, mem_after c (hv_disk sim_view d p) m)))"

definition sim_hba :: "u64 \<Rightarrow> sim hba" where
  "sim_hba abar a w = (\<lambda>(d, m). case w of
     None \<Rightarrow> (if a = abar + HBA_PI then 1 else if a \<in> (\<lambda>p. p + PX_SSTS) ` hba_ports abar then 0x113
       else if a \<in> (\<lambda>p. p + PX_CMD) ` hba_ports abar then sregs d a else 0, d, m)
   | Some x \<Rightarrow> if a \<in> (\<lambda>p. p + PX_CI) ` hba_ports abar then (0, sim_command (a - PX_CI) x (d, m))
       else (0, d\<lparr>sregs := (sregs d)(a := x)\<rparr>, m))"

lemma global_reg:
  assumes p: "p \<in> hba_ports abar" and r: "unat r < 0x80" and c: "unat c < 0x100" shows "abar + c \<noteq> p + r"
proof
  assume e: "abar + c = p + r"
  obtain i where i: "i < 32" "p = port_base abar i" using p by (auto simp: hba_ports_def AHCI_MAX_PORTS_def)
  have "c = 0x100 + of_nat i * 0x80 + r" using e by (simp add: i port_base_def)
  then have "unat c = unat (0x100 + of_nat i * 0x80 + r)" by (rule arg_cong [where f = unat])
  also have "\<dots> = 0x100 + i * 0x80 + unat r" using i(1) r by (simp add: unat_word_ariths unat_of_nat_u64)
  finally show False using c by simp
qed

lemma sim_read:
  assumes p: "p \<in> hba_ports abar" and r: "unat r < 0x80" "r \<noteq> PX_SSTS"
  shows "sim_hba abar (p + r) None (d, m) = (if r = PX_CMD then sregs d (p + r) else 0, d, m)"
proof -
  have A: "q + r' = p + r \<longleftrightarrow> q = p \<and> r' = r" if "q \<in> hba_ports abar" "unat r' < 0x80" for q r'
    using hba_ports_apart [of abar] that p r(1) unfolding ports_apart_def by blast
  have "p + r \<notin> (\<lambda>p. p + PX_SSTS) ` hba_ports abar"
  proof
    assume "p + r \<in> (\<lambda>p. p + PX_SSTS) ` hba_ports abar"
    then obtain q where "q \<in> hba_ports abar" "q + PX_SSTS = p + r" by force
    then show False using A [of q PX_SSTS] r(2) by (simp add: PX_SSTS_def)
  qed
  moreover have "p + r \<in> (\<lambda>p. p + PX_CMD) ` hba_ports abar \<longleftrightarrow> r = PX_CMD"
  proof
    assume "p + r \<in> (\<lambda>p. p + PX_CMD) ` hba_ports abar"
    then obtain q where "q \<in> hba_ports abar" "q + PX_CMD = p + r" by force
    then show "r = PX_CMD" using A [of q PX_CMD] by (simp add: PX_CMD_def)
  qed (use p in simp)
  moreover have "p + r \<noteq> abar + HBA_PI" using global_reg [OF p r(1), of HBA_PI] by (simp add: HBA_PI_def)
  ultimately show ?thesis by (simp add: sim_hba_def)
qed

lemma find_slot: "slot < 32 \<Longrightarrow> find (\<lambda>i. (push_bit slot 1 :: u32) = push_bit i 1) [0..<32] = Some slot"
proof -
  assume s: "slot < 32"
  have "(push_bit slot 1 :: u32) = push_bit i 1 \<longleftrightarrow> i = slot" if "i < 32" for i
  proof
    assume "(push_bit slot 1 :: u32) = push_bit i 1"
    then have "bit (push_bit slot 1 :: u32) i = bit (push_bit i 1 :: u32) i" by simp
    then show "i = slot" using that s by (auto simp: bit_push_bit_iff bit_1_iff bit_exp_iff)
  qed simp
  then have "find (\<lambda>i. (push_bit slot 1 :: u32) = push_bit i 1) [0..<32] = find (\<lambda>i. i = slot) [0..<32]"
    by (intro find_cong) auto
  also have "\<dots> = Some slot"
  proof -
    have "\<forall>j \<le> slot. [0..<32] ! j = j" using s by simp
    then show ?thesis using s unfolding find_Some_iff by (intro exI [of _ slot]) auto
  qed
  finally show ?thesis .
qed

lemma sim_conforms: "conforms (sim_hba abar) (hba_ports abar) sim_view"
proof -
  let ?P = "hba_ports abar" and ?H = "sim_hba abar"
  have len: "length (hv_disk sim_view d p l) = 512" for d p l by (simp add: sim_view_def)
  have "quiet_access ?H ?P sim_view"
    unfolding quiet_access_def
    by (auto simp: sim_hba_def sim_view_def all_idle_def split: option.splits if_splits)
  moreover have "idle_registers ?H ?P sim_view"
    unfolding idle_registers_def by (auto simp: sim_read port_offsets sim_view_def)
  moreover have "executes ?H ?P sim_view"
    unfolding executes_def
  proof (intro ballI allI impI, elim conjE)
    fix p slot d m c
    assume p: "p \<in> ?P" and slot: "slot < 32" and c: "hba_command m (cmd_header (reg64 sim_view d (p + PX_CLB)) slot) = Some c"
    let ?dk = "disk_after c m (hv_disk sim_view d p)"
    let ?s = "(d\<lparr>sdisk := (sdisk d)(p := ?dk)\<rparr>, mem_after c (hv_disk sim_view d p) m)"
    have w: "snd (?H (p + PX_CI) (Some (push_bit slot 1)) (d, m)) = ?s"
      using p find_slot [OF slot] c by (simp add: sim_hba_def sim_command_def)
    have r: "?H (p + PX_CI) None s = (0, s)" for s
      using sim_read [OF p, of PX_CI] by (cases s) (simp add: port_offsets)
    have "length (?dk l) = 512" for l using len by (simp add: disk_after_def rd_bytes_def)
    then have "hv_disk sim_view (fst ?s) = (hv_disk sim_view d)(p := ?dk)" by (intro ext) (simp add: sim_view_def)
    then show "\<exists>k \<le> AHCI_IO_TIMEOUT. completes ?H p (push_bit slot 1) k
       (\<lambda>(d', m'). all_idle ?P sim_view d' \<and> (\<forall>b \<in> plain_regs ?P. hv_reg sim_view d' b = hv_reg sim_view d b) \<and>
          hv_disk sim_view d' = (hv_disk sim_view d)(p := disk_after c m (hv_disk sim_view d p)) \<and>
          (\<forall>x. frame_of x \<notin> rx_frames ?P sim_view d \<longrightarrow>
             \<not> unat (x - (cmd_header (reg64 sim_view d (p + PX_CLB)) slot + 4)) < 4 \<longrightarrow> m' x = mem_after c (hv_disk sim_view d p) m x))
       (snd (?H (p + PX_CI) (Some (push_bit slot 1)) (d, m)))"
      unfolding w by (intro exI [of _ 0]) (simp add: r all_idle_def sim_view_def)
  qed
  ultimately show ?thesis using len by (simp add: conforms_def sim_view_def)
qed


text \<open>A device behind the first port, with the command list in frame 16 and its tables in frame 18.\<close>

definition demo_dev :: ahci_device where
  "demo_dev = \<lparr>dev_port = port_base 0xFEBF0000 0, port_num = 0, dev_sectors = 0, clb_virt = 0x10000, fb_virt = 0x11000, ctba_virt = replicate 32 0x12000\<rparr>"

definition demo_tables :: mem where
  "demo_tables x = (if frame_of x = 16 then (if unat x mod 32 = 9 then 0x20 else if unat x mod 32 = 10 then 1 else 0) else 0)"

definition demo_ahci :: "sim ahci" where
  "demo_ahci = \<lparr>avm = boot_vm\<lparr>pmem := demo_tables\<rparr>,
     hba_dev = \<lparr>sregs = (\<lambda>a. if a = port_base 0xFEBF0000 0 + PX_CLB then 0x10000 else if a = port_base 0xFEBF0000 0 + PX_FB then 0x11000
       else if a = port_base 0xFEBF0000 0 + PX_CMD then 17 else 0), sdisk = (\<lambda>p l. [])\<rparr>,
     g_abar = 0xFEBF0000, g_devices = [demo_dev], g_device_count = 1, ahci_log = []\<rparr>"

lemma demo_tables_ok: "tables_ok demo_dev demo_tables"
proof -
  have al: "page_aligned (0x10000 :: u64)" "page_aligned (0x12000 :: u64)" by (simp_all add: page_aligned_def)
  have f: "frame_of (0x10000 :: u64) = 16" "frame_of (0x12000 :: u64) = 18" by (simp_all add: frame_of_def)
  have at: "demo_tables (cmd_header 0x10000 i + b) = (if unat b = 9 then 0x20 else if unat b = 10 then 1 else 0)"
    if "i < 32" "unat b < 32" for i b
  proof -
    have "unat (cmd_header 0x10000 i + b) = 0x10000 + (32 * i + unat b)"
      using that by (simp add: cmd_header_def unat_word_ariths unat_of_nat_u64)
    moreover have "0x10000 + (32 * i + unat b) = unat b + 32 * (0x800 + i)" by simp
    then have "(0x10000 + (32 * i + unat b)) mod 32 = unat b" using that(2) by (simp only: mod_mult_self2 mod_less)
    ultimately show ?thesis using header_frame(1) [OF al(1) that] f by (simp add: demo_tables_def)
  qed
  have "rd64 demo_tables (cmd_header 0x10000 i + 8) = 0x12000" if i: "i < 32" for i
  proof -
    have "demo_tables (cmd_header 0x10000 i + 8 + of_nat k) = [0, 0x20, 1, 0, 0, 0, 0, 0] ! k" if k: "k < 8" for k
    proof -
      have "unat (8 + of_nat k :: u64) = 8 + k" using unat_plus_small [of 8 k] k by simp
      moreover have "k = 0 \<or> k = 1 \<or> k = 2 \<or> k = 3 \<or> k = 4 \<or> k = 5 \<or> k = 6 \<or> k = 7" using k by linarith
      ultimately show ?thesis using at [OF i, of "8 + of_nat k"] by (auto simp: add.assoc)
    qed
    then have "rd_bytes demo_tables (cmd_header 0x10000 i + 8) 8 = [0, 0x20, 1, 0, 0, 0, 0, 0]"
      by (intro nth_equalityI) (simp_all add: rd_bytes_def)
    then show ?thesis by (simp add: rd64_def)
  qed
  moreover have "demo_tables (cmd_header 0x10000 i) = 0" "demo_tables (cmd_header 0x10000 i + 1) = 0" if "i < 32" for i
    using at [OF that, of 0] at [OF that, of 1] by simp_all
  ultimately show ?thesis using al f by (simp add: tables_ok_def demo_dev_def Let_def)
qed

lemma demo_rx: "rx_frames (hba_ports 0xFEBF0000) sim_view (hba_dev demo_ahci) \<subseteq> {17}"
proof
  fix f assume "f \<in> rx_frames (hba_ports 0xFEBF0000) sim_view (hba_dev demo_ahci)"
  then obtain q where q: "q \<in> hba_ports 0xFEBF0000" "hv_reg sim_view (hba_dev demo_ahci) (q + PX_CMD) AND PXCMD_FRE \<noteq> 0"
    "f = frame_of (reg64 sim_view (hba_dev demo_ahci) (q + PX_FB))" by (auto simp: rx_frames_def)
  let ?p = "port_base 0xFEBF0000 0"
  have p: "?p \<in> hba_ports 0xFEBF0000" by (simp add: hba_ports_def AHCI_MAX_PORTS_def)
  have "q = ?p"
  proof (rule ccontr)
    assume n: "q \<noteq> ?p"
    have "q + PX_CMD \<noteq> ?p + r" if "unat r < 0x80" for r
      using port_regs_apart(1) [OF hba_ports_apart p q(1) n that] .
    from this [of PX_CLB] this [of PX_FB] this [of PX_CMD]
    show False using q(2) by (simp add: sim_view_def demo_ahci_def port_offsets)
  qed
  then show "f \<in> {17}" using q(3) by (simp add: reg64_def sim_view_def demo_ahci_def port_offsets frame_of_def)
qed

lemma demo_ready: "disk_ready (hba_ports 0xFEBF0000) sim_view demo_dev demo_ahci"
proof -
  have "dev_port demo_dev \<in> hba_ports 0xFEBF0000" by (simp add: hba_ports_def AHCI_MAX_PORTS_def demo_dev_def)
  moreover have "cmd_frames demo_dev = {16, 18}" by (auto simp: cmd_frames_def demo_dev_def frame_of_def)
  ultimately show ?thesis
    using demo_tables_ok demo_rx unfolding disk_ready_def
    by (auto simp: demo_ahci_def demo_dev_def all_idle_def sim_view_def reg64_def port_offsets PXCMD_ST_def PXCMD_FRE_def)
qed


section \<open>Start-up\<close>


text \<open>Every slot of this configuration space reads as a controller whose registers are at \<open>0x1060000\<close>.\<close>

definition idle_ahci :: "sim ahci" where
  "idle_ahci = \<lparr>avm = boot_vm\<lparr>kernel_pml4 := 4096\<rparr>, hba_dev = \<lparr>sregs = (\<lambda>a. 0), sdisk = (\<lambda>p l. [])\<rparr>, g_abar = 0,
     g_devices = replicate 32 demo_dev, g_device_count = 0, ahci_log = []\<rparr>"

lemma demo_start: "ahci_start a sim_view idle_ahci"
  using boot_vm_ok
  by (simp add: ahci_start_def all_idle_def sim_view_def rx_frames_def AHCI_MAX_PORTS_def demo_dev_def idle_ahci_def vm_ok_def)

lemma demo_controller: "fst (ahci_find_controller (\<lambda>a. 0x01060000) s) = 0x01060000"
proof -
  have "pci_slots = (0, 0) # tl pci_slots" by (simp add: pci_slots_def upt_rec [of 0])
  moreover have "is_ahci (\<lambda>a. 0x01060000) (0, 0)" by (simp add: is_ahci_def pci_read32_def)
  ultimately have "find (is_ahci (\<lambda>a. 0x01060000)) pci_slots = Some (0, 0)" by (metis find.simps(2))
  then show ?thesis by (simp add: ahci_find_controller_def pci_read32_def Let_def)
qed


section \<open>The disk of the buffer cache\<close>

text \<open>C10: on a controller that conforms to its specification the driver implements the disk that the model of
  the buffer cache rests on: a read of one sector returns 0 and leaves in the buffer what
  \<open>ahci_read_sectors\<close> of that model returns, a write returns 0 and changes the disk as
  \<open>ahci_write_sectors\<close> of that model does, and the device is ready for the next transfer.\<close>

theorem driver_implements_disk:
  assumes "conforms H P V" "disk_ready P V dev s" "disk_of V dev s c" "unat b < hv_sectors V (dev_port dev)"
    "even buf" "buffer_free P V dev buf 1 s"
  shows "(\<exists>s' d. read_sectors H dev (ucast b) 1 buf s = (0, s') \<and> ahci_read_sectors b c = Some d \<and>
      rd_bytes (pmem (avm s')) buf 512 = d \<and> disk_ready P V dev s' \<and> disk_of V dev s' c \<and> buffer_free P V dev buf 1 s') \<and>
    (\<exists>s' c'. write_sectors H dev (ucast b) 1 buf s = (0, s') \<and>
      ahci_write_sectors b (rd_bytes (pmem (avm s)) buf 512) c = (True, c') \<and>
      disk_ready P V dev s' \<and> disk_of V dev s' c' \<and> buffer_free P V dev buf 1 s')"
  using driver_reads_disk [OF assms] driver_writes_disk [OF assms] by blast

theorem driver_implements_disk_witness:
  "\<exists>s'. read_sectors (sim_hba 0xFEBF0000) demo_dev 3 1 0x20000 demo_ahci = (0, s') \<and>
    rd_bytes (pmem (avm s')) 0x20000 512 = replicate 512 0"
proof -
  let ?c = "empty_cache\<lparr>disk := (\<lambda>b. replicate 512 0), faulty := (\<lambda>b. False)\<rparr>"
  have f: "frame_of (0x20000 + of_nat k :: u64) = 32" if "k < 512" for k
    using aligned_plus(6) [of 131072 k] that by (simp add: page_aligned_def frame_of_def)
  have c: "cmd_frames demo_dev = {16, 18}" by (auto simp: cmd_frames_def demo_dev_def frame_of_def)
  have b: "buffer_free (hba_ports 0xFEBF0000) sim_view demo_dev 0x20000 1 demo_ahci"
    using demo_rx f by (auto simp: buffer_free_def c)
  have d: "disk_of sim_view demo_dev demo_ahci ?c" by (simp add: disk_of_def sim_view_def demo_ahci_def)
  have n: "unat (3 :: u32) < hv_sectors sim_view (dev_port demo_dev)" by (simp add: sim_view_def)
  from driver_implements_disk [OF sim_conforms demo_ready d n _ b]
  show ?thesis by (auto simp: ahci_read_sectors_def)
qed

section \<open>Errors\<close>

text \<open>
  A port whose task file error bit is set.  The specification clears the bit only when it is
  written to the interrupt status register, and keeps a command outstanding while it is set.
\<close>

definition error_sticks :: "'d hba \<Rightarrow> u64 \<Rightarrow> ('d \<Rightarrow> bool) \<Rightarrow> bool" where
  "error_sticks H p err \<longleftrightarrow>
     (\<forall>a w d m. err d \<longrightarrow> w = None \<or> a \<noteq> p + PX_IS \<longrightarrow> err (fst (snd (H a w (d, m))))) \<and>
     (\<forall>d m. err d \<longrightarrow> fst (H (p + PX_IS) None (d, m)) AND push_bit 30 1 \<noteq> 0) \<and>
     (\<forall>d m x bits. err d \<longrightarrow> bits \<noteq> 0 \<longrightarrow> fst (H (p + PX_CI) None (snd (H (p + PX_CI) (Some (x OR bits)) (d, m)))) AND bits \<noteq> 0)"

text \<open>Transfers one after the other, with their results.\<close>

fun transfers :: "'d hba \<Rightarrow> ahci_device \<Rightarrow> (u64 \<times> u32 \<times> u64 \<times> bool) list \<Rightarrow> 'd ahci \<Rightarrow> int list \<times> 'd ahci" where
  "transfers H dev [] s = ([], s)"
| "transfers H dev ((lba, n, buf, w) # rs) s =
    (let (r, s) = ahci_do_rw H dev lba n buf w s; (out, s) = transfers H dev rs s in (r # out, s))"

lemma err_rd:
  assumes "error_sticks H p err" "err (hba_dev s)" shows "err (hba_dev (snd (reg_rd H a s)))"
  using assms unfolding reg_rd_hw error_sticks_def by (auto split: prod.splits) (metis fst_conv snd_conv)

lemma err_wr:
  assumes "error_sticks H p err" "err (hba_dev s)" "a \<noteq> p + PX_IS" shows "err (hba_dev (reg_wr H a x s))"
proof -
  obtain v d m where h: "H a (Some x) (hba_dev s, pmem (avm s)) = (v, d, m)" by (metis prod_cases3)
  have "err (fst (snd (H a (Some x) (hba_dev s, pmem (avm s)))))" using assms unfolding error_sticks_def by blast
  then show ?thesis by (simp add: reg_wr_hw h)
qed

lemma err_wait_clear:
  assumes "error_sticks H p err" "err (hba_dev s)" shows "err (hba_dev (snd (wait_clear H a bits n s)))"
  using assms(2)
proof (induction n arbitrary: s)
  case (0 s)
  obtain v t where r: "reg_rd H a s = (v, t)" by fastforce
  then have "err (hba_dev t)" using err_rd [OF assms(1) 0, of a] by simp
  then show ?case by (subst wait_clear.simps) (simp add: r)
next
  case (Suc n s)
  obtain v t where r: "reg_rd H a s = (v, t)" by fastforce
  then have "err (hba_dev t)" using err_rd [OF assms(1) Suc.prems, of a] by simp
  then show ?case using Suc.IH by (subst wait_clear.simps) (simp add: r)
qed

lemma err_transfer:
  assumes E: "error_sticks H (dev_port dev) err" and e: "err (hba_dev s)"
  shows "fst (ahci_do_rw H dev lba n buf w s) = - 1 \<and> err (hba_dev (snd (ahci_do_rw H dev lba n buf w s)))"
proof -
  let ?p = "dev_port dev"
  obtain sact s1 where 1: "reg_rd H (?p + PX_SACT) s = (sact, s1)" by fastforce
  obtain ci s2 where 2: "reg_rd H (?p + PX_CI) s1 = (ci, s2)" by fastforce
  have e2: "err (hba_dev s2)" using err_rd [OF E err_rd [OF E e, of "?p + PX_SACT"], of "?p + PX_CI"] 1 2 by simp
  define busy where "busy = sact OR ci"
  have slot: "ahci_find_free_slot H ?p s = (find (\<lambda>i. busy AND push_bit i 1 = 0) [0..<32], s2)"
    by (simp add: ahci_find_free_slot_def 1 2 busy_def)
  show ?thesis
  proof (cases "find (\<lambda>i. busy AND push_bit i 1 = 0) [0..<32]")
    case None
    then show ?thesis using e2 by (simp add: ahci_do_rw_def slot)
  next
    case (Some k)
    then have k: "k < 32" by (auto simp: find_Some_iff)
    define s3 where "s3 = on_mem (fill_table (ctba_virt dev ! k) lba n buf w) (on_mem (fill_header (cmd_header (clb_virt dev) k) w) s2)"
    have e3: "err (hba_dev s3)" using e2 by (simp add: s3_def)
    obtain ok s4 where 4: "wait_clear H (?p + PX_TFD) 0x88 AHCI_IO_TIMEOUT s3 = (ok, s4)" by fastforce
    have e4: "err (hba_dev s4)" using err_wait_clear [OF E e3, of "?p + PX_TFD" 136 AHCI_IO_TIMEOUT] 4 by simp
    obtain v s5 where 5: "reg_rd H (?p + PX_CI) s4 = (v, s5)" by fastforce
    have e5: "err (hba_dev s5)" using err_rd [OF E e4, of "?p + PX_CI"] 5 by simp
    define s6 where "s6 = reg_wr H (?p + PX_CI) (v OR push_bit k 1) s5"
    have e6: "err (hba_dev s6)" using err_wr [OF E e5, of "?p + PX_CI"] by (simp add: s6_def PX_IS_def PX_CI_def)
    obtain c s7 where 7: "reg_rd H (?p + PX_CI) s6 = (c, s7)" by fastforce
    have e7: "err (hba_dev s7)" using err_rd [OF E e6, of "?p + PX_CI"] 7 by simp
    have "(push_bit k 1 :: u32) \<noteq> 0" using k by (simp add: push_bit_eq_mult)
    moreover have "c = fst (H (?p + PX_CI) None (snd (H (?p + PX_CI) (Some (v OR push_bit k 1)) (hba_dev s5, pmem (avm s5)))))"
      using 7 unfolding s6_def reg_wr_hw reg_rd_hw by (auto split: prod.splits)
    ultimately have c: "c AND push_bit k 1 \<noteq> 0" using E e5 unfolding error_sticks_def by metis
    obtain i s8 where 8: "reg_rd H (?p + PX_IS) s7 = (i, s8)" by fastforce
    have e8: "err (hba_dev s8)" using err_rd [OF E e7, of "?p + PX_IS"] 8 by simp
    have "i = fst (H (?p + PX_IS) None (hba_dev s7, pmem (avm s7)))" using reg_rd_fst [of H "?p + PX_IS" s7] 8 by simp
    then have i: "i AND push_bit 30 1 \<noteq> 0" using E e7 unfolding error_sticks_def by metis
    have "wait_command H ?p (push_bit k 1) AHCI_IO_TIMEOUT s6 = (Task_error, s8)"
      using c i by (subst wait_command.simps) (simp add: 7 8)
    moreover have "reg_set H (?p + PX_CI) (push_bit k 1) s4 = s6" by (simp add: reg_set_def 5 s6_def)
    ultimately show ?thesis
      using e4 e8 unfolding ahci_do_rw_def Let_def slot Some prod.case option.case s3_def [symmetric] 4
      by (cases ok) (simp_all add: ahci_say_def)
  qed
qed

text \<open>C12: the driver never writes the interrupt status register of a port.  Once the register reports a task
  file error, every later transfer on the port fails, whatever sector it names.\<close>

theorem task_file_error_sticks:
  assumes "error_sticks H (dev_port dev) err" "err (hba_dev s)"
  shows "set (fst (transfers H dev rs s)) \<subseteq> {- 1}"
  using assms(2)
proof (induction rs arbitrary: s)
  case (Cons r rs)
  obtain lba n buf w where r: "r = (lba, n, buf, w)" by (metis prod_cases4)
  show ?case using err_transfer [OF assms(1) Cons.prems, of lba n buf w] Cons.IH
    by (fastforce simp: r split: prod.splits)
qed simp


text \<open>A controller that has failed and keeps what is written to its other registers.\<close>

definition failed_hba :: "u64 \<Rightarrow> (u64 \<Rightarrow> u32) hba" where
  "failed_hba p a w = (\<lambda>(d, m). case w of None \<Rightarrow> (if a = p + PX_IS then 0x40000000 else d a, d, m) | Some x \<Rightarrow> (0, d(a := x), m))"

theorem task_file_error_sticks_witness:
  "set (fst (transfers (failed_hba (port_base 0xFEBF0000 0)) demo_dev [(0, 1, 0x20000, False), (7, 2, 0x20000, True)]
    \<lparr>avm = boot_vm, hba_dev = (\<lambda>a. 0), g_abar = 0xFEBF0000, g_devices = [demo_dev], g_device_count = 1, ahci_log = []\<rparr>)) \<subseteq> {- 1}"
proof (rule task_file_error_sticks)
  have "(x OR bits) AND bits = (bits :: u32)" for x bits by (rule bit_word_eqI) (auto simp: bit_simps)
  then show "error_sticks (failed_hba (port_base 0xFEBF0000 0)) (dev_port demo_dev) (\<lambda>d. True)"
    by (auto simp: error_sticks_def failed_hba_def demo_dev_def PX_IS_def PX_CI_def)
qed simp

end
