(* ===== verification/Spec2Isabelle.thy ===== *)
theory Spec2Isabelle
  imports VmmBoot VmmSpaces Scheduler ElfLoad Keyboard Console CString FsHazards KernelInv Desc BootInit FsRead AhciError
begin

text \<open>
  A verification library for notux, a small 64-bit kernel in C.  File names below are relative
  to \<open>src/\<close>.

  \<^bold>\<open>The program.\<close>  \<open>kernel\<close> in \<open>kernel/onion.c\<close> is entered by the boot loader.  It hands the frames
  of memory that are free to the page allocator (\<open>kernel/pmm.c\<close>), builds the page tables
  (\<open>kernel/paging.c\<close>, \<open>kernel/vmm.c\<close>), fills the descriptor tables (\<open>kernel/gdt.c\<close>,
  \<open>kernel/idt.c\<close>), finds the graphics adapter and clears the text console
  (\<open>kernel/pci.c\<close>, \<open>kernel/vbe.c\<close>, \<open>kernel/IGPU/gpupci.c\<close>, \<open>kernel/console.c\<close>), mounts the disk
  (\<open>kernel/ahci/onahci.c\<close>, \<open>kernel/Xjail/xv6\<close>, \<open>kernel/xv6fs/fs.c\<close>), loads the first
  program into a process (\<open>load_elf_into_process\<close>, \<open>kernel/process.c\<close>) and idles.  From then on
  the kernel runs in three handlers: the timer calls \<open>schedule\<close>, the keyboard \<open>irqhandler\<close>
  (\<open>kernel/keyboard.c\<close>) and a process \<open>syscall_handler\<close> (\<open>kernel/syscall.c\<close>).  Interrupts are off
  inside a handler, so the kernel is a sequence of whole handler runs.  The disk the kernel mounts
  is written beforehand by a separate tool, \<open>mkfs.c\<close>.

  \<^bold>\<open>How it is modelled.\<close>  C structures are records, machine integers are words, memory is a
  function from 64-bit addresses to bytes (\<open>PhysMem\<close>; the first 4 GiB are mapped one to one), a
  component's static variables are a record that its operations take and return, and code that can
  stop the machine for good returns an outcome, \<open>Ret\<close> with a value and a state or \<open>Halt\<close> with the
  state it stopped in (\<open>Prelude\<close>).  The records nest as the calls do: \<open>vm_state\<close> (bitmap, tables, CR3) in
  \<open>sched\<close> (process table) in \<open>kern\<close> (file system, keyboard, console) in \<open>machine\<close> (descriptor
  tables, ports).

  \<^bold>\<open>Theories, models.\<close>
  \<^item> \<open>Pmm\<close>: the frame bitmap of \<open>kernel/pmm.c\<close>, with its abstraction \<open>free_pages\<close>.
  \<^item> \<open>Vmm\<close>: \<open>kernel/vmm.c\<close> and \<open>kernel/paging.c\<close> on words of physical memory.
  \<^item> \<open>Process\<close>: \<open>kernel/process.c\<close> and the reaping half of \<open>wait4\<close>.
  \<^item> \<open>Elf\<close>: the program loader of \<open>kernel/onion.c\<close>, \<open>kernel/ramfs.c\<close>, \<open>kernel/vfs.c\<close>.
  \<^item> \<open>Keyboard\<close>, \<open>Console\<close>, \<open>CString\<close>, \<open>Desc\<close>: \<open>kernel/keyboard.c\<close>; \<open>kernel/console.c\<close>,
    \<open>kernel/gfx.c\<close>, \<open>kernel/font.c\<close>; \<open>kernel/Xjail/xv6/string.c\<close>; \<open>kernel/gdt.c\<close>, \<open>kernel/idt.c\<close>.
  \<^item> \<open>Bcache\<close>, \<open>FsLayout\<close>, \<open>Fs\<close>, \<open>FsOps\<close>: the buffer cache and the locks of
    \<open>xv6fs_bridge.c\<close>, the disk layout of \<open>fs.h\<close>, all of \<open>kernel/xv6fs/fs.c\<close>, \<open>xv6fs_ops.c\<close>.
  \<^item> \<open>Syscall\<close>, \<open>SyscallHandler\<close>: every case of \<open>syscall_handler\<close>, \<open>kernel/ramfspawn.c\<close>.
  \<^item> \<open>Boot\<close>: \<open>kernel\<close> of \<open>kernel/onion.c\<close> and the hardware set-up it calls.
  \<^item> \<open>Ahci\<close>: the disk driver \<open>kernel/ahci/onahci.c\<close>.  The controller is an argument that answers
    each register access and may change memory.
  \<^item> \<open>Mkfs\<close>: the disk image tool \<open>mkfs.c\<close>, on an image that is a map from sectors to bytes.

  \<^bold>\<open>Theories, results.\<close>
  \<^item> \<open>VmmTables\<close>, \<open>VmmMap\<close>, \<open>VmmBoot\<close>, \<open>VmmSpaces\<close>: the tables as a tree, mapping and unmapping as
    updates of the translation function, the address space of the boot, and the isolation of
    address spaces from each other.
  \<^item> \<open>Scheduler\<close>: the invariant of the process table, round robin, progress, exit and \<open>wait4\<close>.
  \<^item> \<open>ElfLoad\<close>: every byte of every segment is where the program expects it.
  \<^item> \<open>Fifo\<close>: the contract of a bounded queue, interpreted by \<open>Keyboard\<close>.
  \<^item> \<open>FsBlocks\<close>, \<open>FsHazards\<close>: what the block operations do to the disk, and two ways the code
    damages it.
  \<^item> \<open>FsInv\<close>, \<open>FsLocks\<close>, \<open>FsRefs\<close>: shapes, locks and reference counts, operation by operation, with one
    Hoare rule for each construct of the outcome type.
  \<^item> \<open>KernelState\<close>, \<open>KernelInv\<close>: the same for every system call, and the invariant of the kernel over
    any interleaving of handlers.
  \<^item> \<open>FsContent\<close>: what \<open>readi\<close> returns over direct, indirect and doubly indirect blocks.
  \<^item> \<open>MkfsTree\<close>, \<open>MkfsFiles\<close>, \<open>MkfsImage\<close>: the files of an image as functions from offsets to
    bytes, \<open>iappend\<close> as appending to one of them, and the image \<open>main\<close> leaves.  \<open>FsRead\<close>: the kernel
    mounts that image and reads its files back.
  \<^item> \<open>AhciDisk\<close>, \<open>AhciInit\<close>, \<open>AhciError\<close>: the specification a controller conforms to, transfers
    as reads and writes of the disk that \<open>Bcache\<close> rests on, the devices \<open>ahci_init\<close> sets up,
    and what a device error does to later transfers.
  \<^item> \<open>BootInv\<close>, \<open>BootInit\<close>: the boot sequence establishes that invariant, and ends with the first
    program ready to run.

  \<^bold>\<open>Interfaces.\<close>  \<open>invariant_system\<close> (\<open>Prelude\<close>) is the contract of a component whose invariant every
  step keeps, interpreted by the scheduler, the address spaces and the kernel; the bounded queue and
  the block store are contracts as well, interpreted by the keyboard queue and the buffer cache.

  \<^bold>\<open>Bounds.\<close>  Loops are recursion on the list or number they count over.  \<open>namex\<close> recurs on the path,
  which \<open>skipelem\<close> shortens.  The polling loops of the driver give up after \<open>AHCI_IO_TIMEOUT\<close>
  rounds in the code, and count down from it here.  Nothing needs fuel.  The theorems on \<open>mkfs\<close> ask for a
  program of at most 3900 blocks, so that the image uses at most 4096 blocks, the number
  beyond which \<open>balloc_mark_used\<close> writes outside its buffer; three image blocks are allowed for each
  block of data, itself and at most two pointer blocks.

  \<^bold>\<open>Not modelled.\<close>  The assembly stubs (the register frame they build is the argument of the
  handlers), the loading of descriptor registers, CR0 and the serial port.  The values of
  hardware reads are arguments: the configuration space of the PCI bus, the scancode.  The file
  system rests on a disk that is a map from sectors to bytes with a set of faulty sectors;
  \<open>AhciError\<close> shows that the driver implements it where no sector is faulty.  The picture drawn by
  a panic, the glyph table and the test program \<open>user.c\<close> are left out.
\<close>

end
